(* ===== verification/Prelude.thy ===== *)
theory Prelude
  imports Main "HOL-Library.Word" "HOL-Library.Monad_Syntax"
begin

text \<open>
  Shared vocabulary: the C integer types as words of a fixed width, the sequencing of C calls
  that return \<^verbatim>\<open>bool\<close>, folds that may fail, and the conversions between words and
  little-endian byte lists with their round-trip laws.
\<close>

unbundle bit_operations_syntax

type_synonym u8 = "8 word"
type_synonym u16 = "16 word"
type_synonym u32 = "32 word"
type_synonym u64 = "64 word"

text \<open>Collections the component theories add to: unfolding rules of small wrappers, and the facts
  that say how much of a stream an operation consumes.\<close>

named_theorems wrapper_defs
named_theorems consume
named_theorems total

section \<open>Sequencing of C calls\<close>

text \<open>\<^verbatim>\<open>if (!f(s)) return false; return g(s);\<close> over an explicit state.\<close>

definition and_then :: "bool \<times> 's \<Rightarrow> ('s \<Rightarrow> bool \<times> 's) \<Rightarrow> bool \<times> 's" where
  "and_then r g = (case r of (ok, s) \<Rightarrow> if ok then g s else (False, s))"

lemma and_then_simps [simp]:
  "and_then (True, s) g = g s"
  "and_then (False, s) g = (False, s)"
  by (simp_all add: and_then_def)

lemma and_then_True_iff:
  "and_then r g = (True, s') \<longleftrightarrow> (\<exists>s. r = (True, s) \<and> g s = (True, s'))"
  by (cases r) (auto simp: and_then_def)

text \<open>A call that returns a value through an out parameter: \<open>None\<close> when the C function returns false,
  with the state it leaves behind either way.\<close>

definition bind_io :: "'a option \<times> 's \<Rightarrow> ('a \<Rightarrow> 's \<Rightarrow> 'b option \<times> 's) \<Rightarrow> 'b option \<times> 's" where
  "bind_io r g = (case r of (None, s) \<Rightarrow> (None, s) | (Some v, s) \<Rightarrow> g v s)"

lemma bind_io_simps [simp]:
  "bind_io (None, s) g = (None, s)" "bind_io (Some v, s) g = g v s"
  by (simp_all add: bind_io_def)

lemma bind_io_cong [fundef_cong]:
  assumes "r = r'" and "\<And>v s. r' = (Some v, s) \<Longrightarrow> g v s = g' v s"
  shows "bind_io r g = bind_io r' g'"
  using assms by (auto simp: bind_io_def split: prod.splits option.splits)

lemma bind_io_eq_Some:
  "bind_io r g = (Some w, s') \<longleftrightarrow> (\<exists>v s. r = (Some v, s) \<and> g v s = (Some w, s'))"
  by (cases r; cases "fst r") (auto simp: bind_io_def)

lemma bind_io_eq_None:
  "bind_io r g = (None, s') \<longleftrightarrow> r = (None, s') \<or> (\<exists>v s. r = (Some v, s) \<and> g v s = (None, s'))"
  by (cases r; cases "fst r") (auto simp: bind_io_def)

text \<open>The same over calls that may have no result at all (\<open>None\<close>: the recursion bound was
  exhausted, or the C code has undefined behaviour).\<close>

definition and_then_opt ::
  "(bool \<times> 's) option \<Rightarrow> ('s \<Rightarrow> (bool \<times> 's) option) \<Rightarrow> (bool \<times> 's) option" where
  "and_then_opt r g =
     (case r of None \<Rightarrow> None | Some (ok, s) \<Rightarrow> if ok then g s else Some (False, s))"

lemma and_then_opt_simps [simp]:
  "and_then_opt None g = None"
  "and_then_opt (Some (True, s)) g = g s"
  "and_then_opt (Some (False, s)) g = Some (False, s)"
  by (simp_all add: and_then_opt_def)

lemma and_then_opt_eq_Some:
  "and_then_opt r g = Some (ok, s') \<longleftrightarrow>
     (\<exists>s. r = Some (True, s) \<and> g s = Some (ok, s')) \<or> (r = Some (False, s') \<and> \<not> ok)"
  by (cases r) (auto simp: and_then_opt_def split: prod.splits if_splits)

text \<open>A loop over a list whose body may have no result.\<close>

fun foldM :: "('x \<Rightarrow> 's \<Rightarrow> 's option) \<Rightarrow> 'x list \<Rightarrow> 's \<Rightarrow> 's option" where
  "foldM f [] s = Some s"
| "foldM f (x # xs) s = (case f x s of None \<Rightarrow> None | Some s' \<Rightarrow> foldM f xs s')"

text \<open>A loop over a list whose body may also return \<open>false\<close>, which ends the loop.\<close>

fun loopM :: "('x \<Rightarrow> 's \<Rightarrow> (bool \<times> 's) option) \<Rightarrow> 'x list \<Rightarrow> 's \<Rightarrow> (bool \<times> 's) option" where
  "loopM f [] s = Some (True, s)"
| "loopM f (x # xs) s = and_then_opt (f x s) (loopM f xs)"

lemma loopM_cong [fundef_cong]:
  "xs = ys \<Longrightarrow> s = t \<Longrightarrow> (\<And>x s. x \<in> set ys \<Longrightarrow> f x s = g x s) \<Longrightarrow> loopM f xs s = loopM g ys t"
proof (induction xs arbitrary: ys s t)
  case (Cons x xs)
  then have "loopM f xs = loopM g xs" by auto
  then show ?case using Cons.prems by auto
qed simp

lemma foldM_invariant:
  assumes "foldM f xs s = Some s'" and "P s"
    and "\<And>x s s'. x \<in> set xs \<Longrightarrow> P s \<Longrightarrow> f x s = Some s' \<Longrightarrow> P s'"
  shows "P s'"
  using assms
proof (induction xs arbitrary: s)
  case Nil
  then show ?case by simp
next
  case (Cons x xs)
  then obtain t where "f x s = Some t" "foldM f xs t = Some s'" by (auto split: option.splits)
  with Cons.prems show ?case by (intro Cons.IH [of t]) auto
qed

lemma foldM_snoc: "foldM f (xs @ [x]) s = Option.bind (foldM f xs s) (f x)"
  by (induction xs arbitrary: s) (auto split: option.splits)

lemma foldM_total:
  assumes "P s" and "\<And>x s. x \<in> set xs \<Longrightarrow> P s \<Longrightarrow> \<exists>s'. f x s = Some s' \<and> P s'"
  shows "\<exists>s'. foldM f xs s = Some s' \<and> P s'"
  using assms by (induction xs arbitrary: s) fastforce+

section \<open>Having a result\<close>

text \<open>\<open>returns r\<close>: the computation has a result.  The rules in \<open>total\<close> follow the control flow.\<close>

definition returns :: "'a option \<Rightarrow> bool" where
  "returns r \<longleftrightarrow> r \<noteq> None"

lemma returns_simps [simp]: "returns (Some v)" "\<not> returns None" "returns (map_option f r) = returns r"
  by (simp_all add: returns_def)

lemma returns_Some [total]: "returns (Some v)"
  by simp

lemma returns_if [total]: "(b \<Longrightarrow> returns x) \<Longrightarrow> (\<not> b \<Longrightarrow> returns y) \<Longrightarrow> returns (if b then x else y)"
  by simp

lemma returns_option [total]:
  "returns r \<Longrightarrow> (\<And>v. r = Some v \<Longrightarrow> returns (g v)) \<Longrightarrow> returns (case r of None \<Rightarrow> None | Some v \<Rightarrow> g v)"
  by (cases r) simp_all

lemma returns_prod [total]: "(\<And>a b. p = (a, b) \<Longrightarrow> returns (g a b)) \<Longrightarrow> returns (case p of (a, b) \<Rightarrow> g a b)"
  by (cases p) simp

lemma returns_let [total]: "(\<And>v. v = x \<Longrightarrow> returns (g v)) \<Longrightarrow> returns (let v = x in g v)"
  by simp

lemma returns_and_then [total]: "returns r \<Longrightarrow> (\<And>s. returns (g s)) \<Longrightarrow> returns (and_then_opt r g)"
  by (cases r) (auto simp: and_then_opt_def)

lemma returns_loopM [total]: "(\<And>x s. x \<in> set xs \<Longrightarrow> returns (f x s)) \<Longrightarrow> returns (loopM f xs s)"
proof (induction xs arbitrary: s)
  case (Cons x xs)
  then have "returns (loopM f xs s)" for s by simp
  then show ?case using Cons.prems by (auto intro: returns_and_then)
qed simp

section \<open>Words as numbers\<close>

lemma unat_drop_bit: "unat (drop_bit n w :: 'a::len word) = unat w div 2 ^ n"
  using unat_drop_bit_eq [of n w] by (simp only: drop_bit_eq_div [of n "unat w"])

lemma drop_bit_less: "w \<noteq> 0 \<Longrightarrow> 0 < n \<Longrightarrow> unat (drop_bit n w :: 'a::len word) < unat w"
  by (auto simp: unat_drop_bit unat_gt_0 intro!: div_less_dividend one_less_power)

lemma and_7F: "x AND 0x7F = take_bit 7 (x :: 'a::len word)"
  by (simp add: take_bit_eq_mask mask_eq_exp_minus_1)

lemma unat_and_7F: "unat (x AND 0x7F :: 'a::len word) = unat x mod 128"
  unfolding and_7F unsigned_take_bit_eq take_bit_nat_def by simp

lemma unat_ucast_u8: "unat (ucast (w :: 'a::len word) :: u8) = unat w mod 256"
  unfolding unsigned_ucast_eq take_bit_nat_def by simp

lemma or_80: "8 \<le> LENGTH('a) \<Longrightarrow> (x AND 0x7F) OR 0x80 = (x AND 0x7F) + (0x80 :: 'a::len word)"
  using word_plus_and_or [of "x AND 0x7F" "0x80"] by (simp add: ac_simps flip: and.assoc)

lemma u32_less: "unat (w :: u32) < 4294967296"
  using unsigned_less [of w] by simp

lemma unat_ucast_32_64 [simp]: "unat (ucast (w :: u32) :: u64) = unat w"
  unfolding unsigned_ucast_eq
  by (intro take_bit_nat_eq_self less_trans [OF u32_less]) simp

lemma unat_ucast_8_32 [simp]: "unat (ucast (w :: u8) :: u32) = unat w"
  unfolding unsigned_ucast_eq
  by (intro take_bit_nat_eq_self less_trans [OF unsigned_less]) simp

lemma unat_ucast_8_64 [simp]: "unat (ucast (w :: u8) :: u64) = unat w"
  unfolding unsigned_ucast_eq
  by (intro take_bit_nat_eq_self less_trans [OF unsigned_less]) simp

lemma u8_eqI: "unat (a :: u8) = unat b \<Longrightarrow> a = b"
  by (simp add: word_unat_eq_iff)

lemma unat_of_nat_u8: "n < 256 \<Longrightarrow> unat (of_nat n :: u8) = n"
  by (simp add: unsigned_of_nat take_bit_nat_eq_self)

lemma unat_of_nat_u32: "n < 4294967296 \<Longrightarrow> unat (of_nat n :: u32) = n"
  by (simp add: unsigned_of_nat take_bit_nat_eq_self)

lemma u8_less [simp]: "unat (b :: u8) < 256"
  using unsigned_less [of b] by simp

lemma u64_less [simp]: "unat (w :: u64) < 18446744073709551616"
  using unsigned_less [of w] by simp

lemma odd_div_128: "x < 256 \<Longrightarrow> odd (x div 128) \<longleftrightarrow> 128 \<le> x" for x :: nat
proof -
  assume "x < 256"
  then have "x div 128 < 2" by simp
  moreover have "x < 128 \<longleftrightarrow> x div 128 = 0" by auto
  ultimately show ?thesis by (metis less_2_cases even_zero odd_one One_nat_def not_less)
qed

lemma bit_7_u8: "bit (b :: u8) 7 \<longleftrightarrow> 128 \<le> unat b"
proof -
  have "bit b 7 \<longleftrightarrow> bit (unat b) 7" by (simp add: bit_unsigned_iff)
  then show ?thesis using odd_div_128 [of "unat b"] by (simp add: bit_iff_odd)
qed

lemma and_80_eq_0: "(b :: u8) AND 0x80 = 0 \<longleftrightarrow> unat b < 128"
  using and_exp_eq_0_iff_not_bit [of b 7] bit_7_u8 [of b] by auto

section \<open>Byte lists and words\<close>

text \<open>The \<open>i\<close>-th byte of a list that stands for a C array (0 where the C array was not filled).\<close>

definition byte_at :: "u8 list \<Rightarrow> nat \<Rightarrow> u8" where
  "byte_at bs i = (if i < length bs then bs ! i else 0)"

definition word_to_bytes :: "nat \<Rightarrow> 'a::len word \<Rightarrow> u8 list" where
  "word_to_bytes n w = map (\<lambda>i. ucast (drop_bit (8 * i) w)) [0..<n]"

fun bytes_to_word :: "u8 list \<Rightarrow> 'a::len word" where
  "bytes_to_word [] = 0"
| "bytes_to_word (b # bs) = ucast b OR push_bit 8 (bytes_to_word bs)"

lemma length_word_to_bytes [simp]: "length (word_to_bytes n w) = n"
  by (simp add: word_to_bytes_def)

lemma nth_word_to_bytes: "i < n \<Longrightarrow> word_to_bytes n w ! i = ucast (drop_bit (8 * i) w)"
  by (simp add: word_to_bytes_def)

lemma bit_bytes_to_word:
  "bit (bytes_to_word bs :: 'a::len word) k \<longleftrightarrow>
     k < LENGTH('a) \<and> k div 8 < length bs \<and> bit (bs ! (k div 8)) (k mod 8)"
proof (induction bs arbitrary: k)
  case Nil
  then show ?case by simp
next
  case (Cons b bs)
  show ?case
  proof (cases "k < 8")
    case True
    then show ?thesis by (auto simp: bit_simps)
  next
    case False
    then obtain j where k: "k = j + 8" by (metis add.commute le_iff_add linorder_not_less)
    have "\<not> bit b k" using False by (auto dest: bit_imp_le_length)
    then show ?thesis using Cons.IH [of j]
      by (auto simp: k bit_simps div_add_self2)
  qed
qed

lemma bytes_to_word_to_bytes:
  assumes "LENGTH('a) \<le> 8 * n"
  shows "bytes_to_word (word_to_bytes n (w :: 'a::len word)) = w"
proof (rule bit_word_eqI)
  fix k assume k: "k < LENGTH('a)"
  then have "k div 8 < n" using assms by linarith
  then show "bit (bytes_to_word (word_to_bytes n w) :: 'a word) k = bit w k"
    using k by (simp add: bit_bytes_to_word nth_word_to_bytes bit_simps)
qed

lemma word_to_bytes_to_word:
  assumes "length bs = n" and "8 * n \<le> LENGTH('a)"
  shows "word_to_bytes n (bytes_to_word bs :: 'a::len word) = bs"
proof (rule nth_equalityI)
  show "length (word_to_bytes n (bytes_to_word bs :: 'a word)) = length bs" using assms by simp
next
  fix i assume "i < length (word_to_bytes n (bytes_to_word bs :: 'a word))"
  then have i: "i < n" by simp
  show "word_to_bytes n (bytes_to_word bs :: 'a word) ! i = bs ! i"
  proof (rule bit_word_eqI)
    fix k assume "k < LENGTH(8)"
    then have k: "k < 8" by simp
    then have "8 * i + k < LENGTH('a)" using i assms(2) by linarith
    then show "bit (word_to_bytes n (bytes_to_word bs :: 'a word) ! i) k = bit (bs ! i) k"
      using i k assms(1) by (simp add: nth_word_to_bytes bit_simps bit_bytes_to_word)
  qed
qed

end
