(* ===== verification/C_Memory.thy ===== *)
theory C_Memory
  imports Prelude
begin

text \<open>
  The memory the C code works on: bytes indexed by 64-bit addresses (the pods are built for 64-bit
  iOS: \<^verbatim>\<open>size_t\<close> and pointers have 8 bytes, \<^verbatim>\<open>bool\<close> one), loads and
  stores of little-endian values, \<^verbatim>\<open>memcpy\<close>/\<^verbatim>\<open>memset\<close>, and the C
  library's \<^verbatim>\<open>realloc\<close>/\<^verbatim>\<open>free\<close> over a table of live blocks.  Where
  the allocator places a new block (or that it fails) is a parameter.
\<close>

section \<open>Bytes in memory\<close>

type_synonym addr = u64
type_synonym mem = "addr \<Rightarrow> u8"

definition read_bytes :: "mem \<Rightarrow> addr \<Rightarrow> nat \<Rightarrow> u8 list" where
  "read_bytes m a n = map (\<lambda>i. m (a + of_nat i)) [0..<n]"

fun write_bytes :: "mem \<Rightarrow> addr \<Rightarrow> u8 list \<Rightarrow> mem" where
  "write_bytes m a [] = m"
| "write_bytes m a (b # bs) = write_bytes (m(a := b)) (a + 1) bs"

text \<open>\<^verbatim>\<open>for (i = 0; i < n; i++) d[i] = s[i];\<close>, byte after byte as the source loops do.\<close>

fun copy_fwd :: "nat \<Rightarrow> mem \<Rightarrow> addr \<Rightarrow> addr \<Rightarrow> mem" where
  "copy_fwd 0 m d s = m"
| "copy_fwd (Suc n) m d s = copy_fwd n (m(d := m s)) (d + 1) (s + 1)"

definition mem_zero :: "mem \<Rightarrow> addr \<Rightarrow> nat \<Rightarrow> mem" where
  "mem_zero m a n = write_bytes m a (replicate n 0)"

definition load :: "mem \<Rightarrow> addr \<Rightarrow> nat \<Rightarrow> 'a::len word" where
  "load m a n = bytes_to_word (read_bytes m a n)"

definition store :: "mem \<Rightarrow> addr \<Rightarrow> nat \<Rightarrow> 'a::len word \<Rightarrow> mem" where
  "store m a n w = write_bytes m a (word_to_bytes n w)"

definition load_u32 :: "mem \<Rightarrow> addr \<Rightarrow> u32" where "load_u32 m a = load m a 4"
definition load_u64 :: "mem \<Rightarrow> addr \<Rightarrow> u64" where "load_u64 m a = load m a 8"
definition load_ptr :: "mem \<Rightarrow> addr \<Rightarrow> addr" where "load_ptr m a = load m a 8"
definition store_u32 :: "mem \<Rightarrow> addr \<Rightarrow> u32 \<Rightarrow> mem" where "store_u32 m a w = store m a 4 w"
definition store_u64 :: "mem \<Rightarrow> addr \<Rightarrow> u64 \<Rightarrow> mem" where "store_u64 m a w = store m a 8 w"
definition store_ptr :: "mem \<Rightarrow> addr \<Rightarrow> addr \<Rightarrow> mem" where "store_ptr m a w = store m a 8 w"
definition store_bool :: "mem \<Rightarrow> addr \<Rightarrow> bool \<Rightarrow> mem" where
  "store_bool m a b = m(a := (if b then 1 else 0))"

text \<open>Membership of an address in the \<open>n\<close> bytes from \<open>a\<close>; address arithmetic wraps.\<close>

definition in_range :: "addr \<Rightarrow> nat \<Rightarrow> addr \<Rightarrow> bool" where
  "in_range a n x \<longleftrightarrow> unat (x - a) < n"

text \<open>\<open>m'\<close> differs from \<open>m\<close> only at addresses satisfying \<open>A\<close>.\<close>

definition only_in :: "(addr \<Rightarrow> bool) \<Rightarrow> mem \<Rightarrow> mem \<Rightarrow> bool" where
  "only_in A m m' \<longleftrightarrow> (\<forall>x. \<not> A x \<longrightarrow> m' x = m x)"

lemma only_in_refl [simp]: "only_in A m m"
  by (simp add: only_in_def)

lemma only_in_trans: "only_in A m m' \<Longrightarrow> only_in A m' m'' \<Longrightarrow> only_in A m m''"
  by (simp add: only_in_def)

lemma only_in_mono: "only_in A m m' \<Longrightarrow> (\<And>x. A x \<Longrightarrow> B x) \<Longrightarrow> only_in B m m'"
  by (auto simp: only_in_def)

lemma length_read_bytes [simp]: "length (read_bytes m a n) = n"
  by (simp add: read_bytes_def)

lemma nth_read_bytes [simp]: "i < n \<Longrightarrow> read_bytes m a n ! i = m (a + of_nat i)"
  by (simp add: read_bytes_def)

lemma read_bytes_0 [simp]: "read_bytes m a 0 = []"
  by (simp add: read_bytes_def)

lemma read_bytes_Suc: "read_bytes m a (Suc n) = m a # read_bytes m (a + 1) n"
  by (rule nth_equalityI) (auto simp: nth_Cons' gr0_conv_Suc algebra_simps)

lemma read_bytes_append:
  "read_bytes m a (n + k) = read_bytes m a n @ read_bytes m (a + of_nat n) k"
  by (rule nth_equalityI) (auto simp: nth_append algebra_simps)

lemma read_bytes_eqI:
  "(\<And>i. i < n \<Longrightarrow> m (a + of_nat i) = m' (a + of_nat i)) \<Longrightarrow> read_bytes m a n = read_bytes m' a n"
  by (rule nth_equalityI) auto

lemma unat_of_nat64 [simp]: "i < 2 ^ 64 \<Longrightarrow> unat (of_nat i :: u64) = i"
  by (simp add: unsigned_of_nat take_bit_nat_eq_self)

lemma unat_sub_Suc:
  fixes x a :: addr
  assumes "x \<noteq> a"
  shows "unat (x - (a + 1)) = unat (x - a) - 1" and "0 < unat (x - a)"
proof -
  have ne: "x - a \<noteq> 0" using assms by simp
  then show "0 < unat (x - a)" by (simp add: unat_gt_0)
  have "x - (a + 1) = (x - a) - 1" by (simp add: algebra_simps)
  then show "unat (x - (a + 1)) = unat (x - a) - 1" using unat_minus_one [OF ne] by argo
qed

lemma write_bytes_get:
  assumes "length bs \<le> 2 ^ 64"
  shows "write_bytes m a bs x = (if unat (x - a) < length bs then bs ! unat (x - a) else m x)"
  using assms
proof (induction bs arbitrary: m a)
  case Nil
  then show ?case by simp
next
  case (Cons b bs)
  have IH: "write_bytes (m(a := b)) (a + 1) bs x =
      (if unat (x - (a + 1)) < length bs then bs ! unat (x - (a + 1)) else (m(a := b)) x)"
    using Cons by simp
  show ?case
  proof (cases "x = a")
    case True
    have "unat (a - (a + 1)) = 2 ^ 64 - 1" by (simp add: unsigned_minus_1_eq_mask mask_eq_exp_minus_1)
    then have "\<not> unat (x - (a + 1)) < length bs" using Cons.prems True by simp
    then show ?thesis using IH True by simp
  next
    case False
    then show ?thesis using IH unat_sub_Suc [OF False] by (auto simp: nth_Cons')
  qed
qed

lemma write_bytes_only_in: "only_in (in_range a (length bs)) m (write_bytes m a bs)"
proof (induction bs arbitrary: m a)
  case Nil
  then show ?case by simp
next
  case (Cons b bs)
  show ?case unfolding only_in_def
  proof (intro allI impI)
    fix x assume nin: "\<not> in_range a (length (b # bs)) x"
    then have ne: "x \<noteq> a" by (auto simp: in_range_def)
    have "\<not> in_range (a + 1) (length bs) x"
      using nin unat_sub_Suc [OF ne] by (auto simp: in_range_def)
    then show "write_bytes m a (b # bs) x = m x"
      using Cons.IH [of "a + 1" "m(a := b)"] fun_upd_other [OF ne, of m b]
      unfolding only_in_def write_bytes.simps by metis
  qed
qed

lemma read_write_bytes_same:
  assumes "length bs \<le> 2 ^ 64"
  shows "read_bytes (write_bytes m a bs) a (length bs) = bs"
proof (rule nth_equalityI)
  fix i assume "i < length (read_bytes (write_bytes m a bs) a (length bs))"
  then have i: "i < length bs" by simp
  then have "unat (of_nat i :: addr) = i" using assms by simp
  then show "read_bytes (write_bytes m a bs) a (length bs) ! i = bs ! i"
    using i assms by (simp add: write_bytes_get)
qed simp

lemma copy_fwd_only_in: "only_in (in_range d n) m (copy_fwd n m d s)"
proof (induction n arbitrary: m d s)
  case 0
  then show ?case by simp
next
  case (Suc n)
  show ?case unfolding only_in_def
  proof (intro allI impI)
    fix x assume nin: "\<not> in_range d (Suc n) x"
    then have ne: "x \<noteq> d" by (auto simp: in_range_def)
    have "\<not> in_range (d + 1) n x"
      using nin unat_sub_Suc [OF ne] by (auto simp: in_range_def)
    then show "copy_fwd (Suc n) m d s x = m x"
      using Suc.IH [of "d + 1" "m(d := m s)" "s + 1"] fun_upd_other [OF ne, of m "m s"]
      unfolding only_in_def copy_fwd.simps by metis
  qed
qed

text \<open>When no source byte lies in the destination range, the loop copies the source bytes.\<close>

lemma copy_fwd_eq_write:
  assumes "\<And>i. i < n \<Longrightarrow> \<not> in_range d n (s + of_nat i)" and "n \<le> 2 ^ 64"
  shows "copy_fwd n m d s = write_bytes m d (read_bytes m s n)"
  using assms
proof (induction n arbitrary: m d s)
  case 0
  then show ?case by simp
next
  case (Suc n)
  have ne: "s + of_nat i \<noteq> d" if "i < Suc n" for i
    using Suc.prems(1) [OF that] by (auto simp: in_range_def)
  have "\<not> in_range (d + 1) n (s + 1 + of_nat i)" if i: "i < n" for i
  proof -
    have "s + of_nat (Suc i) \<noteq> d" and "\<not> in_range d (Suc n) (s + of_nat (Suc i))"
      using ne [of "Suc i"] Suc.prems(1) [of "Suc i"] i by auto
    then show ?thesis
      using unat_sub_Suc [of "s + of_nat (Suc i)" d] by (auto simp: in_range_def algebra_simps)
  qed
  then have "copy_fwd n (m(d := m s)) (d + 1) (s + 1) =
      write_bytes (m(d := m s)) (d + 1) (read_bytes (m(d := m s)) (s + 1) n)"
    using Suc.prems by (intro Suc.IH) auto
  moreover have "read_bytes (m(d := m s)) (s + 1) n = read_bytes m (s + 1) n"
  proof (rule read_bytes_eqI)
    fix i assume "i < n"
    then have "s + 1 + of_nat i \<noteq> d" using ne [of "Suc i"] by (simp add: algebra_simps)
    then show "(m(d := m s)) (s + 1 + of_nat i) = m (s + 1 + of_nat i)" by simp
  qed
  ultimately show ?case by (simp add: read_bytes_Suc)
qed

text \<open>Stores: what a load of the same place returns, and that nothing else changes.\<close>

lemma load_store_same:
  fixes w :: "'a::len word"
  assumes "LENGTH('a) \<le> 8 * n" and "n \<le> 2 ^ 64"
  shows "load (store m a n w) a n = w"
  using assms read_write_bytes_same [of "word_to_bytes n w" m a]
  by (simp add: load_def store_def bytes_to_word_to_bytes)

lemma load_store_u32 [simp]: "load_u32 (store_u32 m a w) a = w"
  by (simp add: load_u32_def store_u32_def load_store_same)

lemma load_store_u64 [simp]: "load_u64 (store_u64 m a w) a = w"
  by (simp add: load_u64_def store_u64_def load_store_same)

lemma load_store_ptr [simp]: "load_ptr (store_ptr m a w) a = w"
  by (simp add: load_ptr_def store_ptr_def load_store_same)

lemma store_only_in: "only_in (in_range a n) m (store m a n w)"
  using write_bytes_only_in [of a "word_to_bytes n w" m] by (simp add: store_def)

lemma store_sized_only_in:
  "only_in (in_range a 4) m (store_u32 m a v)"
  "only_in (in_range a 8) m (store_u64 m a w)"
  "only_in (in_range a 8) m (store_ptr m a p)"
  "only_in (in_range a 1) m (store_bool m a b)"
  by (simp_all add: store_u32_def store_u64_def store_ptr_def store_only_in)
     (simp add: only_in_def store_bool_def in_range_def)

lemma mem_zero_only_in: "only_in (in_range a n) m (mem_zero m a n)"
  using write_bytes_only_in [of a "replicate n 0" m] by (simp add: mem_zero_def)

lemma load_cong:
  assumes "\<And>i. i < n \<Longrightarrow> m (a + of_nat i) = m' (a + of_nat i)"
  shows "load m a n = load m' a n"
  using read_bytes_eqI [of n m a m'] assms by (simp add: load_def)

section \<open>The C library's allocator\<close>

text \<open>\<open>h_blocks\<close>: the live blocks of \<^verbatim>\<open>malloc\<close>/\<^verbatim>\<open>realloc\<close> and their sizes.\<close>

record heap =
  h_mem :: mem
  h_blocks :: "addr \<Rightarrow> u64 option"

text \<open>Where a new block of the given size goes, given the live blocks; \<open>None\<close>: out of memory.\<close>

type_synonym placement = "(addr \<Rightarrow> u64 option) \<Rightarrow> u64 \<Rightarrow> addr option"

text \<open>\<open>None\<close>: undefined behaviour (the pointer is neither NULL nor a live block).  On failure
  \<^verbatim>\<open>realloc\<close> returns NULL and leaves the old block alone.\<close>

definition c_realloc :: "placement \<Rightarrow> heap \<Rightarrow> addr \<Rightarrow> u64 \<Rightarrow> (addr \<times> heap) option" where
  "c_realloc place h p n =
     (if p = 0 then
        (case place (h_blocks h) n of
           None \<Rightarrow> Some (0, h)
         | Some q \<Rightarrow> Some (q, h\<lparr>h_blocks := (h_blocks h)(q := Some n)\<rparr>))
      else
        (case h_blocks h p of
           None \<Rightarrow> None
         | Some old \<Rightarrow>
             (case place ((h_blocks h)(p := None)) n of
                None \<Rightarrow> Some (0, h)
              | Some q \<Rightarrow>
                  Some (q, h\<lparr>h_mem := write_bytes (h_mem h) q
                               (read_bytes (h_mem h) p (min (unat old) (unat n))),
                            h_blocks := (h_blocks h)(p := None, q := Some n)\<rparr>))))"

definition c_free :: "heap \<Rightarrow> addr \<Rightarrow> heap option" where
  "c_free h p =
     (if p = 0 then Some h
      else case h_blocks h p of
             None \<Rightarrow> None
           | Some _ \<Rightarrow> Some (h\<lparr>h_blocks := (h_blocks h)(p := None)\<rparr>))"

lemma c_free_blocks:
  "c_free h p = Some h' \<Longrightarrow> h_mem h' = h_mem h \<and> (p \<noteq> 0 \<longrightarrow> h_blocks h' = (h_blocks h)(p := None))"
  by (auto simp: c_free_def split: if_splits option.splits)

lemma c_realloc_live:
  "c_realloc place h p n = Some (q, h') \<Longrightarrow> q \<noteq> 0 \<Longrightarrow> h_blocks h' q = Some n"
  by (auto simp: c_realloc_def split: if_splits option.splits)

lemma c_realloc_failed: "c_realloc place h p n = Some (0, h') \<Longrightarrow> h' = h \<or> place (h_blocks h) n = Some 0
   \<or> place ((h_blocks h)(p := None)) n = Some 0"
  by (auto simp: c_realloc_def split: if_splits option.splits)

end
