(* ===== verification/Pb_Types.thy ===== *)
theory Pb_Types
  imports C_Memory
begin

text \<open>
  The data of \<^verbatim>\<open>pb.h\<close>, \<^verbatim>\<open>pb_encode.h\<close> and
  \<^verbatim>\<open>pb_decode.h\<close> in the configuration of the pods
  (\<^verbatim>\<open>PB_FIELD_32BIT\<close>, \<^verbatim>\<open>PB_ENABLE_MALLOC\<close>,
  \<^verbatim>\<open>PB_NO_PACKED_STRUCTS\<close>): the type byte of a field and its three parts,
  field descriptors, wire types, the two stream structures, and the code nanopb calls through
  pointers (stream callbacks, field callbacks, extension handlers), gathered in one parameter.
\<close>

section \<open>The type byte of a field\<close>

abbreviation (input) PB_LTYPE_BOOL :: u8 where "PB_LTYPE_BOOL \<equiv> 0x00"
abbreviation (input) PB_LTYPE_VARINT :: u8 where "PB_LTYPE_VARINT \<equiv> 0x01"
abbreviation (input) PB_LTYPE_UVARINT :: u8 where "PB_LTYPE_UVARINT \<equiv> 0x02"
abbreviation (input) PB_LTYPE_SVARINT :: u8 where "PB_LTYPE_SVARINT \<equiv> 0x03"
abbreviation (input) PB_LTYPE_FIXED32 :: u8 where "PB_LTYPE_FIXED32 \<equiv> 0x04"
abbreviation (input) PB_LTYPE_FIXED64 :: u8 where "PB_LTYPE_FIXED64 \<equiv> 0x05"
abbreviation (input) PB_LTYPE_LAST_PACKABLE :: u8 where "PB_LTYPE_LAST_PACKABLE \<equiv> 0x05"
abbreviation (input) PB_LTYPE_BYTES :: u8 where "PB_LTYPE_BYTES \<equiv> 0x06"
abbreviation (input) PB_LTYPE_STRING :: u8 where "PB_LTYPE_STRING \<equiv> 0x07"
abbreviation (input) PB_LTYPE_SUBMESSAGE :: u8 where "PB_LTYPE_SUBMESSAGE \<equiv> 0x08"
abbreviation (input) PB_LTYPE_EXTENSION :: u8 where "PB_LTYPE_EXTENSION \<equiv> 0x09"
abbreviation (input) PB_LTYPE_FIXED_LENGTH_BYTES :: u8 where "PB_LTYPE_FIXED_LENGTH_BYTES \<equiv> 0x0A"

abbreviation (input) PB_HTYPE_REQUIRED :: u8 where "PB_HTYPE_REQUIRED \<equiv> 0x00"
abbreviation (input) PB_HTYPE_OPTIONAL :: u8 where "PB_HTYPE_OPTIONAL \<equiv> 0x10"
abbreviation (input) PB_HTYPE_REPEATED :: u8 where "PB_HTYPE_REPEATED \<equiv> 0x20"
abbreviation (input) PB_HTYPE_ONEOF :: u8 where "PB_HTYPE_ONEOF \<equiv> 0x30"

abbreviation (input) PB_ATYPE_STATIC :: u8 where "PB_ATYPE_STATIC \<equiv> 0x00"
abbreviation (input) PB_ATYPE_POINTER :: u8 where "PB_ATYPE_POINTER \<equiv> 0x80"
abbreviation (input) PB_ATYPE_CALLBACK :: u8 where "PB_ATYPE_CALLBACK \<equiv> 0x40"

definition PB_LTYPE :: "u8 \<Rightarrow> u8" where "PB_LTYPE x = x AND 0x0F"
definition PB_HTYPE :: "u8 \<Rightarrow> u8" where "PB_HTYPE x = x AND 0x30"
definition PB_ATYPE :: "u8 \<Rightarrow> u8" where "PB_ATYPE x = x AND 0xC0"

lemma htype_cases:
  "PB_HTYPE x = PB_HTYPE_REQUIRED \<or> PB_HTYPE x = PB_HTYPE_OPTIONAL \<or>
   PB_HTYPE x = PB_HTYPE_REPEATED \<or> PB_HTYPE x = PB_HTYPE_ONEOF"
proof -
  have "x AND 0x30 = (if bit x 4 then 0x10 else 0) OR (if bit x 5 then 0x20 else 0)"
  proof (rule bit_word_eqI)
    fix k assume "k < LENGTH(8)"
    then have "k = 0 \<or> k = 1 \<or> k = 2 \<or> k = 3 \<or> k = 4 \<or> k = 5 \<or> k = 6 \<or> k = 7" by auto
    then show "bit (x AND 0x30) k =
        bit ((if bit x 4 then 0x10 else 0) OR (if bit x 5 then 0x20 else 0) :: u8) k"
      by (elim disjE) (simp_all add: bit_simps)
  qed
  then show ?thesis unfolding PB_HTYPE_def by (cases "bit x 4"; cases "bit x 5") simp_all
qed

text \<open>\<open>pb_size_t\<close> is \<open>uint32_t\<close>; \<^verbatim>\<open>PB_BYTES_ARRAY_T_ALLOCSIZE(n)\<close>
  adds the 4-byte size field in front of the bytes.\<close>

abbreviation (input) PB_SIZE_MAX :: u32 where "PB_SIZE_MAX \<equiv> 0xFFFFFFFF"

definition PB_BYTES_ARRAY_T_ALLOCSIZE :: "u32 \<Rightarrow> u64" where
  "PB_BYTES_ARRAY_T_ALLOCSIZE n = ucast n + 4"

section \<open>Field descriptors\<close>

record pb_field =
  f_tag :: u32
  f_type :: u8
  f_data_offset :: u32
  f_size_offset :: u32   \<comment> \<open>\<open>pb_ssize_t\<close>: read as a signed number\<close>
  f_data_size :: u32
  f_array_size :: u32
  f_ptr :: addr

definition PB_LAST_FIELD :: pb_field where
  "PB_LAST_FIELD = \<lparr>f_tag = 0, f_type = 0, f_data_offset = 0, f_size_offset = 0,
     f_data_size = 0, f_array_size = 0, f_ptr = 0\<rparr>"

text \<open>A descriptor array is the list of its entries before the terminator; reading at or past the
  end gives the terminator.\<close>

definition field_at :: "pb_field list \<Rightarrow> nat \<Rightarrow> pb_field" where
  "field_at fs i = (if i < length fs then fs ! i else PB_LAST_FIELD)"

section \<open>Wire types\<close>

type_synonym pb_wire_type = u32

abbreviation (input) PB_WT_VARINT :: pb_wire_type where "PB_WT_VARINT \<equiv> 0"
abbreviation (input) PB_WT_64BIT :: pb_wire_type where "PB_WT_64BIT \<equiv> 1"
abbreviation (input) PB_WT_STRING :: pb_wire_type where "PB_WT_STRING \<equiv> 2"
abbreviation (input) PB_WT_32BIT :: pb_wire_type where "PB_WT_32BIT \<equiv> 5"

section \<open>Streams\<close>

text \<open>The callback of a stream: NULL (a sizing stream), nanopb's own buffer callback, or a
  function of the application at some address.\<close>

datatype ocallback = ONull | OBufWrite | OUser addr
datatype icallback = IBufRead | IUser addr

text \<open>The memory behind an output stream (\<open>o_mem\<close>) is kept apart from the memory the message
  is read from: the message is \<^verbatim>\<open>const\<close> to the encoder and the output buffer is
  not part of it.\<close>

record pb_ostream =
  o_callback :: ocallback
  o_state :: addr
  o_max_size :: u64
  o_bytes_written :: u64
  o_errmsg :: "string option"
  o_mem :: mem

record pb_istream =
  i_callback :: icallback
  i_state :: addr
  i_bytes_left :: u64
  i_errmsg :: "string option"

text \<open>\<^verbatim>\<open>PB_SET_ERROR\<close>: the first message stays.\<close>

definition set_error :: "string option \<Rightarrow> string \<Rightarrow> string option" where
  "set_error old msg = (case old of None \<Rightarrow> Some msg | Some e \<Rightarrow> Some e)"

definition o_error :: "pb_ostream \<Rightarrow> string \<Rightarrow> bool \<times> pb_ostream" where
  "o_error s msg = (False, s\<lparr>o_errmsg := set_error (o_errmsg s) msg\<rparr>)"

definition i_error :: "pb_istream \<Rightarrow> string \<Rightarrow> bool \<times> pb_istream" where
  "i_error s msg = (False, s\<lparr>i_errmsg := set_error (i_errmsg s) msg\<rparr>)"

section \<open>Code reached through pointers\<close>

text \<open>
  Everything the library calls that is not its own code, by the address of the function:
  \<^item> \<open>e_fields\<close>: the (constant) descriptor array at an address;
  \<^item> \<open>e_read\<close>, \<open>e_write\<close>: application stream callbacks; they own the stream's
    \<^verbatim>\<open>state\<close> word and may touch memory, and by nanopb's rules leave the other
    stream fields alone;
  \<^item> \<open>e_dec_cb\<close>, \<open>e_enc_cb\<close>: \<^verbatim>\<open>pb_callback_t\<close> functions of a callback field;
  \<^item> \<open>e_ext_dec\<close>, \<open>e_ext_enc\<close>: custom extension handlers;
  \<^item> \<open>e_place\<close>: the allocator's placement policy;
  \<^item> \<open>e_stack\<close>: where the local buffer of \<^verbatim>\<open>decode_callback_field\<close> lives.
\<close>

record pb_env =
  e_fields :: "addr \<Rightarrow> pb_field list"
  e_read :: "addr \<Rightarrow> addr \<Rightarrow> u64 \<Rightarrow> heap \<Rightarrow> bool \<times> u8 list \<times> addr \<times> heap"
  e_write :: "addr \<Rightarrow> addr \<Rightarrow> u8 list \<Rightarrow> mem \<Rightarrow> bool \<times> addr \<times> mem"
  e_dec_cb :: "addr \<Rightarrow> pb_istream \<Rightarrow> pb_field \<Rightarrow> addr \<Rightarrow> heap \<Rightarrow> bool \<times> pb_istream \<times> heap"
  e_enc_cb :: "addr \<Rightarrow> mem \<Rightarrow> pb_ostream \<Rightarrow> pb_field \<Rightarrow> addr \<Rightarrow> bool \<times> pb_ostream"
  e_ext_dec :: "addr \<Rightarrow> pb_istream \<Rightarrow> addr \<Rightarrow> u32 \<Rightarrow> pb_wire_type \<Rightarrow> heap
     \<Rightarrow> bool \<times> pb_istream \<times> heap"
  e_ext_enc :: "addr \<Rightarrow> mem \<Rightarrow> pb_ostream \<Rightarrow> addr \<Rightarrow> bool \<times> pb_ostream"
  e_place :: placement
  e_stack :: addr

text \<open>An application with the given descriptor arrays and allocator and no code of its own.\<close>

definition plain_env :: "(addr \<Rightarrow> pb_field list) \<Rightarrow> placement \<Rightarrow> pb_env" where
  "plain_env flds place =
     \<lparr>e_fields = flds,
      e_read = \<lambda>f st n h. (False, [], st, h),
      e_write = \<lambda>f st bs m. (False, st, m),
      e_dec_cb = \<lambda>f s field a h. (False, s, h),
      e_enc_cb = \<lambda>f m s field a. (False, s),
      e_ext_dec = \<lambda>f s x tag wt h. (False, s, h),
      e_ext_enc = \<lambda>f m s x. (False, s),
      e_place = place, e_stack = 0\<rparr>"

section \<open>Structures in memory\<close>

text \<open>Addresses of the members of \<^verbatim>\<open>pb_bytes_array_t\<close>,
  \<^verbatim>\<open>pb_callback_t\<close>, \<^verbatim>\<open>pb_extension_type_t\<close> and
  \<^verbatim>\<open>pb_extension_t\<close> (64-bit layout).\<close>

definition bytes_size :: "addr \<Rightarrow> addr" where [wrapper_defs]: "bytes_size a = a"
definition bytes_bytes :: "addr \<Rightarrow> addr" where [wrapper_defs]: "bytes_bytes a = a + 4"
definition callback_funcs :: "addr \<Rightarrow> addr" where [wrapper_defs]: "callback_funcs a = a"
definition callback_arg :: "addr \<Rightarrow> addr" where [wrapper_defs]: "callback_arg a = a + 8"
definition ext_type_decode :: "addr \<Rightarrow> addr" where [wrapper_defs]: "ext_type_decode a = a"
definition ext_type_encode :: "addr \<Rightarrow> addr" where [wrapper_defs]: "ext_type_encode a = a + 8"
definition ext_type_arg :: "addr \<Rightarrow> addr" where [wrapper_defs]: "ext_type_arg a = a + 16"
definition ext_type :: "addr \<Rightarrow> addr" where [wrapper_defs]: "ext_type a = a"
definition ext_dest :: "addr \<Rightarrow> addr" where [wrapper_defs]: "ext_dest a = a + 8"
definition ext_next :: "addr \<Rightarrow> addr" where [wrapper_defs]: "ext_next a = a + 16"
definition ext_found :: "addr \<Rightarrow> addr" where [wrapper_defs]: "ext_found a = a + 24"

end
