(* ===== verification/Pb_Common.thy ===== *)
theory Pb_Common
  imports Pb_Types
begin

text \<open>
  \<^verbatim>\<open>pb_common.c\<close>: the iterator over a descriptor array and the structure it
  describes.  Proved: which entries the \<^verbatim>\<open>do ... while (pb_field_iter_next)\<close> loops
  visit, how the iterator wraps, that \<^verbatim>\<open>pb_field_iter_find\<close> stops and finds the
  first match in cyclic order, and that the required-field index counts required fields.
\<close>

section \<open>The iterator\<close>

text \<open>\<open>pSize\<close> points into the structure, or (decoder only) at the local counter of a repeated
  field with a fixed count.\<close>

datatype psize = PAddr addr | PLocal

record pb_iter =
  it_start :: "pb_field list"
  it_pos :: nat
  it_req :: u32
  it_dest :: addr
  it_pData :: addr
  it_pSize :: psize

definition it_field :: "pb_iter \<Rightarrow> pb_field" where
  "it_field it = field_at (it_start it) (it_pos it)"

definition size_addr :: "addr \<Rightarrow> pb_field \<Rightarrow> addr" where
  "size_addr pData f = pData + scast (f_size_offset f)"

definition pb_field_iter_begin :: "pb_field list \<Rightarrow> addr \<Rightarrow> bool \<times> pb_iter" where
  "pb_field_iter_begin flds dest =
     (let f = field_at flds 0; pData = dest + ucast (f_data_offset f) in
      (f_tag f \<noteq> 0,
       \<lparr>it_start = flds, it_pos = 0, it_req = 0, it_dest = dest,
        it_pData = pData, it_pSize = PAddr (size_addr pData f)\<rparr>))"

text \<open>The number of bytes the previous field takes in the structure.\<close>

definition prev_size :: "pb_field \<Rightarrow> u64" where
  "prev_size p =
     (if PB_ATYPE (f_type p) = PB_ATYPE_STATIC \<and> PB_HTYPE (f_type p) = PB_HTYPE_REPEATED
      then ucast (f_data_size p) * ucast (f_array_size p)
      else if PB_ATYPE (f_type p) = PB_ATYPE_POINTER then 8
      else ucast (f_data_size p))"

definition pb_field_iter_next :: "pb_iter \<Rightarrow> bool \<times> pb_iter" where
  "pb_field_iter_next it =
     (let prev = it_field it in
      if f_tag prev = 0 then (False, it)
      else
        let it1 = it\<lparr>it_pos := Suc (it_pos it)\<rparr>; cur = it_field it1 in
        if f_tag cur = 0 then (False, snd (pb_field_iter_begin (it_start it) (it_dest it)))
        else if PB_HTYPE (f_type prev) = PB_HTYPE_ONEOF \<and>
                PB_HTYPE (f_type cur) = PB_HTYPE_ONEOF \<and>
                f_data_offset cur = PB_SIZE_MAX
        then (True, it1)
        else
          let req = (if PB_HTYPE (f_type prev) = PB_HTYPE_REQUIRED then it_req it + 1 else it_req it);
              pData = it_pData it + prev_size prev + ucast (f_data_offset cur) in
          (True, it1\<lparr>it_req := req, it_pData := pData, it_pSize := PAddr (size_addr pData cur)\<rparr>))"

text \<open>\<^verbatim>\<open>do { if (match) return true; next; } while (pos != start);\<close> with \<open>k\<close> rounds left.\<close>

fun iter_find_loop :: "nat \<Rightarrow> (pb_field \<Rightarrow> bool) \<Rightarrow> nat \<Rightarrow> pb_iter \<Rightarrow> (bool \<times> pb_iter) option" where
  "iter_find_loop 0 match start it = None"
| "iter_find_loop (Suc k) match start it =
     (if match (it_field it) then Some (True, it)
      else let it' = snd (pb_field_iter_next it) in
           if it_pos it' \<noteq> start then iter_find_loop k match start it' else Some (False, it'))"

definition tag_match :: "u32 \<Rightarrow> pb_field \<Rightarrow> bool" where
  "tag_match tag f \<longleftrightarrow> f_tag f = tag \<and> PB_LTYPE (f_type f) \<noteq> PB_LTYPE_EXTENSION"

definition iter_find :: "(pb_field \<Rightarrow> bool) \<Rightarrow> pb_iter \<Rightarrow> (bool \<times> pb_iter) option" where
  "iter_find match it = iter_find_loop (Suc (length (it_start it))) match (it_pos it) it"

definition pb_field_iter_find :: "pb_iter \<Rightarrow> u32 \<Rightarrow> (bool \<times> pb_iter) option" where
  "pb_field_iter_find it tag = iter_find (tag_match tag) it"

text \<open>The iterators a \<^verbatim>\<open>do { ... } while (pb_field_iter_next(&iter));\<close> loop visits
  when the body leaves the iterator alone.\<close>

fun iters_from :: "nat \<Rightarrow> pb_iter \<Rightarrow> pb_iter list" where
  "iters_from 0 it = [it]"
| "iters_from (Suc k) it =
     (case pb_field_iter_next it of
        (True, it') \<Rightarrow> it # iters_from k it'
      | (False, it') \<Rightarrow> [it])"

definition iters :: "pb_field list \<Rightarrow> addr \<Rightarrow> pb_iter list" where
  "iters flds dest =
     (case pb_field_iter_begin flds dest of
        (False, _) \<Rightarrow> []
      | (True, it) \<Rightarrow> iters_from (length flds) it)"

section \<open>Which entries are visited\<close>

text \<open>Descriptor arrays have no zero tag before the terminator.\<close>

definition wf_fields :: "pb_field list \<Rightarrow> bool" where
  "wf_fields fs \<longleftrightarrow> (\<forall>f \<in> set fs. f_tag f \<noteq> 0)"

lemma field_at_tag_zero: "wf_fields fs \<Longrightarrow> f_tag (field_at fs i) = 0 \<longleftrightarrow> length fs \<le> i"
  by (auto simp: wf_fields_def field_at_def PB_LAST_FIELD_def)

lemma begin_simps [simp]:
  "it_start (snd (pb_field_iter_begin fs d)) = fs"
  "it_pos (snd (pb_field_iter_begin fs d)) = 0"
  "it_req (snd (pb_field_iter_begin fs d)) = 0"
  "it_dest (snd (pb_field_iter_begin fs d)) = d"
  "fst (pb_field_iter_begin fs d) \<longleftrightarrow> f_tag (field_at fs 0) \<noteq> 0"
  by (simp_all add: pb_field_iter_begin_def Let_def)

lemma next_start_dest [simp]:
  "it_start (snd (pb_field_iter_next it)) = it_start it"
  "it_dest (snd (pb_field_iter_next it)) = it_dest it"
  by (simp_all add: pb_field_iter_next_def Let_def)

text \<open>The position moves one entry on, and wraps to the first entry after the last.\<close>

lemma next_pos:
  assumes "wf_fields (it_start it)" and "it_pos it < length (it_start it)"
  shows "it_pos (snd (pb_field_iter_next it)) = Suc (it_pos it) mod length (it_start it)"
    and "fst (pb_field_iter_next it) \<longleftrightarrow> Suc (it_pos it) < length (it_start it)"
  using assms
  by (auto simp: pb_field_iter_next_def it_field_def Let_def field_at_tag_zero
        not_less le_Suc_eq dest: le_antisym)

text \<open>The iterator at position \<open>p\<close> when started at the first entry: after any number of
  rounds the iterator is again this one, so the addresses depend on the position only.\<close>

fun iter_at :: "pb_field list \<Rightarrow> addr \<Rightarrow> nat \<Rightarrow> pb_iter" where
  "iter_at fs d 0 = snd (pb_field_iter_begin fs d)"
| "iter_at fs d (Suc p) = snd (pb_field_iter_next (iter_at fs d p))"

definition canonical :: "pb_iter \<Rightarrow> bool" where
  "canonical it \<longleftrightarrow> wf_fields (it_start it) \<and> it_pos it < length (it_start it) \<and>
     it = iter_at (it_start it) (it_dest it) (it_pos it)"

lemma iter_at_start_dest [simp]:
  "it_start (iter_at fs d p) = fs" "it_dest (iter_at fs d p) = d"
  by (induction p) auto

lemma iter_at_pos: "wf_fields fs \<Longrightarrow> p < length fs \<Longrightarrow> it_pos (iter_at fs d p) = p"
  by (induction p) (auto simp: next_pos)

lemma canonical_iter_at: "wf_fields fs \<Longrightarrow> p < length fs \<Longrightarrow> canonical (iter_at fs d p)"
  by (simp add: canonical_def iter_at_pos)

lemma canonical_begin: "wf_fields fs \<Longrightarrow> fs \<noteq> [] \<Longrightarrow> canonical (snd (pb_field_iter_begin fs d))"
  using canonical_iter_at [of fs 0 d] by simp

lemma next_wrap:
  assumes "wf_fields (it_start it)" and "Suc (it_pos it) = length (it_start it)"
  shows "pb_field_iter_next it = (False, snd (pb_field_iter_begin (it_start it) (it_dest it)))"
  using assms by (simp add: pb_field_iter_next_def it_field_def Let_def field_at_tag_zero)

lemma canonical_next:
  assumes "canonical it"
  shows "canonical (snd (pb_field_iter_next it))"
proof (cases "Suc (it_pos it) < length (it_start it)")
  case True
  let ?p = "it_pos it" and ?fs = "it_start it" and ?d = "it_dest it"
  have "it = iter_at ?fs ?d ?p" and wf: "wf_fields ?fs" using assms by (auto simp only: canonical_def)
  from this(1) have "snd (pb_field_iter_next it) = iter_at ?fs ?d (Suc ?p)"
    by (metis iter_at.simps(2))
  moreover have "canonical (iter_at ?fs ?d (Suc ?p))" using wf True by (rule canonical_iter_at)
  ultimately show ?thesis by simp
next
  case False
  then have "Suc (it_pos it) = length (it_start it)" using assms by (auto simp: canonical_def)
  moreover have "it_start it \<noteq> []" using assms by (auto simp: canonical_def)
  ultimately show ?thesis using assms next_wrap [of it] canonical_begin
    by (auto simp only: canonical_def snd_conv)
qed

text \<open>A \<^verbatim>\<open>do/while\<close> loop from a canonical iterator visits the remaining entries in order.\<close>

lemma iters_from_eq:
  assumes "wf_fields fs" and "p < length fs" and "length fs - p \<le> Suc k"
  shows "iters_from k (iter_at fs d p) = map (iter_at fs d) [p..<length fs]"
  using assms
proof (induction k arbitrary: p)
  case 0
  then have "Suc p = length fs" by linarith
  then have "[p..<length fs] = [p]" by (metis upt_conv_Cons lessI upt_rec less_irrefl)
  then show ?case by simp
next
  case (Suc k)
  have pos: "it_pos (iter_at fs d p) = p" using Suc.prems by (simp add: iter_at_pos)
  show ?case
  proof (cases "Suc p < length fs")
    case True
    then have "fst (pb_field_iter_next (iter_at fs d p))"
      using Suc.prems pos next_pos(2) [of "iter_at fs d p"] by simp
    then have "pb_field_iter_next (iter_at fs d p) = (True, iter_at fs d (Suc p))"
      by (simp add: prod_eq_iff del: iter_at.simps) simp
    moreover have "iters_from k (iter_at fs d (Suc p)) = map (iter_at fs d) [Suc p..<length fs]"
      using Suc.prems True by (intro Suc.IH) auto
    ultimately show ?thesis using Suc.prems(2)
      by (simp add: upt_conv_Cons del: iter_at.simps)
  next
    case False
    then have eq: "Suc p = length fs" using Suc.prems by simp
    then have "pb_field_iter_next (iter_at fs d p) = (False, snd (pb_field_iter_begin fs d))"
      using next_wrap [of "iter_at fs d p"] Suc.prems(1) pos by simp
    moreover have "[p..<length fs] = [p]" using eq by (simp flip: eq)
    ultimately show ?thesis by simp
  qed
qed

lemma iters_eq: "wf_fields fs \<Longrightarrow> iters fs d = map (iter_at fs d) [0..<length fs]"
  using iters_from_eq [of fs 0 "length fs" d]
  by (cases fs) (auto simp: iters_def field_at_tag_zero split: prod.splits bool.splits
      simp del: iters_from.simps dest: arg_cong [of _ _ fst] arg_cong [of _ _ snd])

section \<open>Searching\<close>

text \<open>What a search that began at \<open>start\<close> returns: the first match in cyclic order, or, when no
  entry matches, the entry it started from.\<close>

definition find_result ::
  "(pb_field \<Rightarrow> bool) \<Rightarrow> pb_field list \<Rightarrow> addr \<Rightarrow> nat \<Rightarrow> bool \<times> pb_iter \<Rightarrow> bool" where
  "find_result match fs d start r =
     (case r of (b, it') \<Rightarrow>
        canonical it' \<and> it_start it' = fs \<and> it_dest it' = d \<and>
        (if b then (\<exists>k < length fs. it_pos it' = (start + k) mod length fs \<and>
            match (it_field it') \<and> (\<forall>e < k. \<not> match (fs ! ((start + e) mod length fs))))
         else it_pos it' = start \<and> (\<forall>f \<in> set fs. \<not> match f)))"

lemma iter_find_loop_spec:
  assumes "canonical it" and "start < length (it_start it)"
    and "d \<le> length (it_start it)" and "length (it_start it) \<le> d + k" and "d < length (it_start it)"
    and "it_pos it = (start + d) mod length (it_start it)"
    and "\<And>e. e < d \<Longrightarrow> \<not> match (it_start it ! ((start + e) mod length (it_start it)))"
  shows "\<exists>r. iter_find_loop k match start it = Some r \<and>
     find_result match (it_start it) (it_dest it) start r"
  using assms
proof (induction k arbitrary: it d)
  case 0
  then show ?case by simp
next
  case (Suc k)
  let ?fs = "it_start it" and ?n = "length (it_start it)"
  let ?it' = "snd (pb_field_iter_next it)"
  have n: "0 < ?n" using Suc.prems by auto
  have field: "it_field it = ?fs ! ((start + d) mod ?n)"
    using Suc.prems n by (simp add: it_field_def field_at_def)
  have can: "canonical ?it'" using Suc.prems(1) by (rule canonical_next)
  have pos': "it_pos ?it' = (start + Suc d) mod ?n"
    using Suc.prems next_pos(1) [of it] by (simp add: canonical_def mod_Suc_eq)
  show ?case
  proof (cases "match (it_field it)")
    case True
    then show ?thesis using Suc.prems by (auto simp: find_result_def intro!: exI [of _ d])
  next
    case nomatch: False
    have upto: "\<not> match (?fs ! ((start + e) mod ?n))" if "e < Suc d" for e
      using that Suc.prems(7) nomatch field by (cases "e = d") auto
    show ?thesis
    proof (cases "Suc d = ?n")
      case True
      then have "it_pos ?it' = start" using Suc.prems(2) unfolding pos' by (simp only: mod_add_self2 mod_less)
      moreover have "\<not> match f" if fin: "f \<in> set ?fs" for f
      proof -
        obtain j where j: "j < ?n" "f = ?fs ! j" using fin by (auto simp: in_set_conv_nth)
        let ?e = "(j + (?n - start)) mod ?n"
        have "(start + ?e) mod ?n = (start + (j + (?n - start))) mod ?n" by (simp add: mod_add_right_eq)
        also have "start + (j + (?n - start)) = j + ?n" using Suc.prems(2) by linarith
        also have "(j + ?n) mod ?n = j" using j(1) by simp
        finally have "(start + ?e) mod ?n = j" .
        moreover have "?e < Suc d" using n by (subst True) (rule mod_less_divisor)
        ultimately show ?thesis using upto [of ?e] j by simp
      qed
      ultimately show ?thesis using nomatch can by (auto simp: Let_def find_result_def)
    next
      case False
      then have lt: "Suc d < ?n" using Suc.prems by simp
      have "(start + Suc d) mod ?n \<noteq> start"
      proof (cases "start + Suc d < ?n")
        case True
        then show ?thesis by simp
      next
        case False
        then have "(start + Suc d) mod ?n = start + Suc d - ?n"
          using lt Suc.prems(2) by (simp add: mod_if)
        then show ?thesis using lt False by linarith
      qed
      then have "it_pos ?it' \<noteq> start" using pos' by simp
      moreover have "\<exists>r. iter_find_loop k match start ?it' = Some r \<and>
          find_result match (it_start ?it') (it_dest ?it') start r"
        using can pos' upto Suc.prems lt by (intro Suc.IH [where d = "Suc d"]) auto
      ultimately show ?thesis using nomatch by (auto simp: Let_def)
    qed
  qed
qed

text \<open>The search stops, keeps the iterator canonical, and returns the first match in cyclic order
  from the current entry; it fails exactly when no entry matches, back at the entry it started from.\<close>

lemma iter_find_spec:
  assumes "canonical it"
  shows "\<exists>r. iter_find match it = Some r \<and>
     find_result match (it_start it) (it_dest it) (it_pos it) r"
proof -
  have "it_pos it < length (it_start it)" using assms by (simp only: canonical_def)
  then show ?thesis unfolding iter_find_def
    by (intro iter_find_loop_spec [where d = 0] assms) auto
qed

lemma iter_find_result:
  assumes "canonical it" and "iter_find match it = Some r"
  shows "find_result match (it_start it) (it_dest it) (it_pos it) r"
  using iter_find_spec [OF assms(1), of match] assms(2) by auto

lemma iter_find_canonical:
  "canonical it \<Longrightarrow> iter_find match it = Some (b, it') \<Longrightarrow>
     canonical it' \<and> it_start it' = it_start it \<and> it_dest it' = it_dest it"
  by (drule (1) iter_find_result) (simp add: find_result_def)

lemma canonical_unique:
  assumes "canonical a" "canonical b" "it_start a = it_start b" "it_dest a = it_dest b"
    "it_pos a = it_pos b"
  shows "a = b"
  using assms unfolding canonical_def by metis

section \<open>The required-field index\<close>

definition req_count :: "pb_field list \<Rightarrow> nat" where
  "req_count fs = length (filter (\<lambda>f. PB_HTYPE (f_type f) = PB_HTYPE_REQUIRED) fs)"

lemma req_count_snoc:
  "req_count (xs @ [f]) = req_count xs + (if PB_HTYPE (f_type f) = PB_HTYPE_REQUIRED then 1 else 0)"
  by (simp add: req_count_def)

lemma iter_at_req:
  assumes "wf_fields fs" and "p < length fs"
  shows "it_req (iter_at fs d p) = of_nat (req_count (take p fs))"
  using assms
proof (induction p)
  case 0
  then show ?case by (simp add: req_count_def)
next
  case (Suc p)
  let ?it = "iter_at fs d p"
  have pos: "it_pos ?it = p" using Suc.prems by (simp add: iter_at_pos)
  have field: "it_field ?it = fs ! p" using Suc.prems pos by (simp add: it_field_def field_at_def)
  have nz: "f_tag (fs ! p) \<noteq> 0" "f_tag (field_at fs (Suc p)) \<noteq> 0"
    using Suc.prems field_at_tag_zero [of fs p] field_at_tag_zero [of fs "Suc p"]
    by (simp_all add: field_at_def)
  have "it_req (snd (pb_field_iter_next ?it)) =
      it_req ?it + (if PB_HTYPE (f_type (fs ! p)) = PB_HTYPE_REQUIRED then 1 else 0)"
    using nz pos field by (auto simp: pb_field_iter_next_def Let_def it_field_def)
  then show ?case using Suc
    by (simp add: take_Suc_conv_app_nth req_count_snoc del: iter_at.simps) simp
qed

text \<open>A descriptor table whose submessages nest at most \<open>n\<close> deep, with no extension field, with
  every type code valid and a \<open>which_\<close> member for every \<open>oneof\<close>.\<close>

fun table_ok :: "nat \<Rightarrow> pb_env \<Rightarrow> pb_field list \<Rightarrow> bool" where
  "table_ok 0 env fs \<longleftrightarrow> False"
| "table_ok (Suc n) env fs \<longleftrightarrow> wf_fields fs \<and>
     (\<forall>f \<in> set fs. PB_LTYPE (f_type f) \<noteq> PB_LTYPE_EXTENSION \<and>
        PB_LTYPE (f_type f) \<le> PB_LTYPE_FIXED_LENGTH_BYTES \<and>
        (PB_HTYPE (f_type f) = PB_HTYPE_ONEOF \<longrightarrow> f_size_offset f \<noteq> 0) \<and>
        (PB_LTYPE (f_type f) = PB_LTYPE_SUBMESSAGE \<longrightarrow> table_ok n env (e_fields env (f_ptr f))))"

lemma table_ok_wf: "table_ok n env fs \<Longrightarrow> wf_fields fs"
  by (cases n) simp_all

lemma iters_field: "wf_fields fs \<Longrightarrow> it \<in> set (iters fs d) \<Longrightarrow> it_field it \<in> set fs"
  by (auto simp: iters_eq it_field_def field_at_def iter_at_pos)

section \<open>Properties\<close>

text \<open>C7. A \<^verbatim>\<open>do ... while (pb_field_iter_next(&iter))\<close> loop over a descriptor array
  visits every entry exactly once and in order, and at entry \<open>p\<close> the iterator's required-field
  index is the number of required entries before it.\<close>

theorem iteration_visits_all:
  assumes "wf_fields fs"
  shows "map it_pos (iters fs d) = [0..<length fs] \<and> map it_field (iters fs d) = fs \<and>
    (\<forall>it \<in> set (iters fs d). it_req it = of_nat (req_count (take (it_pos it) fs)))"
proof (intro conjI)
  show "map it_pos (iters fs d) = [0..<length fs]"
    using assms by (auto simp: iters_eq iter_at_pos intro: map_idI)
  show "map it_field (iters fs d) = fs"
    using assms by (intro nth_equalityI) (auto simp: iters_eq it_field_def iter_at_pos field_at_def)
  show "\<forall>it \<in> set (iters fs d). it_req it = of_nat (req_count (take (it_pos it) fs))"
    using assms by (auto simp: iters_eq iter_at_req iter_at_pos)
qed

text \<open>Two small descriptor tables, for examples: a message with a required, an optional and a
  repeated scalar, and one that holds it as a submessage.\<close>

definition example_inner :: "pb_field list" where
  "example_inner =
     [\<lparr>f_tag = 1, f_type = PB_HTYPE_REQUIRED OR PB_LTYPE_UVARINT, f_data_offset = 0, f_size_offset = 0,
       f_data_size = 4, f_array_size = 0, f_ptr = 0\<rparr>,
      \<lparr>f_tag = 2, f_type = PB_HTYPE_OPTIONAL OR PB_LTYPE_SVARINT, f_data_offset = 4, f_size_offset = - 4,
       f_data_size = 4, f_array_size = 0, f_ptr = 0\<rparr>,
      \<lparr>f_tag = 5, f_type = PB_HTYPE_REPEATED OR PB_LTYPE_FIXED32, f_data_offset = 4, f_size_offset = - 4,
       f_data_size = 4, f_array_size = 2, f_ptr = 0\<rparr>]"

definition example_outer :: "pb_field list" where
  "example_outer =
     [\<lparr>f_tag = 1, f_type = PB_HTYPE_REQUIRED OR PB_LTYPE_SUBMESSAGE, f_data_offset = 0,
       f_size_offset = 0, f_data_size = 24, f_array_size = 0, f_ptr = 4096\<rparr>]"

definition example_env :: pb_env where
  "example_env = plain_env (\<lambda>a. if a = 4096 then example_inner else []) (\<lambda>_ _. None)"

lemma example_tables:
  "wf_fields example_inner" "wf_fields example_outer" "table_ok (Suc 0) example_env example_inner"
  "table_ok (Suc (Suc 0)) example_env example_outer" "length example_inner = Suc (Suc (Suc 0))"
  by (simp_all add: wf_fields_def example_inner_def example_outer_def PB_LTYPE_def PB_HTYPE_def
      example_env_def plain_env_def)

lemma iteration_visits_all_witness:
  "map it_field (iters example_inner 256) = example_inner \<and> map it_pos (iters example_inner 256) = [0..<3]"
  using iteration_visits_all [OF example_tables(1), of 256]
  by (simp add: example_tables(5) upt_rec)

text \<open>C4. \<^verbatim>\<open>pb_field_iter_find\<close> from entry \<open>p\<close> always returns.  It returns true at the first
  entry in cyclic order that has the tag and is not of the extension type, and false, with the iterator
  back at \<open>p\<close>, exactly when no entry is such; either way the data and size pointers are those of the
  entry it stops at.\<close>

theorem field_find_correct:
  assumes "wf_fields fs" and "p < length fs"
  shows "\<exists>b q. pb_field_iter_find (iter_at fs d p) tag = Some (b, iter_at fs d q) \<and>
    (if b then (\<exists>k < length fs. q = (p + k) mod length fs \<and>
        f_tag (fs ! q) = tag \<and> PB_LTYPE (f_type (fs ! q)) \<noteq> PB_LTYPE_EXTENSION \<and>
        (\<forall>e < k. let f = fs ! ((p + e) mod length fs) in f_tag f = tag \<longrightarrow> PB_LTYPE (f_type f) = PB_LTYPE_EXTENSION))
     else q = p \<and> (\<forall>f \<in> set fs. f_tag f = tag \<longrightarrow> PB_LTYPE (f_type f) = PB_LTYPE_EXTENSION))"
proof -
  have can: "canonical (iter_at fs d p)" using assms by (rule canonical_iter_at)
  obtain b it' where r: "pb_field_iter_find (iter_at fs d p) tag = Some (b, it')"
    and spec: "find_result (tag_match tag) fs d p (b, it')"
    using iter_find_spec [OF can, of "tag_match tag"] iter_at_pos [OF assms]
    by (auto simp: pb_field_iter_find_def)
  from spec have it': "it' = iter_at fs d (it_pos it')" "it_pos it' < length fs"
    "it_field it' = fs ! it_pos it'"
    by (auto simp only: find_result_def canonical_def prod.case it_field_def field_at_def if_True)
  show ?thesis
    using spec r it' unfolding find_result_def prod.case tag_match_def Let_def
    by (intro exI [of _ b] exI [of _ "it_pos it'"]) (auto split: if_splits)
qed

text \<open>A search from the last of three entries wraps around and finds the second; with the extension type the
  entry is not found.\<close>

definition example_extension :: "pb_field list" where
  "example_extension = [\<lparr>f_tag = 2, f_type = PB_LTYPE_EXTENSION, f_data_offset = 0, f_size_offset = 0,
     f_data_size = 8, f_array_size = 0, f_ptr = 0\<rparr>]"

lemma field_find_correct_witness:
  "pb_field_iter_find (iter_at example_inner 256 2) 2 = Some (True, iter_at example_inner 256 1) \<and>
   pb_field_iter_find (iter_at example_extension 256 0) 2 = Some (False, iter_at example_extension 256 0)"
proof
  have len: "2 < length example_inner" by (simp add: example_tables(5))
  have mem: "example_inner ! 1 \<in> set example_inner" by (rule nth_mem) (simp add: example_tables(5))
  have k: "k < length example_inner \<longleftrightarrow> k = 0 \<or> k = 1 \<or> k = 2" for k
    by (auto simp: example_tables(5))
  have one: "f_tag (example_inner ! 1) = 2" "PB_LTYPE (f_type (example_inner ! 1)) \<noteq> PB_LTYPE_EXTENSION"
    "f_tag (example_inner ! 0) \<noteq> 2" "f_tag (example_inner ! 2) \<noteq> 2"
    by (simp_all add: example_inner_def PB_LTYPE_def)
  from field_find_correct [OF example_tables(1) len, of 256 2] obtain b q where
    find: "pb_field_iter_find (iter_at example_inner 256 2) 2 = Some (b, iter_at example_inner 256 q)"
    and r: "if b then (\<exists>k < length example_inner. q = (2 + k) mod length example_inner \<and> f_tag (example_inner ! q) = 2)
     else (\<forall>f \<in> set example_inner. f_tag f = 2 \<longrightarrow> PB_LTYPE (f_type f) = PB_LTYPE_EXTENSION)"
    by (metis (no_types, lifting))
  have b using r one(1,2) mem by (auto split: if_splits)
  then obtain j where "j = 0 \<or> j = 1 \<or> j = 2" "q = (2 + j) mod length example_inner" "f_tag (example_inner ! q) = 2"
    using r k by auto
  then have "q = 1" using one(3,4) by (auto simp: example_tables(5) numeral_2_eq_2)
  with find \<open>b\<close> show "pb_field_iter_find (iter_at example_inner 256 2) 2 = Some (True, iter_at example_inner 256 1)" by simp
next
  have wf: "wf_fields example_extension" "0 < length example_extension" by (simp_all add: wf_fields_def example_extension_def)
  have ext: "PB_LTYPE (f_type f) = PB_LTYPE_EXTENSION" if "f \<in> set example_extension" for f
    using that by (simp add: example_extension_def PB_LTYPE_def)
  have nth: "example_extension ! q \<in> set example_extension" if "q < length example_extension" for q using that by (rule nth_mem)
  from field_find_correct [OF wf, of 256 2] obtain b q where
    find: "pb_field_iter_find (iter_at example_extension 256 0) 2 = Some (b, iter_at example_extension 256 q)"
    and r: "if b then (\<exists>k < length example_extension. q = (0 + k) mod length example_extension \<and>
        PB_LTYPE (f_type (example_extension ! q)) \<noteq> PB_LTYPE_EXTENSION) else q = 0"
    by (metis (no_types, lifting))
  have "\<not> b"
  proof
    assume b
    then obtain j where "j < length example_extension" "q = (0 + j) mod length example_extension"
      "PB_LTYPE (f_type (example_extension ! q)) \<noteq> PB_LTYPE_EXTENSION" using r by auto
    then show False using ext nth by simp
  qed
  then show "pb_field_iter_find (iter_at example_extension 256 0) 2 = Some (False, iter_at example_extension 256 0)"
    using find r by simp
qed

end
