(* ===== verification/Pb_Ostream.thy ===== *)
theory Pb_Ostream
  imports Pb_Types
begin

text \<open>
  The output streams of \<^verbatim>\<open>pb_encode.c\<close> and the encoders of single values: writing
  through a stream callback, varints, zigzag, fixed-width words, tags and length-prefixed strings.
  The interface \<open>sink\<close> is what the encoders rely on in a stream callback; inside it each
  encoder is shown to emit a byte string that depends on its arguments only, the same for a sizing
  stream and for a stream with room.
\<close>

section \<open>Writing\<close>

definition buf_write :: "pb_ostream \<Rightarrow> u8 list \<Rightarrow> u64 \<Rightarrow> bool \<times> pb_ostream" where
  "buf_write s buf count =
     (True, s\<lparr>o_state := o_state s + count,
              o_mem := write_bytes (o_mem s) (o_state s) (take (unat count) buf)\<rparr>)"

definition pb_ostream_from_buffer :: "addr \<Rightarrow> u64 \<Rightarrow> mem \<Rightarrow> pb_ostream" where
  "pb_ostream_from_buffer buf bufsize m =
     \<lparr>o_callback = OBufWrite, o_state = buf, o_max_size = bufsize, o_bytes_written = 0,
      o_errmsg = None, o_mem = m\<rparr>"

definition PB_OSTREAM_SIZING :: "pb_ostream" where
  "PB_OSTREAM_SIZING =
     \<lparr>o_callback = ONull, o_state = 0, o_max_size = 0, o_bytes_written = 0, o_errmsg = None,
      o_mem = (\<lambda>_. 0)\<rparr>"

lemma sizing_fields [simp]:
  "o_callback PB_OSTREAM_SIZING = ONull" "o_bytes_written PB_OSTREAM_SIZING = 0"
  "o_errmsg PB_OSTREAM_SIZING = None"
  by (simp_all add: PB_OSTREAM_SIZING_def)

text \<open>The call \<^verbatim>\<open>stream->callback(stream, buf, count)\<close>.\<close>

definition call_write :: "pb_env \<Rightarrow> pb_ostream \<Rightarrow> u8 list \<Rightarrow> u64 \<Rightarrow> bool \<times> pb_ostream" where
  "call_write env s buf count =
     (case o_callback s of
        ONull \<Rightarrow> (False, s)
      | OBufWrite \<Rightarrow> buf_write s buf count
      | OUser f \<Rightarrow>
          (case e_write env f (o_state s) (take (unat count) buf) (o_mem s) of
             (ok, st, m) \<Rightarrow> (ok, s\<lparr>o_state := st, o_mem := m\<rparr>)))"

definition pb_write :: "pb_env \<Rightarrow> pb_ostream \<Rightarrow> u8 list \<Rightarrow> u64 \<Rightarrow> bool \<times> pb_ostream" where
  "pb_write env s buf count =
     (if count > 0 \<and> o_callback s \<noteq> ONull then
        (if o_bytes_written s + count > o_max_size s then o_error s ''stream full''
         else case call_write env s buf count of
                (ok, s') \<Rightarrow>
                  if \<not> ok then o_error s' ''io error''
                  else (True, s'\<lparr>o_bytes_written := o_bytes_written s' + count\<rparr>))
      else (True, s\<lparr>o_bytes_written := o_bytes_written s + count\<rparr>))"

section \<open>Encoders of single values\<close>

text \<open>\<^verbatim>\<open>while (value) { buffer[i] = (value & 0x7F) | 0x80; value >>= 7; i++; }\<close>\<close>

function varint_loop :: "u64 \<Rightarrow> u8 list" where
  "varint_loop v =
     (if v = 0 then [] else ucast ((v AND 0x7F) OR 0x80) # varint_loop (drop_bit 7 v))"
  by pat_completeness auto
termination
proof (relation "measure unat")
  fix v :: u64 assume "v \<noteq> 0"
  then show "(drop_bit 7 v, v) \<in> measure unat" by (simp add: drop_bit_less)
qed simp

declare varint_loop.simps [simp del]

definition pb_encode_varint :: "pb_env \<Rightarrow> pb_ostream \<Rightarrow> u64 \<Rightarrow> bool \<times> pb_ostream" where
  "pb_encode_varint env s value =
     (if value \<le> 0x7F then pb_write env s [ucast value] 1
      else let buffer = varint_loop value; i = length buffer in
           pb_write env s (buffer[i - 1 := buffer ! (i - 1) AND 0x7F]) (of_nat i))"

definition zigzag :: "u64 \<Rightarrow> u64" where
  "zigzag value = (if sint value < 0 then NOT (push_bit 1 value) else push_bit 1 value)"

definition pb_encode_svarint :: "pb_env \<Rightarrow> pb_ostream \<Rightarrow> u64 \<Rightarrow> bool \<times> pb_ostream" where
  "pb_encode_svarint env s value = pb_encode_varint env s (zigzag value)"

definition pb_encode_fixed32 :: "pb_env \<Rightarrow> mem \<Rightarrow> pb_ostream \<Rightarrow> addr \<Rightarrow> bool \<times> pb_ostream" where
  "pb_encode_fixed32 env m s value =
     (let val = load_u32 m value in
      pb_write env s
        [ucast (val AND 0xFF), ucast (drop_bit 8 val AND 0xFF),
         ucast (drop_bit 16 val AND 0xFF), ucast (drop_bit 24 val AND 0xFF)] 4)"

definition pb_encode_fixed64 :: "pb_env \<Rightarrow> mem \<Rightarrow> pb_ostream \<Rightarrow> addr \<Rightarrow> bool \<times> pb_ostream" where
  "pb_encode_fixed64 env m s value =
     (let val = load_u64 m value in
      pb_write env s
        [ucast (val AND 0xFF), ucast (drop_bit 8 val AND 0xFF),
         ucast (drop_bit 16 val AND 0xFF), ucast (drop_bit 24 val AND 0xFF),
         ucast (drop_bit 32 val AND 0xFF), ucast (drop_bit 40 val AND 0xFF),
         ucast (drop_bit 48 val AND 0xFF), ucast (drop_bit 56 val AND 0xFF)] 8)"

definition pb_encode_tag :: "pb_env \<Rightarrow> pb_ostream \<Rightarrow> pb_wire_type \<Rightarrow> u32 \<Rightarrow> bool \<times> pb_ostream" where
  "pb_encode_tag env s wiretype field_number =
     pb_encode_varint env s (push_bit 3 (ucast field_number) OR ucast wiretype)"

definition wire_type_of :: "u8 \<Rightarrow> pb_wire_type option" where
  "wire_type_of ltype =
     (if ltype \<in> {PB_LTYPE_BOOL, PB_LTYPE_VARINT, PB_LTYPE_UVARINT, PB_LTYPE_SVARINT}
      then Some PB_WT_VARINT
      else if ltype = PB_LTYPE_FIXED32 then Some PB_WT_32BIT
      else if ltype = PB_LTYPE_FIXED64 then Some PB_WT_64BIT
      else if ltype \<in> {PB_LTYPE_BYTES, PB_LTYPE_STRING, PB_LTYPE_SUBMESSAGE,
                        PB_LTYPE_FIXED_LENGTH_BYTES}
      then Some PB_WT_STRING
      else None)"

definition pb_encode_tag_for_field ::
  "pb_env \<Rightarrow> pb_ostream \<Rightarrow> pb_field \<Rightarrow> bool \<times> pb_ostream" where
  "pb_encode_tag_for_field env s field =
     (case wire_type_of (PB_LTYPE (f_type field)) of
        None \<Rightarrow> o_error s ''invalid field type''
      | Some wiretype \<Rightarrow> pb_encode_tag env s wiretype (f_tag field))"

text \<open>\<open>buffer\<close>: the first \<open>sz\<close> bytes the pointer argument points at.\<close>

definition pb_encode_string :: "pb_env \<Rightarrow> pb_ostream \<Rightarrow> u8 list \<Rightarrow> u64 \<Rightarrow> bool \<times> pb_ostream" where
  "pb_encode_string env s buffer sz =
     and_then (pb_encode_varint env s sz) (\<lambda>s. pb_write env s buffer sz)"

section \<open>Varints\<close>

text \<open>The base-128 encoding of a number, least significant group first.\<close>

fun leb128 :: "nat \<Rightarrow> u8 list" where
  "leb128 n = (if n < 128 then [of_nat n] else of_nat (n mod 128 + 128) # leb128 (n div 128))"

declare leb128.simps [simp del]

lemma cont_byte: "(ucast ((v AND 0x7F) OR 0x80 :: u64) :: u8) = of_nat (unat v mod 128 + 128)"
proof (rule u8_eqI)
  have lt: "unat v mod 128 + 128 < 256" by (simp add: trans_less_add1)
  have "unat ((v AND 0x7F) OR 0x80) = unat v mod 128 + 128"
    using lt by (simp add: or_80 unat_word_ariths unat_and_7F)
  then show "unat (ucast ((v AND 0x7F) OR 0x80) :: u8) = unat (of_nat (unat v mod 128 + 128) :: u8)"
    using lt unat_of_nat_u8 [OF lt] by (simp add: unat_ucast_u8)
qed

lemma stop_byte: "n < 128 \<Longrightarrow> (of_nat (n + 128) AND 0x7F :: u8) = of_nat n"
  by (rule u8_eqI) (simp only: unat_and_7F unat_of_nat_u8, simp)

lemma varint_loop_leb128:
  "v \<noteq> 0 \<Longrightarrow> (varint_loop v)[length (varint_loop v) - 1 := varint_loop v ! (length (varint_loop v) - 1) AND 0x7F]
     = leb128 (unat v)"
proof (induction v rule: varint_loop.induct)
  case (1 v)
  have tl: "varint_loop v = of_nat (unat v mod 128 + 128) # varint_loop (drop_bit 7 v)"
    using 1(2) by (subst varint_loop.simps) (simp only: cont_byte if_False)
  have d: "unat (drop_bit 7 v) = unat v div 128" using unat_drop_bit [of 7 v] by simp
  show ?case
  proof (cases "drop_bit 7 v = 0")
    case True
    then have "unat v < 128" using d by (metis div_eq_0_iff unat_0 zero_neq_numeral)
    moreover have "varint_loop (drop_bit 7 v) = []" unfolding True by (subst varint_loop.simps) simp
    ultimately show ?thesis using stop_byte [of "unat v"]
      by (simp only: tl leb128.simps [of "unat v"]) simp
  next
    case False
    then have "128 \<le> unat v" using d by (metis div_less not_less unat_0 word_unat_eq_iff)
    moreover have "varint_loop (drop_bit 7 v) \<noteq> []" using False by (subst varint_loop.simps) simp
    ultimately show ?thesis using 1(1) [OF 1(2) False]
      by (simp only: tl leb128.simps [of "unat v"]) (auto simp: d neq_Nil_conv)
  qed
qed
lemma pb_encode_varint_eq:
  "pb_encode_varint env s v = pb_write env s (leb128 (unat v)) (of_nat (length (leb128 (unat v))))"
proof (cases "v \<le> 0x7F")
  case True
  then have "unat v < 128" by (simp add: word_le_nat_alt)
  moreover then have "(ucast v :: u8) = of_nat (unat v)"
    by (intro u8_eqI) (simp add: unat_ucast_u8 unat_of_nat_u8)
  ultimately show ?thesis using True by (simp add: pb_encode_varint_def leb128.simps)
next
  case False
  then have "v \<noteq> 0" by auto
  with varint_loop_leb128 [of v] False show ?thesis
    by (simp add: pb_encode_varint_def Let_def) (metis length_list_update)
qed

lemma length_leb128: "n < 128 ^ k \<Longrightarrow> 0 < k \<Longrightarrow> length (leb128 n) \<le> k"
proof (induction k arbitrary: n)
  case 0
  then show ?case by simp
next
  case (Suc k)
  show ?case
  proof (cases "n < 128")
    case True
    then show ?thesis by (simp add: leb128.simps)
  next
    case False
    then have "0 < k" using Suc.prems by (cases k) auto
    moreover have "n div 128 < 128 ^ k"
      using Suc.prems by (simp add: less_mult_imp_div_less mult.commute)
    ultimately have "length (leb128 (n div 128)) \<le> k" by (intro Suc.IH)
    then show ?thesis using False by (subst leb128.simps) simp
  qed
qed

lemma length_leb128_u64: "length (leb128 (unat (v :: u64))) \<le> 10"
  by (rule length_leb128, rule less_trans [OF u64_less]) simp_all

lemma leb128_nonempty [simp]: "leb128 n \<noteq> []"
  by (subst leb128.simps) simp

section \<open>What an encoder emits\<close>

text \<open>A sizing stream only counts; a stream whose callback appends with \<open>put\<close> (on its state
  word and memory) advances.\<close>

definition sized :: "pb_ostream \<Rightarrow> nat \<Rightarrow> pb_ostream" where
  "sized s n = s\<lparr>o_bytes_written := o_bytes_written s + of_nat n\<rparr>"

definition advance ::
  "(addr \<times> mem \<Rightarrow> u8 list \<Rightarrow> addr \<times> mem) \<Rightarrow> pb_ostream \<Rightarrow> u8 list \<Rightarrow> pb_ostream" where
  "advance put s bs =
     s\<lparr>o_state := fst (put (o_state s, o_mem s) bs), o_mem := snd (put (o_state s, o_mem s) bs),
       o_bytes_written := o_bytes_written s + of_nat (length bs)\<rparr>"

definition room :: "pb_ostream \<Rightarrow> nat \<Rightarrow> bool" where
  "room s n \<longleftrightarrow> unat (o_bytes_written s) + n \<le> unat (o_max_size s)"

lemma room_less: "room s n \<Longrightarrow> unat (o_bytes_written s) + n < 2 ^ 64"
  using le_less_trans [OF _ u64_less [of "o_max_size s"]] by (simp add: room_def)

text \<open>\<open>emits\<close>: the encoder \<open>F\<close> produces the bytes \<open>bs\<close> and ends with \<open>ok\<close> and message \<open>e\<close>,
  on a sizing stream and on any stream with callback \<open>cb\<close> and room for them; without room it
  returns false after a prefix of \<open>bs\<close>, still within \<open>max_size\<close>.\<close>

definition emits ::
  "ocallback \<Rightarrow> (addr \<times> mem \<Rightarrow> u8 list \<Rightarrow> addr \<times> mem) \<Rightarrow>
   (pb_ostream \<Rightarrow> (bool \<times> pb_ostream) option) \<Rightarrow> bool \<Rightarrow> u8 list \<Rightarrow> string option \<Rightarrow> bool" where
  "emits cb put F ok bs e \<longleftrightarrow>
     (ok \<longrightarrow> e = None) \<and>
     (\<forall>s. o_callback s = ONull \<and> o_errmsg s = None \<longrightarrow>
        F s = Some (ok, (sized s (length bs))\<lparr>o_errmsg := e\<rparr>)) \<and>
     (\<forall>s. o_callback s = cb \<and> o_errmsg s = None \<and> room s 0 \<and>
          unat (o_bytes_written s) + length bs < 2 ^ 64 \<longrightarrow>
        (if room s (length bs) then F s = Some (ok, (advance put s bs)\<lparr>o_errmsg := e\<rparr>)
         else \<exists>k e'. k < length bs \<and> room s k \<and>
                F s = Some (False, (advance put s (take k bs))\<lparr>o_errmsg := e'\<rparr>)))"

definition uniform ::
  "ocallback \<Rightarrow> (addr \<times> mem \<Rightarrow> u8 list \<Rightarrow> addr \<times> mem) \<Rightarrow>
   (pb_ostream \<Rightarrow> (bool \<times> pb_ostream) option) \<Rightarrow> bool" where
  "uniform cb put F \<longleftrightarrow> (\<exists>ok bs e. emits cb put F ok bs e) \<or>
     (\<forall>s. o_callback s = ONull \<and> o_errmsg s = None \<longrightarrow> F s = None)"

lemma emitsD_sizing:
  "emits cb put F ok bs e \<Longrightarrow> o_callback s = ONull \<Longrightarrow> o_errmsg s = None \<Longrightarrow>
     F s = Some (ok, (sized s (length bs))\<lparr>o_errmsg := e\<rparr>)"
  by (simp add: emits_def)

lemma emitsD_room:
  assumes "emits cb put F ok bs e" "o_callback s = cb" "o_errmsg s = None" "room s (length bs)"
  shows "F s = Some (ok, (advance put s bs)\<lparr>o_errmsg := e\<rparr>)"
proof -
  have "unat (o_bytes_written s) + length bs < 2 ^ 64" using assms(4) by (rule room_less)
  moreover have "room s 0" using assms(4) by (simp add: room_def)
  ultimately show ?thesis using assms by (simp add: emits_def)
qed

lemma emitsD_full:
  assumes "emits cb put F ok bs e" "o_callback s = cb" "o_errmsg s = None" "room s 0"
    "\<not> room s (length bs)" "unat (o_bytes_written s) + length bs < 2 ^ 64"
  obtains k e' where "k < length bs" "room s k"
    "F s = Some (False, (advance put s (take k bs))\<lparr>o_errmsg := e'\<rparr>)"
proof -
  have "\<exists>k e'. k < length bs \<and> room s k \<and>
      F s = Some (False, (advance put s (take k bs))\<lparr>o_errmsg := e'\<rparr>)"
    using assms(1) unfolding emits_def using assms(2-6) by auto
  then show thesis using that by blast
qed

lemma uniformI [intro]: "emits cb put F ok bs e \<Longrightarrow> uniform cb put F"
  unfolding uniform_def by blast

lemma uniform_if:
  "(b \<Longrightarrow> uniform cb put F) \<Longrightarrow> (\<not> b \<Longrightarrow> uniform cb put G) \<Longrightarrow>
     uniform cb put (\<lambda>s. if b then F s else G s)"
  by (cases b) simp_all

lemma uniform_Some_if:
  "(b \<Longrightarrow> uniform cb put (\<lambda>s. Some (F s))) \<Longrightarrow>
   (\<not> b \<Longrightarrow> uniform cb put (\<lambda>s. Some (G s))) \<Longrightarrow>
     uniform cb put (\<lambda>s. Some (if b then F s else G s))"
  by (cases b) simp_all

lemma uniform_Some_case:
  "uniform cb put (\<lambda>s. Some (F s)) \<Longrightarrow> (\<And>v. uniform cb put (\<lambda>s. Some (G v s))) \<Longrightarrow>
     uniform cb put (\<lambda>s. Some (case x of None \<Rightarrow> F s | Some v \<Rightarrow> G v s))"
  by (cases x) simp_all

lemma errmsg_id [simp]: "o_errmsg s = e \<Longrightarrow> s\<lparr>o_errmsg := e\<rparr> = s"
  by simp

lemma advance_fields [simp]:
  "o_callback (advance put s bs) = o_callback s"
  "o_errmsg (advance put s bs) = o_errmsg s"
  "o_max_size (advance put s bs) = o_max_size s"
  "o_bytes_written (advance put s bs) = o_bytes_written s + of_nat (length bs)"
  "o_state (advance put s bs) = fst (put (o_state s, o_mem s) bs)"
  "o_mem (advance put s bs) = snd (put (o_state s, o_mem s) bs)"
  by (simp_all add: advance_def)

lemma sized_fields [simp]:
  "o_callback (sized s n) = o_callback s"
  "o_errmsg (sized s n) = o_errmsg s"
  "o_bytes_written (sized s n) = o_bytes_written s + of_nat n"
  by (simp_all add: sized_def)

lemma sized_sized: "sized (sized s a) b = sized s (a + b)"
  by (simp add: sized_def)

lemma sized_0 [simp]: "sized s 0 = s"
  by (simp add: sized_def)

text \<open>What the encoders rely on in a stream callback.\<close>

locale sink =
  fixes env :: pb_env
    and cb :: ocallback
    and put :: "addr \<times> mem \<Rightarrow> u8 list \<Rightarrow> addr \<times> mem"
  assumes real: "cb \<noteq> ONull"
    and call_put: "o_callback s = cb \<Longrightarrow> length bs < 2 ^ 64 \<Longrightarrow>
      call_write env s bs (of_nat (length bs)) =
        (True, s\<lparr>o_state := fst (put (o_state s, o_mem s) bs),
                 o_mem := snd (put (o_state s, o_mem s) bs)\<rparr>)"
    and put_Nil: "put p [] = p"
    and put_append: "put p (a @ b) = put (put p a) b"
begin

lemma advance_Nil [simp]: "advance put s [] = s"
  by (simp add: advance_def put_Nil)

lemma advance_append: "advance put (advance put s a) b = advance put s (a @ b)"
  by (simp add: advance_def put_append)

lemma room_advance:
  assumes "room s (length a)"
  shows "unat (o_bytes_written (advance put s a)) = unat (o_bytes_written s) + length a"
    and "room (advance put s a) n \<longleftrightarrow> room s (length a + n)"
proof -
  have "unat (o_bytes_written s) + length a < 2 ^ 64" using assms by (rule room_less)
  then show *: "unat (o_bytes_written (advance put s a)) = unat (o_bytes_written s) + length a"
    by (simp add: unat_word_ariths)
  show "room (advance put s a) n \<longleftrightarrow> room s (length a + n)"
    using * by (simp add: room_def add.assoc)
qed

lemma emits_return: "emits cb put (\<lambda>s. Some (True, s)) True [] None"
  by (auto simp: emits_def)

lemma emits_error: "emits cb put (\<lambda>s. Some (o_error s msg)) False [] (Some msg)"
  by (auto simp: emits_def o_error_def set_error_def)

text \<open>Sequencing: the bytes are concatenated, a failure ends the sequence.\<close>

lemma emits_seq:
  assumes F: "emits cb put F True a None" and G: "emits cb put G ok b e"
  shows "emits cb put (\<lambda>s. and_then_opt (F s) G) ok (a @ b) e"
  unfolding emits_def
proof (intro conjI allI impI)
  show "ok \<Longrightarrow> e = None" using G by (simp add: emits_def)
next
  fix s :: pb_ostream assume s: "o_callback s = ONull \<and> o_errmsg s = None"
  then have "F s = Some (True, sized s (length a))" using emitsD_sizing [OF F, of s] by simp
  then show "and_then_opt (F s) G = Some (ok, (sized s (length (a @ b)))\<lparr>o_errmsg := e\<rparr>)"
    using emitsD_sizing [OF G, of "sized s (length a)"] s by (simp add: sized_sized)
next
  fix s :: pb_ostream assume s: "o_callback s = cb \<and> o_errmsg s = None \<and> room s 0 \<and>
    unat (o_bytes_written s) + length (a @ b) < 2 ^ 64"
  show "if room s (length (a @ b))
    then and_then_opt (F s) G = Some (ok, (advance put s (a @ b))\<lparr>o_errmsg := e\<rparr>)
    else \<exists>k e'. k < length (a @ b) \<and> room s k \<and>
      and_then_opt (F s) G = Some (False, (advance put s (take k (a @ b)))\<lparr>o_errmsg := e'\<rparr>)"
  proof (cases "room s (length a)")
    case True
    let ?s = "advance put s a"
    have Fs: "F s = Some (True, ?s)" using emitsD_room [OF F] s True by simp
    have room: "room ?s n \<longleftrightarrow> room s (length a + n)" for n using room_advance(2) [OF True] .
    show ?thesis
    proof (cases "room s (length (a @ b))")
      case fits: True
      then have "G ?s = Some (ok, (advance put ?s b)\<lparr>o_errmsg := e\<rparr>)"
        using emitsD_room [OF G, of ?s] s room by simp
      then show ?thesis using Fs fits by (simp add: advance_append)
    next
      case full: False
      have "unat (o_bytes_written ?s) + length b < 2 ^ 64"
        using s by (simp only: room_advance(1) [OF True]) simp
      moreover have "\<not> room ?s (length b)" "room ?s 0" using full room True by simp_all
      ultimately obtain k e' where "k < length b" "room ?s k"
        "G ?s = Some (False, (advance put ?s (take k b))\<lparr>o_errmsg := e'\<rparr>)"
        using emitsD_full [OF G, of ?s] s by auto
      then show ?thesis using Fs full room
        by (auto simp: advance_append intro!: exI [of _ "length a + k"])
    qed
  next
    case False
    then obtain k e' where k: "k < length a" "room s k"
      "F s = Some (False, (advance put s (take k a))\<lparr>o_errmsg := e'\<rparr>)"
      using emitsD_full [OF F, of s] s by auto
    have "\<not> room s (length (a @ b))" using False by (simp add: room_def)
    then show ?thesis using k by (auto intro!: exI [of _ k])
  qed
qed

lemma emits_seq_fail:
  assumes F: "emits cb put F False a e"
  shows "emits cb put (\<lambda>s. and_then_opt (F s) G) False a e"
  unfolding emits_def
proof (intro conjI allI impI)
  fix s :: pb_ostream assume "o_callback s = ONull \<and> o_errmsg s = None"
  then show "and_then_opt (F s) G = Some (False, (sized s (length a))\<lparr>o_errmsg := e\<rparr>)"
    using emitsD_sizing [OF F, of s] by simp
next
  fix s :: pb_ostream assume s: "o_callback s = cb \<and> o_errmsg s = None \<and> room s 0 \<and>
    unat (o_bytes_written s) + length a < 2 ^ 64"
  show "if room s (length a)
    then and_then_opt (F s) G = Some (False, (advance put s a)\<lparr>o_errmsg := e\<rparr>)
    else \<exists>k e'. k < length a \<and> room s k \<and>
      and_then_opt (F s) G = Some (False, (advance put s (take k a))\<lparr>o_errmsg := e'\<rparr>)"
  proof (cases "room s (length a)")
    case True
    then show ?thesis using emitsD_room [OF F, of s] s by simp
  next
    case False
    then obtain k e' where "k < length a" "room s k"
      "F s = Some (False, (advance put s (take k a))\<lparr>o_errmsg := e'\<rparr>)"
      using emitsD_full [OF F, of s] s by auto
    then show ?thesis using False by auto
  qed
qed simp

lemma uniform_seq:
  assumes F: "uniform cb put F" and G: "uniform cb put G"
  shows "uniform cb put (\<lambda>s. and_then_opt (F s) G)"
proof (cases "\<exists>ok bs e. emits cb put F ok bs e")
  case False
  then show ?thesis using F by (auto simp: uniform_def)
next
  case True
  then obtain fok a e where Fe: "emits cb put F fok a e" by blast
  show ?thesis
  proof (cases fok)
    case False
    then show ?thesis using emits_seq_fail [of F a e G] Fe by auto
  next
    case True
    then have "e = None" using Fe by (simp add: emits_def)
    then have F': "emits cb put F True a None" using Fe True by simp
    show ?thesis
    proof (cases "\<exists>ok bs e. emits cb put G ok bs e")
      case True
      then show ?thesis using emits_seq [OF F'] by blast
    next
      case False
      then have "G s = None" if "o_callback s = ONull \<and> o_errmsg s = None" for s
        using G that by (auto simp: uniform_def)
      then show ?thesis using emitsD_sizing [OF F'] by (auto simp: uniform_def)
    qed
  qed
qed

text \<open>Primitive emissions.\<close>

lemma emits_write:
  assumes "length bs < 2 ^ 64"
  shows "emits cb put (\<lambda>s. Some (pb_write env s bs (of_nat (length bs)))) True bs None"
  unfolding emits_def
proof (intro conjI allI impI)
  fix s :: pb_ostream assume "o_callback s = ONull \<and> o_errmsg s = None"
  then show "Some (pb_write env s bs (of_nat (length bs))) =
      Some (True, (sized s (length bs))\<lparr>o_errmsg := None\<rparr>)"
    by (simp add: pb_write_def sized_def)
next
  fix s :: pb_ostream assume s: "o_callback s = cb \<and> o_errmsg s = None \<and> room s 0 \<and>
    unat (o_bytes_written s) + length bs < 2 ^ 64"
  have sum: "unat (o_bytes_written s + of_nat (length bs)) = unat (o_bytes_written s) + length bs"
    using s assms by (simp add: unat_word_ariths)
  have pos: "0 < (of_nat (length bs) :: u64) \<longleftrightarrow> bs \<noteq> []"
    using assms by (simp add: word_less_nat_alt)
  show "if room s (length bs)
    then Some (pb_write env s bs (of_nat (length bs))) =
      Some (True, (advance put s bs)\<lparr>o_errmsg := None\<rparr>)
    else \<exists>k e'. k < length bs \<and> room s k \<and> Some (pb_write env s bs (of_nat (length bs))) =
      Some (False, (advance put s (take k bs))\<lparr>o_errmsg := e'\<rparr>)"
  proof (cases "bs = []")
    case True
    then show ?thesis using s by (simp add: pb_write_def)
  next
    case False
    have full: "o_max_size s < o_bytes_written s + of_nat (length bs) \<longleftrightarrow> \<not> room s (length bs)"
      by (simp add: word_less_nat_alt sum room_def not_le)
    have w: "pb_write env s bs (of_nat (length bs)) =
        (if \<not> room s (length bs) then o_error s ''stream full'' else (True, advance put s bs))"
      using False pos s real call_put [of s bs] assms
      by (simp add: pb_write_def full advance_def)
    show ?thesis
    proof (cases "room s (length bs)")
      case True
      then show ?thesis using w s by simp
    next
      case full: False
      have "pb_write env s bs (of_nat (length bs)) =
          (False, (advance put s (take 0 bs))\<lparr>o_errmsg := Some ''stream full''\<rparr>)"
        using w full s by (simp add: o_error_def set_error_def)
      then show ?thesis using full False s by (auto intro!: exI [of _ 0])
    qed
  qed
qed simp

lemma emits_varint:
  "emits cb put (\<lambda>s. Some (pb_encode_varint env s v)) True (leb128 (unat v)) None"
  unfolding pb_encode_varint_eq using length_leb128_u64 [of v] by (intro emits_write) simp

lemma and_then_Some: "Some (and_then r g) = and_then_opt (Some r) (\<lambda>s. Some (g s))"
  by (cases r) (simp add: and_then_def and_then_opt_def)

lemma emits_string:
  assumes "unat sz = length bs"
  shows "emits cb put (\<lambda>s. Some (pb_encode_string env s bs sz)) True (leb128 (unat sz) @ bs) None"
proof -
  have "length bs < 2 ^ 64" using assms u64_less [of sz] by simp
  moreover have "sz = of_nat (length bs)" using assms by (metis unat_of_nat64 word_nat_cases word_unat_eq_iff calculation)
  ultimately have "emits cb put (\<lambda>s. Some (pb_write env s bs sz)) True bs None"
    using emits_write by simp
  then show ?thesis unfolding pb_encode_string_def and_then_Some
    by (rule emits_seq [OF emits_varint])
qed

lemma emits_tag:
  "emits cb put (\<lambda>s. Some (pb_encode_tag env s wt tag)) True
     (leb128 (unat (push_bit 3 (ucast tag) OR ucast wt :: u64))) None"
  unfolding pb_encode_tag_def by (rule emits_varint)

lemma uniform_tag_for_field: "uniform cb put (\<lambda>s. Some (pb_encode_tag_for_field env s field))"
  unfolding pb_encode_tag_for_field_def
  by (cases "wire_type_of (PB_LTYPE (f_type field))")
     (auto intro: uniformI [OF emits_error] uniformI [OF emits_tag])

lemma uniform_fixed32: "uniform cb put (\<lambda>s. Some (pb_encode_fixed32 env m s a))"
  unfolding pb_encode_fixed32_def Let_def
  by (rule uniformI [OF emits_write [where bs = "[_, _, _, _]", simplified]])

lemma uniform_fixed64: "uniform cb put (\<lambda>s. Some (pb_encode_fixed64 env m s a))"
  unfolding pb_encode_fixed64_def Let_def
  by (rule uniformI [OF emits_write [where bs = "[_, _, _, _, _, _, _, _]", simplified]])

lemma uniform_loop:
  "(\<And>x. x \<in> set xs \<Longrightarrow> uniform cb put (f x)) \<Longrightarrow> uniform cb put (loopM f xs)"
proof (induction xs)
  case Nil
  then show ?case using emits_return by (auto simp: uniform_def)
next
  case (Cons x xs)
  then show ?case using uniform_seq [of "f x" "loopM f xs"] by simp
qed

end

section \<open>Memory buffers are sinks\<close>

definition buf_put :: "addr \<times> mem \<Rightarrow> u8 list \<Rightarrow> addr \<times> mem" where
  "buf_put p bs = (fst p + of_nat (length bs), write_bytes (snd p) (fst p) bs)"

lemma write_bytes_append:
  "write_bytes m a (xs @ ys) = write_bytes (write_bytes m a xs) (a + of_nat (length xs)) ys"
  by (induction xs arbitrary: m a) (simp_all add: add.assoc)

interpretation buf: sink env OBufWrite buf_put for env
  by unfold_locales
    (simp_all add: call_write_def buf_write_def buf_put_def write_bytes_append add.assoc)

lemma from_buffer_fields [simp]:
  "o_callback (pb_ostream_from_buffer b k m) = OBufWrite"
  "o_errmsg (pb_ostream_from_buffer b k m) = None"
  "o_bytes_written (pb_ostream_from_buffer b k m) = 0"
  "o_max_size (pb_ostream_from_buffer b k m) = k"
  by (simp_all add: pb_ostream_from_buffer_def)

lemma room_from_buffer: "room (pb_ostream_from_buffer b k m) j \<longleftrightarrow> j \<le> unat k"
  by (simp add: room_def)

lemma advance_from_buffer:
  "advance buf_put (pb_ostream_from_buffer b k m) bs =
     \<lparr>o_callback = OBufWrite, o_state = b + of_nat (length bs), o_max_size = k,
      o_bytes_written = of_nat (length bs), o_errmsg = None, o_mem = write_bytes m b bs\<rparr>"
  by (simp add: advance_def buf_put_def pb_ostream_from_buffer_def)

lemma emits_from_buffer:
  assumes "emits OBufWrite buf_put F ok bs e" and "length bs \<le> unat bufsize"
  shows "F (pb_ostream_from_buffer buf bufsize om) =
    Some (ok, \<lparr>o_callback = OBufWrite, o_state = buf + of_nat (length bs), o_max_size = bufsize,
      o_bytes_written = of_nat (length bs), o_errmsg = e, o_mem = write_bytes om buf bs\<rparr>)"
  using emitsD_room [OF assms(1), of "pb_ostream_from_buffer buf bufsize om"] assms(2)
  by (simp add: room_from_buffer advance_from_buffer)

lemma emits_from_small_buffer:
  assumes "emits OBufWrite buf_put F ok bs e" and "unat bufsize < length bs" "length bs < 2 ^ 64"
  obtains k e' where "k \<le> unat bufsize" "F (pb_ostream_from_buffer buf bufsize om) =
    Some (False, \<lparr>o_callback = OBufWrite, o_state = buf + of_nat k, o_max_size = bufsize,
      o_bytes_written = of_nat k, o_errmsg = e', o_mem = write_bytes om buf (take k bs)\<rparr>)"
proof -
  obtain k e' where "k < length bs" "room (pb_ostream_from_buffer buf bufsize om) k"
    "F (pb_ostream_from_buffer buf bufsize om) =
      Some (False, (advance buf_put (pb_ostream_from_buffer buf bufsize om) (take k bs))\<lparr>o_errmsg := e'\<rparr>)"
    using emitsD_full [OF assms(1), of "pb_ostream_from_buffer buf bufsize om"] assms(2,3)
    by (auto simp: room_from_buffer)
  then show thesis using that by (simp add: room_from_buffer advance_from_buffer)
qed

end
