(* ===== verification/Pb_Encode.thy ===== *)
theory Pb_Encode
  imports Pb_Common Pb_Ostream
begin

text \<open>
  The message encoder of \<^verbatim>\<open>pb_encode.c\<close>: field encoders, arrays, the proto3
  default-value check, submessages, callback fields and extensions.  A submessage is encoded twice
  (once into a sizing stream for its length prefix); the recursion through the descriptor table is
  bounded by a fuel argument, and \<open>None\<close> is "no result": out of fuel, or a call through a NULL
  encoder.  Proved: every encoder emits a byte string that does not depend on the stream, so the
  length prefix is the length, and the total is what \<^verbatim>\<open>pb_get_encoded_size\<close> says.
\<close>

section \<open>Field encoders\<close>

definition safe_read_bool :: "mem \<Rightarrow> addr \<Rightarrow> bool" where
  "safe_read_bool m pSize \<longleftrightarrow> m pSize \<noteq> 0"

definition pb_enc_bool :: "pb_env \<Rightarrow> mem \<Rightarrow> pb_field \<Rightarrow> addr \<Rightarrow> pb_ostream \<Rightarrow> bool \<times> pb_ostream" where
  "pb_enc_bool env m field src s = pb_encode_varint env s (if safe_read_bool m src then 1 else 0)"

text \<open>The value of a signed/unsigned integer member of 1, 2, 4 or 8 bytes, widened to 64 bits.\<close>

definition load_signed :: "mem \<Rightarrow> addr \<Rightarrow> u32 \<Rightarrow> u64 option" where
  "load_signed m src data_size =
     (if data_size = 1 then Some (scast (load m src 1 :: u8))
      else if data_size = 2 then Some (scast (load m src 2 :: u16))
      else if data_size = 4 then Some (scast (load m src 4 :: u32))
      else if data_size = 8 then Some (load m src 8)
      else None)"

definition load_unsigned :: "mem \<Rightarrow> addr \<Rightarrow> u32 \<Rightarrow> u64 option" where
  "load_unsigned m src data_size =
     (if data_size = 1 then Some (ucast (load m src 1 :: u8))
      else if data_size = 2 then Some (ucast (load m src 2 :: u16))
      else if data_size = 4 then Some (ucast (load m src 4 :: u32))
      else if data_size = 8 then Some (load m src 8)
      else None)"

definition pb_enc_varint :: "pb_env \<Rightarrow> mem \<Rightarrow> pb_field \<Rightarrow> addr \<Rightarrow> pb_ostream \<Rightarrow> bool \<times> pb_ostream" where
  "pb_enc_varint env m field src s =
     (case load_signed m src (f_data_size field) of
        None \<Rightarrow> o_error s ''invalid data_size''
      | Some value \<Rightarrow> pb_encode_varint env s value)"

definition pb_enc_uvarint :: "pb_env \<Rightarrow> mem \<Rightarrow> pb_field \<Rightarrow> addr \<Rightarrow> pb_ostream \<Rightarrow> bool \<times> pb_ostream" where
  "pb_enc_uvarint env m field src s =
     (case load_unsigned m src (f_data_size field) of
        None \<Rightarrow> o_error s ''invalid data_size''
      | Some value \<Rightarrow> pb_encode_varint env s value)"

definition pb_enc_svarint :: "pb_env \<Rightarrow> mem \<Rightarrow> pb_field \<Rightarrow> addr \<Rightarrow> pb_ostream \<Rightarrow> bool \<times> pb_ostream" where
  "pb_enc_svarint env m field src s =
     (case load_signed m src (f_data_size field) of
        None \<Rightarrow> o_error s ''invalid data_size''
      | Some value \<Rightarrow> pb_encode_svarint env s value)"

definition pb_enc_fixed64 :: "pb_env \<Rightarrow> mem \<Rightarrow> pb_field \<Rightarrow> addr \<Rightarrow> pb_ostream \<Rightarrow> bool \<times> pb_ostream" where
  "pb_enc_fixed64 env m field src s = pb_encode_fixed64 env m s src"

definition pb_enc_fixed32 :: "pb_env \<Rightarrow> mem \<Rightarrow> pb_field \<Rightarrow> addr \<Rightarrow> pb_ostream \<Rightarrow> bool \<times> pb_ostream" where
  "pb_enc_fixed32 env m field src s = pb_encode_fixed32 env m s src"

definition pb_enc_bytes :: "pb_env \<Rightarrow> mem \<Rightarrow> pb_field \<Rightarrow> addr \<Rightarrow> pb_ostream \<Rightarrow> bool \<times> pb_ostream" where
  "pb_enc_bytes env m field src s =
     (if src = 0 then pb_encode_string env s [] 0
      else
        let size' = load_u32 m (bytes_size src) in
        if PB_ATYPE (f_type field) = PB_ATYPE_STATIC \<and>
           PB_BYTES_ARRAY_T_ALLOCSIZE size' > ucast (f_data_size field)
        then o_error s ''bytes size exceeded''
        else pb_encode_string env s (read_bytes m (bytes_bytes src) (unat size')) (ucast size'))"

text \<open>\<^verbatim>\<open>while (size < max_size && *p != '\0') { size++; p++; }\<close>\<close>

function str_len :: "mem \<Rightarrow> u64 \<Rightarrow> u64 \<Rightarrow> addr \<Rightarrow> u64" where
  "str_len m max_size sz p =
     (if sz < max_size \<and> m p \<noteq> 0 then str_len m max_size (sz + 1) (p + 1) else sz)"
  by pat_completeness auto
termination
proof (relation "measure (\<lambda>(m, max_size, sz, p). unat (max_size - sz))")
  fix m :: mem and max_size sz p :: u64 assume "sz < max_size \<and> m p \<noteq> (0 :: u8)"
  then have ne: "max_size - sz \<noteq> 0" by auto
  have "max_size - (sz + 1) = max_size - sz - 1" by (simp add: algebra_simps)
  then have "unat (max_size - (sz + 1)) = unat (max_size - sz) - 1"
    using unat_minus_one [OF ne] by argo
  moreover have "0 < unat (max_size - sz)" using ne by (simp add: unat_gt_0)
  ultimately show "((m, max_size, sz + 1, p + 1), (m, max_size, sz, p))
      \<in> measure (\<lambda>(m, max_size, sz, p). unat (max_size - sz))" by simp
qed simp

declare str_len.simps [simp del]

definition pb_enc_string :: "pb_env \<Rightarrow> mem \<Rightarrow> pb_field \<Rightarrow> addr \<Rightarrow> pb_ostream \<Rightarrow> bool \<times> pb_ostream" where
  "pb_enc_string env m field src s =
     (let max_size = (if PB_ATYPE (f_type field) = PB_ATYPE_POINTER then - 1
                      else ucast (f_data_size field));
          sz = (if src = 0 then 0 else str_len m max_size 0 src)
      in pb_encode_string env s (read_bytes m src (unat sz)) sz)"

definition pb_enc_fixed_length_bytes ::
  "pb_env \<Rightarrow> mem \<Rightarrow> pb_field \<Rightarrow> addr \<Rightarrow> pb_ostream \<Rightarrow> bool \<times> pb_ostream" where
  "pb_enc_fixed_length_bytes env m field src s =
     pb_encode_string env s (read_bytes m src (unat (f_data_size field))) (ucast (f_data_size field))"

section \<open>Submessages\<close>

text \<open>\<open>enc\<close> is \<^verbatim>\<open>pb_encode\<close> itself, one level of fuel down.\<close>

type_synonym encode_fn = "pb_field list \<Rightarrow> addr \<Rightarrow> pb_ostream \<Rightarrow> (bool \<times> pb_ostream) option"

definition pb_encode_submessage ::
  "encode_fn \<Rightarrow> pb_env \<Rightarrow> pb_field list \<Rightarrow> addr \<Rightarrow> pb_ostream \<Rightarrow> (bool \<times> pb_ostream) option" where
  "pb_encode_submessage enc env flds src s =
     (case enc flds src PB_OSTREAM_SIZING of
        None \<Rightarrow> None
      | Some (ok, substream) \<Rightarrow>
          if \<not> ok then Some (False, s\<lparr>o_errmsg := o_errmsg substream\<rparr>)
          else
            let sz = o_bytes_written substream in
            and_then_opt (Some (pb_encode_varint env s sz)) (\<lambda>s.
              if o_callback s = ONull then Some (pb_write env s [] sz)
              else if o_bytes_written s + sz > o_max_size s then Some (o_error s ''stream full'')
              else
                case enc flds src (s\<lparr>o_max_size := sz, o_bytes_written := 0, o_errmsg := None\<rparr>) of
                  None \<Rightarrow> None
                | Some (status, substream) \<Rightarrow>
                    let s' = s\<lparr>o_bytes_written := o_bytes_written s + o_bytes_written substream,
                               o_state := o_state substream, o_mem := o_mem substream,
                               o_errmsg := o_errmsg substream\<rparr> in
                    if o_bytes_written substream \<noteq> sz then Some (o_error s' ''submsg size changed'')
                    else Some (status, s')))"

definition pb_enc_submessage ::
  "encode_fn \<Rightarrow> pb_env \<Rightarrow> pb_field \<Rightarrow> addr \<Rightarrow> pb_ostream \<Rightarrow> (bool \<times> pb_ostream) option" where
  "pb_enc_submessage enc env field src s =
     (if f_ptr field = 0 then Some (o_error s ''invalid field descriptor'')
      else pb_encode_submessage enc env (e_fields env (f_ptr field)) src s)"

text \<open>\<^verbatim>\<open>PB_ENCODERS[PB_LTYPE(field->type)]\<close>; the entry for extensions is NULL and
  there are eleven entries.\<close>

definition PB_ENCODERS ::
  "encode_fn \<Rightarrow> pb_env \<Rightarrow> mem \<Rightarrow> pb_field \<Rightarrow> addr \<Rightarrow> pb_ostream \<Rightarrow> (bool \<times> pb_ostream) option" where
  "PB_ENCODERS enc env m field src s =
     (let ltype = PB_LTYPE (f_type field) in
      if ltype = PB_LTYPE_BOOL then Some (pb_enc_bool env m field src s)
      else if ltype = PB_LTYPE_VARINT then Some (pb_enc_varint env m field src s)
      else if ltype = PB_LTYPE_UVARINT then Some (pb_enc_uvarint env m field src s)
      else if ltype = PB_LTYPE_SVARINT then Some (pb_enc_svarint env m field src s)
      else if ltype = PB_LTYPE_FIXED32 then Some (pb_enc_fixed32 env m field src s)
      else if ltype = PB_LTYPE_FIXED64 then Some (pb_enc_fixed64 env m field src s)
      else if ltype = PB_LTYPE_BYTES then Some (pb_enc_bytes env m field src s)
      else if ltype = PB_LTYPE_STRING then Some (pb_enc_string env m field src s)
      else if ltype = PB_LTYPE_SUBMESSAGE then pb_enc_submessage enc env field src s
      else if ltype = PB_LTYPE_FIXED_LENGTH_BYTES
      then Some (pb_enc_fixed_length_bytes env m field src s)
      else None)"

section \<open>Arrays\<close>

text \<open>The item pointers \<^verbatim>\<open>p = pData, p + data_size, ...\<close> of a loop over \<open>count\<close> items.\<close>

definition items :: "addr \<Rightarrow> pb_field \<Rightarrow> u32 \<Rightarrow> addr list" where
  "items pData field count =
     map (\<lambda>i. pData + of_nat i * ucast (f_data_size field)) [0..<unat count]"

text \<open>The size of the packed items: known for fixed-width types, otherwise measured by running the
  encoder on a sizing stream (whose error message is dropped).\<close>

definition packed_size ::
  "(addr \<Rightarrow> pb_ostream \<Rightarrow> (bool \<times> pb_ostream) option) \<Rightarrow> pb_field \<Rightarrow> addr \<Rightarrow> u32 \<Rightarrow>
   (bool \<times> u64) option" where
  "packed_size func field pData count =
     (if PB_LTYPE (f_type field) = PB_LTYPE_FIXED32 then Some (True, 4 * ucast count)
      else if PB_LTYPE (f_type field) = PB_LTYPE_FIXED64 then Some (True, 8 * ucast count)
      else map_option (\<lambda>(ok, sizestream). (ok, o_bytes_written sizestream))
             (loopM func (items pData field count) PB_OSTREAM_SIZING))"

definition encode_array ::
  "(addr \<Rightarrow> pb_ostream \<Rightarrow> (bool \<times> pb_ostream) option) \<Rightarrow> pb_env \<Rightarrow> mem \<Rightarrow> pb_field \<Rightarrow> addr \<Rightarrow>
   u32 \<Rightarrow> pb_ostream \<Rightarrow> (bool \<times> pb_ostream) option" where
  "encode_array func env m field pData count s =
     (if count = 0 then Some (True, s)
      else if PB_ATYPE (f_type field) \<noteq> PB_ATYPE_POINTER \<and> count > f_array_size field
      then Some (o_error s ''array max size exceeded'')
      else if PB_LTYPE (f_type field) \<le> PB_LTYPE_LAST_PACKABLE then
        and_then_opt (Some (pb_encode_tag env s PB_WT_STRING (f_tag field))) (\<lambda>s.
          case packed_size func field pData count of
            None \<Rightarrow> None
          | Some (ok, sz) \<Rightarrow>
              if \<not> ok then Some (False, s)
              else and_then_opt (Some (pb_encode_varint env s sz)) (\<lambda>s.
                if o_callback s = ONull then Some (pb_write env s [] sz)
                else loopM func (items pData field count) s))
      else
        loopM (\<lambda>p s.
          and_then_opt (Some (pb_encode_tag_for_field env s field)) (\<lambda>s.
            if PB_ATYPE (f_type field) = PB_ATYPE_POINTER \<and>
               (PB_LTYPE (f_type field) = PB_LTYPE_STRING \<or> PB_LTYPE (f_type field) = PB_LTYPE_BYTES)
            then func (load_ptr m p) s
            else func p s)) (items pData field count) s)"

section \<open>The proto3 default-value check\<close>

fun all_opt :: "('x \<Rightarrow> bool option) \<Rightarrow> 'x list \<Rightarrow> bool option" where
  "all_opt f [] = Some True"
| "all_opt f (x # xs) =
     (case f x of None \<Rightarrow> None | Some b \<Rightarrow> if b then all_opt f xs else Some False)"

fun pb_check_proto3_default_value ::
  "nat \<Rightarrow> pb_env \<Rightarrow> mem \<Rightarrow> pb_field \<Rightarrow> addr \<Rightarrow> bool option" where
  "pb_check_proto3_default_value 0 env m field pData = None"
| "pb_check_proto3_default_value (Suc n) env m field pData =
     (let type = f_type field; pSize = size_addr pData field in
      if PB_HTYPE type = PB_HTYPE_REQUIRED then Some False
      else if PB_HTYPE type = PB_HTYPE_REPEATED \<and> f_size_offset field \<noteq> 0
      then Some (load_u32 m pSize = 0)
      else if PB_HTYPE type = PB_HTYPE_REPEATED \<and> PB_ATYPE type = PB_ATYPE_STATIC
      then Some False
      else if PB_HTYPE type = PB_HTYPE_ONEOF then Some (load_u32 m pSize = 0)
      else if PB_HTYPE type = PB_HTYPE_OPTIONAL \<and> f_size_offset field \<noteq> 0
      then Some (\<not> safe_read_bool m pSize)
      else if PB_ATYPE type = PB_ATYPE_STATIC \<and> PB_LTYPE type = PB_LTYPE_BYTES
      then Some (load_u32 m (bytes_size pData) = 0)
      else if PB_ATYPE type = PB_ATYPE_STATIC \<and> PB_LTYPE type = PB_LTYPE_STRING
      then Some (m pData = 0)
      else if PB_ATYPE type = PB_ATYPE_STATIC \<and> PB_LTYPE type = PB_LTYPE_FIXED_LENGTH_BYTES
      then Some (f_data_size field = 0)
      else if PB_ATYPE type = PB_ATYPE_STATIC \<and> PB_LTYPE type = PB_LTYPE_SUBMESSAGE
      then all_opt (\<lambda>it. pb_check_proto3_default_value n env m (it_field it) (it_pData it))
             (iters (e_fields env (f_ptr field)) pData)
      else Some (list_all (\<lambda>b. b = 0) (read_bytes m pData (unat (f_data_size field)))))"

section \<open>One field\<close>

definition encode_basic_field ::
  "encode_fn \<Rightarrow> nat \<Rightarrow> pb_env \<Rightarrow> mem \<Rightarrow> pb_field \<Rightarrow> addr \<Rightarrow> pb_ostream \<Rightarrow>
   (bool \<times> pb_ostream) option" where
  "encode_basic_field enc n env m field pData s =
     (let func = PB_ENCODERS enc env m field;
          pSize = size_addr pData field;
          explicit = (f_size_offset field \<noteq> 0) in
      case (if explicit then Some True
            else if PB_HTYPE (f_type field) = PB_HTYPE_OPTIONAL
            then map_option Not (pb_check_proto3_default_value n env m field pData)
            else Some True) of
        None \<Rightarrow> None
      | Some implicit_has \<Rightarrow>
          let pointer = (PB_ATYPE (f_type field) = PB_ATYPE_POINTER);
              pData' = (if pointer then load_ptr m pData else pData);
              implicit_has' = (if pointer then pData' \<noteq> 0 else implicit_has);
              tag_and_value = (\<lambda>s. and_then_opt (Some (pb_encode_tag_for_field env s field))
                                            (func pData')) in
          if PB_HTYPE (f_type field) = PB_HTYPE_REQUIRED then
            (if pData' = 0 then Some (o_error s ''missing required field'') else tag_and_value s)
          else if PB_HTYPE (f_type field) = PB_HTYPE_OPTIONAL then
            (if (if explicit then safe_read_bool m pSize else implicit_has')
             then tag_and_value s else Some (True, s))
          else if PB_HTYPE (f_type field) = PB_HTYPE_REPEATED then
            encode_array func env m field pData'
              (if explicit then load_u32 m pSize else f_array_size field) s
          else \<comment> \<open>\<open>PB_HTYPE_ONEOF\<close>; without a \<open>which_\<close> member the code reads past a local \<open>bool\<close>\<close>
            (if \<not> explicit then None
             else if load_u32 m pSize = f_tag field then tag_and_value s
             else Some (True, s)))"

definition encode_callback_field ::
  "pb_env \<Rightarrow> mem \<Rightarrow> pb_field \<Rightarrow> addr \<Rightarrow> pb_ostream \<Rightarrow> bool \<times> pb_ostream" where
  "encode_callback_field env m field pData s =
     (let encode = load_ptr m (callback_funcs pData) in
      if encode \<noteq> 0 then
        (case e_enc_cb env encode m s field (callback_arg pData) of
           (ok, s') \<Rightarrow> if \<not> ok then o_error s' ''callback error'' else (True, s'))
      else (True, s))"

definition encode_field ::
  "encode_fn \<Rightarrow> nat \<Rightarrow> pb_env \<Rightarrow> mem \<Rightarrow> pb_field \<Rightarrow> addr \<Rightarrow> pb_ostream \<Rightarrow>
   (bool \<times> pb_ostream) option" where
  "encode_field enc n env m field pData s =
     (if PB_ATYPE (f_type field) = PB_ATYPE_STATIC \<or> PB_ATYPE (f_type field) = PB_ATYPE_POINTER
      then encode_basic_field enc n env m field pData s
      else if PB_ATYPE (f_type field) = PB_ATYPE_CALLBACK
      then Some (encode_callback_field env m field pData s)
      else Some (o_error s ''invalid field type''))"

definition default_extension_encoder ::
  "encode_fn \<Rightarrow> nat \<Rightarrow> pb_env \<Rightarrow> mem \<Rightarrow> addr \<Rightarrow> pb_ostream \<Rightarrow> (bool \<times> pb_ostream) option" where
  "default_extension_encoder enc n env m extension s =
     (let field = field_at (e_fields env (load_ptr m (ext_type_arg (load_ptr m (ext_type extension))))) 0 in
      if PB_ATYPE (f_type field) = PB_ATYPE_POINTER
      then encode_field enc n env m field (ext_dest extension) s
      else encode_field enc n env m field (load_ptr m (ext_dest extension)) s)"

text \<open>\<^verbatim>\<open>while (extension) { ...; extension = extension->next; }\<close>\<close>

fun extension_loop ::
  "nat \<Rightarrow> (addr \<Rightarrow> pb_ostream \<Rightarrow> (bool \<times> pb_ostream) option) \<Rightarrow> mem \<Rightarrow> addr \<Rightarrow> pb_ostream \<Rightarrow>
   (bool \<times> pb_ostream) option" where
  "extension_loop 0 f m extension s = (if extension = 0 then Some (True, s) else None)"
| "extension_loop (Suc k) f m extension s =
     (if extension = 0 then Some (True, s)
      else and_then_opt (f extension s) (extension_loop k f m (load_ptr m (ext_next extension))))"

definition encode_extension_field ::
  "encode_fn \<Rightarrow> nat \<Rightarrow> pb_env \<Rightarrow> mem \<Rightarrow> addr \<Rightarrow> pb_ostream \<Rightarrow> (bool \<times> pb_ostream) option" where
  "encode_extension_field enc n env m pData s =
     extension_loop n
       (\<lambda>extension s.
          let encode = load_ptr m (ext_type_encode (load_ptr m (ext_type extension))) in
          if encode \<noteq> 0 then Some (e_ext_enc env encode m s extension)
          else default_extension_encoder enc n env m extension s)
       m (load_ptr m pData) s"

section \<open>Whole messages\<close>

fun pb_encode :: "nat \<Rightarrow> pb_env \<Rightarrow> mem \<Rightarrow> encode_fn" where
  "pb_encode 0 env m flds src s = None"
| "pb_encode (Suc n) env m flds src s =
     loopM (\<lambda>it. if PB_LTYPE (f_type (it_field it)) = PB_LTYPE_EXTENSION
                 then encode_extension_field (pb_encode n env m) n env m (it_pData it)
                 else encode_field (pb_encode n env m) n env m (it_field it) (it_pData it))
       (iters flds src) s"

definition pb_encode_delimited :: "nat \<Rightarrow> pb_env \<Rightarrow> mem \<Rightarrow> encode_fn" where
  "pb_encode_delimited n env m flds src s = pb_encode_submessage (pb_encode n env m) env flds src s"

definition pb_encode_nullterminated :: "nat \<Rightarrow> pb_env \<Rightarrow> mem \<Rightarrow> encode_fn" where
  "pb_encode_nullterminated n env m flds src s =
     and_then_opt (pb_encode n env m flds src s) (\<lambda>s. Some (pb_write env s [0] 1))"

text \<open>\<open>Some None\<close>: returned false, \<open>*size\<close> not written.\<close>

definition pb_get_encoded_size ::
  "nat \<Rightarrow> pb_env \<Rightarrow> mem \<Rightarrow> pb_field list \<Rightarrow> addr \<Rightarrow> u64 option option" where
  "pb_get_encoded_size n env m flds src =
     map_option (\<lambda>(ok, stream). if ok then Some (o_bytes_written stream) else None)
       (pb_encode n env m flds src PB_OSTREAM_SIZING)"

section \<open>The bytes do not depend on the stream\<close>

text \<open>What the message encoder relies on: a sink, and application callbacks that themselves write
  the same bytes to a sizing stream as to the real one (nanopb's rule for encoder callbacks).\<close>

locale encoder = sink +
  assumes cb_uniform: "uniform cb put (\<lambda>s. Some (e_enc_cb env f m s field a))"
    and ext_uniform: "uniform cb put (\<lambda>s. Some (e_ext_enc env f m s extension))"
begin

lemma uniform_const_error: "uniform cb put (\<lambda>s. Some (o_error s msg))"
  by (rule uniformI [OF emits_error])

lemma uniform_const_ok: "uniform cb put (\<lambda>s. Some (True, s))"
  by (rule uniformI [OF emits_return])

lemma uniform_none: "uniform cb put (\<lambda>s. None)"
  by (simp add: uniform_def)

lemma uniform_varint: "uniform cb put (\<lambda>s. Some (pb_encode_varint env s v))"
  by (rule uniformI [OF emits_varint])

lemma uniform_string: "unat sz = length bs \<Longrightarrow> uniform cb put (\<lambda>s. Some (pb_encode_string env s bs sz))"
  by (rule uniformI [OF emits_string])

lemmas uniform_basic = uniform_const_error uniform_const_ok uniform_none uniform_varint
  uniform_string uniform_tag_for_field uniform_fixed32 uniform_fixed64

lemma emits_submessage_fail:
  assumes "emits cb put (enc flds src) False bs e"
  shows "emits cb put (pb_encode_submessage enc env flds src) False [] e"
proof -
  have sz: "enc flds src PB_OSTREAM_SIZING =
      Some (False, (sized PB_OSTREAM_SIZING (length bs))\<lparr>o_errmsg := e\<rparr>)"
    using emitsD_sizing [OF assms, of PB_OSTREAM_SIZING] by (simp add: PB_OSTREAM_SIZING_def)
  show ?thesis by (auto simp: emits_def pb_encode_submessage_def sz)
qed

text \<open>The submessage is preceded by its length.\<close>

lemma emits_submessage_ok:
  assumes "emits cb put (enc flds src) True bs None"
  shows "emits cb put (pb_encode_submessage enc env flds src) True
     (leb128 (unat (of_nat (length bs) :: u64)) @ bs) None"
proof -
  let ?sz = "of_nat (length bs) :: u64"
  have sz: "enc flds src PB_OSTREAM_SIZING = Some (True, sized PB_OSTREAM_SIZING (length bs))"
    using emitsD_sizing [OF assms, of PB_OSTREAM_SIZING]
    by (simp add: PB_OSTREAM_SIZING_def sized_def)
  have bw: "o_bytes_written (sized PB_OSTREAM_SIZING (length bs)) = ?sz" by simp
  define body where "body = (\<lambda>s.
    if o_callback s = ONull then Some (pb_write env s [] ?sz)
    else if o_bytes_written s + ?sz > o_max_size s then Some (o_error s ''stream full'')
    else case enc flds src (s\<lparr>o_max_size := ?sz, o_bytes_written := 0, o_errmsg := None\<rparr>) of
           None \<Rightarrow> None
         | Some (status, substream) \<Rightarrow>
             let s' = s\<lparr>o_bytes_written := o_bytes_written s + o_bytes_written substream,
                        o_state := o_state substream, o_mem := o_mem substream,
                        o_errmsg := o_errmsg substream\<rparr> in
             if o_bytes_written substream \<noteq> ?sz then Some (o_error s' ''submsg size changed'')
             else Some (status, s'))"
  have eq: "pb_encode_submessage enc env flds src =
      (\<lambda>s. and_then_opt (Some (pb_encode_varint env s ?sz)) body)"
    unfolding body_def
    by (rule ext) (simp only: pb_encode_submessage_def sz option.case prod.case bw Let_def
        not_True_eq_False if_False)
  have "emits cb put body True bs None" unfolding emits_def
  proof (intro conjI allI impI)
    fix s :: pb_ostream assume s: "o_callback s = ONull \<and> o_errmsg s = None"
    then show "body s = Some (True, (sized s (length bs))\<lparr>o_errmsg := None\<rparr>)"
      by (simp add: body_def pb_write_def sized_def)
  next
    fix s :: pb_ostream assume s: "o_callback s = cb \<and> o_errmsg s = None \<and> room s 0 \<and>
      unat (o_bytes_written s) + length bs < 2 ^ 64"
    have len: "unat ?sz = length bs" using s by (intro unat_of_nat64) simp
    have full: "o_bytes_written s + ?sz > o_max_size s \<longleftrightarrow> \<not> room s (length bs)"
      using s by (simp add: word_less_nat_alt unat_word_ariths room_def not_le len)
    let ?sub = "s\<lparr>o_max_size := ?sz, o_bytes_written := 0, o_errmsg := None\<rparr>"
    have "room ?sub (length bs)" using len by (simp add: room_def)
    then have sub: "enc flds src ?sub = Some (True, advance put ?sub bs)"
      using emitsD_room [OF assms, of ?sub] s by simp
    show "if room s (length bs) then body s = Some (True, (advance put s bs)\<lparr>o_errmsg := None\<rparr>)
      else \<exists>k e'. k < length bs \<and> room s k \<and>
             body s = Some (False, (advance put s (take k bs))\<lparr>o_errmsg := e'\<rparr>)"
    proof (cases "room s (length bs)")
      case True
      then show ?thesis using s real full sub by (simp add: body_def Let_def advance_def)
    next
      case False
      then have "body s = Some (False, (advance put s (take 0 bs))\<lparr>o_errmsg := Some ''stream full''\<rparr>)"
        using s real full by (simp add: body_def o_error_def set_error_def)
      moreover have "0 < length bs" using False s by (cases bs) auto
      ultimately show ?thesis using False s by (auto intro!: exI [of _ 0])
    qed
  qed simp
  then show ?thesis unfolding eq by (rule emits_seq [OF emits_varint])
qed

lemma uniform_submessage:
  assumes "uniform cb put (enc flds src)"
  shows "uniform cb put (pb_encode_submessage enc env flds src)"
proof (cases "\<exists>ok bs e. emits cb put (enc flds src) ok bs e")
  case True
  then obtain ok bs e where e: "emits cb put (enc flds src) ok bs e" by blast
  show ?thesis
  proof (cases ok)
    case False
    then show ?thesis using uniformI [OF emits_submessage_fail [of enc flds src bs e]] e by simp
  next
    case True
    then have "e = None" using e by (simp add: emits_def)
    then show ?thesis using uniformI [OF emits_submessage_ok [of enc flds src bs]] e True by simp
  qed
next
  case False
  then have "enc flds src PB_OSTREAM_SIZING = None"
    using assms by (auto simp: uniform_def PB_OSTREAM_SIZING_def)
  then show ?thesis by (simp add: uniform_def pb_encode_submessage_def)
qed

lemma uniform_pb_enc_string: "uniform cb put (\<lambda>s. Some (pb_enc_string env m field src s))"
  unfolding pb_enc_string_def Let_def by (rule uniform_string) simp

lemma uniform_encoders:
  assumes "\<And>flds src. uniform cb put (enc flds src)"
  shows "uniform cb put (PB_ENCODERS enc env m field src)"
proof -
  have sub: "uniform cb put (pb_enc_submessage enc env field src)"
    unfolding pb_enc_submessage_def [abs_def]
    by (intro uniform_if uniform_const_error uniform_submessage [of enc, OF assms])
  have int: "uniform cb put (\<lambda>s. Some (pb_enc_varint env m field src s))"
    "uniform cb put (\<lambda>s. Some (pb_enc_uvarint env m field src s))"
    "uniform cb put (\<lambda>s. Some (pb_enc_svarint env m field src s))"
    unfolding pb_enc_varint_def pb_enc_uvarint_def pb_enc_svarint_def pb_encode_svarint_def
    by (intro uniform_Some_case uniform_basic)+
  have bytes: "uniform cb put (\<lambda>s. Some (pb_enc_bytes env m field src s))"
    unfolding pb_enc_bytes_def Let_def
    by (intro uniform_Some_if uniform_basic) simp_all
  show ?thesis
    unfolding PB_ENCODERS_def [abs_def] Let_def pb_enc_bool_def pb_enc_fixed32_def
      pb_enc_fixed64_def pb_enc_fixed_length_bytes_def
    by (intro uniform_if sub int bytes uniform_pb_enc_string uniform_basic) simp
qed

lemma emits_loop_sizing:
  assumes "emits cb put (loopM f xs) ok bs e"
  shows "loopM f xs PB_OSTREAM_SIZING =
     Some (ok, (sized PB_OSTREAM_SIZING (length bs))\<lparr>o_errmsg := e\<rparr>)"
  using emitsD_sizing [OF assms, of PB_OSTREAM_SIZING] by (simp add: PB_OSTREAM_SIZING_def)

text \<open>Arrays: the measured size of packed items is the length of what they emit.\<close>

lemma uniform_packed_items:
  assumes "emits cb put (loopM func xs) True bs e"
  shows "emits cb put (\<lambda>s. if o_callback s = ONull then Some (pb_write env s [] (of_nat (length bs)))
     else loopM func xs s) True bs None"
proof -
  have "e = None" using assms by (simp add: emits_def)
  then have e: "emits cb put (loopM func xs) True bs None" using assms by simp
  show ?thesis unfolding emits_def
  proof (intro conjI allI impI)
    fix s :: pb_ostream assume "o_callback s = ONull \<and> o_errmsg s = None"
    then show "(if o_callback s = ONull then Some (pb_write env s [] (of_nat (length bs)))
       else loopM func xs s) = Some (True, (sized s (length bs))\<lparr>o_errmsg := None\<rparr>)"
      by (simp add: pb_write_def sized_def)
  next
    fix s :: pb_ostream assume s: "o_callback s = cb \<and> o_errmsg s = None \<and> room s 0 \<and>
      unat (o_bytes_written s) + length bs < 2 ^ 64"
    then have "o_callback s \<noteq> ONull" using real by simp
    then show "if room s (length bs)
      then (if o_callback s = ONull then Some (pb_write env s [] (of_nat (length bs)))
         else loopM func xs s) = Some (True, (advance put s bs)\<lparr>o_errmsg := None\<rparr>)
      else \<exists>k e'. k < length bs \<and> room s k \<and>
        (if o_callback s = ONull then Some (pb_write env s [] (of_nat (length bs)))
         else loopM func xs s) = Some (False, (advance put s (take k bs))\<lparr>o_errmsg := e'\<rparr>)"
      using e s unfolding emits_def by auto
  qed simp
qed

lemma emits_fixed_items:
  assumes "\<And>a. \<exists>bs. length bs = w \<and> emits cb put (func a) True bs None"
  shows "\<exists>bs. length bs = w * length xs \<and> emits cb put (loopM func xs) True bs None"
proof (induction xs)
  case Nil
  then show ?case using emits_return by (auto simp: emits_def)
next
  case (Cons x xs)
  then obtain bs where bs: "length bs = w * length xs" "emits cb put (loopM func xs) True bs None"
    by blast
  obtain b where "length b = w" "emits cb put (func x) True b None" using assms by blast
  then show ?case using emits_seq [of "func x" b "loopM func xs" True bs None] bs
    by (intro exI [of _ "b @ bs"]) simp
qed

lemma emits_fixed32:
  "PB_LTYPE (f_type field) = PB_LTYPE_FIXED32 \<Longrightarrow>
     \<exists>bs. length bs = 4 \<and> emits cb put (PB_ENCODERS enc env m field a) True bs None"
  using emits_write [of "[_, _, _, _]"]
  by (auto simp: PB_ENCODERS_def [abs_def] pb_enc_fixed32_def pb_encode_fixed32_def Let_def
      intro!: exI [of _ "[_, _, _, _]"])

lemma emits_fixed64:
  "PB_LTYPE (f_type field) = PB_LTYPE_FIXED64 \<Longrightarrow>
     \<exists>bs. length bs = 8 \<and> emits cb put (PB_ENCODERS enc env m field a) True bs None"
  using emits_write [of "[_, _, _, _, _, _, _, _]"]
  by (auto simp: PB_ENCODERS_def [abs_def] pb_enc_fixed64_def pb_encode_fixed64_def Let_def
      intro!: exI [of _ "[_, _, _, _, _, _, _, _]"])

lemma uniform_packed:
  assumes enc: "\<And>flds src. uniform cb put (enc flds src)"
  shows "uniform cb put (\<lambda>s.
     case packed_size (PB_ENCODERS enc env m field) field pData count of
       None \<Rightarrow> None
     | Some (ok, sz) \<Rightarrow>
         if \<not> ok then Some (False, s)
         else and_then_opt (Some (pb_encode_varint env s sz)) (\<lambda>s.
           if o_callback s = ONull then Some (pb_write env s [] sz)
           else loopM (PB_ENCODERS enc env m field) (items pData field count) s))"
proof -
  let ?f = "PB_ENCODERS enc env m field" and ?xs = "items pData field count"
  have items: "uniform cb put (loopM ?f ?xs)" by (intro uniform_loop uniform_encoders enc)
  have sized: ?thesis if "packed_size ?f field pData count = Some (True, of_nat (length bs))"
    "emits cb put (loopM ?f ?xs) True bs None" for bs
    using emits_seq [OF emits_varint uniform_packed_items [OF that(2)]] that(1) by auto
  have xs: "length ?xs = unat count" by (simp add: items_def)
  consider "PB_LTYPE (f_type field) = PB_LTYPE_FIXED32" | "PB_LTYPE (f_type field) = PB_LTYPE_FIXED64"
    | "PB_LTYPE (f_type field) \<noteq> PB_LTYPE_FIXED32" "PB_LTYPE (f_type field) \<noteq> PB_LTYPE_FIXED64"
    by blast
  then show ?thesis
  proof cases
    case 1
    then obtain bs where bs: "length bs = 4 * unat count" "emits cb put (loopM ?f ?xs) True bs None"
      using emits_fixed_items [of 4 ?f ?xs, OF emits_fixed32] xs by auto
    show ?thesis by (rule sized [OF _ bs(2)]) (simp add: packed_size_def 1 bs(1))
  next
    case 2
    then obtain bs where bs: "length bs = 8 * unat count" "emits cb put (loopM ?f ?xs) True bs None"
      using emits_fixed_items [of 8 ?f ?xs, OF emits_fixed64] xs by auto
    show ?thesis by (rule sized [OF _ bs(2)]) (simp add: packed_size_def 2 bs(1))
  next
    case 3
    show ?thesis
    proof (cases "\<exists>ok bs e. emits cb put (loopM ?f ?xs) ok bs e")
      case False
      then have "loopM ?f ?xs PB_OSTREAM_SIZING = None"
        using items unfolding uniform_def by auto
      then show ?thesis using 3 by (simp add: packed_size_def uniform_none)
    next
      case True
      then obtain ok bs e where e: "emits cb put (loopM ?f ?xs) ok bs e" by blast
      note sz = emits_loop_sizing [OF e]
      show ?thesis
      proof (cases ok)
        case True
        have "e = None" using e True by (simp add: emits_def)
        then have "emits cb put (loopM ?f ?xs) True bs None" using e True by simp
        then show ?thesis by (rule sized [rotated]) (simp add: packed_size_def 3 sz True)
      next
        case False
        have "emits cb put (\<lambda>s. Some (False, s)) False [] None" by (auto simp: emits_def)
        then show ?thesis using 3 False sz by (auto simp: packed_size_def)
      qed
    qed
  qed
qed

lemma uniform_array:
  assumes enc: "\<And>flds src. uniform cb put (enc flds src)"
  shows "uniform cb put (encode_array (PB_ENCODERS enc env m field) env m field pData count)"
proof -
  have tag: "uniform cb put (\<lambda>s. Some (pb_encode_tag env s wt tag))" for wt tag
    by (rule uniformI [OF emits_tag])
  show ?thesis
    unfolding encode_array_def [abs_def]
    by (intro uniform_if uniform_const_ok uniform_const_error uniform_loop uniform_seq
        uniform_tag_for_field uniform_encoders enc tag uniform_packed)
qed

lemma uniform_tag_and_value:
  assumes enc: "\<And>flds src. uniform cb put (enc flds src)"
  shows "uniform cb put (\<lambda>s. and_then_opt (Some (pb_encode_tag_for_field env s field))
           (PB_ENCODERS enc env m field pData))"
  by (intro uniform_seq uniform_tag_for_field uniform_encoders enc)

lemma uniform_basic_field:
  assumes enc: "\<And>flds src. uniform cb put (enc flds src)"
  shows "uniform cb put (encode_basic_field enc n env m field pData)"
proof (cases "if f_size_offset field \<noteq> 0 then Some True
    else if PB_HTYPE (f_type field) = PB_HTYPE_OPTIONAL
    then map_option Not (pb_check_proto3_default_value n env m field pData) else Some True")
  case None
  then have "encode_basic_field enc n env m field pData = (\<lambda>s. None)"
    by (simp add: encode_basic_field_def [abs_def] Let_def)
  then show ?thesis using uniform_none by simp
next
  case (Some has)
  show ?thesis
    unfolding encode_basic_field_def [abs_def] Let_def Some option.case
    by (intro uniform_if uniform_const_ok uniform_const_error uniform_none uniform_array
        uniform_tag_and_value enc)
qed

lemma emits_callback_result:
  assumes e: "emits cb put (\<lambda>s. Some (C s)) ok bs e"
  shows "emits cb put (\<lambda>s. Some (case C s of (ok, s') \<Rightarrow> if \<not> ok then o_error s' msg else (True, s')))
           ok bs (if ok then None else set_error e msg)"
  unfolding emits_def
proof (intro conjI allI impI)
  fix s :: pb_ostream assume "o_callback s = ONull \<and> o_errmsg s = None"
  then have "C s = (ok, (sized s (length bs))\<lparr>o_errmsg := e\<rparr>)"
    using emitsD_sizing [OF e, of s] by simp
  moreover have "ok \<Longrightarrow> e = None" using e by (simp add: emits_def)
  ultimately show "Some (case C s of (ok, s') \<Rightarrow> if \<not> ok then o_error s' msg else (True, s')) =
      Some (ok, (sized s (length bs))\<lparr>o_errmsg := if ok then None else set_error e msg\<rparr>)"
    by (cases ok) (simp_all add: o_error_def)
next
  fix s :: pb_ostream assume s: "o_callback s = cb \<and> o_errmsg s = None \<and> room s 0 \<and>
    unat (o_bytes_written s) + length bs < 2 ^ 64"
  let ?G = "\<lambda>s. Some (case C s of (ok, s') \<Rightarrow> if \<not> ok then o_error s' msg else (True, s'))"
  show "if room s (length bs)
    then ?G s = Some (ok, (advance put s bs)\<lparr>o_errmsg := if ok then None else set_error e msg\<rparr>)
    else \<exists>k e'. k < length bs \<and> room s k \<and>
      ?G s = Some (False, (advance put s (take k bs))\<lparr>o_errmsg := e'\<rparr>)"
  proof (cases "room s (length bs)")
    case True
    then have "C s = (ok, (advance put s bs)\<lparr>o_errmsg := e\<rparr>)"
      using emitsD_room [OF e, of s] s by simp
    moreover have "ok \<Longrightarrow> e = None" using e by (simp add: emits_def)
    ultimately show ?thesis using True by (cases ok) (simp_all add: o_error_def)
  next
    case False
    then obtain k e' where "k < length bs" "room s k"
      "C s = (False, (advance put s (take k bs))\<lparr>o_errmsg := e'\<rparr>)"
      using emitsD_full [OF e, of s] s by auto
    then show ?thesis using False by (auto simp: o_error_def)
  qed
qed simp

lemma uniform_callback_field:
  "uniform cb put (\<lambda>s. Some (encode_callback_field env m field pData s))"
proof -
  let ?cb = "\<lambda>s. e_enc_cb env (load_ptr m (callback_funcs pData)) m s field (callback_arg pData)"
  have "\<exists>ok bs e. emits cb put (\<lambda>s. Some (?cb s)) ok bs e"
    using cb_uniform [of "load_ptr m (callback_funcs pData)" m field "callback_arg pData"]
      PB_OSTREAM_SIZING_def by (auto simp: uniform_def dest: spec [of _ PB_OSTREAM_SIZING])
  then obtain ok bs e where "emits cb put (\<lambda>s. Some (?cb s)) ok bs e" by blast
  from uniformI [OF emits_callback_result [OF this]] show ?thesis
    unfolding encode_callback_field_def Let_def
    by (intro uniform_Some_if uniform_const_ok)
qed

lemma uniform_field:
  assumes enc: "\<And>flds src. uniform cb put (enc flds src)"
  shows "uniform cb put (encode_field enc n env m field pData)"
  unfolding encode_field_def [abs_def]
  by (intro uniform_if uniform_basic_field uniform_callback_field uniform_const_error enc)

lemma uniform_default_extension:
  assumes enc: "\<And>flds src. uniform cb put (enc flds src)"
  shows "uniform cb put (default_extension_encoder enc n env m extension)"
  unfolding default_extension_encoder_def [abs_def] Let_def
  by (intro uniform_if uniform_field enc)

lemma uniform_extension_loop:
  assumes "\<And>a. uniform cb put (f a)"
  shows "uniform cb put (extension_loop k f m a)"
proof (induction k arbitrary: a)
  case 0
  have "extension_loop 0 f m a = (\<lambda>s. if a = 0 then Some (True, s) else None)" by (rule ext) simp
  then show ?case using uniform_const_ok uniform_none by (auto intro: uniform_if)
next
  case (Suc k)
  have eq: "extension_loop (Suc k) f m a = (\<lambda>s. if a = 0 then Some (True, s)
      else and_then_opt (f a s) (extension_loop k f m (load_ptr m (ext_next a))))" by (rule ext) simp
  show ?case unfolding eq by (intro uniform_if uniform_const_ok uniform_seq assms Suc.IH)
qed

lemma uniform_extension_field:
  assumes enc: "\<And>flds src. uniform cb put (enc flds src)"
  shows "uniform cb put (encode_extension_field enc n env m pData)"
  unfolding encode_extension_field_def [abs_def] Let_def
  by (intro uniform_extension_loop uniform_if ext_uniform uniform_default_extension enc)

lemma uniform_pb_encode: "uniform cb put (pb_encode n env m flds src)"
proof (induction n arbitrary: flds src)
  case 0
  have "pb_encode 0 env m flds src = (\<lambda>s. None)" by (rule ext) simp
  then show ?case using uniform_none by simp
next
  case (Suc n)
  have eq: "pb_encode (Suc n) env m flds src =
      loopM (\<lambda>it. if PB_LTYPE (f_type (it_field it)) = PB_LTYPE_EXTENSION
                 then encode_extension_field (pb_encode n env m) n env m (it_pData it)
                 else encode_field (pb_encode n env m) n env m (it_field it) (it_pData it))
        (iters flds src)" by (rule ext) simp
  show ?case unfolding eq
  proof (rule uniform_loop)
    fix it
    show "uniform cb put (if PB_LTYPE (f_type (it_field it)) = PB_LTYPE_EXTENSION
       then encode_extension_field (pb_encode n env m) n env m (it_pData it)
       else encode_field (pb_encode n env m) n env m (it_field it) (it_pData it))"
      using uniform_extension_field [of "pb_encode n env m", OF Suc.IH]
        uniform_field [of "pb_encode n env m", OF Suc.IH] by simp
  qed
qed

lemma uniform_pb_encode_delimited: "uniform cb put (pb_encode_delimited n env m flds src)"
  unfolding pb_encode_delimited_def [abs_def]
  by (rule uniform_submessage) (rule uniform_pb_encode)

text \<open>The size computed by the sizing pass is the length of what is written.\<close>

lemma encoded_size:
  assumes "pb_get_encoded_size n env m flds src = Some (Some sz)"
  obtains bs where "emits cb put (pb_encode n env m flds src) True bs None" "sz = of_nat (length bs)"
proof -
  obtain stream where st: "pb_encode n env m flds src PB_OSTREAM_SIZING = Some (True, stream)"
    "o_bytes_written stream = sz"
    using assms by (auto simp: pb_get_encoded_size_def split: if_splits)
  then obtain ok bs e where e: "emits cb put (pb_encode n env m flds src) ok bs e"
    using uniform_pb_encode [of n m flds src] by (auto simp: uniform_def PB_OSTREAM_SIZING_def)
  then have "ok" "e = None" "sz = of_nat (length bs)"
    using emitsD_sizing [OF e, of PB_OSTREAM_SIZING] st by (auto simp: emits_def)
  with e show thesis by (intro that) simp_all
qed

end

section \<open>Buffers are sinks for whole messages\<close>

text \<open>Application encoder callbacks that write through \<^verbatim>\<open>pb_write\<close> and choose what to
  write from the message alone: \<open>g\<close> gives the chunks of a callback field and the value it returns,
  \<open>h\<close> those of an extension.\<close>

definition write_chunk :: "pb_env \<Rightarrow> u8 list \<Rightarrow> pb_ostream \<Rightarrow> (bool \<times> pb_ostream) option" where
  "write_chunk env bs s =
     Some (if length bs < 2 ^ 64 then pb_write env s bs (of_nat (length bs)) else (False, s))"

definition write_chunks :: "pb_env \<Rightarrow> bool \<times> u8 list list \<Rightarrow> pb_ostream \<Rightarrow> bool \<times> pb_ostream" where
  "write_chunks env c s =
     the (and_then_opt (loopM (write_chunk env) (snd c) s) (\<lambda>s. Some (fst c, s)))"

definition api_env ::
  "pb_env \<Rightarrow> (addr \<Rightarrow> mem \<Rightarrow> pb_field \<Rightarrow> addr \<Rightarrow> bool \<times> u8 list list) \<Rightarrow>
   (addr \<Rightarrow> mem \<Rightarrow> addr \<Rightarrow> bool \<times> u8 list list) \<Rightarrow> pb_env" where
  "api_env env g h = env\<lparr>e_enc_cb := \<lambda>f m s field a. write_chunks env (g f m field a) s,
                        e_ext_enc := \<lambda>f m s extension. write_chunks env (h f m extension) s\<rparr>"

lemma loop_write_total: "loopM (write_chunk env) bss s \<noteq> None"
proof (induction bss arbitrary: s)
  case (Cons bs bss)
  obtain ok s' where "write_chunk env bs s = Some (ok, s')"
    unfolding write_chunk_def by (metis surj_pair)
  then show ?case using Cons.IH [of s'] by (cases ok) simp_all
qed simp

lemma uniform_write_chunks: "uniform OBufWrite buf_put (\<lambda>s. Some (write_chunks env c s))"
proof -
  have eq: "Some (write_chunks env c s) =
      and_then_opt (loopM (write_chunk env) (snd c) s) (\<lambda>s. Some (fst c, s))" for s
    using loop_write_total [of env "snd c" s]
    by (auto simp: write_chunks_def and_then_opt_def split: prod.splits)
  have fail: "emits OBufWrite buf_put (\<lambda>s. Some (False, s)) False [] None"
    by (auto simp: emits_def buf.advance_Nil)
  have chunk: "uniform OBufWrite buf_put (write_chunk env bs)" for bs
    using uniformI [OF buf.emits_write [of bs env]] uniformI [OF fail]
    unfolding write_chunk_def [abs_def] by (cases "length bs < 2 ^ 64") simp_all
  have "uniform OBufWrite buf_put (\<lambda>s. Some (fst c, s))"
    using uniformI [OF buf.emits_return] uniformI [OF fail] by (cases "fst c") simp_all
  then show ?thesis unfolding eq by (intro buf.uniform_seq buf.uniform_loop chunk)
qed

interpretation api: encoder "api_env env g h" OBufWrite buf_put for env g h
  by unfold_locales (simp_all add: api_env_def uniform_write_chunks)

section \<open>The encoder returns\<close>

lemma returns_all_opt: "(\<And>x. x \<in> set xs \<Longrightarrow> returns (f x)) \<Longrightarrow> returns (all_opt f xs)"
  by (induction xs) (auto intro!: total)

lemma returns_submessage:
  "(\<And>src s. returns (enc flds src s)) \<Longrightarrow> returns (pb_encode_submessage enc env flds src s)"
  unfolding pb_encode_submessage_def by (intro total)

lemma ltype_cases:
  assumes "x \<le> (0x0A :: u8)"
  shows "x = 0 \<or> x = 1 \<or> x = 2 \<or> x = 3 \<or> x = 4 \<or> x = 5 \<or> x = 6 \<or> x = 7 \<or> x = 8 \<or> x = 9 \<or> x = 0x0A"
proof -
  have "unat x \<le> 10" using assms by (simp add: word_le_nat_alt)
  then have "unat x = 0 \<or> unat x = 1 \<or> unat x = 2 \<or> unat x = 3 \<or> unat x = 4 \<or> unat x = 5 \<or>
      unat x = 6 \<or> unat x = 7 \<or> unat x = 8 \<or> unat x = 9 \<or> unat x = 10" by presburger
  then show ?thesis by (simp only: word_unat_eq_iff) simp
qed

lemma returns_encoders:
  assumes "PB_LTYPE (f_type f) \<noteq> PB_LTYPE_EXTENSION" "PB_LTYPE (f_type f) \<le> PB_LTYPE_FIXED_LENGTH_BYTES"
    and "\<And>src s. PB_LTYPE (f_type f) = PB_LTYPE_SUBMESSAGE \<Longrightarrow> returns (enc (e_fields env (f_ptr f)) src s)"
  shows "returns (PB_ENCODERS enc env m f src s)"
  using ltype_cases [OF assms(2)] assms(1,3)
  by (auto simp: PB_ENCODERS_def pb_enc_submessage_def intro!: returns_submessage)

lemma returns_encode_array:
  "(\<And>p s. returns (func p s)) \<Longrightarrow> returns (encode_array func env m field pData count s)"
  unfolding encode_array_def packed_size_def by (intro total) (auto intro: total)

lemma returns_default_check:
  assumes "table_ok n env fs" and "f \<in> set fs"
  shows "returns (pb_check_proto3_default_value n env m f pData)"
  using assms
proof (induction n arbitrary: fs f pData)
  case (Suc n)
  let ?sub = "e_fields env (f_ptr f)"
  have "returns (pb_check_proto3_default_value n env m (it_field it) (it_pData it))"
    if "PB_LTYPE (f_type f) = PB_LTYPE_SUBMESSAGE" "it \<in> set (iters ?sub pData)" for it
  proof -
    have "table_ok n env ?sub" using Suc.prems that(1) by simp
    then show ?thesis using Suc.IH iters_field [OF table_ok_wf that(2)] by blast
  qed
  then show ?case unfolding pb_check_proto3_default_value.simps
    by (intro total returns_all_opt) auto
qed simp

lemma returns_encode_field:
  assumes tab: "table_ok (Suc n) env fs" and f: "f \<in> set fs"
    and enc: "\<And>flds src s. table_ok n env flds \<Longrightarrow> returns (enc flds src s)"
  shows "returns (encode_field enc (Suc n) env m f pData s)"
proof -
  have func: "returns (PB_ENCODERS enc env m f p s)" for p s
    using tab f enc by (intro returns_encoders) auto
  have check: "returns (pb_check_proto3_default_value (Suc n) env m f pData)"
    by (rule returns_default_check [OF tab f])
  have oneof: "f_size_offset f \<noteq> 0" if "PB_HTYPE (f_type f) = PB_HTYPE_ONEOF" using tab f that by simp
  have h: "PB_HTYPE (f_type f) = PB_HTYPE_REQUIRED \<or> PB_HTYPE (f_type f) = PB_HTYPE_OPTIONAL \<or>
     PB_HTYPE (f_type f) = PB_HTYPE_REPEATED \<or> PB_HTYPE (f_type f) = PB_HTYPE_ONEOF"
    by (rule htype_cases)
  have "returns (encode_basic_field enc (Suc n) env m f pData s)"
    unfolding encode_basic_field_def
    by (intro total returns_encode_array func)
       (use check oneof h in \<open>auto intro!: total func simp del: pb_check_proto3_default_value.simps\<close>)
  then show ?thesis unfolding encode_field_def by (intro total)
qed

lemma returns_pb_encode: "table_ok n env flds \<Longrightarrow> returns (pb_encode (Suc n) env m flds src s)"
proof (induction n arbitrary: flds src s)
  case (Suc n)
  have "returns (encode_field (pb_encode (Suc n) env m) (Suc n) env m (it_field it) (it_pData it) s)"
    "PB_LTYPE (f_type (it_field it)) \<noteq> PB_LTYPE_EXTENSION" if "it \<in> set (iters flds src)" for it s
    using iters_field [OF table_ok_wf [OF Suc.prems] that] Suc.prems
    by (auto intro: returns_encode_field [OF Suc.prems] Suc.IH)
  then show ?case by (subst pb_encode.simps) (auto intro!: total)
qed simp

section \<open>Properties\<close>

text \<open>C1. The size \<^verbatim>\<open>pb_get_encoded_size\<close> reports is exact.  When it reports
  \<open>sz\<close>, there is one byte string \<open>bs\<close> of that length which \<^verbatim>\<open>pb_encode\<close> writes into every buffer that has
  room for it, leaving all other memory alone and reporting \<open>sz\<close> bytes written; into a smaller buffer
  it writes at most as many bytes as the buffer has, a prefix of \<open>bs\<close>, and returns false.\<close>

theorem encoded_size_exact:
  assumes "pb_get_encoded_size n (api_env env g h) m flds src = Some (Some sz)"
  shows "\<exists>bs. sz = of_nat (length bs) \<and>
    (\<forall>buf bufsize om. length bs \<le> unat bufsize \<longrightarrow>
       pb_encode n (api_env env g h) m flds src (pb_ostream_from_buffer buf bufsize om) =
         Some (True, \<lparr>o_callback = OBufWrite, o_state = buf + sz, o_max_size = bufsize,
           o_bytes_written = sz, o_errmsg = None, o_mem = write_bytes om buf bs\<rparr>)) \<and>
    (\<forall>buf bufsize om. unat bufsize < length bs \<and> length bs < 2 ^ 64 \<longrightarrow>
       (\<exists>k e. k \<le> unat bufsize \<and>
          pb_encode n (api_env env g h) m flds src (pb_ostream_from_buffer buf bufsize om) =
            Some (False, \<lparr>o_callback = OBufWrite, o_state = buf + of_nat k, o_max_size = bufsize,
              o_bytes_written = of_nat k, o_errmsg = e, o_mem = write_bytes om buf (take k bs)\<rparr>)))"
proof -
  obtain bs where bs: "emits OBufWrite buf_put (pb_encode n (api_env env g h) m flds src) True bs None"
    "sz = of_nat (length bs)" using assms by (rule api.encoded_size)
  show ?thesis
  proof (intro exI [of _ bs] conjI allI impI bs(2))
    fix buf bufsize :: u64 and om assume "length bs \<le> unat bufsize"
    from emits_from_buffer [OF bs(1) this, of buf om] show
      "pb_encode n (api_env env g h) m flds src (pb_ostream_from_buffer buf bufsize om) =
         Some (True, \<lparr>o_callback = OBufWrite, o_state = buf + sz, o_max_size = bufsize,
           o_bytes_written = sz, o_errmsg = None, o_mem = write_bytes om buf bs\<rparr>)" by (simp add: bs(2))
  next
    fix buf bufsize :: u64 and om assume small: "unat bufsize < length bs \<and> length bs < 2 ^ 64"
    show "\<exists>k e. k \<le> unat bufsize \<and>
          pb_encode n (api_env env g h) m flds src (pb_ostream_from_buffer buf bufsize om) =
            Some (False, \<lparr>o_callback = OBufWrite, o_state = buf + of_nat k, o_max_size = bufsize,
              o_bytes_written = of_nat k, o_errmsg = e, o_mem = write_bytes om buf (take k bs)\<rparr>)"
      by (rule emits_from_small_buffer [OF bs(1), of bufsize buf om]) (use small in auto)
  qed
qed

text \<open>The example message: field 1 is 300, field 2 is unset, field 5 has one item.\<close>

definition example_mem :: mem where
  "example_mem = (\<lambda>_. 0)(256 := 0x2C, 257 := 1)"

definition example_api :: pb_env where
  "example_api = api_env example_env (\<lambda>_ _ _ _. (True, [])) (\<lambda>_ _ _. (True, []))"

lemma example_inner_size:
  "pb_get_encoded_size (Suc 0) example_api example_mem example_inner 256 = Some (Some 3)"
  by code_simp

lemma encoded_size_exact_witness:
  "\<exists>bs :: u8 list. (3 :: u64) = of_nat (length bs) \<and> (length bs \<le> 100 \<longrightarrow>
    map_option fst (pb_encode (Suc 0) example_api example_mem example_inner 256
      (pb_ostream_from_buffer 1024 100 (\<lambda>_. 0))) = Some True)"
proof -
  from encoded_size_exact [OF example_inner_size [unfolded example_api_def], folded example_api_def]
  obtain bs where bs: "(3 :: u64) = of_nat (length bs)"
    and all: "\<And>buf bufsize om. length bs \<le> unat bufsize \<Longrightarrow>
       pb_encode (Suc 0) example_api example_mem example_inner 256 (pb_ostream_from_buffer buf bufsize om) =
         Some (True, \<lparr>o_callback = OBufWrite, o_state = buf + 3, o_max_size = bufsize,
           o_bytes_written = 3, o_errmsg = None, o_mem = write_bytes om buf bs\<rparr>)" by blast
  show ?thesis using bs all [of 100 1024 "\<lambda>_. 0"] by (intro exI [of _ bs]) simp
qed

text \<open>\<^verbatim>\<open>pb_encode_delimited\<close> writes the length of the message as a varint and then exactly
  the bytes \<^verbatim>\<open>pb_encode\<close> writes.\<close>

theorem delimited_is_length_prefixed:
  assumes "pb_get_encoded_size n (api_env env g h) m flds src = Some (Some sz)"
  shows "\<exists>bs. sz = of_nat (length bs) \<and>
    (\<forall>buf bufsize om. length (leb128 (unat sz) @ bs) \<le> unat bufsize \<longrightarrow>
       map_option (\<lambda>(ok, s). (ok, o_mem s))
         (pb_encode n (api_env env g h) m flds src (pb_ostream_from_buffer buf bufsize om)) =
         Some (True, write_bytes om buf bs) \<and>
       map_option (\<lambda>(ok, s). (ok, o_mem s))
         (pb_encode_delimited n (api_env env g h) m flds src (pb_ostream_from_buffer buf bufsize om)) =
         Some (True, write_bytes om buf (leb128 (unat sz) @ bs)))"
proof -
  obtain bs where bs: "emits OBufWrite buf_put (pb_encode n (api_env env g h) m flds src) True bs None"
    "sz = of_nat (length bs)" using assms by (rule api.encoded_size)
  have del: "emits OBufWrite buf_put (pb_encode_delimited n (api_env env g h) m flds src) True
      (leb128 (unat sz) @ bs) None"
    unfolding pb_encode_delimited_def [abs_def] bs(2)
    by (rule api.emits_submessage_ok [of "pb_encode n (api_env env g h) m", OF bs(1)])
  show ?thesis
  proof (intro exI [of _ bs] conjI allI impI bs(2))
    fix buf bufsize :: u64 and om assume len: "length (leb128 (unat sz) @ bs) \<le> unat bufsize"
    then have "length bs \<le> unat bufsize" by simp
    from emits_from_buffer [OF bs(1) this, of buf om] show "map_option (\<lambda>(ok, s). (ok, o_mem s))
         (pb_encode n (api_env env g h) m flds src (pb_ostream_from_buffer buf bufsize om)) =
         Some (True, write_bytes om buf bs)" by simp
    from emits_from_buffer [OF del len, of buf om] show "map_option (\<lambda>(ok, s). (ok, o_mem s))
         (pb_encode_delimited n (api_env env g h) m flds src (pb_ostream_from_buffer buf bufsize om)) =
         Some (True, write_bytes om buf (leb128 (unat sz) @ bs))" by simp
  qed
qed

lemma delimited_is_length_prefixed_witness:
  "\<exists>bs. (3 :: u64) = of_nat (length bs) \<and> (length bs \<le> 90 \<longrightarrow>
    map_option (\<lambda>(ok, s). (ok, o_mem s)) (pb_encode_delimited (Suc 0) example_api example_mem example_inner 256
      (pb_ostream_from_buffer 1024 100 (\<lambda>_. 0))) = Some (True, write_bytes (\<lambda>_. 0) 1024 (leb128 (unat (3 :: u64)) @ bs)))"
proof -
  from delimited_is_length_prefixed [OF example_inner_size [unfolded example_api_def], folded example_api_def]
  obtain bs where bs: "(3 :: u64) = of_nat (length bs)"
    and all: "\<And>buf bufsize om. length (leb128 (unat (3 :: u64)) @ bs) \<le> unat bufsize \<Longrightarrow>
       map_option (\<lambda>(ok, s). (ok, o_mem s))
         (pb_encode_delimited (Suc 0) example_api example_mem example_inner 256 (pb_ostream_from_buffer buf bufsize om)) =
         Some (True, write_bytes om buf (leb128 (unat (3 :: u64)) @ bs))" by blast
  have "length bs \<le> 90 \<Longrightarrow> length (leb128 (unat (3 :: u64)) @ bs) \<le> unat (100 :: u64)"
    using length_leb128_u64 [of 3] by simp
  then show ?thesis using all [of 100 1024 "\<lambda>_. 0"] bs by blast
qed

text \<open>C5. The encoder returns, for every kind of stream and whatever the data, on a descriptor table as
  the generator writes them: submessages nest at most \<open>n\<close> deep, every type code is known, no entry but the last has the tag 0,
  and every \<^verbatim>\<open>oneof\<close> has a \<^verbatim>\<open>which_\<close> member (\<open>table_ok\<close>).  The table has no extension field, since the
  extensions of a message are a linked list in its data, and on a list that is a cycle the encoder does not end.
  (Callbacks are functions of the model, so they return.)\<close>

theorem encode_terminates:
  assumes "table_ok n env flds"
  shows "\<exists>ok s'. pb_encode (Suc n) env m flds src s = Some (ok, s')"
  using returns_pb_encode [OF assms, of m src s] by (auto simp: returns_def)

lemma encode_terminates_witness:
  "\<exists>ok s'. pb_encode 3 example_env (\<lambda>_. 0) example_outer 256 PB_OSTREAM_SIZING = Some (ok, s')"
  using encode_terminates [OF example_tables(4), of "\<lambda>_. 0" 256 PB_OSTREAM_SIZING]
  by (simp add: numeral_3_eq_3)

text \<open>C10. The proto3 default check compares \<^verbatim>\<open>data_size\<close> bytes at the member, also when
  the member is a pointer.  For a string pointer (one byte of data) a pointer whose low byte is zero
  counts as unset although it is not NULL, and a static submessage with only that field set is left
  out of the message.\<close>

theorem default_check_pointer_low_byte:
  assumes "PB_ATYPE (f_type f) = PB_ATYPE_POINTER" and "PB_HTYPE (f_type f) = PB_HTYPE_OPTIONAL"
    and "f_size_offset f = 0" and "f_data_size f = 1" and "m p = 0" and "m (p + 1) \<noteq> 0"
  shows "load_ptr m p \<noteq> 0 \<and> pb_check_proto3_default_value (Suc n) env m f p = Some True \<and>
    encode_basic_field enc (Suc n) env m f p s =
      and_then_opt (Some (pb_encode_tag_for_field env s f)) (PB_ENCODERS enc env m f (load_ptr m p))"
proof -
  have ne: "load_ptr m p \<noteq> 0"
  proof
    assume "load_ptr m p = 0"
    then have "word_to_bytes 8 (0 :: u64) = read_bytes m p 8"
      using word_to_bytes_to_word [of "read_bytes m p 8" 8, where 'a = 64] by (simp add: load_ptr_def load_def)
    then have "word_to_bytes 8 (0 :: u64) ! 1 = read_bytes m p 8 ! 1" by (simp only:)
    then show False using assms(6) by (simp add: nth_word_to_bytes)
  qed
  moreover have check: "pb_check_proto3_default_value (Suc n) env m f p = Some True"
    using assms by (simp add: Let_def read_bytes_Suc)
  ultimately show ?thesis using assms
    by (simp add: encode_basic_field_def Let_def del: pb_check_proto3_default_value.simps)
qed

text \<open>A string pointer whose low byte is zero.\<close>

definition example_pointer :: pb_field where
  "example_pointer = \<lparr>f_tag = 3, f_type = PB_ATYPE_POINTER OR PB_HTYPE_OPTIONAL OR PB_LTYPE_STRING,
     f_data_offset = 0, f_size_offset = 0, f_data_size = 1, f_array_size = 0, f_ptr = 0\<rparr>"

lemma default_check_pointer_low_byte_witness:
  "pb_check_proto3_default_value 1 example_env (store_ptr (\<lambda>_. 0) 512 0x1200) example_pointer 512 = Some True"
proof -
  let ?m = "store_ptr (\<lambda>_. 0) 512 0x1200"
  have "?m 512 = 0" "?m (512 + 1) \<noteq> 0"
    by (simp_all add: store_ptr_def store_def word_to_bytes_def upt_rec)
  then show ?thesis
    using default_check_pointer_low_byte [of example_pointer ?m 512 0 example_env "\<lambda>_ _ _. None" PB_OSTREAM_SIZING]
    by (simp add: example_pointer_def PB_ATYPE_def PB_HTYPE_def)
qed

end
