(* ===== verification/Pb_Istream.thy ===== *)
theory Pb_Istream
  imports Pb_Ostream
begin

text \<open>
  The input streams of \<^verbatim>\<open>pb_decode.c\<close> and the decoders of single values: reading
  and skipping, varints, tags, wire-type skipping, substreams, zigzag and fixed-width words.  Every
  operation is shown to stay inside the stream's window; the interface \<open>source\<close> is what the
  decoders rely on in a stream callback, and inside it they are shown to invert the encoders of
  \<^verbatim>\<open>pb_encode.c\<close>.
\<close>

section \<open>Reading\<close>

text \<open>A stream together with the heap it may change.  An operation with an out parameter returns
  \<open>None\<close> for it exactly when the C function returns false.\<close>

type_synonym ist = "pb_istream \<times> heap"

text \<open>Where the bytes go: NULL (skip), a local array of the caller (the bytes are returned), or
  memory.\<close>

datatype rbuf = RNull | RLocal | RMem addr

definition is_error :: "ist \<Rightarrow> string \<Rightarrow> ist" where
  "is_error st msg = ((fst st)\<lparr>i_errmsg := set_error (i_errmsg (fst st)) msg\<rparr>, snd st)"

definition fail_with :: "ist \<Rightarrow> string \<Rightarrow> 'a option \<times> ist" where
  "fail_with st msg = (None, is_error st msg)"

definition and_take :: "'a option \<times> 's \<Rightarrow> ('a \<Rightarrow> 's \<Rightarrow> bool \<times> 's) \<Rightarrow> bool \<times> 's" where
  "and_take r g = (case r of (None, s) \<Rightarrow> (False, s) | (Some v, s) \<Rightarrow> g v s)"

lemma and_take_simps [simp]:
  "and_take (None, s) g = (False, s)" "and_take (Some v, s) g = g v s"
  by (simp_all add: and_take_def)

text \<open>\<^verbatim>\<open>buf_read\<close>: the byte-by-byte copy loop, source before destination check.\<close>

definition buf_read :: "ist \<Rightarrow> rbuf \<Rightarrow> u64 \<Rightarrow> u8 list option \<times> ist" where
  "buf_read st buf count =
     (case st of (s, h) \<Rightarrow>
        let source = i_state s; s' = s\<lparr>i_state := i_state s + count\<rparr> in
        case buf of
          RNull \<Rightarrow> (Some [], s', h)
        | RLocal \<Rightarrow> (Some (read_bytes (h_mem h) source (unat count)), s', h)
        | RMem a \<Rightarrow> (Some [], s', h\<lparr>h_mem := copy_fwd (unat count) (h_mem h) a source\<rparr>))"

text \<open>\<^verbatim>\<open>stream->callback(stream, buf, count)\<close>.  An application callback returns the
  bytes it stores, its new state word and the heap; NULL is never passed to it.\<close>

definition call_read :: "pb_env \<Rightarrow> ist \<Rightarrow> rbuf \<Rightarrow> u64 \<Rightarrow> u8 list option \<times> ist" where
  "call_read env st buf count =
     (case i_callback (fst st) of
        IBufRead \<Rightarrow> buf_read st buf count
      | IUser f \<Rightarrow>
          (case e_read env f (i_state (fst st)) count (snd st) of
             (ok, bs, state', h') \<Rightarrow>
               let data = take (unat count) bs;
                   s' = (fst st)\<lparr>i_state := state'\<rparr>;
                   h'' = (case buf of
                            RMem a \<Rightarrow> h'\<lparr>h_mem := write_bytes (h_mem h') a data\<rparr>
                          | _ \<Rightarrow> h') in
               (if ok then Some data else None, s', h'')))"

text \<open>The part of \<^verbatim>\<open>pb_read\<close> after the skip loop, and its one-byte variant.\<close>

definition pb_read_data :: "pb_env \<Rightarrow> rbuf \<Rightarrow> u64 \<Rightarrow> ist \<Rightarrow> u8 list option \<times> ist" where
  "pb_read_data env buf count st =
     (if i_bytes_left (fst st) < count then fail_with st ''end-of-stream''
      else case call_read env st buf count of
             (None, st') \<Rightarrow> fail_with st' ''io error''
           | (Some bs, s', h') \<Rightarrow> (Some bs, s'\<lparr>i_bytes_left := i_bytes_left s' - count\<rparr>, h'))"

definition pb_readbyte :: "pb_env \<Rightarrow> ist \<Rightarrow> u8 option \<times> ist" where
  "pb_readbyte env st =
     (if i_bytes_left (fst st) = 0 then fail_with st ''end-of-stream''
      else case call_read env st RLocal 1 of
             (None, st') \<Rightarrow> fail_with st' ''io error''
           | (Some bs, s', h') \<Rightarrow>
               (Some (byte_at bs 0), s'\<lparr>i_bytes_left := i_bytes_left s' - 1\<rparr>, h'))"

text \<open>\<^verbatim>\<open>while (count > 16) { pb_read(stream, tmp, 16); count -= 16; }\<close> and the last piece.\<close>

function skip_loop :: "pb_env \<Rightarrow> u64 \<Rightarrow> ist \<Rightarrow> u8 list option \<times> ist" where
  "skip_loop env count st =
     (if count > 16
      then bind_io (pb_read_data env RLocal 16 st) (\<lambda>_ st. skip_loop env (count - 16) st)
      else pb_read_data env RLocal count st)"
  by pat_completeness auto
termination
proof (relation "measure (\<lambda>(env, count, st). unat count)")
  fix env :: pb_env and count :: u64 and x st assume "16 < count"
  then show "((env, count - 16, st), (env, count, x)) \<in> measure (\<lambda>(env, count, st). unat count)"
    by (simp add: word_less_nat_alt unat_sub word_le_nat_alt)
qed simp

declare skip_loop.simps [simp del]

definition pb_read :: "pb_env \<Rightarrow> rbuf \<Rightarrow> u64 \<Rightarrow> ist \<Rightarrow> u8 list option \<times> ist" where
  "pb_read env buf count st =
     (if count = 0 then (Some [], st)
      else if buf = RNull \<and> i_callback (fst st) \<noteq> IBufRead then skip_loop env count st
      else pb_read_data env buf count st)"

definition pb_istream_from_buffer :: "addr \<Rightarrow> u64 \<Rightarrow> pb_istream" where
  "pb_istream_from_buffer buf bufsize =
     \<lparr>i_callback = IBufRead, i_state = buf, i_bytes_left = bufsize, i_errmsg = None\<rparr>"

section \<open>Staying inside the stream\<close>

text \<open>\<open>follows st st'\<close>: the callback is the same, no bytes were gained, and on a buffer stream the
  read position plus what is left is still the end of the buffer.\<close>

definition i_end :: "pb_istream \<Rightarrow> addr" where
  "i_end s = i_state s + i_bytes_left s"

definition follows :: "pb_istream \<Rightarrow> pb_istream \<Rightarrow> bool" where
  "follows s s' \<longleftrightarrow> i_callback s' = i_callback s \<and> unat (i_bytes_left s') \<le> unat (i_bytes_left s) \<and>
     (i_callback s = IBufRead \<longrightarrow> i_end s' = i_end s)"

lemma follows_refl [simp]: "follows s s"
  by (simp add: follows_def)

lemma follows_trans [trans]: "follows a b \<Longrightarrow> follows b c \<Longrightarrow> follows a c"
  by (auto simp: follows_def)

lemma follows_left: "follows s s' \<Longrightarrow> unat (i_bytes_left s') \<le> unat (i_bytes_left s)"
  by (simp add: follows_def)

lemma follows_errmsg [simp]:
  "follows s (s'\<lparr>i_errmsg := e\<rparr>) \<longleftrightarrow> follows s s'" "follows (s\<lparr>i_errmsg := e\<rparr>) s' \<longleftrightarrow> follows s s'"
  by (simp_all add: follows_def i_end_def)

lemma is_error_fst [simp]:
  "i_callback (fst (is_error st m)) = i_callback (fst st)"
  "i_state (fst (is_error st m)) = i_state (fst st)"
  "i_bytes_left (fst (is_error st m)) = i_bytes_left (fst st)"
  "snd (is_error st m) = snd st"
  by (simp_all add: is_error_def)

lemma follows_is_error [simp]: "follows s (fst (is_error st m)) \<longleftrightarrow> follows s (fst st)"
  by (simp add: is_error_def)

lemma fail_with_simps [simp]: "fst (fail_with st m) = None" "snd (fail_with st m) = is_error st m"
  by (simp_all add: fail_with_def)

lemma call_read_stream:
  assumes "call_read env st buf n = (r, s', h')"
  shows "i_callback s' = i_callback (fst st)" "i_bytes_left s' = i_bytes_left (fst st)"
    "i_callback (fst st) = IBufRead \<Longrightarrow> i_state s' = i_state (fst st) + n \<and> r \<noteq> None"
  using assms
  by (auto simp: call_read_def buf_read_def Let_def split: icallback.splits prod.splits rbuf.splits)

lemma pb_read_data_Some:
  assumes "pb_read_data env buf n st = (Some bs, st')"
  shows "n \<le> i_bytes_left (fst st)" "i_bytes_left (fst st') = i_bytes_left (fst st) - n"
    "follows (fst st) (fst st')"
proof -
  obtain s' h' where c: "call_read env st buf n = (Some bs, s', h')"
    and n: "\<not> i_bytes_left (fst st) < n"
    and st': "st' = (s'\<lparr>i_bytes_left := i_bytes_left s' - n\<rparr>, h')"
    using assms by (auto simp: pb_read_data_def fail_with_def split: if_splits prod.splits option.splits)
  show n': "n \<le> i_bytes_left (fst st)" using n by simp
  show "i_bytes_left (fst st') = i_bytes_left (fst st) - n"
    using st' call_read_stream(2) [OF c] by simp
  show "follows (fst st) (fst st')"
    using st' call_read_stream [OF c] unat_sub [OF n'] by (auto simp: follows_def i_end_def)
qed

lemma pb_read_data_None:
  assumes "pb_read_data env buf n st = (None, st')"
  shows "i_bytes_left (fst st') = i_bytes_left (fst st)" "i_callback (fst st') = i_callback (fst st)"
    "i_callback (fst st) = IBufRead \<Longrightarrow>
       i_bytes_left (fst st) < n \<and> i_state (fst st') = i_state (fst st)"
    "follows (fst st) (fst st')"
  using assms
  by (auto simp: pb_read_data_def fail_with_def follows_def i_end_def split: if_splits prod.splits option.splits
      dest: call_read_stream)

lemma pb_read_data_follows [consume]: "follows (fst st) (fst (snd (pb_read_data env buf n st)))"
  using pb_read_data_Some(3) [of env buf n st] pb_read_data_None(4) [of env buf n st]
  by (cases "pb_read_data env buf n st"; cases "fst (pb_read_data env buf n st)") auto

lemma pb_readbyte_Some:
  assumes "pb_readbyte env st = (Some b, st')"
  shows "i_bytes_left (fst st) \<noteq> 0" "i_bytes_left (fst st') = i_bytes_left (fst st) - 1"
    "unat (i_bytes_left (fst st')) = unat (i_bytes_left (fst st)) - 1"
    "unat (i_bytes_left (fst st')) < unat (i_bytes_left (fst st))" "follows (fst st) (fst st')"
proof -
  obtain s' h' bs where c: "call_read env st RLocal 1 = (Some bs, s', h')"
    and n: "i_bytes_left (fst st) \<noteq> 0"
    and st': "st' = (s'\<lparr>i_bytes_left := i_bytes_left s' - 1\<rparr>, h')"
    using assms by (auto simp: pb_readbyte_def fail_with_def split: if_splits prod.splits option.splits)
  show "i_bytes_left (fst st) \<noteq> 0" using n .
  show l: "i_bytes_left (fst st') = i_bytes_left (fst st) - 1"
    using st' call_read_stream(2) [OF c] by simp
  show u: "unat (i_bytes_left (fst st')) = unat (i_bytes_left (fst st)) - 1"
    using l unat_minus_one [OF n] by simp
  moreover have "0 < unat (i_bytes_left (fst st))" using n by (simp add: unat_gt_0)
  ultimately show "unat (i_bytes_left (fst st')) < unat (i_bytes_left (fst st))" by simp
  then show "follows (fst st) (fst st')"
    using l st' call_read_stream [OF c] by (auto simp: follows_def i_end_def)
qed

lemma pb_readbyte_None:
  assumes "pb_readbyte env st = (None, st')"
  shows "follows (fst st) (fst st')" "i_bytes_left (fst st') = i_bytes_left (fst st)"
  using assms
  by (auto simp: pb_readbyte_def fail_with_def follows_def i_end_def split: if_splits prod.splits option.splits
      dest: call_read_stream)

lemma pb_readbyte_follows [consume]: "follows (fst st) (fst (snd (pb_readbyte env st)))"
  using pb_readbyte_Some(5) [of env st] pb_readbyte_None(1) [of env st]
  by (cases "pb_readbyte env st"; cases "fst (pb_readbyte env st)") auto

lemma readbyte_less:
  "(Some b, st') = pb_readbyte env st \<Longrightarrow> unat (i_bytes_left (fst st')) < unat (i_bytes_left (fst st))"
  using pb_readbyte_Some(4) [of env st b st'] by simp

lemma read1_less:
  assumes "(Some bs, st') = pb_read env RLocal 1 st"
  shows "unat (i_bytes_left (fst st')) < unat (i_bytes_left (fst st))"
proof -
  have "pb_read_data env RLocal 1 st = (Some bs, st')" using assms by (simp add: pb_read_def)
  note f = pb_read_data_Some [OF this]
  have ne: "i_bytes_left (fst st) \<noteq> 0" using f(1) by (auto simp: word_le_nat_alt)
  then have "0 < unat (i_bytes_left (fst st))" by (simp add: unat_gt_0)
  then show ?thesis using f(2) unat_minus_one [OF ne] by simp
qed

section \<open>Varints\<close>

text \<open>The \<^verbatim>\<open>do ... while (byte & 0x80)\<close> loop of
  \<^verbatim>\<open>pb_decode_varint32_eof\<close>; \<open>bitpos\<close> is a \<^verbatim>\<open>uint_fast8_t\<close>
  and wraps.  The loop returns the result, the final \<open>bitpos\<close> and the last byte.\<close>

function varint32_loop :: "pb_env \<Rightarrow> u8 \<Rightarrow> u32 \<Rightarrow> ist \<Rightarrow> (u32 \<times> u8 \<times> u8) option \<times> ist" where
  "varint32_loop env bitpos result st =
     (case pb_readbyte env st of
        (None, st) \<Rightarrow> (None, st)
      | (Some byte, st) \<Rightarrow>
          if bitpos \<ge> 32 \<and> byte AND 0x7F \<noteq> 0 \<and>
             (drop_bit 31 result = 0 \<or> byte \<noteq> (if bitpos < 63 then 0xFF else 0x01))
          then fail_with st ''varint overflow''
          else
            let result' = (if bitpos \<ge> 32 then result
                           else result OR push_bit (unat bitpos) (ucast (byte AND 0x7F)));
                bitpos' = bitpos + 7 in
            if byte AND 0x80 \<noteq> 0 then varint32_loop env bitpos' result' st
            else (Some (result', bitpos', byte), st))"
  by pat_completeness auto
termination
  by (relation "measure (\<lambda>(env, bitpos, result, st). unat (i_bytes_left (fst st)))") (auto dest: readbyte_less)

declare varint32_loop.simps [simp del]

text \<open>The second component is \<^verbatim>\<open>*eof\<close> (set to true, or left alone).\<close>

definition pb_decode_varint32_eof :: "pb_env \<Rightarrow> ist \<Rightarrow> bool \<times> u32 option \<times> ist" where
  "pb_decode_varint32_eof env st =
     (case pb_readbyte env st of
        (None, st) \<Rightarrow> (i_bytes_left (fst st) = 0, None, st)
      | (Some byte, st) \<Rightarrow>
          (False,
           if byte AND 0x80 = 0 then (Some (ucast byte), st)
           else bind_io (varint32_loop env 7 (ucast (byte AND 0x7F)) st) (\<lambda>(result, bitpos, byte) st.
             if bitpos = 35 \<and> byte AND 0x70 \<noteq> 0 then fail_with st ''varint overflow''
             else (Some result, st))))"

definition pb_decode_varint32 :: "pb_env \<Rightarrow> ist \<Rightarrow> u32 option \<times> ist" where
  "pb_decode_varint32 env st = snd (pb_decode_varint32_eof env st)"

function varint64_loop :: "pb_env \<Rightarrow> u8 \<Rightarrow> u64 \<Rightarrow> ist \<Rightarrow> u64 option \<times> ist" where
  "varint64_loop env bitpos result st =
     (if bitpos \<ge> 64 then fail_with st ''varint overflow''
      else case pb_readbyte env st of
        (None, st) \<Rightarrow> (None, st)
      | (Some byte, st) \<Rightarrow>
          let result' = result OR push_bit (unat bitpos) (ucast (byte AND 0x7F)) in
          if byte AND 0x80 \<noteq> 0 then varint64_loop env (bitpos + 7) result' st
          else (Some result', st))"
  by pat_completeness auto
termination
  by (relation "measure (\<lambda>(env, bitpos, result, st). unat (i_bytes_left (fst st)))") (auto dest: readbyte_less)

declare varint64_loop.simps [simp del]

definition pb_decode_varint :: "pb_env \<Rightarrow> ist \<Rightarrow> u64 option \<times> ist" where
  "pb_decode_varint env st = varint64_loop env 0 0 st"

section \<open>Skipping, tags and substreams\<close>

function pb_skip_varint :: "pb_env \<Rightarrow> ist \<Rightarrow> bool \<times> ist" where
  "pb_skip_varint env st =
     (case pb_read env RLocal 1 st of
        (None, st) \<Rightarrow> (False, st)
      | (Some bs, st) \<Rightarrow>
          if byte_at bs 0 AND 0x80 \<noteq> 0 then pb_skip_varint env st else (True, st))"
  by pat_completeness auto
termination
  by (relation "measure (\<lambda>(env, st). unat (i_bytes_left (fst st)))") (auto dest: read1_less)

declare pb_skip_varint.simps [simp del]

definition skip :: "pb_env \<Rightarrow> u64 \<Rightarrow> ist \<Rightarrow> bool \<times> ist" where
  "skip env count st = and_take (pb_read env RNull count st) (\<lambda>_ st. (True, st))"

definition pb_skip_string :: "pb_env \<Rightarrow> ist \<Rightarrow> bool \<times> ist" where
  "pb_skip_string env st =
     and_take (pb_decode_varint32 env st) (\<lambda>len st. skip env (ucast len) st)"

text \<open>\<^verbatim>\<open>pb_decode_tag\<close>: \<open>eof\<close>, then \<open>(wire_type, tag)\<close> or false.\<close>

definition pb_decode_tag :: "pb_env \<Rightarrow> ist \<Rightarrow> bool \<times> (pb_wire_type \<times> u32) option \<times> ist" where
  "pb_decode_tag env st =
     (case pb_decode_varint32_eof env st of
        (eof, None, st) \<Rightarrow> (eof, None, st)
      | (eof, Some temp, st) \<Rightarrow>
          if temp = 0 then (True, None, st)
          else (eof, Some (temp AND 7, drop_bit 3 temp), st))"

definition pb_skip_field :: "pb_env \<Rightarrow> pb_wire_type \<Rightarrow> ist \<Rightarrow> bool \<times> ist" where
  "pb_skip_field env wire_type st =
     (if wire_type = PB_WT_VARINT then pb_skip_varint env st
      else if wire_type = PB_WT_64BIT then skip env 8 st
      else if wire_type = PB_WT_STRING then pb_skip_string env st
      else if wire_type = PB_WT_32BIT then skip env 4 st
      else (False, is_error st ''invalid wire_type''))"

text \<open>\<^verbatim>\<open>read_raw_value\<close> for a varint, with \<open>k\<close> bytes of the buffer left; running
  over the buffer returns false without a message.\<close>

fun raw_varint_loop :: "nat \<Rightarrow> pb_env \<Rightarrow> u8 list \<Rightarrow> ist \<Rightarrow> u8 list option \<times> ist" where
  "raw_varint_loop 0 env acc st = (None, st)"
| "raw_varint_loop (Suc k) env acc st =
     (case pb_read env RLocal 1 st of
        (None, st) \<Rightarrow> (None, st)
      | (Some bs, st) \<Rightarrow>
          let acc' = acc @ [byte_at bs 0] in
          if byte_at bs 0 AND 0x80 \<noteq> 0 then raw_varint_loop k env acc' st else (Some acc', st))"

definition read_raw_value ::
  "pb_env \<Rightarrow> pb_wire_type \<Rightarrow> nat \<Rightarrow> ist \<Rightarrow> u8 list option \<times> ist" where
  "read_raw_value env wire_type max_size st =
     (if wire_type = PB_WT_VARINT then raw_varint_loop max_size env [] st
      else if wire_type = PB_WT_64BIT then pb_read env RLocal 8 st
      else if wire_type = PB_WT_32BIT then pb_read env RLocal 4 st
      else fail_with st ''invalid wire_type'')"

text \<open>The substream and the parent, already moved past it.\<close>

definition pb_make_string_substream :: "pb_env \<Rightarrow> ist \<Rightarrow> pb_istream option \<times> ist" where
  "pb_make_string_substream env st =
     bind_io (pb_decode_varint32 env st) (\<lambda>sz st.
       if i_bytes_left (fst st) < ucast sz then fail_with st ''parent stream too short''
       else (Some ((fst st)\<lparr>i_bytes_left := ucast sz\<rparr>),
             (fst st)\<lparr>i_bytes_left := i_bytes_left (fst st) - ucast sz\<rparr>, snd st))"

definition pb_close_string_substream :: "pb_env \<Rightarrow> pb_istream \<Rightarrow> pb_istream \<Rightarrow> heap \<Rightarrow> bool \<times> ist" where
  "pb_close_string_substream env s sub h =
     (case (if i_bytes_left sub \<noteq> 0 then skip env (i_bytes_left sub) (sub, h) else (True, sub, h)) of
        (ok, sub', h') \<Rightarrow>
          if \<not> ok then (False, s, h')
          else (True, s\<lparr>i_state := i_state sub', i_errmsg := i_errmsg sub'\<rparr>, h'))"

section \<open>Zigzag and fixed-width words\<close>

definition unzigzag :: "u64 \<Rightarrow> u64" where
  "unzigzag value = (if value AND 1 \<noteq> 0 then NOT (drop_bit 1 value) else drop_bit 1 value)"

definition pb_decode_svarint :: "pb_env \<Rightarrow> ist \<Rightarrow> u64 option \<times> ist" where
  "pb_decode_svarint env st =
     bind_io (pb_decode_varint env st) (\<lambda>value st. (Some (unzigzag value), st))"

definition pb_decode_fixed32 :: "pb_env \<Rightarrow> addr \<Rightarrow> ist \<Rightarrow> bool \<times> ist" where
  "pb_decode_fixed32 env dest st =
     and_take (pb_read env RLocal 4 st) (\<lambda>bytes (s, h).
       (True, s, h\<lparr>h_mem := store_u32 (h_mem h) dest
          (ucast (byte_at bytes 0) OR push_bit 8 (ucast (byte_at bytes 1)) OR
           push_bit 16 (ucast (byte_at bytes 2)) OR push_bit 24 (ucast (byte_at bytes 3)))\<rparr>))"

definition pb_decode_fixed64 :: "pb_env \<Rightarrow> addr \<Rightarrow> ist \<Rightarrow> bool \<times> ist" where
  "pb_decode_fixed64 env dest st =
     and_take (pb_read env RLocal 8 st) (\<lambda>bytes (s, h).
       (True, s, h\<lparr>h_mem := store_u64 (h_mem h) dest
          (ucast (byte_at bytes 0) OR push_bit 8 (ucast (byte_at bytes 1)) OR
           push_bit 16 (ucast (byte_at bytes 2)) OR push_bit 24 (ucast (byte_at bytes 3)) OR
           push_bit 32 (ucast (byte_at bytes 4)) OR push_bit 40 (ucast (byte_at bytes 5)) OR
           push_bit 48 (ucast (byte_at bytes 6)) OR push_bit 56 (ucast (byte_at bytes 7)))\<rparr>))"

section \<open>Every operation stays inside the stream\<close>

lemma bind_io_follows:
  assumes "follows s (fst (snd r))"
    and "\<And>v st. r = (Some v, st) \<Longrightarrow> follows (fst st) (fst (snd (g v st)))"
  shows "follows s (fst (snd (bind_io r g)))"
  using assms by (cases r; cases "fst r") (auto intro: follows_trans)

lemma and_take_follows:
  assumes "follows s (fst (snd r))"
    and "\<And>v st. r = (Some v, st) \<Longrightarrow> follows (fst st) (fst (snd (g v st)))"
  shows "follows s (fst (snd (and_take r g)))"
  using assms by (cases r; cases "fst r") (auto intro: follows_trans)

lemma skip_loop_follows: "follows (fst st) (fst (snd (skip_loop env count st)))"
proof (induction env count st rule: skip_loop.induct)
  case (1 env count st)
  then show ?case
    by (subst skip_loop.simps) (auto intro!: bind_io_follows pb_read_data_follows 1)
qed

lemma pb_read_follows [consume]: "follows (fst st) (fst (snd (pb_read env buf count st)))"
  by (simp add: pb_read_def skip_loop_follows pb_read_data_follows)

lemma varint32_loop_follows: "follows (fst st) (fst (snd (varint32_loop env bitpos result st)))"
proof (induction env bitpos result st rule: varint32_loop.induct)
  case (1 env bitpos result st)
  have f: "follows (fst st) (fst (snd (pb_readbyte env st)))" by (rule pb_readbyte_follows)
  show ?case
    by (subst varint32_loop.simps, cases "pb_readbyte env st"; cases "fst (pb_readbyte env st)")
       (use f in \<open>auto simp: Let_def intro: follows_trans [OF _ 1]\<close>)
qed

lemma varint64_loop_follows: "follows (fst st) (fst (snd (varint64_loop env bitpos result st)))"
proof (induction env bitpos result st rule: varint64_loop.induct)
  case (1 env bitpos result st)
  have f: "follows (fst st) (fst (snd (pb_readbyte env st)))" by (rule pb_readbyte_follows)
  show ?case
    by (subst varint64_loop.simps, cases "pb_readbyte env st"; cases "fst (pb_readbyte env st)")
       (use f in \<open>auto simp: Let_def intro: follows_trans [OF _ 1]\<close>)
qed

lemma pb_decode_varint32_eof_follows:
  "follows (fst st) (fst (snd (snd (pb_decode_varint32_eof env st))))"
proof -
  have f: "follows (fst st) (fst (snd (pb_readbyte env st)))" by (rule pb_readbyte_follows)
  have "follows (fst st1) (fst (snd (bind_io (varint32_loop env 7 r st1) (\<lambda>(result, bitpos, byte) st.
      if bitpos = 35 \<and> byte AND 0x70 \<noteq> 0 then fail_with st ''varint overflow''
      else (Some result, st)))))" for r st1
    by (rule bind_io_follows [OF varint32_loop_follows]) auto
  then show ?thesis using f
    by (cases "pb_readbyte env st"; cases "fst (pb_readbyte env st)")
       (auto simp: pb_decode_varint32_eof_def intro: follows_trans)
qed

lemma pb_decode_varint32_follows [consume]:
  "follows (fst st) (fst (snd (pb_decode_varint32 env st)))"
  by (simp add: pb_decode_varint32_def pb_decode_varint32_eof_follows)

lemma pb_decode_varint_follows [consume]: "follows (fst st) (fst (snd (pb_decode_varint env st)))"
  by (simp add: pb_decode_varint_def varint64_loop_follows)

lemma pb_decode_svarint_follows [consume]: "follows (fst st) (fst (snd (pb_decode_svarint env st)))"
  unfolding pb_decode_svarint_def by (rule bind_io_follows) (simp_all add: consume)

lemma pb_skip_varint_follows [consume]: "follows (fst st) (fst (snd (pb_skip_varint env st)))"
proof (induction env st rule: pb_skip_varint.induct)
  case (1 env st)
  have f: "follows (fst st) (fst (snd (pb_read env RLocal 1 st)))" by (rule pb_read_follows)
  show ?case
    by (subst pb_skip_varint.simps, cases "pb_read env RLocal 1 st"; cases "fst (pb_read env RLocal 1 st)")
       (use f in \<open>auto intro: follows_trans [OF _ 1]\<close>)
qed

lemma skip_follows [consume]: "follows (fst st) (fst (snd (skip env count st)))"
  unfolding skip_def by (rule and_take_follows) (simp_all add: consume)

lemma pb_skip_string_follows [consume]: "follows (fst st) (fst (snd (pb_skip_string env st)))"
  unfolding pb_skip_string_def by (rule and_take_follows) (simp_all add: consume)

lemma pb_skip_field_follows [consume]: "follows (fst st) (fst (snd (pb_skip_field env wt st)))"
  by (simp add: pb_skip_field_def consume)

lemma pb_decode_tag_follows [consume]: "follows (fst st) (fst (snd (snd (pb_decode_tag env st))))"
  using pb_decode_varint32_eof_follows [of st env]
  by (auto simp: pb_decode_tag_def split: prod.splits option.splits)

lemma raw_varint_loop_follows: "follows (fst st) (fst (snd (raw_varint_loop k env acc st)))"
proof (induction k arbitrary: acc st)
  case (Suc k)
  have f: "follows (fst st) (fst (snd (pb_read env RLocal 1 st)))" by (rule pb_read_follows)
  show ?case
    by (cases "pb_read env RLocal 1 st"; cases "fst (pb_read env RLocal 1 st)")
       (use f in \<open>auto simp: Let_def intro: follows_trans [OF _ Suc.IH]\<close>)
qed simp

lemma read_raw_value_follows [consume]:
  "follows (fst st) (fst (snd (read_raw_value env wt k st)))"
  by (simp add: read_raw_value_def consume raw_varint_loop_follows)

lemma pb_decode_fixed32_follows [consume]: "follows (fst st) (fst (snd (pb_decode_fixed32 env a st)))"
  unfolding pb_decode_fixed32_def by (rule and_take_follows) (simp_all add: consume split: prod.splits)

lemma pb_decode_fixed64_follows [consume]: "follows (fst st) (fst (snd (pb_decode_fixed64 env a st)))"
  unfolding pb_decode_fixed64_def by (rule and_take_follows) (simp_all add: consume split: prod.splits)

text \<open>A window of the stream: what remains true also when a parent stream is left behind at the
  start of a substream that failed.\<close>

definition within :: "pb_istream \<Rightarrow> pb_istream \<Rightarrow> bool" where
  "within s s' \<longleftrightarrow> i_callback s' = i_callback s \<and>
     (\<exists>a. a + unat (i_bytes_left s') \<le> unat (i_bytes_left s) \<and>
        (i_callback s = IBufRead \<longrightarrow> i_state s' = i_state s + of_nat a))"

lemma within_refl [simp]: "within s s"
  by (auto simp: within_def intro: exI [of _ 0])

lemma within_trans [trans]: "within a b \<Longrightarrow> within b c \<Longrightarrow> within a c"
  unfolding within_def
  by (elim conjE exE, intro conjI, simp, rule_tac x = "aa + aaa" in exI) (auto simp: add.assoc)

lemma within_errmsg [simp]:
  "within s (s'\<lparr>i_errmsg := e\<rparr>) \<longleftrightarrow> within s s'" "within (s\<lparr>i_errmsg := e\<rparr>) s' \<longleftrightarrow> within s s'"
  by (simp_all add: within_def)

lemma within_is_error [simp]: "within s (fst (is_error st m)) \<longleftrightarrow> within s (fst st)"
  by (simp add: is_error_def)

lemma within_left: "within s s' \<Longrightarrow> unat (i_bytes_left s') \<le> unat (i_bytes_left s)"
  by (auto simp: within_def)

lemma follows_within: "follows s s' \<Longrightarrow> within s s'"
  unfolding follows_def within_def i_end_def
  by (intro conjI exI [of _ "unat (i_bytes_left s) - unat (i_bytes_left s')"]) (auto simp: of_nat_diff algebra_simps)

lemma varint32_less:
  assumes "snd (pb_decode_varint32_eof env st) = (Some v, st')"
  shows "unat (i_bytes_left (fst st')) < unat (i_bytes_left (fst st))"
proof -
  obtain b st2 where r: "pb_readbyte env st = (Some b, st2)"
    using assms by (cases "pb_readbyte env st"; cases "fst (pb_readbyte env st)")
      (auto simp: pb_decode_varint32_eof_def)
  have "follows (fst st2) (fst (snd (snd (pb_decode_varint32_eof env st))))"
    using r by (auto simp: pb_decode_varint32_eof_def
        intro!: bind_io_follows varint32_loop_follows split: prod.splits)
  then have "unat (i_bytes_left (fst st')) \<le> unat (i_bytes_left (fst st2))"
    using assms by (simp add: follows_def)
  then show ?thesis using pb_readbyte_Some(4) [OF r] by simp
qed

lemma pb_decode_tag_less:
  "pb_decode_tag env st = (eof, Some v, st') \<Longrightarrow> unat (i_bytes_left (fst st')) < unat (i_bytes_left (fst st))"
  using varint32_less [of env st] by (auto simp: pb_decode_tag_def split: prod.splits option.splits if_splits)

text \<open>Substreams: the window of the parent is split at the length; closing the substream, wherever
  its decoder left it, moves the parent behind it.\<close>

lemma make_substream_Some:
  assumes "pb_make_string_substream env st = (Some sub, s', h')"
  shows "within (fst st) sub" "within (fst st) s'" "i_callback sub = i_callback (fst st)"
    "i_callback s' = i_callback (fst st)"
    "unat (i_bytes_left sub) + unat (i_bytes_left s') < unat (i_bytes_left (fst st))"
    "i_callback (fst st) = IBufRead \<Longrightarrow> i_end sub + i_bytes_left s' = i_end (fst st)"
proof -
  obtain sz st1 where v: "pb_decode_varint32 env st = (Some sz, st1)"
    and le: "(ucast sz :: u64) \<le> i_bytes_left (fst st1)"
    and sub: "sub = (fst st1)\<lparr>i_bytes_left := ucast sz\<rparr>"
    and s': "s' = (fst st1)\<lparr>i_bytes_left := i_bytes_left (fst st1) - ucast sz\<rparr>"
    using assms by (cases "pb_decode_varint32 env st"; cases "fst (pb_decode_varint32 env st)")
      (auto simp: pb_make_string_substream_def fail_with_def split: if_splits)
  have f: "follows (fst st) (fst st1)" using pb_decode_varint32_follows [of st env] v by simp
  then have w: "within (fst st) (fst st1)" by (rule follows_within)
  have left: "unat (i_bytes_left s') = unat (i_bytes_left (fst st1)) - unat sz"
    "unat sz \<le> unat (i_bytes_left (fst st1))"
    using le s' by (simp_all add: unat_sub word_le_nat_alt)
  have less: "unat (i_bytes_left (fst st1)) < unat (i_bytes_left (fst st))"
    using v by (intro varint32_less [of env st]) (simp add: pb_decode_varint32_def)
  show "unat (i_bytes_left sub) + unat (i_bytes_left s') < unat (i_bytes_left (fst st))"
    using left less sub by simp
  have "within (fst st1) sub" "within (fst st1) s'"
    using left sub s' unfolding within_def by (auto intro: exI [of _ 0])
  then show "within (fst st) sub" "within (fst st) s'" using w within_trans by blast+
  show "i_callback sub = i_callback (fst st)" "i_callback s' = i_callback (fst st)"
    using f sub s' by (simp_all add: follows_def)
  show "i_callback (fst st) = IBufRead \<Longrightarrow> i_end sub + i_bytes_left s' = i_end (fst st)"
    using f sub s' by (simp add: follows_def i_end_def)
qed

lemma make_substream_None:
  "pb_make_string_substream env st = (None, s', h') \<Longrightarrow> follows (fst st) s'"
  using pb_decode_varint32_follows [of st env]
  by (cases "pb_decode_varint32 env st"; cases "fst (pb_decode_varint32 env st)")
     (auto simp: pb_make_string_substream_def fail_with_def is_error_def split: if_splits)

lemma skip_buffer:
  assumes "i_callback s = IBufRead" and "count \<le> i_bytes_left s"
  shows "skip env count (s, h) =
    (True, s\<lparr>i_state := i_state s + count, i_bytes_left := i_bytes_left s - count\<rparr>, h)"
  using assms
  by (auto simp: skip_def pb_read_def pb_read_data_def call_read_def buf_read_def Let_def not_less)

lemma close_substream:
  assumes make: "pb_make_string_substream env st = (Some sub, s, h1)"
    and "within sub sub'"
    and close: "pb_close_string_substream env s sub' h = (ok, s', h')"
  shows "within (fst st) s'" "unat (i_bytes_left s') < unat (i_bytes_left (fst st))"
    "ok \<Longrightarrow> follows sub sub' \<Longrightarrow> follows (fst st) s'"
    "i_callback (fst st) = IBufRead \<Longrightarrow> ok"
proof -
  note m = make_substream_Some [OF make]
  have left: "i_bytes_left s' = i_bytes_left s" and cb: "i_callback s' = i_callback s"
    using close by (auto simp: pb_close_string_substream_def split: prod.splits if_splits)
  show less: "unat (i_bytes_left s') < unat (i_bytes_left (fst st))" using m(5) left by simp
  have sub': "i_callback sub' = i_callback (fst st)" using assms(2) m(3) by (simp add: within_def)
  have buf: "ok \<and> i_state s' = i_state sub' + i_bytes_left sub'" if "i_callback (fst st) = IBufRead"
    using close skip_buffer [of sub' "i_bytes_left sub'" env h] that sub'
    by (auto simp: pb_close_string_substream_def split: if_splits)
  then show "i_callback (fst st) = IBufRead \<Longrightarrow> ok" by simp
  show "within (fst st) s'"
  proof (cases "i_callback (fst st) = IBufRead")
    case False
    then show ?thesis using left cb m(4) less by (auto simp: within_def intro!: exI [of _ 0])
  next
    case True
    obtain a where a: "a + unat (i_bytes_left sub) + unat (i_bytes_left s) \<le> unat (i_bytes_left (fst st))"
      "i_state sub = i_state (fst st) + of_nat a"
    proof -
      let ?a = "unat (i_bytes_left (fst st)) - (unat (i_bytes_left sub) + unat (i_bytes_left s))"
      have "i_state sub = i_state (fst st) + of_nat ?a"
        using m(6) [OF True] m(5) by (auto simp: i_end_def of_nat_diff algebra_simps)
      then show thesis using m(5) by (intro that [of ?a]) auto
    qed
    obtain b where b: "b + unat (i_bytes_left sub') \<le> unat (i_bytes_left sub)"
      "i_state sub' = i_state sub + of_nat b"
      using assms(2) True m(3) by (auto simp: within_def)
    show ?thesis unfolding within_def
      using a b buf [OF True] left cb m(4)
      by (intro conjI exI [of _ "a + b + unat (i_bytes_left sub')"]) auto
  qed
  show "follows (fst st) s'" if "ok" "follows sub sub'"
    using that left cb m(4) m(6) buf less by (auto simp: follows_def i_end_def m(3))
qed

section \<open>Groups of seven bits\<close>

lemma ucast_of_unat: "(ucast w :: 'a::len word) = of_nat (unat w)"
  by simp

lemma cont_byte_high: "of_nat (n mod 128 + 128) AND (0x80 :: u8) \<noteq> 0"
proof -
  have "n mod 128 + 128 < 256" by simp
  then have "unat (of_nat (n mod 128 + 128) :: u8) = n mod 128 + 128" by (rule unat_of_nat_u8)
  then show ?thesis by (simp only: and_80_eq_0)
qed

lemma low_bits_of_nat:
  "n < 128 \<Longrightarrow> (ucast (of_nat n AND 0x7F :: u8) :: 'a::len word) = of_nat n"
proof -
  assume n: "n < 128"
  have "(of_nat n AND 0x7F :: u8) = of_nat n"
    using n by (intro u8_eqI) (simp only: unat_and_7F unat_of_nat_u8, simp)
  moreover have "(ucast (of_nat n :: u8) :: 'a word) = of_nat n"
    using n unat_of_nat_u8 [of n] ucast_of_unat [of "of_nat n :: u8"] by simp
  ultimately show ?thesis by simp
qed

lemma cont_byte_low:
  "(ucast (of_nat (n mod 128 + 128) AND 0x7F :: u8) :: 'a::len word) = of_nat (n mod 128)"
proof -
  have "(of_nat (n mod 128 + 128) AND 0x7F :: u8) = of_nat (n mod 128)" by (rule stop_byte) simp
  moreover have "(of_nat (n mod 128) AND 0x7F :: u8) = of_nat (n mod 128)"
    by (intro u8_eqI) (simp only: unat_and_7F, simp add: unat_of_nat_u8)
  ultimately show ?thesis using low_bits_of_nat [of "n mod 128"] by simp
qed

lemma of_nat_groups: "(of_nat n :: 'a::len word) = of_nat (n mod 128) OR push_bit 7 (of_nat (n div 128))"
proof (rule bit_word_eqI)
  fix k assume "k < LENGTH('a)"
  moreover have "bit (n mod 128) k \<longleftrightarrow> k < 7 \<and> bit n k"
    by (simp add: bit_take_bit_iff flip: take_bit_eq_mod [of 7 n, simplified])
  moreover have "bit (n div 128) (k - 7) \<longleftrightarrow> bit n k" if "7 \<le> k"
    using that by (simp add: bit_drop_bit_eq flip: drop_bit_eq_div [of 7 n, simplified])
  ultimately show "bit (of_nat n :: 'a word) k =
      bit (of_nat (n mod 128) OR push_bit 7 (of_nat (n div 128)) :: 'a word) k"
    by (auto simp: bit_simps)
qed

lemma or_groups:
  "(r OR push_bit (7 * j) (of_nat (n mod 128))) OR push_bit (7 * Suc j) (of_nat (n div 128)) =
     r OR push_bit (7 * j) (of_nat n :: 'a::len word)"
proof -
  have "push_bit (7 * j) (of_nat n :: 'a word) =
      push_bit (7 * j) (of_nat (n mod 128)) OR push_bit (7 * Suc j) (of_nat (n div 128))"
    by (subst of_nat_groups) (simp add: push_bit_or add.commute)
  then show ?thesis by (simp add: or.assoc)
qed

lemma bitpos_less: "j \<le> 36 \<Longrightarrow> unat (of_nat (7 * j) :: u8) = 7 * j"
  by (rule unat_of_nat_u8) simp

lemma bitpos_Suc: "(of_nat (7 * j) :: u8) + 7 = of_nat (7 * Suc j)"
  by simp

lemma varint64_loop_step:
  assumes "pb_readbyte env st = (Some byte, st')" and "j \<le> 9"
  shows "varint64_loop env (of_nat (7 * j)) result st =
    (let result' = result OR push_bit (7 * j) (ucast (byte AND 0x7F)) in
     if byte AND 0x80 \<noteq> 0 then varint64_loop env (of_nat (7 * Suc j)) result' st'
     else (Some result', st'))"
proof -
  have "unat (of_nat (7 * j) :: u8) = 7 * j" using assms(2) by (intro bitpos_less) simp
  moreover then have "((64 :: u8) \<le> of_nat (7 * j)) = False"
    using assms(2) by (simp only: word_le_nat_alt) simp
  ultimately show ?thesis
    unfolding varint64_loop.simps [of env "of_nat (7 * j)"] assms(1) bitpos_Suc
    by (simp only: if_False prod.case option.case)
qed

text \<open>The 32-bit loop, one byte at a time: up to \<open>bitpos\<close> 28 and beyond.\<close>

lemma varint32_loop_step:
  assumes "pb_readbyte env st = (Some byte, st')" and "j \<le> 36"
  shows "varint32_loop env (of_nat (7 * j)) result st =
    (if 5 \<le> j \<and> byte AND 0x7F \<noteq> 0 \<and>
        (drop_bit 31 result = 0 \<or> byte \<noteq> (if j < 9 then 0xFF else 0x01))
     then fail_with st' ''varint overflow''
     else let result' = (if 5 \<le> j then result
                         else result OR push_bit (7 * j) (ucast (byte AND 0x7F))) in
       if byte AND 0x80 \<noteq> 0 then varint32_loop env (of_nat (7 * Suc j)) result' st'
       else (Some (result', of_nat (7 * Suc j), byte), st'))"
proof -
  have pos: "unat (of_nat (7 * j) :: u8) = 7 * j" using assms(2) by (rule bitpos_less)
  have "((32 :: u8) \<le> of_nat (7 * j)) = (5 \<le> j)" "((of_nat (7 * j) :: u8) < 63) = (j < 9)"
    by (simp_all only: word_le_nat_alt word_less_nat_alt pos, simp_all, linarith+)
  with pos show ?thesis
    unfolding varint32_loop.simps [of env "of_nat (7 * j)"] assms(1) bitpos_Suc
    by (simp only: prod.case option.case Let_def)
qed

text \<open>Which numbers the 32-bit decoder takes: those below \<open>2\<^sup>32\<close>, and those where bit 31 is set,
  each group of seven bits from bit 35 is all zeros or all ones, and bit 63 is the last.  Bits 32
  to 34 are not looked at.\<close>

fun sign_groups :: "nat \<Rightarrow> nat \<Rightarrow> bool" where
  "sign_groups 0 n \<longleftrightarrow> n = 1"
| "sign_groups (Suc k) n \<longleftrightarrow> n mod 128 \<in> {0, 127} \<and> sign_groups k (n div 128)"

definition accept32 :: "nat \<Rightarrow> bool" where
  "accept32 n \<longleftrightarrow> n < 2 ^ 32 \<or>
     (2 ^ 35 \<le> n \<and> odd (n div 2 ^ 31) \<and> sign_groups 4 (n div 2 ^ 35))"

lemma sign_groups_4:
  "sign_groups 4 n \<longleftrightarrow> n mod 128 \<in> {0, 127} \<and> n div 128 mod 128 \<in> {0, 127} \<and>
     n div 128 div 128 mod 128 \<in> {0, 127} \<and> n div 128 div 128 div 128 mod 128 \<in> {0, 127} \<and>
     n div 128 div 128 div 128 div 128 = 1"
proof -
  have "(4 :: nat) = Suc (Suc (Suc (Suc 0)))" by simp
  then show ?thesis by (simp only: sign_groups.simps)
qed

lemma sign_groups_0: "\<not> sign_groups k 0"
  by (induction k) simp_all

lemma sign_groups_small: "n < 128 \<Longrightarrow> sign_groups k n \<longleftrightarrow> k = 0 \<and> n = 1"
  by (cases k) (auto simp: sign_groups_0)

lemma high_bits_all: "list_all (\<lambda>n. ((of_nat n AND 0x70 :: u8) \<noteq> 0) = (16 \<le> n)) [0..<128]"
  by code_simp

lemma high_bits: "n < 128 \<Longrightarrow> (of_nat n AND 0x70 :: u8) \<noteq> 0 \<longleftrightarrow> 16 \<le> n"
  using high_bits_all by (auto simp: list_all_iff)

lemma push_bit_eq_0_iff_len: "LENGTH('a) \<le> k \<Longrightarrow> push_bit k (w :: 'a::len word) = 0"
  by (rule bit_word_eqI) (auto simp: bit_simps)

lemma drop_31_of_nat: "drop_bit 31 (of_nat n :: u32) \<noteq> 0 \<longleftrightarrow> odd (n div 2 ^ 31)"
proof -
  have "drop_bit 31 w \<noteq> 0 \<longleftrightarrow> bit w 31" for w :: u32
  proof
    assume "drop_bit 31 w \<noteq> 0"
    then obtain k where "bit (drop_bit 31 w) k" by (auto simp: bit_eq_iff)
    then have "bit w (31 + k)" by (simp add: bit_drop_bit_eq)
    moreover then have "31 + k < 32" by (auto dest: bit_imp_le_length)
    ultimately show "bit w 31" by simp
  next
    assume "bit w 31"
    then have "bit (drop_bit 31 w) 0" by (simp add: bit_drop_bit_eq)
    then show "drop_bit 31 w \<noteq> 0" by auto
  qed
  then show ?thesis by (simp only: bit_of_nat_iff) (simp add: bit_iff_odd)
qed

section \<open>The varints of 32 bits\<close>

text \<open>The bit position of the byte at \<open>i\<close>, which is kept in an eight-bit counter; the 32 bits the bytes before \<open>n\<close>
  give; whether the byte at \<open>i\<close> may stand there; and whether an encoding ends with the byte at \<open>k\<close>.\<close>

definition position :: "nat \<Rightarrow> nat" where
  "position i = 7 * i mod 256"

fun low32 :: "u8 list \<Rightarrow> nat \<Rightarrow> u32" where
  "low32 bs 0 = 0"
| "low32 bs (Suc n) =
     (if position n < 32 then low32 bs n OR push_bit (position n) (ucast (bs ! n AND 0x7F)) else low32 bs n)"

definition fits32 :: "u8 list \<Rightarrow> nat \<Rightarrow> bool" where
  "fits32 bs i \<longleftrightarrow> position i < 32 \<or> bs ! i AND 0x7F = 0 \<or>
     bit (low32 bs i) 31 \<and> bs ! i = (if position i < 63 then 0xFF else 0x01)"

definition varint_span :: "u8 list \<Rightarrow> nat \<Rightarrow> nat \<Rightarrow> bool" where
  "varint_span bs i k \<longleftrightarrow> i \<le> k \<and> k < length bs \<and> (\<forall>j. i \<le> j \<and> j < k \<longrightarrow> bs ! j AND 0x80 \<noteq> 0) \<and> bs ! k AND 0x80 = 0"

definition varint32_form :: "u8 list \<Rightarrow> nat \<Rightarrow> bool" where
  "varint32_form bs k \<longleftrightarrow> varint_span bs 0 k \<and> (\<forall>i \<le> k. fits32 bs i) \<and> (position (Suc k) = 35 \<longrightarrow> bs ! k AND 0x70 = 0)"

lemma varint_span_unique: "varint_span bs i k \<Longrightarrow> varint_span bs i k' \<Longrightarrow> k' = k"
  unfolding varint_span_def by (metis linorder_neqE_nat)

lemma varint_span_start: "varint_span bs i k \<Longrightarrow> bs ! i AND 0x80 = 0 \<Longrightarrow> k = i"
  unfolding varint_span_def by (metis le_neq_implies_less order_refl)

lemma varint_span_Suc: "bs ! i AND 0x80 \<noteq> 0 \<Longrightarrow> varint_span bs i k \<longleftrightarrow> varint_span bs (Suc i) k"
  unfolding varint_span_def by (metis Suc_leD Suc_leI le_neq_implies_less order_refl)

lemma drop_31_bit: "drop_bit 31 (w :: u32) = 0 \<longleftrightarrow> \<not> bit w 31"
proof
  assume "drop_bit 31 w = 0"
  then have "\<not> bit (drop_bit 31 w) 0" by simp
  then show "\<not> bit w 31" by (simp add: bit_drop_bit_eq)
next
  assume n: "\<not> bit w 31"
  show "drop_bit 31 w = 0"
  proof (rule bit_word_eqI)
    fix k :: nat assume "k < LENGTH(32)"
    have "\<not> bit w (31 + k)" using n bit_imp_le_length [of w "31 + k"] by (cases k) auto
    then show "bit (drop_bit 31 w) k \<longleftrightarrow> bit (0 :: u32) k" by (simp add: bit_drop_bit_eq)
  qed
qed

lemma unat_position: "unat (of_nat (7 * i) :: u8) = position i"
  by (simp add: unat_of_nat position_def del: of_nat_mult)

section \<open>Sources\<close>

text \<open>What the decoders rely on in a stream callback: its state word is a position in an input
  that reading does not change (\<open>src st h n\<close> are the next \<open>n\<close> bytes), and reading \<open>n\<close> bytes moves the
  position by \<open>n\<close>.\<close>

locale source =
  fixes env :: pb_env
    and cb :: icallback
    and src :: "addr \<Rightarrow> heap \<Rightarrow> nat \<Rightarrow> u8 list"
    and adv :: "addr \<Rightarrow> u64 \<Rightarrow> addr"
  assumes call_local: "i_callback s = cb \<Longrightarrow> call_read env (s, h) RLocal n =
      (Some (src (i_state s) h (unat n)), s\<lparr>i_state := adv (i_state s) n\<rparr>, h)"
    and src_length: "length (src st h k) = k"
    and adv_adv: "adv (adv st a) b = adv st (a + b)"
    and src_split: "unat n \<le> k \<Longrightarrow> src st h k = src st h (unat n) @ src (adv st n) h (k - unat n)"
begin

text \<open>All bytes of the stream that are still to come.\<close>

definition input :: "ist \<Rightarrow> u8 list" where
  "input st = src (i_state (fst st)) (snd st) (unat (i_bytes_left (fst st)))"

text \<open>The stream after \<open>n\<close> bytes.\<close>

definition past :: "ist \<Rightarrow> u64 \<Rightarrow> ist" where
  "past st n = ((fst st)\<lparr>i_state := adv (i_state (fst st)) n,
                        i_bytes_left := i_bytes_left (fst st) - n\<rparr>, snd st)"

lemma length_input [simp]: "length (input st) = unat (i_bytes_left (fst st))"
  by (simp add: input_def src_length)

lemma past_fields [simp]:
  "i_callback (fst (past st n)) = i_callback (fst st)"
  "i_errmsg (fst (past st n)) = i_errmsg (fst st)" "snd (past st n) = snd st"
  by (simp_all add: past_def)

lemma input_past:
  assumes "n \<le> i_bytes_left (fst st)"
  shows "input (past st n) = drop (unat n) (input st)"
proof -
  have "unat n \<le> unat (i_bytes_left (fst st))" using assms by (simp add: word_le_nat_alt)
  from src_split [OF this, of "i_state (fst st)" "snd st"] show ?thesis
    using assms by (simp add: input_def past_def unat_sub src_length)
qed

lemma take_input:
  assumes "n \<le> i_bytes_left (fst st)"
  shows "src (i_state (fst st)) (snd st) (unat n) = take (unat n) (input st)"
proof -
  have "unat n \<le> unat (i_bytes_left (fst st))" using assms by (simp add: word_le_nat_alt)
  from src_split [OF this, of "i_state (fst st)" "snd st"] show ?thesis
    by (simp add: input_def src_length)
qed

lemma read_data_input:
  assumes "i_callback (fst st) = cb" and "unat n \<le> length (input st)"
  shows "pb_read_data env RLocal n st = (Some (take (unat n) (input st)), past st n)"
proof -
  have n: "n \<le> i_bytes_left (fst st)" using assms(2) by (simp add: word_le_nat_alt)
  have c: "call_read env st RLocal n = (Some (take (unat n) (input st)),
      (fst st)\<lparr>i_state := adv (i_state (fst st)) n\<rparr>, snd st)"
    using assms(1) call_local [of "fst st" "snd st" n] take_input [OF n] by simp
  show ?thesis unfolding pb_read_data_def c past_def using n by (simp only: not_less [symmetric]) simp
qed

lemma readbyte_input:
  assumes "i_callback (fst st) = cb" and "input st = b # bs"
  shows "pb_readbyte env st = (Some b, past st 1)" "input (past st 1) = bs"
proof -
  have "unat (i_bytes_left (fst st)) = Suc (length bs)" using assms(2) length_input [of st] by simp
  then have ne: "i_bytes_left (fst st) \<noteq> 0" and le: "1 \<le> i_bytes_left (fst st)"
    by (auto simp: word_le_nat_alt)
  show "pb_readbyte env st = (Some b, past st 1)"
    using ne assms call_local [of "fst st" "snd st" 1] take_input [OF le]
    by (simp add: pb_readbyte_def past_def byte_at_def)
  show "input (past st 1) = bs" using input_past [OF le] assms(2) by simp
qed

lemma readbyte_end:
  "input st = [] \<Longrightarrow> pb_readbyte env st = (None, is_error st ''end-of-stream'')"
  using length_input [of st] by (simp add: pb_readbyte_def fail_with_def unat_eq_zero)

lemma past_past: "past (past st a) b = past st (a + b)"
  by (simp add: past_def adv_adv algebra_simps)

lemma past_Suc: "past (past st 1) (of_nat k) = past st (of_nat (Suc k))"
  by (simp add: past_past)

text \<open>Decoding any bytes to 32 bits.\<close>

lemma varint32_loop_any:
  assumes "i_callback (fst st) = cb" "input st = drop i bs" "1 \<le> i"
  shows "case varint32_loop env (of_nat (7 * i)) (low32 bs i) st of
      (Some (v, p, b), st') \<Rightarrow> \<exists>k. varint_span bs i k \<and> (\<forall>j. i \<le> j \<and> j \<le> k \<longrightarrow> fits32 bs j) \<and> v = low32 bs (Suc k) \<and>
        p = of_nat (7 * Suc k) \<and> b = bs ! k \<and> st' = past st (of_nat (Suc k - i))
    | (None, _) \<Rightarrow> \<forall>k. \<not> (varint_span bs i k \<and> (\<forall>j. i \<le> j \<and> j \<le> k \<longrightarrow> fits32 bs j))"
  using assms
proof (induction "length bs - i" arbitrary: i st)
  case 0
  then have "varint32_loop env (of_nat (7 * i)) (low32 bs i) st = (None, is_error st ''end-of-stream'')"
    by (subst varint32_loop.simps) (simp add: readbyte_end)
  then show ?case using 0 by (auto simp: varint_span_def)
next
  case (Suc n)
  then have inp: "input st = bs ! i # drop (Suc i) bs" by (simp add: Cons_nth_drop_Suc)
  note rb = readbyte_input [OF Suc.prems(1) inp]
  have pos: "(of_nat (7 * i) :: u8) \<ge> 32 \<longleftrightarrow> \<not> position i < 32" "(of_nat (7 * i) :: u8) < 63 \<longleftrightarrow> position i < 63"
    unfolding word_le_nat_alt word_less_nat_alt unat_position by auto
  have fit: "(of_nat (7 * i) :: u8) \<ge> 32 \<and> bs ! i AND 0x7F \<noteq> 0 \<and>
      (drop_bit 31 (low32 bs i) = 0 \<or> bs ! i \<noteq> (if (of_nat (7 * i) :: u8) < 63 then 0xFF else 0x01)) \<longleftrightarrow> \<not> fits32 bs i"
    unfolding pos fits32_def drop_31_bit by auto
  have acc: "(if (of_nat (7 * i) :: u8) \<ge> 32 then low32 bs i
      else low32 bs i OR push_bit (unat (of_nat (7 * i) :: u8)) (ucast (bs ! i AND 0x7F))) = low32 bs (Suc i)"
    unfolding pos unat_position low32.simps by simp
  have nxt: "(of_nat (7 * i) :: u8) + 7 = of_nat (7 * Suc i)" by simp
  have step: "varint32_loop env (of_nat (7 * i)) (low32 bs i) st =
    (if \<not> fits32 bs i then fail_with (past st 1) ''varint overflow''
     else if bs ! i AND 0x80 \<noteq> 0 then varint32_loop env (of_nat (7 * Suc i)) (low32 bs (Suc i)) (past st 1)
     else (Some (low32 bs (Suc i), of_nat (7 * Suc i), bs ! i), past st 1))"
    by (subst varint32_loop.simps) (simp only: rb(1) prod.case option.case fit Let_def acc nxt)
  show ?case
  proof (cases "fits32 bs i")
    case False
    then have "\<not> (varint_span bs i k \<and> (\<forall>j. i \<le> j \<and> j \<le> k \<longrightarrow> fits32 bs j))" for k
      unfolding varint_span_def by blast
    then show ?thesis unfolding step using False by (simp add: fail_with_def)
  next
    case fits: True
    show ?thesis
    proof (cases "bs ! i AND 0x80 = 0")
      case True
      have "varint_span bs i i" using True Suc.hyps(2) by (auto simp: varint_span_def)
      moreover have "\<forall>j. i \<le> j \<and> j \<le> i \<longrightarrow> fits32 bs j" using fits by (metis le_antisym)
      ultimately show ?thesis unfolding step using fits True by (auto simp del: low32.simps)
    next
      case False
      have all: "(\<forall>j. i \<le> j \<and> j \<le> k \<longrightarrow> fits32 bs j) \<longleftrightarrow> (\<forall>j. Suc i \<le> j \<and> j \<le> k \<longrightarrow> fits32 bs j)" for k
        using fits by (metis Suc_leD Suc_leI le_neq_implies_less)
      have p: "past (past st 1) (of_nat (Suc k - Suc i)) = past st (of_nat (Suc k - i))" if "Suc i \<le> k" for k
        using past_Suc [of st "Suc k - Suc i"] that by (simp add: Suc_diff_le del: of_nat_Suc)
      have "n = length bs - Suc i" "i_callback (fst (past st 1)) = cb" "1 \<le> Suc i" using Suc.hyps(2) Suc.prems(1) by simp_all
      note IH = Suc.hyps(1) [OF this(1,2) rb(2) this(3)]
      have e: "varint32_loop env (of_nat (7 * i)) (low32 bs i) st =
          varint32_loop env (of_nat (7 * Suc i)) (low32 bs (Suc i)) (past st 1)"
        unfolding step using fits False by simp
      have le: "varint_span bs (Suc i) k \<Longrightarrow> Suc i \<le> k" for k by (simp add: varint_span_def)
      obtain r st' where r: "varint32_loop env (of_nat (7 * Suc i)) (low32 bs (Suc i)) (past st 1) = (r, st')"
        by (cases "varint32_loop env (of_nat (7 * Suc i)) (low32 bs (Suc i)) (past st 1)")
      show ?thesis
      proof (cases r)
        case None
        then show ?thesis using IH unfolding e varint_span_Suc [OF False] all r by simp
      next
        case (Some t)
        obtain v q b where t: "t = (v, q, b)" by (cases t)
        from IH obtain k where "varint_span bs (Suc i) k" "\<forall>j. Suc i \<le> j \<and> j \<le> k \<longrightarrow> fits32 bs j"
          "v = low32 bs (Suc k)" "q = of_nat (7 * Suc k)" "b = bs ! k" "st' = past (past st 1) (of_nat (Suc k - Suc i))"
          unfolding r Some t prod.case option.case by blast
        then show ?thesis unfolding e varint_span_Suc [OF False] all r Some t prod.case option.case using p le by metis
      qed
    qed
  qed
qed

lemma decode_varint32_any:
  assumes "i_callback (fst st) = cb"
  shows "case pb_decode_varint32 env st of
      (Some v, st') \<Rightarrow> \<exists>k. varint32_form (input st) k \<and> v = low32 (input st) (Suc k) \<and> st' = past st (of_nat (Suc k))
    | (None, _) \<Rightarrow> \<forall>k. \<not> varint32_form (input st) k"
proof (cases "input st")
  case Nil
  then show ?thesis
    by (simp add: pb_decode_varint32_def pb_decode_varint32_eof_def readbyte_end varint32_form_def varint_span_def)
next
  case (Cons b bs)
  note rb = readbyte_input [OF assms Cons]
  have b0: "input st ! 0 = b" "low32 (input st) 1 = ucast (b AND 0x7F)" "position 0 = 0" "position (Suc 0) = 7"
    using Cons by (simp_all add: position_def)
  show ?thesis
  proof (cases "b AND 0x80 = 0")
    case True
    have "b AND 0x7F = b"
    proof (rule bit_word_eqI)
      fix k assume k: "k < LENGTH(8)"
      have "\<not> bit b 7" using True by (auto simp: bit_eq_iff bit_simps dest: spec [of _ 7])
      moreover have "bit (0x7F :: u8) k \<longleftrightarrow> k < 7" using k by (auto simp: less_Suc_eq numeral_eq_Suc)
      ultimately show "bit (b AND 0x7F) k \<longleftrightarrow> bit b k" using k by (cases "k = 7") (auto simp: bit_and_iff)
    qed
    moreover have "varint32_form (input st) 0"
      using True Cons b0(3,4) by (simp add: varint32_form_def varint_span_def fits32_def)
    ultimately show ?thesis
      using True rb(1) b0(2) by (auto simp: pb_decode_varint32_def pb_decode_varint32_eof_def intro!: exI [of _ 0] simp del: low32.simps)
  next
    case False
    have f0: "fits32 (input st) 0" by (simp add: fits32_def b0(3))
    have span: "varint_span (input st) 0 k \<longleftrightarrow> varint_span (input st) 1 k" for k
      using varint_span_Suc [of "input st" 0] False b0(1) by simp
    have all: "(\<forall>i \<le> k. fits32 (input st) i) \<longleftrightarrow> (\<forall>j. 1 \<le> j \<and> j \<le> k \<longrightarrow> fits32 (input st) j)" for k
      using f0 by (metis One_nat_def Suc_leI neq0_conv)
    have "i_callback (fst (past st 1)) = cb" "input (past st 1) = drop 1 (input st)" using assms rb(2) Cons by simp_all
    note L = varint32_loop_any [OF this order_refl, unfolded b0(2)]
    have p35: "(of_nat (7 * Suc k) :: u8) = 35 \<longleftrightarrow> position (Suc k) = 35" for k
      unfolding unat_position [symmetric] word_unat_eq_iff by simp
    show ?thesis
    proof -
      obtain r st' where Pair: "varint32_loop env 7 (ucast (b AND 0x7F)) (past st 1) = (r, st')" by (cases "varint32_loop env 7 (ucast (b AND 0x7F)) (past st 1)")
      show ?thesis
      proof (cases r)
        case None
        then have "\<forall>k. \<not> varint32_form (input st) k" using L Pair unfolding varint32_form_def span all by auto
        then show ?thesis using rb(1) False Pair None by (simp add: pb_decode_varint32_def pb_decode_varint32_eof_def)
      next
        case (Some t)
        obtain v p c where t: "t = (v, p, c)" by (cases t)
        from L Pair Some t obtain k where k: "varint_span (input st) 1 k" "\<forall>j. 1 \<le> j \<and> j \<le> k \<longrightarrow> fits32 (input st) j"
          "v = low32 (input st) (Suc k)" "p = of_nat (7 * Suc k)" "c = input st ! k" "st' = past (past st 1) (of_nat (Suc k - 1))"
          by auto
        have past: "st' = past st (of_nat (Suc k))" using k(6) past_Suc [of st k] by simp
        have dec: "pb_decode_varint32 env st =
            (if position (Suc k) = 35 \<and> input st ! k AND 0x70 \<noteq> 0 then fail_with st' ''varint overflow''
             else (Some (low32 (input st) (Suc k)), st'))"
        proof -
          have "p = 35 \<longleftrightarrow> position (Suc k) = 35" unfolding k(4) by (rule p35)
          then show ?thesis using rb(1) False Pair Some
            by (simp add: pb_decode_varint32_def pb_decode_varint32_eof_def t k(3,5) del: low32.simps)
        qed
        show ?thesis
        proof (cases "position (Suc k) = 35 \<and> input st ! k AND 0x70 \<noteq> 0")
          case True
          have "\<not> varint32_form (input st) k'" for k'
          proof
            assume f: "varint32_form (input st) k'"
            then have "k' = k" using varint_span_unique [OF k(1), of k'] by (simp add: varint32_form_def span)
            then show False using f True by (simp add: varint32_form_def)
          qed
          then show ?thesis unfolding dec using True by (simp add: fail_with_def)
        next
          case False
          then have "varint32_form (input st) k" unfolding varint32_form_def span all using k(1,2) by blast
          then show ?thesis unfolding dec using False past by (auto simp del: low32.simps)
        qed
      qed
    qed
  qed
qed

text \<open>Decoding a varint of at most 64 bits.\<close>

lemma varint64_loop_leb128:
  assumes "i_callback (fst st) = cb" and "input st = leb128 n @ rest"
    and "j \<le> 9" and "n < 2 ^ (64 - 7 * j)"
  shows "varint64_loop env (of_nat (7 * j)) result st =
     (Some (result OR push_bit (7 * j) (of_nat n)), past st (of_nat (length (leb128 n))))"
  using assms
proof (induction n arbitrary: j result st rule: leb128.induct)
  case (1 n)
  show ?case
  proof (cases "n < 128")
    case True
    then have inp: "input st = of_nat n # rest" using 1(3) by (simp add: leb128.simps [of n])
    have b: "(ucast (of_nat n AND 0x7F :: u8) :: u64) = of_nat n" "of_nat n AND (0x80 :: u8) = 0"
      using True by (auto simp: and_80_eq_0 unat_of_nat_u8 low_bits_of_nat)
    show ?thesis
      unfolding varint64_loop_step [OF readbyte_input(1) [OF 1(2) inp] 1(4)] b Let_def
      using True by (simp add: leb128.simps [of n])
  next
    case False
    let ?b = "of_nat (n mod 128 + 128) :: u8"
    have inp: "input st = ?b # leb128 (n div 128) @ rest"
      using 1(3) False by (simp add: leb128.simps [of n])
    note rb = readbyte_input [OF 1(2) inp]
    have b: "(ucast (?b AND 0x7F) :: u64) = of_nat (n mod 128)" "?b AND 0x80 \<noteq> 0"
      by (rule cont_byte_low, rule cont_byte_high)
    have j9: "j < 9"
    proof (rule ccontr)
      assume "\<not> j < 9"
      then have "j = 9" using 1(4) by simp
      then show False using 1(5) False by simp
    qed
    have less: "n div 128 < 2 ^ (64 - 7 * Suc j)"
    proof -
      have "(2 :: nat) ^ (64 - 7 * j) = 128 * 2 ^ (64 - 7 * Suc j)"
        using j9 power_add [of "2 :: nat" 7 "64 - 7 * Suc j"] by (simp add: Suc_diff_le)
      then have "n < 128 * 2 ^ (64 - 7 * Suc j)" using 1(5) by (simp only:)
      then show ?thesis by (simp add: less_mult_imp_div_less mult.commute)
    qed
    have IH: "varint64_loop env (of_nat (7 * Suc j)) r (past st 1) =
        (Some (r OR push_bit (7 * Suc j) (of_nat (n div 128))),
         past (past st 1) (of_nat (length (leb128 (n div 128)))))" for r
      using 1(2) rb(2) j9 less by (intro 1(1) [OF False]) simp_all
    have "varint64_loop env (of_nat (7 * j)) result st =
        varint64_loop env (of_nat (7 * Suc j)) (result OR push_bit (7 * j) (of_nat (n mod 128))) (past st 1)"
      unfolding varint64_loop_step [OF rb(1) 1(4)] Let_def b(1) by (simp only: b(2) simp_thms if_True)
    also have "\<dots> = (Some (result OR push_bit (7 * j) (of_nat n)),
        past st (of_nat (length (leb128 n))))"
      unfolding IH past_Suc or_groups using False by (simp only: leb128.simps [of n]) simp
    finally show ?thesis .
  qed
qed

theorem decode_varint_leb128:
  assumes "i_callback (fst st) = cb" and "input st = leb128 n @ rest" and "n < 2 ^ 64"
  shows "pb_decode_varint env st = (Some (of_nat n), past st (of_nat (length (leb128 n))))"
  using varint64_loop_leb128 [OF assms(1,2), of 0 0] assms(3) by (simp add: pb_decode_varint_def)

text \<open>Decoding into 32 bits.  First the bytes beyond \<open>bitpos\<close> 32.\<close>

lemma varint32_loop_tail:
  assumes "i_callback (fst st) = cb" and "input st = leb128 n @ rest"
    and "k \<le> 4" and "n < 2 ^ (7 * k + 1)" and "0 < n"
  shows "if drop_bit 31 result \<noteq> 0 \<and> sign_groups k n
    then \<exists>b. varint32_loop env (of_nat (7 * (9 - k))) result st =
      (Some (result, of_nat 70, b), past st (of_nat (length (leb128 n))))
    else fst (varint32_loop env (of_nat (7 * (9 - k))) result st) = None"
  using assms
proof (induction n arbitrary: k st rule: leb128.induct)
  case (1 n)
  have j: "9 - k \<le> 36" "5 \<le> 9 - k" using 1(4) by simp_all
  show ?case
  proof (cases "n < 128")
    case True
    then have inp: "input st = of_nat n # rest" using 1(3) by (simp add: leb128.simps [of n])
    have low: "(of_nat n AND 0x7F :: u8) = of_nat n" "of_nat n AND (0x80 :: u8) = 0"
      using True by (auto simp: and_80_eq_0 unat_of_nat_u8 unat_and_7F intro!: u8_eqI)
    have n: "unat (of_nat n :: u8) = n" using True by (intro unat_of_nat_u8) simp
    have ne: "(of_nat n :: u8) \<noteq> 0" "(of_nat n :: u8) \<noteq> 0xFF" "(of_nat n :: u8) = 0x01 \<longleftrightarrow> n = 1"
      using True 1(6) by (simp_all only: word_unat_eq_iff n) simp_all
    have "sign_groups k n \<longleftrightarrow> k = 0 \<and> n = 1"
      using True by (rule sign_groups_small)
    then show ?thesis
      unfolding varint32_loop_step [OF readbyte_input(1) [OF 1(2) inp] j(1)] low Let_def
      using ne j True by (auto simp: fail_with_def leb128.simps [of n] leb128.simps [of "Suc 0"])
  next
    case False
    let ?b = "of_nat (n mod 128 + 128) :: u8"
    have inp: "input st = ?b # leb128 (n div 128) @ rest"
      using 1(3) False by (simp add: leb128.simps [of n])
    note rb = readbyte_input [OF 1(2) inp]
    obtain k' where k: "k = Suc k'" using 1(5) False by (cases k) auto
    have less: "n div 128 < 2 ^ (7 * k' + 1)" "0 < n div 128"
      using 1(5) False by (auto simp: k power_add less_mult_imp_div_less mult.commute div_greater_zero_iff)
    note IH = 1(1) [OF False, of "past st 1" k', OF _ _ _ less]
    have lt: "n mod 128 + 128 < 256" by simp
    have b0: "?b AND 0x7F = 0 \<longleftrightarrow> n mod 128 = 0"
      by (simp only: stop_byte [of "n mod 128"] word_unat_eq_iff unat_of_nat_u8 [OF less_trans [OF mod_less_divisor]]) simp
    have bFF: "?b = 0xFF \<longleftrightarrow> n mod 128 = 127"
      by (simp only: word_unat_eq_iff unat_of_nat_u8 [OF lt]) simp
    have step: "varint32_loop env (of_nat (7 * (9 - k))) result st =
       (if n mod 128 \<noteq> 0 \<and> (drop_bit 31 result = 0 \<or> n mod 128 \<noteq> 127)
        then fail_with (past st 1) ''varint overflow''
        else varint32_loop env (of_nat (7 * (9 - k'))) result (past st 1))"
    proof -
      have "Suc (9 - k) = 9 - k'" "9 - k < 9" using 1(4) k by simp_all
      then show ?thesis
        unfolding varint32_loop_step [OF rb(1) j(1)] Let_def b0
        by (simp only: cont_byte_high j(2) bFF if_True simp_thms)
    qed
    have len: "leb128 n = ?b # leb128 (n div 128)" using False by (simp add: leb128.simps [of n])
    show ?thesis
    proof (cases "n mod 128 \<noteq> 0 \<and> (drop_bit 31 result = 0 \<or> n mod 128 \<noteq> 127)")
      case True
      then show ?thesis unfolding step by (auto simp: k)
    next
      case False
      then have "sign_groups k n \<and> drop_bit 31 result \<noteq> 0 \<longleftrightarrow>
          sign_groups k' (n div 128) \<and> drop_bit 31 result \<noteq> 0" by (auto simp: k)
      moreover have "varint32_loop env (of_nat (7 * (9 - k))) result st =
          varint32_loop env (of_nat (7 * (9 - k'))) result (past st 1)"
        unfolding step using False by (simp only: if_False)
      moreover have "past (past st 1) (of_nat (length (leb128 (n div 128)))) =
          past st (of_nat (length (leb128 n)))" by (simp add: len past_past)
      ultimately show ?thesis using IH 1(2,4) rb(2) k
        by (simp only: conj_commute past_fields) simp
    qed
  qed
qed

text \<open>Then the bytes below, from \<open>bitpos = 7 * j\<close> on.\<close>

definition varint32_result ::
  "nat \<Rightarrow> nat \<Rightarrow> u32 \<Rightarrow> ist \<Rightarrow> (u32 \<times> u8 \<times> u8) option \<times> ist \<Rightarrow> bool" where
  "varint32_result j n r st res \<longleftrightarrow>
     (if n < 2 ^ (35 - 7 * j)
      then \<exists>b. res = (Some (r, of_nat (7 * (j + length (leb128 n))), b), past st (of_nat (length (leb128 n)))) \<and>
             (b AND 0x70 \<noteq> 0 \<and> j + length (leb128 n) = 5 \<longleftrightarrow> 2 ^ (32 - 7 * j) \<le> n)
      else if drop_bit 31 r \<noteq> 0 \<and> sign_groups 4 (n div 2 ^ (35 - 7 * j))
      then \<exists>b. res = (Some (r, of_nat 70, b), past st (of_nat (length (leb128 n))))
      else fst res = None)"

lemma varint32_result_Suc:
  assumes "varint32_result (Suc j) (n div 128) r (past st 1) res" and "128 \<le> n" "1 \<le> j" "j \<le> 3"
  shows "varint32_result j n r st res"
proof -
  have len: "length (leb128 n) = Suc (length (leb128 (n div 128)))"
    using assms(2) by (simp add: leb128.simps [of n])
  consider "j = 1" | "j = 2" | "j = 3" using assms(3,4) by linarith
  then show ?thesis
    using assms(1) unfolding varint32_result_def len
    by cases (auto simp: past_past less_mult_imp_div_less div_less_iff_less_mult less_eq_div_iff_mult_less_eq
        simp flip: div_mult2_eq split: if_splits)
qed

lemma varint32_loop_head:
  assumes "i_callback (fst st) = cb" and "input st = leb128 n @ rest"
    and "1 \<le> j" and "j \<le> 4" and "n < 2 ^ (64 - 7 * j)"
  shows "varint32_result j n (result OR push_bit (7 * j) (of_nat n)) st
     (varint32_loop env (of_nat (7 * j)) result st)"
  using assms
proof (induction n arbitrary: j result st rule: leb128.induct)
  case (1 n)
  have j: "j \<le> 36" "\<not> 5 \<le> j" using 1(5) by simp_all
  show ?case
  proof (cases "n < 128")
    case True
    then have inp: "input st = of_nat n # rest" using 1(3) by (simp add: leb128.simps [of n])
    have b: "(ucast (of_nat n AND 0x7F :: u8) :: u32) = of_nat n" "of_nat n AND (0x80 :: u8) = 0"
      using True by (auto simp: and_80_eq_0 unat_of_nat_u8 low_bits_of_nat)
    have high: "(of_nat n AND 0x70 :: u8) \<noteq> 0 \<longleftrightarrow> 16 \<le> n" using True by (rule high_bits)
    have "varint32_loop env (of_nat (7 * j)) result st =
        (Some (result OR push_bit (7 * j) (of_nat n), of_nat (7 * Suc j), of_nat n), past st 1)"
      unfolding varint32_loop_step [OF readbyte_input(1) [OF 1(2) inp] j(1)] b Let_def
      using j(2) by (simp only: simp_thms if_False)
    moreover have "n < 2 ^ (35 - 7 * j) \<and> (2 ^ (32 - 7 * j) \<le> n \<longleftrightarrow> j = 4 \<and> 16 \<le> n)"
    proof -
      have "j = 1 \<or> j = 2 \<or> j = 3 \<or> j = 4" using 1(4,5) by linarith
      then show ?thesis using True by (elim disjE) simp_all
    qed
    ultimately show ?thesis using True high unfolding varint32_result_def
      by (simp add: leb128.simps [of n]) auto
  next
    case False
    let ?b = "of_nat (n mod 128 + 128) :: u8"
    have inp: "input st = ?b # leb128 (n div 128) @ rest"
      using 1(3) False by (simp add: leb128.simps [of n])
    note rb = readbyte_input [OF 1(2) inp]
    have b: "(ucast (?b AND 0x7F) :: u32) = of_nat (n mod 128)" "?b AND 0x80 \<noteq> 0"
      by (rule cont_byte_low, rule cont_byte_high)
    let ?r = "result OR push_bit (7 * j) (of_nat (n mod 128))"
    have step: "varint32_loop env (of_nat (7 * j)) result st =
        varint32_loop env (of_nat (7 * Suc j)) ?r (past st 1)"
      unfolding varint32_loop_step [OF rb(1) j(1)] Let_def b(1)
      using j(2) by (simp only: b(2) simp_thms if_True if_False)
    show ?thesis
    proof (cases "j = 4")
      case True
      have r: "result OR push_bit (7 * j) (of_nat n) = ?r"
        by (rule trans [OF or_groups [symmetric]]) (simp add: True push_bit_eq_0_iff_len)
      have "n div 128 < 2 ^ (7 * 4 + 1)" "0 < n div 128"
        using 1(6) False by (auto simp: True less_mult_imp_div_less div_greater_zero_iff)
      from varint32_loop_tail [OF _ rb(2) _ this, of ?r] 1(2) show ?thesis
        unfolding varint32_result_def r step using False
        by (simp add: True leb128.simps [of n] past_past split: if_splits) blast
    next
      case False': False
      have "varint32_result (Suc j) (n div 128) (?r OR push_bit (7 * Suc j) (of_nat (n div 128))) (past st 1)
          (varint32_loop env (of_nat (7 * Suc j)) ?r (past st 1))"
      proof (rule 1(1) [OF False])
        have "j = 1 \<or> j = 2 \<or> j = 3" using 1(4,5) False' by linarith
        then show "n div 128 < 2 ^ (64 - 7 * Suc j)" using 1(6)
          by (elim disjE) (simp_all add: less_mult_imp_div_less)
      qed (use 1(2,4,5) False' rb(2) in simp_all)
      from varint32_result_Suc [OF this [unfolded or_groups]] show ?thesis
        unfolding step using False False' 1(4,5) by simp
    qed
  qed
qed

theorem decode_varint32_leb128:
  assumes cb: "i_callback (fst st) = cb" and inp: "input st = leb128 n @ rest" and n: "n < 2 ^ 64"
  shows "\<not> fst (pb_decode_varint32_eof env st) \<and>
    (if accept32 n
     then snd (pb_decode_varint32_eof env st) = (Some (of_nat n), past st (of_nat (length (leb128 n))))
     else fst (snd (pb_decode_varint32_eof env st)) = None)"
proof (cases "n < 128")
  case True
  then have inp': "input st = of_nat n # rest" using inp by (simp add: leb128.simps [of n])
  have "(of_nat n :: u8) AND 0x80 = 0" "(ucast (of_nat n :: u8) :: u32) = of_nat n"
    using True unat_of_nat_u8 [of n] ucast_of_unat [of "of_nat n :: u8"] by (simp_all add: and_80_eq_0)
  then show ?thesis using True readbyte_input(1) [OF cb inp']
    by (simp add: pb_decode_varint32_eof_def accept32_def leb128.simps [of n])
next
  case False
  let ?b = "of_nat (n mod 128 + 128) :: u8" and ?n = "n div 128"
  have inp': "input st = ?b # leb128 ?n @ rest"
    using inp False by (simp add: leb128.simps [of n])
  note rb = readbyte_input [OF cb inp']
  let ?res = "varint32_loop env (of_nat (7 * 1)) (of_nat (n mod 128)) (past st 1)"
  have "varint32_result 1 ?n (of_nat (n mod 128) OR push_bit (7 * 1) (of_nat ?n)) (past st 1) ?res"
    by (rule varint32_loop_head [OF _ rb(2)]) (use cb n in \<open>simp_all add: less_mult_imp_div_less\<close>)
  then have res: "varint32_result 1 ?n (of_nat n) (past st 1) ?res"
    by (simp only: mult_1_right of_nat_groups [of n, symmetric])
  have eq: "pb_decode_varint32_eof env st = (False,
      bind_io ?res (\<lambda>(result, bitpos, byte) st.
        if bitpos = 35 \<and> byte AND 0x70 \<noteq> 0 then fail_with st ''varint overflow''
        else (Some result, st)))"
    unfolding pb_decode_varint32_eof_def rb(1)
    by (simp only: prod.case option.case cont_byte_high cont_byte_low if_False) simp
  have len: "past (past st 1) (of_nat (length (leb128 ?n))) = past st (of_nat (length (leb128 n)))"
    using False by (simp add: leb128.simps [of n] past_past)
  show ?thesis
  proof (cases "n < 2 ^ 35")
    case True
    then have n28: "?n < 2 ^ (35 - 7 * 1)" by (simp add: less_mult_imp_div_less)
    have "length (leb128 ?n) \<le> 4" using True by (intro length_leb128) (simp_all add: less_mult_imp_div_less)
    then have "unat (of_nat (7 * (1 + length (leb128 ?n))) :: u8) = 7 * (1 + length (leb128 ?n))"
      by (intro bitpos_less) simp
    then have pos: "(of_nat (7 * (1 + length (leb128 ?n))) :: u8) = 35 \<longleftrightarrow> 1 + length (leb128 ?n) = 5"
      by (simp only: word_unat_eq_iff) simp
    obtain b where b: "?res = (Some (of_nat n, of_nat (7 * (1 + length (leb128 ?n))), b),
        past (past st 1) (of_nat (length (leb128 ?n))))"
      "b AND 0x70 \<noteq> 0 \<and> 1 + length (leb128 ?n) = 5 \<longleftrightarrow> 2 ^ (32 - 7 * 1) \<le> ?n"
      using res n28 unfolding varint32_result_def by (auto simp only: if_True)
    have "accept32 n \<longleftrightarrow> n < 2 ^ 32" using True by (simp add: accept32_def)
    moreover have "2 ^ (32 - 7 * 1) \<le> ?n \<longleftrightarrow> \<not> n < 2 ^ 32"
      by (simp add: less_eq_div_iff_mult_less_eq not_less)
    ultimately show ?thesis using b(2) unfolding eq b(1) len bind_io_simps prod.case pos
      by (simp add: conj_commute)
  next
    case False
    have "?n < 2 ^ (35 - 7 * 1) \<longleftrightarrow> False" using False by (simp add: div_less_iff_less_mult)
    moreover have "?n div 2 ^ (35 - 7 * 1) = n div 2 ^ 35" by (simp flip: div_mult2_eq)
    moreover have "accept32 n \<longleftrightarrow> drop_bit 31 (of_nat n :: u32) \<noteq> 0 \<and> sign_groups 4 (n div 2 ^ 35)"
      unfolding drop_31_of_nat using False by (simp add: accept32_def del: sign_groups.simps)
    ultimately have res': "if accept32 n then \<exists>b. ?res = (Some (of_nat n, of_nat 70, b),
        past st (of_nat (length (leb128 n)))) else fst ?res = None"
      using res unfolding varint32_result_def len by (simp only: if_False)
    show ?thesis
    proof (cases "accept32 n")
      case True
      then obtain b where "?res = (Some (of_nat n, of_nat 70, b), past st (of_nat (length (leb128 n))))"
        using res' by (auto simp only: if_True)
      then show ?thesis unfolding eq using True by simp
    next
      case no: False
      then have "fst ?res = None" using res' by (simp only: if_False)
      then show ?thesis unfolding eq using no by (cases ?res) simp
    qed
  qed
qed

text \<open>Tags and fixed-width words.\<close>

lemma decode_tag_leb128:
  assumes cb: "i_callback (fst st) = cb" and inp: "input st = leb128 (8 * unat tag + wt) @ rest"
    and tag: "0 < unat tag" "unat tag < 2 ^ 29" and wt: "wt < 8"
  shows "pb_decode_tag env st =
     (False, Some (of_nat wt, tag), past st (of_nat (length (leb128 (8 * unat tag + wt)))))"
proof -
  let ?n = "8 * unat tag + wt"
  have lt: "?n < 2 ^ 32" using tag wt by simp
  have w: "unat (of_nat ?n :: u32) = ?n" using lt by (intro unat_of_nat_u32) simp
  have "of_nat ?n \<noteq> (0 :: u32)" using w tag by (metis add_is_0 mult_is_0 not_gr_zero unat_0 zero_neq_numeral)
  moreover have "(of_nat ?n AND 7 :: u32) = of_nat wt"
  proof -
    have "(of_nat ?n AND 7 :: u32) = take_bit 3 (of_nat ?n)" by (simp add: take_bit_eq_mask mask_eq_exp_minus_1)
    moreover have "unat (take_bit 3 (of_nat ?n) :: u32) = wt"
      unfolding unsigned_take_bit_eq w using wt by (simp add: take_bit_eq_mod)
    ultimately show ?thesis by (metis of_nat_unat ucast_id)
  qed
  moreover have "drop_bit 3 (of_nat ?n) = tag"
    using w wt unat_drop_bit [of 3 "of_nat ?n :: u32"] by (simp only: word_unat_eq_iff) simp
  moreover have "accept32 ?n" using lt by (simp add: accept32_def)
  ultimately show ?thesis
    using decode_varint32_leb128 [OF cb inp] lt unfolding pb_decode_tag_def
    by (cases "pb_decode_varint32_eof env st") simp
qed

lemma read_local_input:
  assumes "i_callback (fst st) = cb" and "input st = bs @ rest" and "unat n = length bs" and "0 < length bs"
  shows "pb_read env RLocal n st = (Some bs, past st n)"
proof -
  have "n \<noteq> 0" using assms(3,4) by auto
  then show ?thesis using read_data_input [OF assms(1), of n] assms(2,3) by (simp add: pb_read_def)
qed

end

section \<open>Zigzag and fixed-width words, round trip\<close>

lemma bit_0_AND_1: "(w :: u64) AND 1 \<noteq> 0 \<longleftrightarrow> bit w 0"
  using and_exp_eq_0_iff_not_bit [of w 0] by simp

lemma sint_neg_bit: "sint (w :: u64) < 0 \<longleftrightarrow> bit w 63"
  using bit_last_iff [of w] by simp

lemma bit_push_1: "bit (push_bit 1 (w :: u64)) k \<longleftrightarrow> 0 < k \<and> k < 64 \<and> bit w (k - 1)"
  by (auto simp only: bit_push_bit_iff possible_bit_word) (auto dest: bit_imp_le_length)

lemma bit_drop_1: "bit (drop_bit 1 (w :: u64)) k \<longleftrightarrow> bit w (Suc k)"
  by (simp add: bit_drop_bit_eq)

lemma bit_not_u64: "bit (NOT (w :: u64)) k \<longleftrightarrow> k < 64 \<and> \<not> bit w k"
  by (simp add: bit_not_iff)

lemma bit_zigzag:
  "bit (zigzag v) k \<longleftrightarrow> k < 64 \<and> (if k = 0 then bit v 63 else bit v (k - 1) \<noteq> bit v 63)"
  unfolding zigzag_def sint_neg_bit
  by (cases "bit v 63") (auto simp only: if_True if_False bit_not_u64 bit_push_1, auto split: if_splits)

lemma bit_unzigzag: "bit (unzigzag v) k \<longleftrightarrow> k < 64 \<and> (bit v (Suc k) \<noteq> bit v 0)"
  unfolding unzigzag_def bit_0_AND_1
  by (cases "bit v 0") (auto simp only: if_True if_False bit_not_u64 bit_drop_1,
      auto dest: bit_imp_le_length)

lemma unzigzag_zigzag: "unzigzag (zigzag v) = v"
proof (rule bit_word_eqI)
  fix k assume "k < LENGTH(64)"
  then show "bit (unzigzag (zigzag v)) k = bit v k"
    by (cases "k = 63") (auto simp: bit_unzigzag bit_zigzag)
qed

lemma zigzag_unzigzag: "zigzag (unzigzag v) = v"
proof (rule bit_word_eqI)
  fix k assume "k < LENGTH(64)"
  moreover have "\<not> bit v 64" by (auto dest: bit_imp_le_length)
  ultimately show "bit (zigzag (unzigzag v)) k = bit v k"
    by (cases k) (auto simp: bit_unzigzag bit_zigzag)
qed

lemma ucast_low_byte: "(ucast (x AND 0xFF) :: u8) = ucast (x :: 'a::len word)"
proof -
  have "x AND 0xFF = take_bit 8 x" by (simp add: take_bit_eq_mask mask_eq_exp_minus_1)
  then show ?thesis by (intro bit_word_eqI) (auto simp: bit_simps)
qed

lemma fixed32_bytes:
  "[ucast (val AND 0xFF), ucast (drop_bit 8 val AND 0xFF), ucast (drop_bit 16 val AND 0xFF),
    ucast (drop_bit 24 val AND 0xFF)] = word_to_bytes 4 (val :: u32)"
  unfolding ucast_low_byte word_to_bytes_def by (simp add: upt_rec)

lemma fixed64_bytes:
  "[ucast (val AND 0xFF), ucast (drop_bit 8 val AND 0xFF), ucast (drop_bit 16 val AND 0xFF),
    ucast (drop_bit 24 val AND 0xFF), ucast (drop_bit 32 val AND 0xFF),
    ucast (drop_bit 40 val AND 0xFF), ucast (drop_bit 48 val AND 0xFF),
    ucast (drop_bit 56 val AND 0xFF)] = word_to_bytes 8 (val :: u64)"
  unfolding ucast_low_byte word_to_bytes_def by (simp add: upt_rec)

lemma fixed32_word:
  assumes "length bs = 4"
  shows "ucast (byte_at bs 0) OR push_bit 8 (ucast (byte_at bs 1)) OR
     push_bit 16 (ucast (byte_at bs 2)) OR push_bit 24 (ucast (byte_at bs 3)) = (bytes_to_word bs :: u32)"
proof -
  obtain a b c d where "bs = [a, b, c, d]"
    using assms by (auto simp: numeral_eq_Suc length_Suc_conv)
  then show ?thesis by (simp add: byte_at_def push_bit_or)
qed

lemma fixed64_word:
  assumes "length bs = 8"
  shows "ucast (byte_at bs 0) OR push_bit 8 (ucast (byte_at bs 1)) OR
     push_bit 16 (ucast (byte_at bs 2)) OR push_bit 24 (ucast (byte_at bs 3)) OR
     push_bit 32 (ucast (byte_at bs 4)) OR push_bit 40 (ucast (byte_at bs 5)) OR
     push_bit 48 (ucast (byte_at bs 6)) OR push_bit 56 (ucast (byte_at bs 7)) = (bytes_to_word bs :: u64)"
proof -
  obtain a b c d e f g h where "bs = [a, b, c, d, e, f, g, h]"
    using assms by (auto simp: numeral_eq_Suc length_Suc_conv)
  then show ?thesis by (simp add: byte_at_def push_bit_or)
qed

text \<open>The key of a field, as a number.\<close>

lemma tag_key:
  assumes "unat (tag :: u32) < 2 ^ 29" and "unat (wt :: u32) < 8"
  shows "unat (push_bit 3 (ucast tag) OR ucast wt :: u64) = 8 * unat tag + unat wt"
proof -
  have "\<not> bit wt k" if "3 \<le> k" for k
  proof
    assume "bit wt k"
    then have "bit (unat wt) k" by (simp add: bit_unsigned_iff)
    then have "2 ^ k \<le> unat wt" by (auto simp: bit_iff_odd intro: ccontr)
    moreover have "(2 :: nat) ^ 3 \<le> 2 ^ k" using that by (rule power_increasing) simp
    ultimately show False using assms(2) by simp
  qed
  then have "push_bit 3 (ucast tag) AND (ucast wt :: u64) = 0"
    by (intro bit_word_eqI) (auto simp: bit_simps not_le)
  then have eq: "push_bit 3 (ucast tag) OR ucast wt = push_bit 3 (ucast tag :: u64) + ucast wt"
    by (simp add: disjunctive_add_eq_or)
  have "unat (push_bit 3 (ucast tag :: u64)) = 8 * unat tag"
    using assms(1) by (simp add: push_bit_eq_mult unat_word_ariths)
  then show ?thesis unfolding eq using assms by (simp add: unat_word_ariths)
qed

section \<open>Memory buffers are sources\<close>

interpretation inb: source env IBufRead "\<lambda>a h n. read_bytes (h_mem h) a n" "\<lambda>a n. a + n" for env
proof unfold_locales
  fix n :: u64 and k :: nat and a :: addr and h :: heap assume "unat n \<le> k"
  then have "k = unat n + (k - unat n)" by simp
  then show "read_bytes (h_mem h) a k =
      read_bytes (h_mem h) a (unat n) @ read_bytes (h_mem h) (a + n) (k - unat n)"
    using read_bytes_append [of "h_mem h" a "unat n" "k - unat n"] by simp
qed (simp_all add: call_read_def buf_read_def add.assoc)

lemma istream_from_buffer_fields [simp]:
  "i_callback (pb_istream_from_buffer b k) = IBufRead"
  "i_state (pb_istream_from_buffer b k) = b" "i_bytes_left (pb_istream_from_buffer b k) = k"
  "i_errmsg (pb_istream_from_buffer b k) = None"
  by (simp_all add: pb_istream_from_buffer_def)

lemma input_from_buffer:
  "length bs < 2 ^ 64 \<Longrightarrow>
     inb.input (pb_istream_from_buffer b (of_nat (length bs)), h\<lparr>h_mem := write_bytes m b bs\<rparr>) = bs"
  by (simp add: inb.input_def read_write_bytes_same)

lemma past_from_buffer:
  "inb.past (pb_istream_from_buffer b n, h) n = (pb_istream_from_buffer (b + n) 0, h)"
  by (simp add: inb.past_def pb_istream_from_buffer_def)

lemma decode_emitted:
  assumes "emits OBufWrite buf_put (\<lambda>s. Some (F s)) True bs None"
    and "length bs \<le> unat bufsize"
  obtains s' where "F (pb_ostream_from_buffer buf bufsize om) = (True, s')"
    "o_bytes_written s' = of_nat (length bs)" "o_mem s' = write_bytes om buf bs"
    "inb.input (pb_istream_from_buffer buf (o_bytes_written s'), h\<lparr>h_mem := o_mem s'\<rparr>) = bs @ []"
proof -
  have lt: "length bs < 2 ^ 64" using le_less_trans [OF assms(2) u64_less] by simp
  show thesis
    using emits_from_buffer [OF assms, of buf om] input_from_buffer [OF lt, where b = buf and h = h and m = om]
    by (intro that) (auto simp: prod_eq_iff)
qed

section \<open>Properties: encoders and decoders of single values\<close>

text \<open>C3. A varint written by \<^verbatim>\<open>pb_encode_varint\<close> takes at most ten bytes, and
  \<^verbatim>\<open>pb_decode_varint\<close> reads the same 64-bit value back from them and stops at their end.\<close>

theorem varint_roundtrip:
  assumes "10 \<le> unat bufsize"
  shows "\<exists>s'. pb_encode_varint env (pb_ostream_from_buffer buf bufsize om) v = (True, s') \<and>
    unat (o_bytes_written s') \<le> 10 \<and>
    pb_decode_varint env (pb_istream_from_buffer buf (o_bytes_written s'), h\<lparr>h_mem := o_mem s'\<rparr>) =
      (Some v, pb_istream_from_buffer (buf + o_bytes_written s') 0, h\<lparr>h_mem := o_mem s'\<rparr>)"
proof -
  have len: "length (leb128 (unat v)) \<le> unat bufsize" using assms length_leb128_u64 [of v] by simp
  obtain s' where s': "pb_encode_varint env (pb_ostream_from_buffer buf bufsize om) v = (True, s')"
    "o_bytes_written s' = of_nat (length (leb128 (unat v)))"
    "inb.input (pb_istream_from_buffer buf (o_bytes_written s'), h\<lparr>h_mem := o_mem s'\<rparr>) = leb128 (unat v) @ []"
    by (rule decode_emitted [OF buf.emits_varint len])
  from inb.decode_varint_leb128 [OF _ s'(3)] s'(2) length_leb128_u64 [of v] show ?thesis
    by (intro exI [of _ s'] conjI s'(1)) (simp_all add: past_from_buffer)
qed

lemma varint_roundtrip_witness:
  "\<exists>s'. pb_encode_varint (plain_env (\<lambda>_. []) (\<lambda>_ _. None)) (pb_ostream_from_buffer 64 16 (\<lambda>_. 0)) 300 = (True, s') \<and>
    unat (o_bytes_written s') \<le> 10 \<and>
    fst (pb_decode_varint (plain_env (\<lambda>_. []) (\<lambda>_ _. None))
      (pb_istream_from_buffer 64 (o_bytes_written s'), \<lparr>h_mem = o_mem s', h_blocks = \<lambda>_. None\<rparr>)) = Some 300"
  using varint_roundtrip [of 16 "plain_env (\<lambda>_. []) (\<lambda>_ _. None)" 64 "\<lambda>_. 0" 300
      "\<lparr>h_mem = \<lambda>_. 0, h_blocks = \<lambda>_. None\<rparr>"] by auto

text \<open>The zigzag transformation loses nothing: a signed value written by
  \<^verbatim>\<open>pb_encode_svarint\<close> is read back by \<^verbatim>\<open>pb_decode_svarint\<close>.\<close>

theorem svarint_roundtrip:
  assumes "10 \<le> unat bufsize"
  shows "\<exists>s'. pb_encode_svarint env (pb_ostream_from_buffer buf bufsize om) v = (True, s') \<and>
    pb_decode_svarint env (pb_istream_from_buffer buf (o_bytes_written s'), h\<lparr>h_mem := o_mem s'\<rparr>) =
      (Some v, pb_istream_from_buffer (buf + o_bytes_written s') 0, h\<lparr>h_mem := o_mem s'\<rparr>)"
proof -
  let ?z = "zigzag v"
  have len: "length (leb128 (unat ?z)) \<le> unat bufsize" using assms length_leb128_u64 [of ?z] by simp
  obtain s' where s': "pb_encode_varint env (pb_ostream_from_buffer buf bufsize om) ?z = (True, s')"
    "o_bytes_written s' = of_nat (length (leb128 (unat ?z)))"
    "inb.input (pb_istream_from_buffer buf (o_bytes_written s'), h\<lparr>h_mem := o_mem s'\<rparr>) = leb128 (unat ?z) @ []"
    by (rule decode_emitted [OF buf.emits_varint len])
  from inb.decode_varint_leb128 [OF _ s'(3)] s'(1,2) show ?thesis
    by (simp add: pb_encode_svarint_def pb_decode_svarint_def past_from_buffer unzigzag_zigzag)
qed

lemma svarint_roundtrip_witness:
  "\<exists>s'. pb_encode_svarint (plain_env (\<lambda>_. []) (\<lambda>_ _. None)) (pb_ostream_from_buffer 64 16 (\<lambda>_. 0)) (- 3) = (True, s') \<and>
    fst (pb_decode_svarint (plain_env (\<lambda>_. []) (\<lambda>_ _. None))
      (pb_istream_from_buffer 64 (o_bytes_written s'), \<lparr>h_mem = o_mem s', h_blocks = \<lambda>_. None\<rparr>)) = Some (- 3)"
  using svarint_roundtrip [of 16 "plain_env (\<lambda>_. []) (\<lambda>_ _. None)" 64 "\<lambda>_. 0" "- 3"
      "\<lparr>h_mem = \<lambda>_. 0, h_blocks = \<lambda>_. None\<rparr>"] by auto

text \<open>A field key written by \<^verbatim>\<open>pb_encode_tag\<close> for a field number below
  \<^verbatim>\<open>2^29\<close> is split again into number and wire type by \<^verbatim>\<open>pb_decode_tag\<close>,
  without signalling end of message.\<close>

theorem tag_roundtrip:
  assumes "10 \<le> unat bufsize" and "0 < unat tag" "unat tag < 2 ^ 29" and "unat wt < 8"
  shows "\<exists>s'. pb_encode_tag env (pb_ostream_from_buffer buf bufsize om) wt tag = (True, s') \<and>
    pb_decode_tag env (pb_istream_from_buffer buf (o_bytes_written s'), h\<lparr>h_mem := o_mem s'\<rparr>) =
      (False, Some (wt, tag), pb_istream_from_buffer (buf + o_bytes_written s') 0, h\<lparr>h_mem := o_mem s'\<rparr>)"
proof -
  let ?k = "push_bit 3 (ucast tag) OR ucast wt :: u64"
  have k: "unat ?k = 8 * unat tag + unat wt" using assms(3,4) by (rule tag_key)
  have len: "length (leb128 (unat ?k)) \<le> unat bufsize" using assms(1) length_leb128_u64 [of ?k] by simp
  obtain s' where s': "pb_encode_tag env (pb_ostream_from_buffer buf bufsize om) wt tag = (True, s')"
    "o_bytes_written s' = of_nat (length (leb128 (unat ?k)))"
    "inb.input (pb_istream_from_buffer buf (o_bytes_written s'), h\<lparr>h_mem := o_mem s'\<rparr>) = leb128 (unat ?k) @ []"
    by (rule decode_emitted [OF buf.emits_tag len])
  from inb.decode_tag_leb128 [OF _ s'(3) [unfolded k] assms(2-4)] s'(1,2) show ?thesis
    by (simp add: k past_from_buffer)
qed

lemma tag_roundtrip_witness:
  "\<exists>s'. pb_encode_tag (plain_env (\<lambda>_. []) (\<lambda>_ _. None)) (pb_ostream_from_buffer 64 16 (\<lambda>_. 0)) PB_WT_STRING 5000 = (True, s') \<and>
    fst (snd (pb_decode_tag (plain_env (\<lambda>_. []) (\<lambda>_ _. None))
      (pb_istream_from_buffer 64 (o_bytes_written s'), \<lparr>h_mem = o_mem s', h_blocks = \<lambda>_. None\<rparr>))) = Some (2, 5000)"
  using tag_roundtrip [of 16 5000 PB_WT_STRING "plain_env (\<lambda>_. []) (\<lambda>_ _. None)" 64 "\<lambda>_. 0"
      "\<lparr>h_mem = \<lambda>_. 0, h_blocks = \<lambda>_. None\<rparr>"] by auto

text \<open>Which 64-bit varints \<^verbatim>\<open>pb_decode_varint32\<close> accepts: those below
  \<^verbatim>\<open>2^32\<close>, and those with bit 31 set whose groups of seven bits from bit 35 on are
  all zeros or all ones up to bit 63.  Bits 32 to 34 of a long encoding are ignored, so some values
  that are not sign extensions are cut to 32 bits without an error.\<close>

theorem varint32_canonical:
  assumes "10 \<le> unat bufsize"
  shows "\<exists>s'. pb_encode_varint env (pb_ostream_from_buffer buf bufsize om) v = (True, s') \<and>
    fst (pb_decode_varint32 env (pb_istream_from_buffer buf (o_bytes_written s'), h\<lparr>h_mem := o_mem s'\<rparr>)) =
      (if accept32 (unat v) then Some (ucast v) else None)"
proof -
  have len: "length (leb128 (unat v)) \<le> unat bufsize" using assms length_leb128_u64 [of v] by simp
  obtain s' where s': "pb_encode_varint env (pb_ostream_from_buffer buf bufsize om) v = (True, s')"
    "o_bytes_written s' = of_nat (length (leb128 (unat v)))"
    "inb.input (pb_istream_from_buffer buf (o_bytes_written s'), h\<lparr>h_mem := o_mem s'\<rparr>) = leb128 (unat v) @ []"
    by (rule decode_emitted [OF buf.emits_varint len])
  have "unat v < 2 ^ 64" by simp
  from inb.decode_varint32_leb128 [OF _ s'(3) this] s'(1) show ?thesis
    unfolding pb_decode_varint32_def by (cases "accept32 (unat v)") simp_all
qed

lemma varint32_canonical_witness:
  "\<exists>s'. pb_encode_varint (plain_env (\<lambda>_. []) (\<lambda>_ _. None)) (pb_ostream_from_buffer 64 16 (\<lambda>_. 0)) 0xFFFFFFF880000000 = (True, s') \<and>
    fst (pb_decode_varint32 (plain_env (\<lambda>_. []) (\<lambda>_ _. None))
      (pb_istream_from_buffer 64 (o_bytes_written s'), \<lparr>h_mem = o_mem s', h_blocks = \<lambda>_. None\<rparr>)) = Some 0x80000000"
proof -
  have "accept32 0xFFFFFFF880000000" by (simp add: accept32_def sign_groups_4)
  then show ?thesis
    using varint32_canonical [of 16 "plain_env (\<lambda>_. []) (\<lambda>_ _. None)" 64 "\<lambda>_. 0" "0xFFFFFFF880000000"
      "\<lparr>h_mem = \<lambda>_. 0, h_blocks = \<lambda>_. None\<rparr>"] by auto
qed

text \<open>C9. What \<^verbatim>\<open>pb_decode_varint32\<close> makes of any bytes.  It succeeds exactly when there is a byte
  without the continuation bit, at \<open>k\<close> say, and every byte up to it fits: a byte at a bit position below 32 always
  does (but a fifth byte that is the last must not use its three high bits), one further up must have seven zero
  bits or continue the sign of a value with bit 31 set.  The value is then made of the bytes at positions
  below 32, cut to 32 bits, so the bits 32 to 34 of an encoding longer than five bytes are ignored; and since the position
  is kept in eight bits (\<open>position\<close>), the bytes from the 38th on come below position 32 again and
  are added to the value.  Exactly the bytes up to \<open>k\<close> are consumed.\<close>

theorem varint32_accepts:
  "case pb_decode_varint32 env (pb_istream_from_buffer buf len, h) of
      (Some v, st) \<Rightarrow> \<exists>k. varint32_form (read_bytes (h_mem h) buf (unat len)) k \<and>
        v = low32 (read_bytes (h_mem h) buf (unat len)) (Suc k) \<and>
        st = (pb_istream_from_buffer (buf + of_nat (Suc k)) (len - of_nat (Suc k)), h)
    | (None, _) \<Rightarrow> \<forall>k. \<not> varint32_form (read_bytes (h_mem h) buf (unat len)) k"
proof -
  let ?st = "(pb_istream_from_buffer buf len, h)"
  have inp: "inb.input ?st = read_bytes (h_mem h) buf (unat len)" by (simp add: inb.input_def)
  have past: "inb.past ?st n = (pb_istream_from_buffer (buf + n) (len - n), h)" for n
    by (simp add: inb.past_def pb_istream_from_buffer_def)
  show ?thesis
    using inb.decode_varint32_any [of ?st env] unfolding inp past by simp
qed

text \<open>A value of 35 bits becomes 0, and a zero in 37 bytes with a one behind them becomes 8.\<close>

definition example_varints :: "u8 list \<Rightarrow> heap" where
  "example_varints bs = \<lparr>h_mem = write_bytes (\<lambda>_. 0) 0 bs, h_blocks = (\<lambda>_. None)\<rparr>"

lemma varint32_accepts_witness:
  "(\<exists>st. pb_decode_varint32 (plain_env (\<lambda>_. []) (\<lambda>_ _. None))
      (pb_istream_from_buffer 0 6, example_varints [0x80, 0x80, 0x80, 0x80, 0xF0, 0x00]) = (Some 0, st)) \<and>
   (\<exists>st. pb_decode_varint32 (plain_env (\<lambda>_. []) (\<lambda>_ _. None))
      (pb_istream_from_buffer 0 38, example_varints (replicate 37 0x80 @ [0x01])) = (Some 8, st))"
proof -
  have run: "\<exists>st. pb_decode_varint32 (plain_env (\<lambda>_. []) (\<lambda>_ _. None)) (pb_istream_from_buffer 0 n, example_varints bs) =
      (Some (low32 bs (Suc k)), st)" if bs: "length bs = unat n" and form: "varint32_form bs k" for bs n k
  proof -
    have rd: "read_bytes (h_mem (example_varints bs)) 0 (unat n) = bs"
    proof -
      have "length bs < 2 ^ 64" unfolding bs using u64_less [of n] by simp
      then show ?thesis using read_write_bytes_same [of bs "\<lambda>_. 0" 0] unfolding bs [symmetric] by (simp add: example_varints_def)
    qed
    note A = varint32_accepts [where env = "plain_env (\<lambda>_. []) (\<lambda>_ _. None)" and buf = 0 and len = n and h = "example_varints bs",
        unfolded rd]
    obtain r st where r: "pb_decode_varint32 (plain_env (\<lambda>_. []) (\<lambda>_ _. None)) (pb_istream_from_buffer 0 n, example_varints bs) = (r, st)"
      by (cases "pb_decode_varint32 (plain_env (\<lambda>_. []) (\<lambda>_ _. None)) (pb_istream_from_buffer 0 n, example_varints bs)")
    from A form r obtain k' v where v: "r = Some v" "varint32_form bs k'" "v = low32 bs (Suc k')" by (cases r) auto
    have "k' = k" using varint_span_unique v(2) form unfolding varint32_form_def by blast
    then show ?thesis using r v(1,3) by simp
  qed
  have code: "varint32_form bs k \<longleftrightarrow> k < length bs \<and> list_all (\<lambda>j. bs ! j AND 0x80 \<noteq> 0) [0..<k] \<and> bs ! k AND 0x80 = 0 \<and>
      list_all (fits32 bs) [0..<Suc k] \<and> (position (Suc k) = 35 \<longrightarrow> bs ! k AND 0x70 = 0)" for bs k
    by (auto simp: varint32_form_def varint_span_def list_all_iff less_Suc_eq_le)
  have "varint32_form [0x80, 0x80, 0x80, 0x80, 0xF0, 0x00] 5" "varint32_form (replicate 37 0x80 @ [0x01]) 37"
    unfolding code by code_simp+
  moreover have "low32 [0x80, 0x80, 0x80, 0x80, 0xF0, 0x00] (Suc 5) = 0" "low32 (replicate 37 0x80 @ [0x01]) (Suc 37) = 8"
    by code_simp+
  ultimately show ?thesis using run [of "[0x80, 0x80, 0x80, 0x80, 0xF0, 0x00]" 6 5] run [of "replicate 37 0x80 @ [0x01]" 38 37] by simp
qed

lemma fixed32_back:
  assumes "4 \<le> unat bufsize"
  shows "\<exists>s'. pb_encode_fixed32 env m (pb_ostream_from_buffer buf bufsize om) value = (True, s') \<and>
    o_bytes_written s' = 4 \<and>
    pb_decode_fixed32 env dest (pb_istream_from_buffer buf 4, h\<lparr>h_mem := o_mem s'\<rparr>) =
      (True, pb_istream_from_buffer (buf + 4) 0,
       h\<lparr>h_mem := store_u32 (o_mem s') dest (load_u32 m value)\<rparr>)"
proof -
  let ?bs = "word_to_bytes 4 (load_u32 m value)"
  have len: "length ?bs \<le> unat bufsize" using assms by simp
  have F: "emits OBufWrite buf_put (\<lambda>s. Some (pb_encode_fixed32 env m s value)) True ?bs None"
    unfolding pb_encode_fixed32_def Let_def fixed32_bytes using buf.emits_write [of ?bs env] by simp
  obtain s' where s': "pb_encode_fixed32 env m (pb_ostream_from_buffer buf bufsize om) value = (True, s')"
    "o_bytes_written s' = of_nat (length ?bs)"
    "inb.input (pb_istream_from_buffer buf (o_bytes_written s'), h\<lparr>h_mem := o_mem s'\<rparr>) = ?bs @ []"
    by (rule decode_emitted [OF F len])
  have "pb_read env RLocal 4 (pb_istream_from_buffer buf 4, h\<lparr>h_mem := o_mem s'\<rparr>) =
      (Some ?bs, pb_istream_from_buffer (buf + 4) 0, h\<lparr>h_mem := o_mem s'\<rparr>)"
    using inb.read_local_input [OF _ s'(3), of 4] s'(2) by (simp add: past_from_buffer)
  then show ?thesis using s'(1,2) fixed32_word [of ?bs]
    by (simp add: pb_decode_fixed32_def bytes_to_word_to_bytes)
qed

lemma fixed64_back:
  assumes "8 \<le> unat bufsize"
  shows "\<exists>s'. pb_encode_fixed64 env m (pb_ostream_from_buffer buf bufsize om) value = (True, s') \<and>
    o_bytes_written s' = 8 \<and>
    pb_decode_fixed64 env dest (pb_istream_from_buffer buf 8, h\<lparr>h_mem := o_mem s'\<rparr>) =
      (True, pb_istream_from_buffer (buf + 8) 0,
       h\<lparr>h_mem := store_u64 (o_mem s') dest (load_u64 m value)\<rparr>)"
proof -
  let ?bs = "word_to_bytes 8 (load_u64 m value)"
  have len: "length ?bs \<le> unat bufsize" using assms by simp
  have F: "emits OBufWrite buf_put (\<lambda>s. Some (pb_encode_fixed64 env m s value)) True ?bs None"
    unfolding pb_encode_fixed64_def Let_def fixed64_bytes using buf.emits_write [of ?bs env] by simp
  obtain s' where s': "pb_encode_fixed64 env m (pb_ostream_from_buffer buf bufsize om) value = (True, s')"
    "o_bytes_written s' = of_nat (length ?bs)"
    "inb.input (pb_istream_from_buffer buf (o_bytes_written s'), h\<lparr>h_mem := o_mem s'\<rparr>) = ?bs @ []"
    by (rule decode_emitted [OF F len])
  have "pb_read env RLocal 8 (pb_istream_from_buffer buf 8, h\<lparr>h_mem := o_mem s'\<rparr>) =
      (Some ?bs, pb_istream_from_buffer (buf + 8) 0, h\<lparr>h_mem := o_mem s'\<rparr>)"
    using inb.read_local_input [OF _ s'(3), of 8] s'(2) by (simp add: past_from_buffer)
  then show ?thesis using s'(1,2) fixed64_word [of ?bs]
    by (simp add: pb_decode_fixed64_def bytes_to_word_to_bytes)
qed

text \<open>A fixed-width value of 32 or 64 bits is written as four or eight bytes, least significant
  first, and stored again unchanged by the decoder, which consumes exactly those bytes, whatever the
  address it came from and goes to.\<close>

theorem fixed_roundtrip:
  assumes "8 \<le> unat bufsize"
  shows "(\<exists>s'. pb_encode_fixed32 env m (pb_ostream_from_buffer buf bufsize om) value = (True, s') \<and>
      o_bytes_written s' = 4 \<and>
      pb_decode_fixed32 env dest (pb_istream_from_buffer buf 4, h\<lparr>h_mem := o_mem s'\<rparr>) =
        (True, pb_istream_from_buffer (buf + 4) 0,
         h\<lparr>h_mem := store_u32 (o_mem s') dest (load_u32 m value)\<rparr>)) \<and>
    (\<exists>s'. pb_encode_fixed64 env m (pb_ostream_from_buffer buf bufsize om) value = (True, s') \<and>
      o_bytes_written s' = 8 \<and>
      pb_decode_fixed64 env dest (pb_istream_from_buffer buf 8, h\<lparr>h_mem := o_mem s'\<rparr>) =
        (True, pb_istream_from_buffer (buf + 8) 0,
         h\<lparr>h_mem := store_u64 (o_mem s') dest (load_u64 m value)\<rparr>))"
proof
  have four: "4 \<le> unat bufsize" using assms by simp
  show "\<exists>s'. pb_encode_fixed32 env m (pb_ostream_from_buffer buf bufsize om) value = (True, s') \<and>
      o_bytes_written s' = 4 \<and>
      pb_decode_fixed32 env dest (pb_istream_from_buffer buf 4, h\<lparr>h_mem := o_mem s'\<rparr>) =
        (True, pb_istream_from_buffer (buf + 4) 0,
         h\<lparr>h_mem := store_u32 (o_mem s') dest (load_u32 m value)\<rparr>)"
    by (rule fixed32_back [OF four])
qed (rule fixed64_back [OF assms])

theorem fixed_roundtrip_witness:
  "\<exists>s'. pb_encode_fixed64 (plain_env (\<lambda>_. []) (\<lambda>_ _. None)) (\<lambda>_. 7) (pb_ostream_from_buffer 64 8 (\<lambda>_. 0)) 0 = (True, s') \<and>
    o_bytes_written s' = 8 \<and>
    fst (pb_decode_fixed64 (plain_env (\<lambda>_. []) (\<lambda>_ _. None)) 16
      (pb_istream_from_buffer 64 8, \<lparr>h_mem = o_mem s', h_blocks = \<lambda>_. None\<rparr>))"
proof -
  let ?h = "\<lparr>h_mem = \<lambda>_. 0, h_blocks = \<lambda>_. None\<rparr>"
  have "8 \<le> unat (8 :: u64)" by simp
  from fixed_roundtrip [OF this, of "plain_env (\<lambda>_. []) (\<lambda>_ _. None)" "\<lambda>_. 7" 64 "\<lambda>_. 0" 0 16 ?h, THEN conjunct2]
  show ?thesis by auto
qed

text \<open>C8. What the value encoders write into a buffer, the decoders read back, consuming exactly those
  bytes: a field key (field number below \<^verbatim>\<open>2^29\<close> and wire type, without signalling end of message),
  a signed value through the zigzag transformation, and the 32-bit and 64-bit words at any address, which are
  stored again at any other.\<close>

theorem values_roundtrip:
  assumes "10 \<le> unat bufsize" and "0 < unat tag" "unat tag < 2 ^ 29" and "unat wt < 8"
  shows "(\<exists>s'. pb_encode_tag env (pb_ostream_from_buffer buf bufsize om) wt tag = (True, s') \<and>
      pb_decode_tag env (pb_istream_from_buffer buf (o_bytes_written s'), h\<lparr>h_mem := o_mem s'\<rparr>) =
        (False, Some (wt, tag), pb_istream_from_buffer (buf + o_bytes_written s') 0, h\<lparr>h_mem := o_mem s'\<rparr>)) \<and>
    (\<exists>s'. pb_encode_svarint env (pb_ostream_from_buffer buf bufsize om) v = (True, s') \<and>
      pb_decode_svarint env (pb_istream_from_buffer buf (o_bytes_written s'), h\<lparr>h_mem := o_mem s'\<rparr>) =
        (Some v, pb_istream_from_buffer (buf + o_bytes_written s') 0, h\<lparr>h_mem := o_mem s'\<rparr>)) \<and>
    (\<exists>s'. pb_encode_fixed32 env m (pb_ostream_from_buffer buf bufsize om) value = (True, s') \<and>
      o_bytes_written s' = 4 \<and>
      pb_decode_fixed32 env dest (pb_istream_from_buffer buf 4, h\<lparr>h_mem := o_mem s'\<rparr>) =
        (True, pb_istream_from_buffer (buf + 4) 0,
         h\<lparr>h_mem := store_u32 (o_mem s') dest (load_u32 m value)\<rparr>)) \<and>
    (\<exists>s'. pb_encode_fixed64 env m (pb_ostream_from_buffer buf bufsize om) value = (True, s') \<and>
      o_bytes_written s' = 8 \<and>
      pb_decode_fixed64 env dest (pb_istream_from_buffer buf 8, h\<lparr>h_mem := o_mem s'\<rparr>) =
        (True, pb_istream_from_buffer (buf + 8) 0,
         h\<lparr>h_mem := store_u64 (o_mem s') dest (load_u64 m value)\<rparr>))"
proof -
  have "8 \<le> unat bufsize" using assms(1) by simp
  from tag_roundtrip [OF assms] svarint_roundtrip [OF assms(1)] fixed_roundtrip [OF this]
  show ?thesis by blast
qed

theorem values_roundtrip_witness:
  "(\<exists>s'. pb_encode_tag (plain_env (\<lambda>_. []) (\<lambda>_ _. None)) (pb_ostream_from_buffer 64 16 (\<lambda>_. 0)) PB_WT_STRING 5000 = (True, s') \<and>
    fst (snd (pb_decode_tag (plain_env (\<lambda>_. []) (\<lambda>_ _. None))
      (pb_istream_from_buffer 64 (o_bytes_written s'), \<lparr>h_mem = o_mem s', h_blocks = \<lambda>_. None\<rparr>))) = Some (2, 5000)) \<and>
   (\<exists>s'. pb_encode_svarint (plain_env (\<lambda>_. []) (\<lambda>_ _. None)) (pb_ostream_from_buffer 64 16 (\<lambda>_. 0)) (- 3) = (True, s') \<and>
    fst (pb_decode_svarint (plain_env (\<lambda>_. []) (\<lambda>_ _. None))
      (pb_istream_from_buffer 64 (o_bytes_written s'), \<lparr>h_mem = o_mem s', h_blocks = \<lambda>_. None\<rparr>)) = Some (- 3))"
proof -
  have b: "10 \<le> unat (16 :: u64)" "0 < unat (5000 :: u32)" "unat (5000 :: u32) < 2 ^ 29" "unat PB_WT_STRING < 8"
    by simp_all
  note w = values_roundtrip [OF b, of "plain_env (\<lambda>_. []) (\<lambda>_ _. None)" 64 "\<lambda>_. 0"
      "\<lparr>h_mem = \<lambda>_. 0, h_blocks = \<lambda>_. None\<rparr>" "- 3" "\<lambda>_. 0" 0 0]
  from w [THEN conjunct1] w [THEN conjunct2, THEN conjunct1] show ?thesis by (intro conjI) auto
qed

end
