(* ===== verification/Pb_Fields.thy ===== *)
theory Pb_Fields
  imports Pb_Istream Pb_Encode
begin

text \<open>
  The field decoders of \<^verbatim>\<open>pb_decode.c\<close> that do not recurse (\<^verbatim>\<open>pb_dec_bool\<close> to
  \<^verbatim>\<open>pb_dec_fixed_length_bytes\<close>) and \<^verbatim>\<open>allocate_field\<close>: what each stores, and
  every error return.  That they stay inside the stream is proved in \<open>Pb_Window\<close>, that they return
  and consume in \<open>Pb_Total\<close>.
\<close>

section \<open>Integers\<close>

text \<open>\<^verbatim>\<open>clamped = *(intN_t*)dest = (intN_t)svalue\<close>: the store and the widened value.\<close>

definition store_signed :: "mem \<Rightarrow> addr \<Rightarrow> u32 \<Rightarrow> u64 \<Rightarrow> (mem \<times> u64) option" where
  "store_signed m dest data_size v =
     (if data_size = 8 then Some (store m dest 8 v, v)
      else if data_size = 4 then Some (store m dest 4 (ucast v :: u32), scast (ucast v :: u32))
      else if data_size = 2 then Some (store m dest 2 (ucast v :: u16), scast (ucast v :: u16))
      else if data_size = 1 then Some (store m dest 1 (ucast v :: u8), scast (ucast v :: u8))
      else None)"

definition store_unsigned :: "mem \<Rightarrow> addr \<Rightarrow> u32 \<Rightarrow> u64 \<Rightarrow> (mem \<times> u64) option" where
  "store_unsigned m dest data_size v =
     (if data_size = 8 then Some (store m dest 8 v, v)
      else if data_size = 4 then Some (store m dest 4 (ucast v :: u32), ucast (ucast v :: u32))
      else if data_size = 2 then Some (store m dest 2 (ucast v :: u16), ucast (ucast v :: u16))
      else if data_size = 1 then Some (store m dest 1 (ucast v :: u8), ucast (ucast v :: u8))
      else None)"

text \<open>The two error returns after the store.\<close>

definition check_stored :: "(mem \<times> u64) option \<Rightarrow> u64 \<Rightarrow> ist \<Rightarrow> bool \<times> ist" where
  "check_stored r v st =
     (case r of
        None \<Rightarrow> (False, is_error st ''invalid data_size'')
      | Some (m', clamped) \<Rightarrow>
          let st' = (fst st, (snd st)\<lparr>h_mem := m'\<rparr>) in
          if clamped \<noteq> v then (False, is_error st' ''integer too large'') else (True, st'))"

definition pb_dec_bool :: "pb_env \<Rightarrow> pb_field \<Rightarrow> addr \<Rightarrow> ist \<Rightarrow> bool \<times> ist" where
  "pb_dec_bool env field dest st =
     and_take (pb_decode_varint32 env st) (\<lambda>value (s, h).
       (True, s, h\<lparr>h_mem := store_bool (h_mem h) dest (value \<noteq> 0)\<rparr>))"

definition pb_dec_varint :: "pb_env \<Rightarrow> pb_field \<Rightarrow> addr \<Rightarrow> ist \<Rightarrow> bool \<times> ist" where
  "pb_dec_varint env field dest st =
     and_take (pb_decode_varint env st) (\<lambda>value st.
       let svalue = (if f_data_size field = 8 then value else scast (ucast value :: u32)) in
       check_stored (store_signed (h_mem (snd st)) dest (f_data_size field) svalue) svalue st)"

definition pb_dec_uvarint :: "pb_env \<Rightarrow> pb_field \<Rightarrow> addr \<Rightarrow> ist \<Rightarrow> bool \<times> ist" where
  "pb_dec_uvarint env field dest st =
     and_take (pb_decode_varint env st) (\<lambda>value st.
       check_stored (store_unsigned (h_mem (snd st)) dest (f_data_size field) value) value st)"

definition pb_dec_svarint :: "pb_env \<Rightarrow> pb_field \<Rightarrow> addr \<Rightarrow> ist \<Rightarrow> bool \<times> ist" where
  "pb_dec_svarint env field dest st =
     and_take (pb_decode_svarint env st) (\<lambda>value st.
       check_stored (store_signed (h_mem (snd st)) dest (f_data_size field) value) value st)"

definition pb_dec_fixed32 :: "pb_env \<Rightarrow> pb_field \<Rightarrow> addr \<Rightarrow> ist \<Rightarrow> bool \<times> ist" where
  "pb_dec_fixed32 env field dest st = pb_decode_fixed32 env dest st"

definition pb_dec_fixed64 :: "pb_env \<Rightarrow> pb_field \<Rightarrow> addr \<Rightarrow> ist \<Rightarrow> bool \<times> ist" where
  "pb_dec_fixed64 env field dest st = pb_decode_fixed64 env dest st"

definition pb_decode_bool :: "pb_env \<Rightarrow> addr \<Rightarrow> ist \<Rightarrow> bool \<times> ist" where
  "pb_decode_bool env dest st = pb_dec_bool env PB_LAST_FIELD dest st"

section \<open>Allocation\<close>

text \<open>\<open>None\<close>: \<^verbatim>\<open>realloc\<close> of a pointer that is not a live block.\<close>

definition allocate_field :: "pb_env \<Rightarrow> addr \<Rightarrow> u64 \<Rightarrow> u64 \<Rightarrow> ist \<Rightarrow> (bool \<times> ist) option" where
  "allocate_field env pData data_size array_size st =
     (let ptr = load_ptr (h_mem (snd st)) pData in
      if data_size = 0 \<or> array_size = 0 then Some (False, is_error st ''invalid size'')
      else if (data_size \<ge> 2 ^ 32 \<or> array_size \<ge> 2 ^ 32) \<and> - 1 div array_size < data_size
      then Some (False, is_error st ''size too large'')
      else case c_realloc (e_place env) (snd st) ptr (array_size * data_size) of
             None \<Rightarrow> None
           | Some (q, h') \<Rightarrow>
               if q = 0 then Some (False, is_error (fst st, h') ''realloc failed'')
               else Some (True, fst st, h'\<lparr>h_mem := store_ptr (h_mem h') pData q\<rparr>))"

section \<open>Bytes and strings\<close>

definition pb_read_into :: "pb_env \<Rightarrow> addr \<Rightarrow> u64 \<Rightarrow> ist \<Rightarrow> bool \<times> ist" where
  "pb_read_into env dest count st = and_take (pb_read env (RMem dest) count st) (\<lambda>_ st. (True, st))"

text \<open>The tests \<^verbatim>\<open>size > PB_SIZE_MAX\<close> and \<^verbatim>\<open>size > alloc_size\<close> are kept although a
  32-bit size cannot fail them.\<close>

definition pb_dec_bytes :: "pb_env \<Rightarrow> pb_field \<Rightarrow> addr \<Rightarrow> ist \<Rightarrow> (bool \<times> ist) option" where
  "pb_dec_bytes env field dest st =
     (case pb_decode_varint32 env st of
        (None, st) \<Rightarrow> Some (False, st)
      | (Some sz, st) \<Rightarrow>
          let alloc_size = PB_BYTES_ARRAY_T_ALLOCSIZE sz;
              fill = (\<lambda>bdest (s, h).
                Some (pb_read_into env (bytes_bytes bdest) (ucast sz)
                        (s, h\<lparr>h_mem := store_u32 (h_mem h) (bytes_size bdest) sz\<rparr>))) in
          if sz > PB_SIZE_MAX then Some (False, is_error st ''bytes overflow'')
          else if ucast sz > alloc_size then Some (False, is_error st ''size too large'')
          else if PB_ATYPE (f_type field) = PB_ATYPE_POINTER then
            and_then_opt (allocate_field env dest alloc_size 1 st) (\<lambda>st. fill (load_ptr (h_mem (snd st)) dest) st)
          else if alloc_size > ucast (f_data_size field) then Some (False, is_error st ''bytes overflow'')
          else fill dest st)"

text \<open>\<^verbatim>\<open>alloc_size = size + 1\<close> is computed in 32 bits.\<close>

definition pb_dec_string :: "pb_env \<Rightarrow> pb_field \<Rightarrow> addr \<Rightarrow> ist \<Rightarrow> (bool \<times> ist) option" where
  "pb_dec_string env field dest st =
     (case pb_decode_varint32 env st of
        (None, st) \<Rightarrow> Some (False, st)
      | (Some sz, st) \<Rightarrow>
          let alloc_size = ucast (sz + 1) :: u64;
              fill = (\<lambda>dest st.
                case pb_read_into env dest (ucast sz) st of
                  (status, s, h) \<Rightarrow> Some (status, s, h\<lparr>h_mem := (h_mem h)(dest + ucast sz := 0)\<rparr>)) in
          if alloc_size < ucast sz then Some (False, is_error st ''size too large'')
          else if PB_ATYPE (f_type field) = PB_ATYPE_POINTER then
            and_then_opt (allocate_field env dest alloc_size 1 st) (\<lambda>st. fill (load_ptr (h_mem (snd st)) dest) st)
          else if alloc_size > ucast (f_data_size field) then Some (False, is_error st ''string overflow'')
          else fill dest st)"

definition pb_dec_fixed_length_bytes :: "pb_env \<Rightarrow> pb_field \<Rightarrow> addr \<Rightarrow> ist \<Rightarrow> bool \<times> ist" where
  "pb_dec_fixed_length_bytes env field dest st =
     and_take (pb_decode_varint32 env st) (\<lambda>sz st.
       if sz > PB_SIZE_MAX then (False, is_error st ''bytes overflow'')
       else if sz = 0 then
         (True, fst st, (snd st)\<lparr>h_mem := mem_zero (h_mem (snd st)) dest (unat (f_data_size field))\<rparr>)
       else if sz \<noteq> f_data_size field then (False, is_error st ''incorrect fixed length bytes size'')
       else pb_read_into env dest (ucast (f_data_size field)) st)"

end
