(* ===== verification/Pb_Defaults.thy ===== *)
theory Pb_Defaults
  imports Pb_Common
begin

text \<open>
  The walks over a message structure in \<^verbatim>\<open>pb_decode.c\<close>: setting every field to its
  default and releasing what the decoder allocated.  Both recurse through submessages and extension
  lists; the recursion is bounded by a fuel argument and \<open>None\<close> means that it ran out (or, when
  releasing, that \<^verbatim>\<open>free\<close> was given a pointer that is not a live block).
\<close>

section \<open>Extensions\<close>

text \<open>\<^verbatim>\<open>iter_from_extension\<close>: a fake iterator for the extension's field.\<close>

definition extension_fields :: "pb_env \<Rightarrow> mem \<Rightarrow> addr \<Rightarrow> pb_field list" where
  "extension_fields env m extension =
     e_fields env (load_ptr m (ext_type_arg (load_ptr m (ext_type extension))))"

definition iter_from_extension :: "pb_env \<Rightarrow> mem \<Rightarrow> addr \<Rightarrow> pb_iter" where
  "iter_from_extension env m extension =
     (let flds = extension_fields env m extension; dest = load_ptr m (ext_dest extension);
          it = snd (pb_field_iter_begin flds dest) in
      it\<lparr>it_pData := (if PB_ATYPE (f_type (field_at flds 0)) = PB_ATYPE_POINTER
                      then ext_dest extension else dest),
         it_pSize := PAddr (ext_found extension)\<rparr>)"

text \<open>\<^verbatim>\<open>while (ext != NULL) { body; ext = ext->next; }\<close>; \<open>get\<close> is the memory of the state.\<close>

fun extension_walk :: "nat \<Rightarrow> (addr \<Rightarrow> 's \<Rightarrow> 's option) \<Rightarrow> ('s \<Rightarrow> mem) \<Rightarrow> addr \<Rightarrow> 's \<Rightarrow> 's option" where
  "extension_walk 0 body get ext s = (if ext = 0 then Some s else None)"
| "extension_walk (Suc k) body get ext s =
     (if ext = 0 then Some s
      else case body ext s of
             None \<Rightarrow> None
           | Some s' \<Rightarrow> extension_walk k body get (load_ptr (get s') (ext_next ext)) s')"

section \<open>Default values\<close>

text \<open>A store through \<open>pSize\<close>.  The iterators of these walks never point it at the decoder's
  local counter.\<close>

definition at_size :: "pb_iter \<Rightarrow> (addr \<Rightarrow> 'a) \<Rightarrow> 'a option" where
  "at_size it g = (case it_pSize it of PAddr a \<Rightarrow> Some (g a) | PLocal \<Rightarrow> None)"

fun pb_field_set_to_default :: "nat \<Rightarrow> pb_env \<Rightarrow> pb_iter \<Rightarrow> mem \<Rightarrow> mem option" where
  "pb_field_set_to_default 0 env it m = None"
| "pb_field_set_to_default (Suc n) env it m =
     (let f = it_field it; type = f_type f; pData = it_pData it in
      if PB_LTYPE type = PB_LTYPE_EXTENSION then
        extension_walk n
          (\<lambda>ext m. let m = store_bool m (ext_found ext) False in
                    pb_field_set_to_default n env (iter_from_extension env m ext) m)
          (\<lambda>m. m) (load_ptr m pData) m
      else if PB_ATYPE type = PB_ATYPE_STATIC then
        let optional = (PB_HTYPE type = PB_HTYPE_OPTIONAL \<and> it_pSize it \<noteq> PAddr pData);
            counted = (PB_HTYPE type = PB_HTYPE_REPEATED \<or> PB_HTYPE type = PB_HTYPE_ONEOF) in
        case (if optional then at_size it (\<lambda>a. store_bool m a False)
              else if counted then at_size it (\<lambda>a. store_u32 m a 0)
              else Some m) of
          None \<Rightarrow> None
        | Some m \<Rightarrow>
            if \<not> optional \<and> counted then Some m
            else if PB_LTYPE type = PB_LTYPE_SUBMESSAGE then
              foldM (pb_field_set_to_default n env) (iters (e_fields env (f_ptr f)) pData) m
            else if f_ptr f \<noteq> 0 then
              Some (write_bytes m pData (read_bytes m (f_ptr f) (unat (f_data_size f))))
            else Some (mem_zero m pData (unat (f_data_size f)))
      else if PB_ATYPE type = PB_ATYPE_POINTER then
        let m = store_ptr m pData 0 in
        if PB_HTYPE type = PB_HTYPE_REPEATED \<or> PB_HTYPE type = PB_HTYPE_ONEOF
        then at_size it (\<lambda>a. store_u32 m a 0)
        else Some m
      else Some m)"

definition pb_message_set_to_defaults :: "nat \<Rightarrow> pb_env \<Rightarrow> pb_field list \<Rightarrow> addr \<Rightarrow> mem \<Rightarrow> mem option" where
  "pb_message_set_to_defaults n env flds dest m =
     foldM (pb_field_set_to_default n env) (iters flds dest) m"

section \<open>Releasing\<close>

text \<open>\<^verbatim>\<open>while (count--) { pb_free(*pItem); *pItem++ = NULL; }\<close>\<close>

definition free_items :: "addr \<Rightarrow> u32 \<Rightarrow> heap \<Rightarrow> heap option" where
  "free_items pItem count h =
     foldM (\<lambda>i h. let p = pItem + of_nat i * 8 in
              map_option (\<lambda>h. h\<lparr>h_mem := store_ptr (h_mem h) p 0\<rparr>) (c_free h (load_ptr (h_mem h) p)))
       [0..<unat count] h"

text \<open>The last part of \<^verbatim>\<open>pb_release_single_field\<close>: the pointer itself.\<close>

definition release_pointer :: "pb_iter \<Rightarrow> heap \<Rightarrow> heap option" where
  "release_pointer it h =
     (let f = it_field it; type = f_type f; repeated = (PB_HTYPE type = PB_HTYPE_REPEATED) in
      case (if repeated then
              (case it_pSize it of
                 PLocal \<Rightarrow> None
               | PAddr pSize \<Rightarrow>
                   map_option (\<lambda>h. h\<lparr>h_mem := store_u32 (h_mem h) pSize 0\<rparr>)
                     (if PB_LTYPE type = PB_LTYPE_STRING \<or> PB_LTYPE type = PB_LTYPE_BYTES
                      then free_items (load_ptr (h_mem h) (it_pData it)) (load_u32 (h_mem h) pSize) h
                      else Some h))
            else Some h) of
        None \<Rightarrow> None
      | Some h \<Rightarrow>
          map_option (\<lambda>h. h\<lparr>h_mem := store_ptr (h_mem h) (it_pData it) 0\<rparr>)
            (c_free h (load_ptr (h_mem h) (it_pData it))))"

text \<open>The number of submessage items to release.\<close>

definition release_count :: "pb_iter \<Rightarrow> mem \<Rightarrow> u32 option" where
  "release_count it m =
     (let f = it_field it; static = (PB_ATYPE (f_type f) = PB_ATYPE_STATIC) in
      if PB_HTYPE (f_type f) \<noteq> PB_HTYPE_REPEATED then Some 1
      else if static \<and> it_pSize it = PAddr (it_pData it) then Some (f_array_size f)
      else at_size it (\<lambda>a. let count = load_u32 m a in
             if static \<and> count > f_array_size f then f_array_size f else count))"

fun pb_release_single_field :: "nat \<Rightarrow> pb_env \<Rightarrow> pb_iter \<Rightarrow> heap \<Rightarrow> heap option" where
  "pb_release_single_field 0 env it h = None"
| "pb_release_single_field (Suc n) env it h =
     (let f = it_field it; type = f_type f; pointer = (PB_ATYPE type = PB_ATYPE_POINTER) in
      if PB_HTYPE type = PB_HTYPE_ONEOF \<and>
         at_size it (\<lambda>a. load_u32 (h_mem h) a \<noteq> f_tag f) \<noteq> Some False then Some h
      else
        case (if PB_LTYPE type = PB_LTYPE_EXTENSION then
                extension_walk n
                  (\<lambda>ext h. pb_release_single_field n env (iter_from_extension env (h_mem h) ext) h)
                  h_mem (load_ptr (h_mem h) (it_pData it)) h
              else if PB_LTYPE type = PB_LTYPE_SUBMESSAGE \<and> PB_ATYPE type \<noteq> PB_ATYPE_CALLBACK then
                (let pItem = (if pointer then load_ptr (h_mem h) (it_pData it) else it_pData it) in
                 case release_count it (h_mem h) of
                   None \<Rightarrow> None
                 | Some count \<Rightarrow>
                     if pItem = 0 then Some h
                     else foldM (\<lambda>i h. let p = pItem + of_nat i * ucast (f_data_size f) in
                            if p = 0 then Some h
                            else foldM (pb_release_single_field n env) (iters (e_fields env (f_ptr f)) p) h)
                          [0..<unat count] h)
              else Some h) of
          None \<Rightarrow> None
        | Some h \<Rightarrow> if pointer then release_pointer it h else Some h)"

definition pb_release :: "nat \<Rightarrow> pb_env \<Rightarrow> pb_field list \<Rightarrow> addr \<Rightarrow> heap \<Rightarrow> heap option" where
  "pb_release n env flds dest h =
     (if dest = 0 then Some h else foldM (pb_release_single_field n env) (iters flds dest) h)"

declare pb_field_set_to_default.simps [simp del] pb_release_single_field.simps [simp del]

end
