(* ===== verification/Pb_Decode.thy ===== *)
theory Pb_Decode
  imports Pb_Fields Pb_Defaults
begin

text \<open>
  The message decoder of \<^verbatim>\<open>pb_decode.c\<close>: static, pointer and callback fields,
  oneofs, extensions, submessages and the main loop with its bookkeeping of required fields and
  fixed-count arrays.  Recursion through submessages is bounded by a fuel argument; \<open>None\<close> is "no
  result": out of fuel, a call through a NULL decoder, or a \<^verbatim>\<open>realloc\<close>/\<^verbatim>\<open>free\<close> of
  a pointer that is not a live block.
\<close>

section \<open>Submessages and the decoder table\<close>

text \<open>\<open>noinit\<close> is \<^verbatim>\<open>pb_decode_noinit\<close> one level of fuel down, \<open>n\<close> the fuel for the walks.\<close>

type_synonym decode_fn = "pb_field list \<Rightarrow> addr \<Rightarrow> ist \<Rightarrow> (bool \<times> ist) option"

definition pb_decode_of :: "decode_fn \<Rightarrow> nat \<Rightarrow> pb_env \<Rightarrow> decode_fn" where
  "pb_decode_of noinit n env flds dest st =
     (case pb_message_set_to_defaults n env flds dest (h_mem (snd st)) of
        None \<Rightarrow> None
      | Some m \<Rightarrow>
          (case noinit flds dest (fst st, (snd st)\<lparr>h_mem := m\<rparr>) of
             None \<Rightarrow> None
           | Some (status, s, h) \<Rightarrow>
               if \<not> status then map_option (\<lambda>h. (False, s, h)) (pb_release n env flds dest h)
               else Some (True, s, h)))"

text \<open>\<^verbatim>\<open>make_substream; status = body(&substream); close_substream; return status\<close>.\<close>

definition with_substream ::
  "pb_env \<Rightarrow> (ist \<Rightarrow> (bool \<times> ist) option) \<Rightarrow> ist \<Rightarrow> (bool \<times> ist) option" where
  "with_substream env body st =
     (case pb_make_string_substream env st of
        (None, st) \<Rightarrow> Some (False, st)
      | (Some sub, s, h) \<Rightarrow>
          (case body (sub, h) of
             None \<Rightarrow> None
           | Some (status, sub, h) \<Rightarrow>
               (case pb_close_string_substream env s sub h of
                  (ok, st) \<Rightarrow> Some (ok \<and> status, st))))"

definition pb_dec_submessage ::
  "decode_fn \<Rightarrow> nat \<Rightarrow> pb_env \<Rightarrow> pb_field \<Rightarrow> addr \<Rightarrow> ist \<Rightarrow> (bool \<times> ist) option" where
  "pb_dec_submessage noinit n env field dest st =
     (if f_ptr field = 0 then
        (case pb_make_string_substream env st of
           (None, st) \<Rightarrow> Some (False, st)
         | (Some sub, st) \<Rightarrow> Some (False, is_error st ''invalid field descriptor''))
      else
        with_substream env
          (if PB_HTYPE (f_type field) = PB_HTYPE_REPEATED
           then pb_decode_of noinit n env (e_fields env (f_ptr field)) dest
           else noinit (e_fields env (f_ptr field)) dest) st)"

definition PB_DECODERS ::
  "decode_fn \<Rightarrow> nat \<Rightarrow> pb_env \<Rightarrow> pb_field \<Rightarrow> addr \<Rightarrow> ist \<Rightarrow> (bool \<times> ist) option" where
  "PB_DECODERS noinit n env field dest st =
     (let ltype = PB_LTYPE (f_type field) in
      if ltype = PB_LTYPE_BOOL then Some (pb_dec_bool env field dest st)
      else if ltype = PB_LTYPE_VARINT then Some (pb_dec_varint env field dest st)
      else if ltype = PB_LTYPE_UVARINT then Some (pb_dec_uvarint env field dest st)
      else if ltype = PB_LTYPE_SVARINT then Some (pb_dec_svarint env field dest st)
      else if ltype = PB_LTYPE_FIXED32 then Some (pb_dec_fixed32 env field dest st)
      else if ltype = PB_LTYPE_FIXED64 then Some (pb_dec_fixed64 env field dest st)
      else if ltype = PB_LTYPE_BYTES then pb_dec_bytes env field dest st
      else if ltype = PB_LTYPE_STRING then pb_dec_string env field dest st
      else if ltype = PB_LTYPE_SUBMESSAGE then pb_dec_submessage noinit n env field dest st
      else if ltype = PB_LTYPE_FIXED_LENGTH_BYTES
      then Some (pb_dec_fixed_length_bytes env field dest st)
      else None)"

section \<open>Array counters\<close>

text \<open>The decoder's state within a field: the local counter of a fixed-count array, the stream and
  the heap.  \<^verbatim>\<open>*size\<close> is read and written through \<open>pSize\<close>.\<close>

type_synonym cst = "u32 \<times> ist"

definition read_size :: "pb_iter \<Rightarrow> cst \<Rightarrow> u32" where
  "read_size it cst =
     (case it_pSize it of PAddr a \<Rightarrow> load_u32 (h_mem (snd (snd cst))) a | PLocal \<Rightarrow> fst cst)"

definition write_size :: "pb_iter \<Rightarrow> u32 \<Rightarrow> cst \<Rightarrow> cst" where
  "write_size it v cst =
     (case it_pSize it of
        PAddr a \<Rightarrow> (fst cst, fst (snd cst), (snd (snd cst))\<lparr>h_mem := store_u32 (h_mem (snd (snd cst))) a v\<rparr>)
      | PLocal \<Rightarrow> (v, snd cst))"

definition with_mem :: "(mem \<Rightarrow> mem) \<Rightarrow> ist \<Rightarrow> ist" where
  "with_mem g st = (fst st, (snd st)\<lparr>h_mem := g (h_mem (snd st))\<rparr>)"

text \<open>\<^verbatim>\<open>(char*)base + data_size * size\<close>, the product in 32 bits.\<close>

definition item_addr :: "addr \<Rightarrow> pb_field \<Rightarrow> u32 \<Rightarrow> addr" where
  "item_addr base field sz = base + ucast (f_data_size field * sz)"

definition keep_count :: "u32 \<Rightarrow> (bool \<times> ist) option \<Rightarrow> (bool \<times> cst) option" where
  "keep_count c r = map_option (\<lambda>(ok, st). (ok, c, st)) r"

section \<open>Static fields\<close>

fun packed_static_loop ::
  "nat \<Rightarrow> (addr \<Rightarrow> ist \<Rightarrow> (bool \<times> ist) option) \<Rightarrow> pb_iter \<Rightarrow> cst \<Rightarrow> (bool \<times> cst) option" where
  "packed_static_loop 0 func it cst = None"
| "packed_static_loop (Suc k) func it cst =
     (let f = it_field it in
      if i_bytes_left (fst (snd cst)) > 0 \<and> read_size it cst < f_array_size f then
        and_then_opt (keep_count (fst cst) (func (item_addr (it_pData it) f (read_size it cst)) (snd cst)))
          (\<lambda>cst. packed_static_loop k func it (write_size it (read_size it cst + 1) cst))
      else Some (True, cst))"

text \<open>The packed branch: the loop on the substream, then \<^verbatim>\<open>"array overflow"\<close> when bytes are
  left (also when an item failed before the end).\<close>

definition decode_packed_static ::
  "(addr \<Rightarrow> ist \<Rightarrow> (bool \<times> ist) option) \<Rightarrow> pb_env \<Rightarrow> pb_iter \<Rightarrow> cst \<Rightarrow> (bool \<times> cst) option" where
  "decode_packed_static func env it cst =
     (case pb_make_string_substream env (snd cst) of
        (None, st) \<Rightarrow> Some (False, fst cst, st)
      | (Some sub, s, h) \<Rightarrow>
          (case packed_static_loop (Suc (unat (i_bytes_left sub))) func it (fst cst, sub, h) of
             None \<Rightarrow> None
           | Some (status, c, sub, h) \<Rightarrow>
               if i_bytes_left sub \<noteq> 0 then Some (False, c, is_error (s, h) ''array overflow'')
               else case pb_close_string_substream env s sub h of
                      (ok, st) \<Rightarrow> Some (ok \<and> status, c, st)))"

definition decode_static_field ::
  "decode_fn \<Rightarrow> nat \<Rightarrow> pb_env \<Rightarrow> pb_wire_type \<Rightarrow> pb_iter \<Rightarrow> cst \<Rightarrow> (bool \<times> cst) option" where
  "decode_static_field noinit n env wire_type it cst =
     (let f = it_field it; type = f_type f; func = PB_DECODERS noinit n env f; pData = it_pData it in
      if PB_HTYPE type = PB_HTYPE_REQUIRED then keep_count (fst cst) (func pData (snd cst))
      else if PB_HTYPE type = PB_HTYPE_OPTIONAL then
        (case (if it_pSize it \<noteq> PAddr pData
               then at_size it (\<lambda>a. with_mem (\<lambda>m. store_bool m a True) (snd cst))
               else Some (snd cst)) of
           None \<Rightarrow> None
         | Some st \<Rightarrow> keep_count (fst cst) (func pData st))
      else if PB_HTYPE type = PB_HTYPE_REPEATED then
        (if wire_type = PB_WT_STRING \<and> PB_LTYPE type \<le> PB_LTYPE_LAST_PACKABLE
         then decode_packed_static func env it cst
         else
           let sz = read_size it cst; cst = write_size it (sz + 1) cst in
           if sz \<ge> f_array_size f then Some (False, fst cst, is_error (snd cst) ''array overflow'')
           else keep_count (fst cst) (func (item_addr pData f sz) (snd cst)))
      else \<comment> \<open>\<open>PB_HTYPE_ONEOF\<close>\<close>
        (case at_size it (\<lambda>a. with_mem (\<lambda>m. store_u32 m a (f_tag f)) (snd cst)) of
           None \<Rightarrow> None
         | Some (s, h) \<Rightarrow>
             (case (if PB_LTYPE type = PB_LTYPE_SUBMESSAGE
                    then pb_message_set_to_defaults n env (e_fields env (f_ptr f)) pData
                           (mem_zero (h_mem h) pData (unat (f_data_size f)))
                    else Some (h_mem h)) of
                None \<Rightarrow> None
              | Some m \<Rightarrow> keep_count (fst cst) (func pData (s, h\<lparr>h_mem := m\<rparr>)))))"

section \<open>Pointer fields\<close>

definition initialize_pointer_field ::
  "nat \<Rightarrow> pb_env \<Rightarrow> pb_field \<Rightarrow> addr \<Rightarrow> ist \<Rightarrow> ist option" where
  "initialize_pointer_field n env f pItem st =
     (let ltype = PB_LTYPE (f_type f) in
      if ltype = PB_LTYPE_STRING \<or> ltype = PB_LTYPE_BYTES
      then Some (with_mem (\<lambda>m. store_ptr m pItem 0) st)
      else if ltype = PB_LTYPE_SUBMESSAGE then
        map_option (\<lambda>m. with_mem (\<lambda>_. m) st)
          (pb_message_set_to_defaults n env (e_fields env (f_ptr f)) pItem
             (mem_zero (h_mem (snd st)) pItem (unat (f_data_size f))))
      else Some st)"

text \<open>The entry count to reserve; \<open>None\<close>: division by a zero \<^verbatim>\<open>data_size\<close>.\<close>

definition grow_allocation :: "pb_field \<Rightarrow> u64 \<Rightarrow> u64 \<Rightarrow> u64 option" where
  "grow_allocation f bytes_left allocated_size =
     (if f_data_size f = 0 then None
      else let remain = (bytes_left - 1) div ucast (f_data_size f) + 1 in
           Some (if remain < ucast PB_SIZE_MAX - allocated_size then allocated_size + remain
                 else allocated_size + 1))"

text \<open>The loop over a packed array; \<open>msg\<close> is the parent stream's message, set when the counter is
  at its maximum.\<close>

fun packed_pointer_loop ::
  "nat \<Rightarrow> (addr \<Rightarrow> ist \<Rightarrow> (bool \<times> ist) option) \<Rightarrow> nat \<Rightarrow> pb_env \<Rightarrow> pb_iter \<Rightarrow> u64 \<Rightarrow>
   string option \<Rightarrow> cst \<Rightarrow> (bool \<times> string option \<times> cst) option" where
  "packed_pointer_loop 0 func n env it allocated_size msg cst = None"
| "packed_pointer_loop (Suc k) func n env it allocated_size msg cst =
     (let f = it_field it; sz = read_size it cst; left = i_bytes_left (fst (snd cst)) in
      if left = 0 then Some (True, msg, cst)
      else if sz = PB_SIZE_MAX then Some (False, Some ''too many array entries'', cst)
      else
        case (if ucast sz + 1 > allocated_size
              then (case grow_allocation f left allocated_size of
                      None \<Rightarrow> None
                    | Some a \<Rightarrow>
                        map_option (\<lambda>(ok, st). (ok, a, st))
                          (allocate_field env (it_pData it) (ucast (f_data_size f)) a (snd cst)))
              else Some (True, allocated_size, snd cst)) of
          None \<Rightarrow> None
        | Some (ok, allocated_size, st) \<Rightarrow>
            if \<not> ok then Some (False, msg, fst cst, st)
            else
              let pItem = item_addr (load_ptr (h_mem (snd st)) (it_pData it)) f (read_size it (fst cst, st)) in
              case initialize_pointer_field n env f pItem st of
                None \<Rightarrow> None
              | Some st \<Rightarrow>
                  (case func pItem st of
                     None \<Rightarrow> None
                   | Some (ok, st) \<Rightarrow>
                       if \<not> ok then Some (False, msg, fst cst, st)
                       else packed_pointer_loop k func n env it allocated_size msg
                              (write_size it (read_size it (fst cst, st) + 1) (fst cst, st))))"

definition decode_packed_pointer ::
  "(addr \<Rightarrow> ist \<Rightarrow> (bool \<times> ist) option) \<Rightarrow> nat \<Rightarrow> pb_env \<Rightarrow> pb_iter \<Rightarrow> cst \<Rightarrow> (bool \<times> cst) option" where
  "decode_packed_pointer func n env it cst =
     (let allocated_size = ucast (read_size it cst) in
      case pb_make_string_substream env (snd cst) of
        (None, st) \<Rightarrow> Some (False, fst cst, st)
      | (Some sub, s, h) \<Rightarrow>
          (case packed_pointer_loop (Suc (unat (i_bytes_left sub))) func n env it allocated_size
                  (i_errmsg s) (fst cst, sub, h) of
             None \<Rightarrow> None
           | Some (status, msg, c, sub, h) \<Rightarrow>
               (case pb_close_string_substream env (s\<lparr>i_errmsg := msg\<rparr>) sub h of
                  (ok, st) \<Rightarrow> Some (ok \<and> status, c, st))))"

definition decode_pointer_field ::
  "decode_fn \<Rightarrow> nat \<Rightarrow> pb_env \<Rightarrow> pb_wire_type \<Rightarrow> pb_iter \<Rightarrow> cst \<Rightarrow> (bool \<times> cst) option" where
  "decode_pointer_field noinit n env wire_type it cst =
     (let f = it_field it; type = f_type f; func = PB_DECODERS noinit n env f; pData = it_pData it in
      if PB_HTYPE type = PB_HTYPE_REPEATED then
        (if wire_type = PB_WT_STRING \<and> PB_LTYPE type \<le> PB_LTYPE_LAST_PACKABLE
         then decode_packed_pointer func n env it cst
         else
           let sz = read_size it cst in
           if sz = PB_SIZE_MAX then Some (False, fst cst, is_error (snd cst) ''too many array entries'')
           else
             and_then_opt (keep_count (fst cst)
                 (allocate_field env pData (ucast (f_data_size f)) (ucast (sz + 1)) (snd cst)))
               (\<lambda>cst.
                 let sz = read_size it cst;
                     pItem = item_addr (load_ptr (h_mem (snd (snd cst))) pData) f sz;
                     cst = write_size it (sz + 1) cst in
                 case initialize_pointer_field n env f pItem (snd cst) of
                   None \<Rightarrow> None
                 | Some st \<Rightarrow> keep_count (fst cst) (func pItem st)))
      else
        case (if PB_LTYPE type = PB_LTYPE_SUBMESSAGE \<and> load_ptr (h_mem (snd (snd cst))) pData \<noteq> 0
              then map_option (\<lambda>h. (fst (snd cst), h)) (pb_release_single_field n env it (snd (snd cst)))
              else Some (snd cst)) of
          None \<Rightarrow> None
        | Some st \<Rightarrow>
            (case (if PB_HTYPE type = PB_HTYPE_ONEOF
                   then at_size it (\<lambda>a. with_mem (\<lambda>m. store_u32 m a (f_tag f)) st)
                   else Some st) of
               None \<Rightarrow> None
             | Some st \<Rightarrow>
                 keep_count (fst cst)
                   (if PB_LTYPE type = PB_LTYPE_STRING \<or> PB_LTYPE type = PB_LTYPE_BYTES
                    then func pData st
                    else
                      and_then_opt (allocate_field env pData (ucast (f_data_size f)) 1 st) (\<lambda>st.
                        case initialize_pointer_field n env f (load_ptr (h_mem (snd st)) pData) st of
                          None \<Rightarrow> None
                        | Some st \<Rightarrow> func (load_ptr (h_mem (snd st)) pData) st))))"

section \<open>Callback fields\<close>

text \<open>\<^verbatim>\<open>pCallback->funcs.decode(&substream, iter->pos, arg)\<close>: the function pointer is read at every call, and
  calling NULL is undefined.\<close>

definition call_decode :: "pb_env \<Rightarrow> pb_iter \<Rightarrow> ist \<Rightarrow> (bool \<times> ist) option" where
  "call_decode env it st =
     (let pCallback = it_pData it; decode = load_ptr (h_mem (snd st)) (callback_funcs pCallback) in
      if decode = 0 then None
      else Some (e_dec_cb env decode (fst st) (it_field it) (callback_arg pCallback) (snd st)))"

text \<open>\<^verbatim>\<open>do { if (!decode(...)) error; } while (substream.bytes_left);\<close> on the substream,
  with \<open>k\<close> rounds.\<close>

fun callback_loop :: "nat \<Rightarrow> (ist \<Rightarrow> (bool \<times> ist) option) \<Rightarrow> ist \<Rightarrow> (bool \<times> ist) option" where
  "callback_loop 0 cb st = None"
| "callback_loop (Suc k) cb st =
     (case cb st of
        None \<Rightarrow> None
      | Some (ok, st) \<Rightarrow>
          if \<not> ok then Some (False, st)
          else if i_bytes_left (fst st) \<noteq> 0 then callback_loop k cb st
          else Some (True, st))"

definition decode_callback_field ::
  "nat \<Rightarrow> pb_env \<Rightarrow> pb_wire_type \<Rightarrow> pb_iter \<Rightarrow> ist \<Rightarrow> (bool \<times> ist) option" where
  "decode_callback_field n env wire_type it st =
     (let pCallback = it_pData it in
      if pCallback = 0 \<or> load_ptr (h_mem (snd st)) (callback_funcs pCallback) = 0
      then Some (pb_skip_field env wire_type st)
      else if wire_type = PB_WT_STRING then
        (case pb_make_string_substream env st of
           (None, st) \<Rightarrow> Some (False, st)
         | (Some sub, s, h) \<Rightarrow>
             (case callback_loop n (call_decode env it) (sub, h) of
                None \<Rightarrow> None
              | Some (ok, sub, h) \<Rightarrow>
                  if \<not> ok then Some (False, is_error (s, h) ''callback failed'')
                  else Some (pb_close_string_substream env s sub h)))
      else
        (case read_raw_value env wire_type 10 st of
           (None, st) \<Rightarrow> Some (False, st)
         | (Some buffer, s, h) \<Rightarrow>
             (case call_decode env it
                 (pb_istream_from_buffer (e_stack env) (of_nat (length buffer)),
                  h\<lparr>h_mem := write_bytes (h_mem h) (e_stack env) buffer\<rparr>) of
                None \<Rightarrow> None
              | Some (ok, _, h) \<Rightarrow> Some (ok, s, h))))"

section \<open>One field\<close>

text \<open>The iterator is moved to the old member of the union and back.\<close>

definition pb_release_union_field ::
  "nat \<Rightarrow> pb_env \<Rightarrow> pb_iter \<Rightarrow> ist \<Rightarrow> (bool \<times> pb_iter \<times> ist) option" where
  "pb_release_union_field n env it st =
     (case at_size it (load_u32 (h_mem (snd st))) of
        None \<Rightarrow> None
      | Some old_tag \<Rightarrow>
          let new_tag = f_tag (it_field it) in
          if old_tag = 0 \<or> old_tag = new_tag then Some (True, it, st)
          else case pb_field_iter_find it old_tag of
            None \<Rightarrow> None
          | Some (False, it) \<Rightarrow> Some (False, it, is_error st ''invalid union tag'')
          | Some (True, it) \<Rightarrow>
              (case pb_release_single_field n env it (snd st) of
                 None \<Rightarrow> None
               | Some h \<Rightarrow>
                   (case pb_field_iter_find it new_tag of
                      None \<Rightarrow> None
                    | Some (False, it) \<Rightarrow> Some (False, it, is_error (fst st, h) ''iterator error'')
                    | Some (True, it) \<Rightarrow> Some (True, it, fst st, h))))"

definition decode_field_at ::
  "decode_fn \<Rightarrow> nat \<Rightarrow> pb_env \<Rightarrow> pb_wire_type \<Rightarrow> pb_iter \<Rightarrow> cst \<Rightarrow> (bool \<times> cst) option" where
  "decode_field_at noinit n env wire_type it cst =
     (let atype = PB_ATYPE (f_type (it_field it)) in
      if atype = PB_ATYPE_STATIC then decode_static_field noinit n env wire_type it cst
      else if atype = PB_ATYPE_POINTER then decode_pointer_field noinit n env wire_type it cst
      else if atype = PB_ATYPE_CALLBACK
      then keep_count (fst cst) (decode_callback_field n env wire_type it (snd cst))
      else Some (False, fst cst, is_error (snd cst) ''invalid field type''))"

definition decode_field ::
  "decode_fn \<Rightarrow> nat \<Rightarrow> pb_env \<Rightarrow> pb_wire_type \<Rightarrow> pb_iter \<Rightarrow> cst \<Rightarrow> (bool \<times> pb_iter \<times> cst) option" where
  "decode_field noinit n env wire_type it cst =
     (case (if PB_HTYPE (f_type (it_field it)) = PB_HTYPE_ONEOF
            then pb_release_union_field n env it (snd cst)
            else Some (True, it, snd cst)) of
        None \<Rightarrow> None
      | Some (ok, it, st) \<Rightarrow>
          if \<not> ok then Some (False, it, fst cst, st)
          else map_option (\<lambda>(ok, cst). (ok, it, cst)) (decode_field_at noinit n env wire_type it (fst cst, st)))"

section \<open>Extensions\<close>

definition default_extension_decoder ::
  "decode_fn \<Rightarrow> nat \<Rightarrow> pb_env \<Rightarrow> addr \<Rightarrow> u32 \<Rightarrow> pb_wire_type \<Rightarrow> ist \<Rightarrow> (bool \<times> ist) option" where
  "default_extension_decoder noinit n env extension tag wire_type st =
     (let m = h_mem (snd st); field = field_at (extension_fields env m extension) 0 in
      if f_tag field \<noteq> tag then Some (True, st)
      else map_option (\<lambda>(ok, _, _, st). (ok, st))
        (decode_field noinit n env wire_type (iter_from_extension env m extension)
           (0, with_mem (\<lambda>m. store_bool m (ext_found extension) True) st)))"

fun decode_extension_loop ::
  "nat \<Rightarrow> (addr \<Rightarrow> ist \<Rightarrow> (bool \<times> ist) option) \<Rightarrow> u64 \<Rightarrow> addr \<Rightarrow> ist \<Rightarrow> (bool \<times> ist) option" where
  "decode_extension_loop 0 f pos extension st =
     (if extension \<noteq> 0 \<and> pos = i_bytes_left (fst st) then None else Some (True, st))"
| "decode_extension_loop (Suc k) f pos extension st =
     (if extension \<noteq> 0 \<and> pos = i_bytes_left (fst st) then
        and_then_opt (f extension st) (\<lambda>st.
          decode_extension_loop k f pos (load_ptr (h_mem (snd st)) (ext_next extension)) st)
      else Some (True, st))"

definition decode_extension ::
  "decode_fn \<Rightarrow> nat \<Rightarrow> pb_env \<Rightarrow> u32 \<Rightarrow> pb_wire_type \<Rightarrow> pb_iter \<Rightarrow> ist \<Rightarrow> (bool \<times> ist) option" where
  "decode_extension noinit n env tag wire_type it st =
     decode_extension_loop n
       (\<lambda>extension st.
          let m = h_mem (snd st); decode = load_ptr m (ext_type_decode (load_ptr m (ext_type extension))) in
          if decode \<noteq> 0 then Some (e_ext_dec env decode (fst st) extension tag wire_type (snd st))
          else default_extension_decoder noinit n env extension tag wire_type st)
       (i_bytes_left (fst st)) (load_ptr (h_mem (snd st)) (it_pData it)) st"

definition find_extension_field :: "pb_iter \<Rightarrow> (bool \<times> pb_iter) option" where
  "find_extension_field it = iter_find (\<lambda>f. PB_LTYPE (f_type f) = PB_LTYPE_EXTENSION) it"

section \<open>The main loop\<close>

abbreviation (input) PB_MAX_REQUIRED_FIELDS :: u32 where "PB_MAX_REQUIRED_FIELDS \<equiv> 64"

text \<open>The locals of \<^verbatim>\<open>pb_decode_noinit\<close>; \<open>l_fixed\<close> is the position of
  \<^verbatim>\<open>fixed_count_field\<close>.\<close>

record dlocals =
  l_iter :: pb_iter
  l_seen0 :: u32
  l_seen1 :: u32
  l_ext_start :: u32
  l_fixed :: "nat option"
  l_count :: u32

datatype outcome = Next | Eof | Fail

definition skip_unknown :: "pb_env \<Rightarrow> pb_wire_type \<Rightarrow> dlocals \<Rightarrow> ist \<Rightarrow> (outcome \<times> dlocals \<times> ist) option" where
  "skip_unknown env wire_type l st =
     (case pb_skip_field env wire_type st of (ok, st) \<Rightarrow> Some (if ok then Next else Fail, l, st))"

definition decode_unknown ::
  "decode_fn \<Rightarrow> nat \<Rightarrow> pb_env \<Rightarrow> u32 \<Rightarrow> pb_wire_type \<Rightarrow> dlocals \<Rightarrow> ist \<Rightarrow> (outcome \<times> dlocals \<times> ist) option" where
  "decode_unknown noinit n env tag wire_type l st =
     (if tag \<ge> l_ext_start l then
        case find_extension_field (l_iter l) of
          None \<Rightarrow> None
        | Some (found, it) \<Rightarrow>
            let start = (if found then f_tag (it_field it) else - 1);
                l = l\<lparr>l_iter := it, l_ext_start := start\<rparr> in
            if tag \<ge> start then
              (case decode_extension noinit n env tag wire_type it st of
                 None \<Rightarrow> None
               | Some (ok, st') \<Rightarrow>
                   if \<not> ok then Some (Fail, l, st')
                   else if i_bytes_left (fst st) \<noteq> i_bytes_left (fst st') then Some (Next, l, st')
                   else skip_unknown env wire_type l st')
            else skip_unknown env wire_type l st
      else skip_unknown env wire_type l st)"

text \<open>\<^verbatim>\<open>fixed_count_size != fixed_count_field->array_size\<close>\<close>

definition fixed_unfinished :: "pb_field list \<Rightarrow> dlocals \<Rightarrow> bool" where
  "fixed_unfinished flds l =
     (case l_fixed l of None \<Rightarrow> False | Some p \<Rightarrow> l_count l \<noteq> f_array_size (field_at flds p))"

definition is_fixed_count :: "pb_iter \<Rightarrow> bool" where
  "is_fixed_count it \<longleftrightarrow> PB_HTYPE (f_type (it_field it)) = PB_HTYPE_REPEATED \<and> it_pSize it = PAddr (it_pData it)"

definition mark_seen :: "pb_iter \<Rightarrow> dlocals \<Rightarrow> dlocals" where
  "mark_seen it l =
     (if PB_HTYPE (f_type (it_field it)) = PB_HTYPE_REQUIRED \<and> it_req it < PB_MAX_REQUIRED_FIELDS then
        let tmp = push_bit (unat (it_req it AND 31)) 1 in
        if drop_bit 5 (it_req it) = 0 then l\<lparr>l_seen0 := l_seen0 l OR tmp\<rparr>
        else l\<lparr>l_seen1 := l_seen1 l OR tmp\<rparr>
      else l)"

definition decode_known ::
  "decode_fn \<Rightarrow> nat \<Rightarrow> pb_env \<Rightarrow> pb_wire_type \<Rightarrow> dlocals \<Rightarrow> ist \<Rightarrow> (outcome \<times> dlocals \<times> ist) option" where
  "decode_known noinit n env wire_type l st =
     (let it = l_iter l; new_fixed = (is_fixed_count it \<and> l_fixed l \<noteq> Some (it_pos it)) in
      if new_fixed \<and> fixed_unfinished (it_start it) l
      then Some (Fail, l, is_error st ''wrong size for fixed count field'')
      else
        let l = (if new_fixed then l\<lparr>l_fixed := Some (it_pos it), l_count := 0\<rparr> else l);
            it = (if is_fixed_count it then it\<lparr>it_pSize := PLocal\<rparr> else it);
            l = mark_seen it l in
        case decode_field noinit n env wire_type it (l_count l, st) of
          None \<Rightarrow> None
        | Some (ok, it, c, st) \<Rightarrow>
            Some (if ok then Next else Fail, l\<lparr>l_iter := it, l_count := c\<rparr>, st))"

definition decode_step ::
  "decode_fn \<Rightarrow> nat \<Rightarrow> pb_env \<Rightarrow> dlocals \<Rightarrow> ist \<Rightarrow> (outcome \<times> dlocals \<times> ist) option" where
  "decode_step noinit n env l st =
     (case pb_decode_tag env st of
        (eof, None, st) \<Rightarrow> Some (if eof then Eof else Fail, l, st)
      | (eof, Some (wire_type, tag), st) \<Rightarrow>
          (case pb_field_iter_find (l_iter l) tag of
             None \<Rightarrow> None
           | Some (found, it) \<Rightarrow>
               if found then decode_known noinit n env wire_type (l\<lparr>l_iter := it\<rparr>) st
               else decode_unknown noinit n env tag wire_type (l\<lparr>l_iter := it\<rparr>) st))"

text \<open>\<^verbatim>\<open>while (stream->bytes_left)\<close>; false: the function returned false inside.\<close>

fun decode_loop ::
  "nat \<Rightarrow> (dlocals \<Rightarrow> ist \<Rightarrow> (outcome \<times> dlocals \<times> ist) option) \<Rightarrow> dlocals \<Rightarrow> ist \<Rightarrow> (bool \<times> dlocals \<times> ist) option" where
  "decode_loop 0 step l st = None"
| "decode_loop (Suc k) step l st =
     (if i_bytes_left (fst st) = 0 then Some (True, l, st)
      else case step l st of
             None \<Rightarrow> None
           | Some (Next, l, st) \<Rightarrow> decode_loop k step l st
           | Some (Eof, l, st) \<Rightarrow> Some (True, l, st)
           | Some (Fail, l, st) \<Rightarrow> Some (False, l, st))"

text \<open>The number of required fields, found by running the iterator to the end, and the check of
  \<^verbatim>\<open>fields_seen\<close>.\<close>

definition req_field_count :: "pb_iter \<Rightarrow> u32" where
  "req_field_count it =
     (let it' = last (iters_from (length (it_start it)) it);
          end_it = snd (pb_field_iter_next it');
          count = (if PB_HTYPE (f_type (it_field it')) = PB_HTYPE_REQUIRED \<and> f_tag (it_field end_it) \<noteq> 0
                   then it_req it' + 1 else it_req it') in
      if count > PB_MAX_REQUIRED_FIELDS then PB_MAX_REQUIRED_FIELDS else count)"

definition seen_word :: "dlocals \<Rightarrow> nat \<Rightarrow> u32" where
  "seen_word l i = (if i = 0 then l_seen0 l else l_seen1 l)"

definition required_present :: "dlocals \<Rightarrow> u32 \<Rightarrow> bool" where
  "required_present l count \<longleftrightarrow>
     list_all (\<lambda>i. seen_word l i = - 1) [0..<unat (drop_bit 5 count)] \<and>
     (count AND 31 \<noteq> 0 \<longrightarrow>
        seen_word l (unat (drop_bit 5 count)) = drop_bit (32 - unat (count AND 31)) (- 1))"

definition decode_finish :: "dlocals \<Rightarrow> ist \<Rightarrow> bool \<times> ist" where
  "decode_finish l st =
     (if fixed_unfinished (it_start (l_iter l)) l
      then (False, is_error st ''wrong size for fixed count field'')
      else if \<not> required_present l (req_field_count (l_iter l))
      then (False, is_error st ''missing required field'')
      else (True, st))"

definition decode_start :: "pb_field list \<Rightarrow> addr \<Rightarrow> dlocals" where
  "decode_start flds dest =
     \<lparr>l_iter = snd (pb_field_iter_begin flds dest), l_seen0 = 0, l_seen1 = 0, l_ext_start = 0,
      l_fixed = None, l_count = 0\<rparr>"

section \<open>Whole messages\<close>

fun pb_decode_noinit :: "nat \<Rightarrow> pb_env \<Rightarrow> decode_fn" where
  "pb_decode_noinit 0 env flds dest st = None"
| "pb_decode_noinit (Suc n) env flds dest st =
     (case decode_loop (Suc (unat (i_bytes_left (fst st)))) (decode_step (pb_decode_noinit n env) n env)
             (decode_start flds dest) st of
        None \<Rightarrow> None
      | Some (ok, l, st) \<Rightarrow> Some (if ok then decode_finish l st else (False, st)))"

declare pb_decode_noinit.simps [simp del]

definition pb_decode :: "nat \<Rightarrow> pb_env \<Rightarrow> decode_fn" where
  "pb_decode n env = pb_decode_of (pb_decode_noinit n env) n env"

definition pb_decode_delimited_noinit :: "nat \<Rightarrow> pb_env \<Rightarrow> decode_fn" where
  "pb_decode_delimited_noinit n env flds dest st = with_substream env (pb_decode_noinit n env flds dest) st"

definition pb_decode_delimited :: "nat \<Rightarrow> pb_env \<Rightarrow> decode_fn" where
  "pb_decode_delimited n env flds dest st = with_substream env (pb_decode n env flds dest) st"

definition pb_decode_nullterminated :: "nat \<Rightarrow> pb_env \<Rightarrow> decode_fn" where
  "pb_decode_nullterminated n env flds dest st = pb_decode n env flds dest st"

end
