(* ===== verification/Pb_Window.thy ===== *)
theory Pb_Window
  imports Pb_Decode
begin

text \<open>
  The decoder and its input: whatever the bytes, the descriptor table and the memory, it reads only
  inside the stream it was given, and when it succeeds the stream stands exactly behind what was
  consumed.  The interface \<open>reader\<close> states what the decoder relies on in application callbacks; it
  is interpreted on callbacks that read through \<^verbatim>\<open>pb_read\<close>.
\<close>

section \<open>Results that keep to the stream\<close>

text \<open>\<open>keeps str s r\<close>: the stream of the result lies within \<open>s\<close>, and follows it exactly on success.\<close>

definition keeps :: "('x \<Rightarrow> pb_istream) \<Rightarrow> pb_istream \<Rightarrow> (bool \<times> 'x) option \<Rightarrow> bool" where
  "keeps str s r \<longleftrightarrow>
     (case r of None \<Rightarrow> True
      | Some (ok, x) \<Rightarrow> within s (str x) \<and> (ok \<longrightarrow> follows s (str x)))"

abbreviation cst_stream :: "cst \<Rightarrow> pb_istream" where
  "cst_stream x \<equiv> fst (snd x)"

named_theorems keep

lemma keeps_None [keep, simp]: "keeps str s None"
  by (simp add: keeps_def)

lemma keeps_Some: "keeps str s (Some (ok, x)) \<longleftrightarrow> within s (str x) \<and> (ok \<longrightarrow> follows s (str x))"
  by (simp add: keeps_def)

lemma keeps_follows: "follows s (str x) \<Longrightarrow> keeps str s (Some (ok, x))"
  by (simp add: keeps_Some follows_within)

lemma keeps_take: "follows s (fst (snd r)) \<Longrightarrow> keeps fst s (Some r)"
  by (cases r) (simp add: keeps_Some follows_within)

lemma keeps_fail: "within s (str x) \<Longrightarrow> keeps str s (Some (False, x))"
  by (simp add: keeps_Some)

lemma keeps_trans:
  assumes "follows s t" "keeps str t r"
  shows "keeps str s r"
  using assms follows_trans within_trans [OF follows_within] by (auto simp: keeps_def split: option.splits)

lemma keeps_within: "keeps str s (Some (ok, x)) \<Longrightarrow> within s (str x)"
  by (simp add: keeps_Some)

lemma keeps_if [keep]: "(b \<Longrightarrow> keeps str s x) \<Longrightarrow> (\<not> b \<Longrightarrow> keeps str s y) \<Longrightarrow> keeps str s (if b then x else y)"
  by simp

lemma keeps_let [keep]: "(\<And>v. v = x \<Longrightarrow> keeps str s (g v)) \<Longrightarrow> keeps str s (let v = x in g v)"
  by simp

lemma keeps_option [keep]:
  "(\<And>v. r = Some v \<Longrightarrow> keeps str s (g v)) \<Longrightarrow> keeps str s (case r of None \<Rightarrow> None | Some v \<Rightarrow> g v)"
  by (cases r) simp_all

lemma keeps_prod [keep]: "(\<And>a b. p = (a, b) \<Longrightarrow> keeps str s (g a b)) \<Longrightarrow> keeps str s (case p of (a, b) \<Rightarrow> g a b)"
  by (cases p) simp

lemma keeps_and_then:
  assumes "keeps str s r" and "\<And>x. r = Some (True, x) \<Longrightarrow> keeps str (str x) (g x)"
  shows "keeps str s (and_then_opt r g)"
proof (cases r)
  case (Some p)
  obtain ok x where p: "p = (ok, x)" by (cases p)
  show ?thesis
  proof (cases ok)
    case True
    then have "follows s (str x)" using assms(1) Some p by (simp add: keeps_Some)
    then show ?thesis using assms(2) Some p True by (simp add: keeps_trans)
  next
    case False
    then show ?thesis using assms(1) Some p by (simp add: keeps_Some)
  qed
qed simp

text \<open>A value is taken from the stream first.\<close>

lemma keeps_case_take:
  assumes "follows s (fst (snd r))"
    and "\<And>v st. r = (Some v, st) \<Longrightarrow> keeps str (fst st) (g v st)"
    and "\<And>st. r = (None, st) \<Longrightarrow> keeps str (fst st) (e st)"
  shows "keeps str s (case r of (None, st) \<Rightarrow> e st | (Some v, st) \<Rightarrow> g v st)"
  using assms by (cases r; cases "fst r") (auto intro: keeps_trans)

lemma keeps_lift:
  assumes "keeps str s r" and "\<And>x. str' (f x) = str x"
  shows "keeps str' s (map_option (\<lambda>(ok, x). (ok, f x)) r)"
  using assms by (auto simp: keeps_def split: option.splits)

lemma keeps_keep_count [keep]: "keeps fst s r \<Longrightarrow> keeps cst_stream s (keep_count c r)"
  unfolding keep_count_def by (rule keeps_lift) simp_all

lemma with_mem_fst [simp]: "fst (with_mem g st) = fst st"
  by (simp add: with_mem_def)

lemma write_size_stream [simp]: "cst_stream (write_size it v cst) = cst_stream cst"
  by (simp add: write_size_def split: psize.splits)

section \<open>Field decoders\<close>

lemma check_stored_follows [simp]: "follows s (fst (snd (check_stored r v st))) \<longleftrightarrow> follows s (fst st)"
  by (auto simp: check_stored_def Let_def split: option.splits prod.splits)

lemma pb_read_into_follows: "follows (fst st) (fst (snd (pb_read_into env a k st)))"
  unfolding pb_read_into_def by (rule and_take_follows) (simp_all add: consume)

lemma simple_decoders_follow:
  "follows (fst st) (fst (snd (pb_dec_bool env f a st)))"
  "follows (fst st) (fst (snd (pb_dec_varint env f a st)))"
  "follows (fst st) (fst (snd (pb_dec_uvarint env f a st)))"
  "follows (fst st) (fst (snd (pb_dec_svarint env f a st)))"
  "follows (fst st) (fst (snd (pb_dec_fixed_length_bytes env f a st)))"
  unfolding pb_dec_bool_def pb_dec_varint_def pb_dec_uvarint_def pb_dec_svarint_def
    pb_dec_fixed_length_bytes_def
  by (rule and_take_follows; auto simp: consume Let_def pb_read_into_follows split: prod.splits)+

lemma keeps_allocate: "keeps fst (fst st) (allocate_field env a n k st)"
  unfolding allocate_field_def
  by (intro keep) (auto intro: keeps_fail keeps_follows)

lemma keeps_read_into: "keeps fst s (Some (pb_read_into env a k (s, h)))"
  using pb_read_into_follows [of "(s, h)" env a k] by (intro keeps_take) simp

lemma keeps_bytes: "keeps fst (fst st) (pb_dec_bytes env f a st)"
  unfolding pb_dec_bytes_def
proof (rule keeps_case_take [OF pb_decode_varint32_follows], intro keep)
  fix v st' alloc_size fill
  assume fill: "fill = (\<lambda>bdest (s, h). Some (pb_read_into env (bytes_bytes bdest) (ucast v)
      (s, h\<lparr>h_mem := store_u32 (h_mem h) (bytes_size bdest) v\<rparr>)))"
  have fill': "keeps fst (fst st) (fill b st)" for b st
    unfolding fill by (cases st) (simp add: keeps_read_into)
  show "keeps fst (fst st') (fill a st')" by (rule fill')
  show "keeps fst (fst st') (and_then_opt (allocate_field env a alloc_size 1 st')
      (\<lambda>st. fill (load_ptr (h_mem (snd st)) a) st))"
    by (rule keeps_and_then [OF keeps_allocate]) (rule fill')
qed (simp_all add: keeps_Some)

lemma keeps_string: "keeps fst (fst st) (pb_dec_string env f a st)"
  unfolding pb_dec_string_def
proof (rule keeps_case_take [OF pb_decode_varint32_follows], intro keep)
  fix v st' fill and alloc_size :: u64
  assume fill: "fill = (\<lambda>dest st. case pb_read_into env dest (ucast v) st of
      (status, s, h) \<Rightarrow> Some (status, s, h\<lparr>h_mem := (h_mem h)(dest + ucast v := 0)\<rparr>))"
  have fill': "keeps fst (fst st) (fill b st)" for b st
    using pb_read_into_follows [of st env b "ucast v"]
    by (cases "pb_read_into env b (ucast v) st") (simp add: fill keeps_Some follows_within)
  show "keeps fst (fst st') (fill a st')" by (rule fill')
  show "keeps fst (fst st') (and_then_opt (allocate_field env a alloc_size 1 st')
      (\<lambda>st. fill (load_ptr (h_mem (snd st)) a) st))"
    by (rule keeps_and_then [OF keeps_allocate]) (rule fill')
qed (simp_all add: keeps_Some)

text \<open>A substream whose body keeps to it.\<close>

lemma close_result:
  assumes "pb_make_string_substream env st = (Some sub, s, h1)" and "within sub sub'"
    and "pb_close_string_substream env (s\<lparr>i_errmsg := msg\<rparr>) sub' h = (ok, s', h')"
  shows "within (fst st) s'" "ok \<Longrightarrow> follows sub sub' \<Longrightarrow> follows (fst st) s'"
proof -
  obtain s'' where s'': "pb_close_string_substream env s sub' h = (ok, s'', h')"
    "s' = (if ok then s'' else s''\<lparr>i_errmsg := msg\<rparr>)"
    using assms(3) by (auto simp: pb_close_string_substream_def split: prod.splits if_splits)
  from close_substream [OF assms(1,2) s''(1)] s''(2)
  show "within (fst st) s'" "ok \<Longrightarrow> follows sub sub' \<Longrightarrow> follows (fst st) s'" by (auto split: if_splits)
qed

lemma keeps_close:
  assumes make: "pb_make_string_substream env st = (Some sub, s, h1)"
    and body: "keeps str sub (Some (status, x))"
    and "\<And>st. str' (f st) = fst st"
  shows "keeps str' (fst st) (case pb_close_string_substream env (s\<lparr>i_errmsg := msg\<rparr>) (str x) h of
     (ok, st) \<Rightarrow> Some (ok \<and> status, f st))"
proof -
  obtain ok s' h' where c: "pb_close_string_substream env (s\<lparr>i_errmsg := msg\<rparr>) (str x) h = (ok, s', h')"
    by (cases "pb_close_string_substream env (s\<lparr>i_errmsg := msg\<rparr>) (str x) h") auto
  show ?thesis using close_result [OF make keeps_within [OF body] c] body assms(3)
    by (auto simp: c keeps_Some)
qed

lemma keeps_with_substream:
  assumes "\<And>st. keeps fst (fst st) (body st)"
  shows "keeps fst (fst st) (with_substream env body st)"
proof (cases "pb_make_string_substream env st")
  case make: (fields v s h)
  show ?thesis
  proof (cases v)
    case None
    then show ?thesis using make_substream_None [of env st s h] make
      by (simp add: with_substream_def keeps_Some follows_within)
  next
    case (Some sub)
    show ?thesis
    proof (cases "body (sub, h)")
      case None
      then show ?thesis using make Some by (simp add: with_substream_def)
    next
      case (Some r)
      obtain status sub' h' where r: "r = (status, sub', h')" by (cases r) auto
      have "keeps fst sub (Some (status, sub', h'))" using assms [of "(sub, h)"] Some r by simp
      from keeps_close [OF make [unfolded \<open>v = Some sub\<close>] this, of fst "\<lambda>st. st" "i_errmsg s" h']
      show ?thesis using make \<open>v = Some sub\<close> Some r by (simp add: with_substream_def)
    qed
  qed
qed

section \<open>The message decoder\<close>

locale reader =
  fixes env :: pb_env
  assumes dec_cb_keeps: "keeps fst s (Some (e_dec_cb env f s field a h))"
    and ext_dec_keeps: "keeps fst s (Some (e_ext_dec env f s x tag wt h))"
begin

lemma keeps_pb_decode_of:
  assumes "\<And>flds dest st. keeps fst (fst st) (noinit flds dest st)"
  shows "keeps fst (fst st) (pb_decode_of noinit n env flds dest st)"
  unfolding pb_decode_of_def
proof (intro keep)
  fix m r status p s h
  assume "noinit flds dest (fst st, snd st\<lparr>h_mem := m\<rparr>) = Some r" "r = (status, p)" "p = (s, h)"
  then have k: "keeps fst (fst st) (Some (status, s, h))"
    using assms [of "(fst st, snd st\<lparr>h_mem := m\<rparr>)" flds dest] by simp
  then show "\<not> \<not> status \<Longrightarrow> keeps fst (fst st) (Some (True, s, h))" by (simp add: keeps_Some)
  show "keeps fst (fst st) (map_option (\<lambda>h. (False, s, h)) (pb_release n env flds dest h))"
    using k by (cases "pb_release n env flds dest h") (simp_all add: keeps_Some)
qed

lemma keeps_submessage:
  assumes "\<And>flds dest st. keeps fst (fst st) (noinit flds dest st)"
  shows "keeps fst (fst st) (pb_dec_submessage noinit n env f dest st)"
proof (cases "f_ptr f = 0")
  case True
  then show ?thesis
    using make_substream_Some(2) [of env st] make_substream_None [of env st]
    by (cases "pb_make_string_substream env st"; cases "fst (pb_make_string_substream env st)")
       (auto simp: pb_dec_submessage_def keeps_Some follows_within is_error_def)
next
  case False
  then show ?thesis unfolding pb_dec_submessage_def
    by (simp, intro conjI impI keeps_with_substream keeps_pb_decode_of assms)
qed

lemma keeps_decoders:
  assumes "\<And>flds dest st. keeps fst (fst st) (noinit flds dest st)"
  shows "keeps fst (fst st) (PB_DECODERS noinit n env f dest st)"
  unfolding PB_DECODERS_def pb_dec_fixed32_def pb_dec_fixed64_def
  by (intro keep keeps_take simple_decoders_follow pb_decode_fixed32_follows
      pb_decode_fixed64_follows keeps_bytes keeps_string keeps_submessage assms)

lemma keeps_packed_static_loop:
  assumes "\<And>a st. keeps fst (fst st) (func a st)"
  shows "keeps cst_stream (cst_stream cst) (packed_static_loop k func it cst)"
proof (induction k arbitrary: cst)
  case (Suc k)
  have "keeps cst_stream (cst_stream cst)
      (and_then_opt (keep_count (fst cst) (func (item_addr (it_pData it) (it_field it) (read_size it cst)) (snd cst)))
         (\<lambda>cst. packed_static_loop k func it (write_size it (read_size it cst + 1) cst)))"
    by (rule keeps_and_then [OF keeps_keep_count [OF assms]])
       (metis Suc.IH write_size_stream)
  then show ?case by (simp add: Let_def keeps_Some)
qed simp

lemma keeps_packed_static:
  assumes "\<And>a st. keeps fst (fst st) (func a st)"
  shows "keeps cst_stream (cst_stream cst) (decode_packed_static func env it cst)"
proof (cases "pb_make_string_substream env (snd cst)")
  case make: (fields v s h)
  show ?thesis
  proof (cases v)
    case None
    then show ?thesis using make_substream_None [of env "snd cst" s h] make
      by (simp add: decode_packed_static_def keeps_Some follows_within)
  next
    case (Some sub)
    note make = make [unfolded Some]
    show ?thesis
    proof (cases "packed_static_loop (Suc (unat (i_bytes_left sub))) func it (fst cst, sub, h)")
      case None
      then show ?thesis using make by (simp add: decode_packed_static_def)
    next
      case (Some r)
      obtain status c sub' h' where r: "r = (status, c, sub', h')" by (cases r) auto
      have "keeps cst_stream sub (Some (status, c, sub', h'))"
        using keeps_packed_static_loop [of func, OF assms, of "(fst cst, sub, h)" "Suc (unat (i_bytes_left sub))" it]
          Some r by simp
      from keeps_close [OF make this, of cst_stream "\<lambda>st. (c, st)" "i_errmsg s" h']
      show ?thesis using make Some r make_substream_Some(2) [OF make]
        by (simp add: decode_packed_static_def keeps_Some is_error_def)
    qed
  qed
qed

lemma at_size_stream: "at_size it (\<lambda>a. with_mem (g a) st) = Some st' \<Longrightarrow> fst st' = fst st"
  by (auto simp: at_size_def with_mem_def split: psize.splits)

lemma keeps_static_field:
  assumes noinit: "\<And>flds dest st. keeps fst (fst st) (noinit flds dest st)"
  shows "keeps cst_stream (cst_stream cst) (decode_static_field noinit n env wt it cst)"
proof -
  have dec: "keeps fst s (PB_DECODERS noinit n env (it_field it) a st)" if "fst st = s" for s a st
    using keeps_decoders [of noinit, OF noinit, of st] that by blast
  show ?thesis unfolding decode_static_field_def
    by (intro keep keeps_packed_static)
       (auto simp: keeps_Some intro!: dec dest: at_size_stream split: if_splits)
qed

lemma initialize_stream: "initialize_pointer_field n env f a st = Some st' \<Longrightarrow> fst st' = fst st"
  by (auto simp: initialize_pointer_field_def Let_def split: if_splits)

abbreviation msg_stream :: "string option \<times> cst \<Rightarrow> pb_istream" where
  "msg_stream x \<equiv> cst_stream (snd x)"

lemma keeps_packed_pointer_loop:
  assumes func: "\<And>a st. keeps fst (fst st) (func a st)"
  shows "keeps msg_stream (cst_stream cst) (packed_pointer_loop k func n env it alloc msg cst)"
proof (induction k arbitrary: alloc msg cst)
  case (Suc k)
  have IH: "keeps msg_stream (fst st) (packed_pointer_loop k func n env it a msg (write_size it v (c, st)))"
    for a v c st using Suc.IH [of "write_size it v (c, st)"] by simp
  have alloc: "within s (fst st') \<and> (ok \<longrightarrow> follows s (fst st'))"
    if "allocate_field env a x y st = Some (ok, st')" "s = fst st" for a x y s st ok st'
    using keeps_allocate [of st env a x y] that by (simp add: keeps_Some)
  have step: "keeps msg_stream s (case func a st of None \<Rightarrow> None
      | Some (ok, st) \<Rightarrow> if \<not> ok then Some (False, msg, c, st)
          else packed_pointer_loop k func n env it b msg (write_size it (read_size it (c, st) + 1) (c, st)))"
    if "follows s (fst st)" for a b c st s
  proof (rule keeps_trans [OF that], intro keep)
    fix r ok st' assume "func a st = Some r" "r = (ok, st')"
    then have k: "keeps fst (fst st) (Some (ok, st'))" using func [of st a] by simp
    show "\<not> ok \<Longrightarrow> keeps msg_stream (fst st) (Some (False, msg, c, st'))"
      using k by (simp add: keeps_Some)
    show "\<not> \<not> ok \<Longrightarrow> keeps msg_stream (fst st)
        (packed_pointer_loop k func n env it b msg (write_size it (read_size it (c, st') + 1) (c, st')))"
      using k by (auto simp: keeps_Some intro: keeps_trans [OF _ IH])
  qed
  show ?case unfolding packed_pointer_loop.simps
    by (intro keep step)
       (auto simp: keeps_Some dest!: initialize_stream alloc split: if_splits option.splits)
qed simp

lemma keeps_packed_pointer:
  assumes "\<And>a st. keeps fst (fst st) (func a st)"
  shows "keeps cst_stream (cst_stream cst) (decode_packed_pointer func n env it cst)"
proof (cases "pb_make_string_substream env (snd cst)")
  case make: (fields v s h)
  show ?thesis
  proof (cases v)
    case None
    then show ?thesis using make_substream_None [of env "snd cst" s h] make
      by (simp add: decode_packed_pointer_def keeps_Some follows_within)
  next
    case (Some sub)
    note make = make [unfolded Some]
    let ?loop = "packed_pointer_loop (Suc (unat (i_bytes_left sub))) func n env it
        (ucast (read_size it cst)) (i_errmsg s) (fst cst, sub, h)"
    show ?thesis
    proof (cases ?loop)
      case None
      then show ?thesis using make by (simp add: decode_packed_pointer_def)
    next
      case (Some r)
      obtain status msg c sub' h' where r: "r = (status, msg, c, sub', h')" by (cases r) auto
      have "keeps msg_stream sub (Some (status, msg, c, sub', h'))"
        using keeps_packed_pointer_loop [of func, OF assms, of "(fst cst, sub, h)"
            "Suc (unat (i_bytes_left sub))" n it "ucast (read_size it cst)" "i_errmsg s"] Some r by simp
      from keeps_close [OF make this, of cst_stream "\<lambda>st. (c, st)" msg h']
      show ?thesis using make Some r by (simp add: decode_packed_pointer_def)
    qed
  qed
qed

lemma keeps_pointer_field:
  assumes noinit: "\<And>flds dest st. keeps fst (fst st) (noinit flds dest st)"
  shows "keeps cst_stream (cst_stream cst) (decode_pointer_field noinit n env wt it cst)"
proof -
  have dec: "keeps fst s (PB_DECODERS noinit n env (it_field it) a st)" if "fst st = s" for s a st
    using keeps_decoders [of noinit, OF noinit, of st] that by blast
  have alloc: "keeps fst s (allocate_field env a x y st)" if "fst st = s" for a x y s st
    using keeps_allocate [of st env a x y] that by simp
  show ?thesis unfolding decode_pointer_field_def
    by (intro keep keeps_packed_pointer keeps_and_then [where str = cst_stream] keeps_and_then [where str = fst])
       (auto simp: keeps_Some intro!: dec alloc dest!: at_size_stream initialize_stream split: if_splits)
qed

lemma keeps_callback_loop:
  assumes "\<And>st. keeps fst (fst st) (cb st)"
  shows "keeps fst (fst st) (callback_loop k cb st)"
proof (induction k arbitrary: st)
  case (Suc k)
  show ?case
    using assms [of st] keeps_trans [OF _ Suc.IH] by (cases "cb st") (auto simp: keeps_Some)
qed simp

lemma keeps_call_decode: "keeps fst (fst st) (call_decode env it st)"
  by (simp add: call_decode_def Let_def dec_cb_keeps)

lemma keeps_callback_field: "keeps fst (fst st) (decode_callback_field n env wt it st)"
proof -
  let ?cb = "call_decode env it"
  have loop: "keeps fst (fst st) (callback_loop n ?cb st)" for st
    by (rule keeps_callback_loop) (rule keeps_call_decode)
  have packed: "keeps fst (fst st)
      (case pb_make_string_substream env st of
         (None, st) \<Rightarrow> Some (False, st)
       | (Some sub, s, h) \<Rightarrow>
           (case callback_loop n ?cb (sub, h) of
              None \<Rightarrow> None
            | Some (ok, sub, h) \<Rightarrow>
                if \<not> ok then Some (False, is_error (s, h) ''callback failed'')
                else Some (pb_close_string_substream env s sub h)))"
  proof (cases "pb_make_string_substream env st")
    case make: (fields v s h)
    show ?thesis
    proof (cases v)
      case None
      then show ?thesis using make_substream_None [of env st s h] make by (simp add: keeps_Some follows_within)
    next
      case (Some sub)
      note make = make [unfolded Some]
      show ?thesis
      proof (cases "callback_loop n ?cb (sub, h)")
        case (Some r)
        obtain ok sub' h' where r: "r = (ok, sub', h')" by (cases r) auto
        have k: "keeps fst sub (Some (ok, sub', h'))" using loop [of "(sub, h)"] Some r by simp
        show ?thesis
        proof (cases ok)
          case True
          from keeps_close [OF make k, of fst "\<lambda>st. st" "i_errmsg s" h'] show ?thesis
            using make Some r True by (simp split: prod.splits)
        next
          case False
          then show ?thesis using make Some r make_substream_Some(2) [OF make]
            by (simp add: keeps_Some is_error_def)
        qed
      qed (simp add: make)
    qed
  qed
  have raw: "keeps fst (fst st) (case read_raw_value env wt 10 st of
      (None, st) \<Rightarrow> Some (False, st)
    | (Some buffer, s, h) \<Rightarrow>
        (case cb (pb_istream_from_buffer (e_stack env) (of_nat (length buffer)),
                  h\<lparr>h_mem := write_bytes (h_mem h) (e_stack env) buffer\<rparr>) of
           None \<Rightarrow> None
         | Some (ok, u, h) \<Rightarrow> Some (ok, s, h)))" for cb :: "ist \<Rightarrow> (bool \<times> ist) option"
    by (rule keeps_case_take [OF read_raw_value_follows]) (auto simp: keeps_Some split: prod.splits option.splits)
  show ?thesis unfolding decode_callback_field_def Let_def
    by (intro keeps_if keeps_take pb_skip_field_follows packed raw)
qed

lemma keeps_release_union:
  "keeps (\<lambda>x. fst (snd x)) (fst st) (pb_release_union_field n env it st)"
  unfolding pb_release_union_field_def
  by (intro keep; auto simp: keeps_Some split: bool.splits intro!: keep)

lemma keeps_field_at:
  assumes "\<And>flds dest st. keeps fst (fst st) (noinit flds dest st)"
  shows "keeps cst_stream (cst_stream cst) (decode_field_at noinit n env wt it cst)"
  unfolding decode_field_at_def
  by (intro keep keeps_static_field keeps_pointer_field keeps_callback_field assms)
     (simp add: keeps_Some)

lemma keeps_field:
  assumes "\<And>flds dest st. keeps fst (fst st) (noinit flds dest st)"
  shows "keeps (\<lambda>x. cst_stream (snd x)) (cst_stream cst) (decode_field noinit n env wt it cst)"
proof -
  have at: "keeps (\<lambda>x. cst_stream (snd x)) (fst st)
      (map_option (\<lambda>(ok, cst). (ok, it, cst)) (decode_field_at noinit n env wt it (c, st)))" for it c st
    using keeps_field_at [of noinit, OF assms, of "(c, st)" n wt it] by (intro keeps_lift) simp_all
  have "keeps (\<lambda>x. cst_stream (snd x)) (cst_stream cst)
      (case r of None \<Rightarrow> None
       | Some (ok, it, st) \<Rightarrow>
           if \<not> ok then Some (False, it, fst cst, st)
           else map_option (\<lambda>(ok, cst). (ok, it, cst)) (decode_field_at noinit n env wt it (fst cst, st)))"
    if "keeps (\<lambda>x. fst (snd x)) (cst_stream cst) r" for r :: "(bool \<times> pb_iter \<times> ist) option"
    using that keeps_trans [OF _ at]
    by (cases r) (auto simp: keeps_Some split: prod.splits)
  then show ?thesis unfolding decode_field_def
    using keeps_release_union [of "snd cst" n it] by (simp add: keeps_Some)
qed

lemma keeps_default_extension:
  assumes "\<And>flds dest st. keeps fst (fst st) (noinit flds dest st)"
  shows "keeps fst (fst st) (default_extension_decoder noinit n env x tag wt st)"
proof -
  have "keeps fst (fst st) (map_option (\<lambda>(ok, _, _, st). (ok, st))
      (decode_field noinit n env wt it (0, with_mem g st)))" for it g
    using keeps_field [of noinit, OF assms, of "(0, with_mem g st)" n wt it]
    by (auto simp: keeps_def split: option.splits)
  then show ?thesis by (simp add: default_extension_decoder_def Let_def keeps_Some)
qed

lemma keeps_extension_loop:
  assumes "\<And>x st. keeps fst (fst st) (f x st)"
  shows "keeps fst (fst st) (decode_extension_loop k f pos x st)"
proof (induction k arbitrary: x st)
  case (Suc k)
  have "keeps fst (fst st) (and_then_opt (f x st) (\<lambda>st.
      decode_extension_loop k f pos (load_ptr (h_mem (snd st)) (ext_next x)) st))"
    by (rule keeps_and_then [OF assms]) (rule Suc.IH)
  then show ?case unfolding decode_extension_loop.simps by (intro keep) (simp_all add: keeps_Some)
qed (simp add: keeps_Some)

lemma keeps_extension:
  assumes "\<And>flds dest st. keeps fst (fst st) (noinit flds dest st)"
  shows "keeps fst (fst st) (decode_extension noinit n env tag wt it st)"
  unfolding decode_extension_def
  by (rule keeps_extension_loop)
     (auto simp: Let_def ext_dec_keeps intro: keeps_default_extension [of noinit, OF assms])

text \<open>One round of the main loop: it stays in the stream, and when the loop goes on it has consumed
  at least one byte.\<close>

definition step_ok :: "pb_istream \<Rightarrow> (outcome \<times> dlocals \<times> ist) option \<Rightarrow> bool" where
  "step_ok s r \<longleftrightarrow>
     (case r of None \<Rightarrow> True
      | Some (out, l, st) \<Rightarrow> within s (fst st) \<and> (out \<noteq> Fail \<longrightarrow> follows s (fst st)))"

lemma step_ok_None [simp]: "step_ok s None"
  by (simp add: step_ok_def)

lemma step_ok_trans: "follows s t \<Longrightarrow> step_ok t r \<Longrightarrow> step_ok s r"
  using follows_trans within_trans [OF follows_within] by (auto simp: step_ok_def split: option.splits)

lemma step_ok_skip: "step_ok (fst st) (skip_unknown env wt l st)"
  using pb_skip_field_follows [of st env wt]
  by (cases "pb_skip_field env wt st") (simp add: skip_unknown_def step_ok_def follows_within)

lemma step_ok_unknown:
  assumes "\<And>flds dest st. keeps fst (fst st) (noinit flds dest st)"
  shows "step_ok (fst st) (decode_unknown noinit n env tag wt l st)"
proof -
  have "step_ok (fst st) (case decode_extension noinit n env tag wt it st of
        None \<Rightarrow> None
      | Some (ok, st') \<Rightarrow>
          if \<not> ok then Some (Fail, l, st')
          else if i_bytes_left (fst st) \<noteq> i_bytes_left (fst st') then Some (Next, l, st')
          else skip_unknown env wt l st')" for it l
    using keeps_extension [of noinit, OF assms, of st n tag wt it] step_ok_trans [OF _ step_ok_skip]
    by (cases "decode_extension noinit n env tag wt it st")
       (auto simp: keeps_Some step_ok_def [of _ "Some _"] split: prod.splits)
  then show ?thesis unfolding decode_unknown_def
    by (cases "find_extension_field (l_iter l)")
       (auto simp: Let_def step_ok_skip)
qed

lemma step_ok_known:
  assumes "\<And>flds dest st. keeps fst (fst st) (noinit flds dest st)"
  shows "step_ok (fst st) (decode_known noinit n env wt l st)"
proof -
  have "step_ok (fst st) (case decode_field noinit n env wt it (c, st) of
        None \<Rightarrow> None
      | Some (ok, it, c, st) \<Rightarrow> Some (if ok then Next else Fail, l\<lparr>l_iter := it, l_count := c\<rparr>, st))"
    for it c l
    using keeps_field [of noinit, OF assms, of "(c, st)" n wt it]
    by (cases "decode_field noinit n env wt it (c, st)") (auto simp: keeps_Some step_ok_def)
  then show ?thesis unfolding decode_known_def
    by (auto simp: Let_def step_ok_def [of _ "Some _"])
qed

lemma step_ok_step:
  assumes "\<And>flds dest st. keeps fst (fst st) (noinit flds dest st)"
  shows "step_ok (fst st) (decode_step noinit n env l st) \<and>
    (\<forall>l' st'. decode_step noinit n env l st = Some (Next, l', st') \<longrightarrow>
       unat (i_bytes_left (fst st')) < unat (i_bytes_left (fst st)))"
proof (cases "pb_decode_tag env st")
  case tag: (fields eof v s' h')
  define st' where "st' = (s', h')"
  note tag = tag [folded st'_def]
  have f: "follows (fst st) (fst st')" using pb_decode_tag_follows [of st env] tag by simp
  show ?thesis
  proof (cases v)
    case None
    then show ?thesis using tag f by (auto simp: decode_step_def step_ok_def follows_within)
  next
    case (Some w)
    obtain wt tg where w: "w = (wt, tg)" by (cases w)
    let ?r = "case pb_field_iter_find (l_iter l) tg of None \<Rightarrow> None
      | Some (found, it) \<Rightarrow>
          if found then decode_known noinit n env wt (l\<lparr>l_iter := it\<rparr>) st'
          else decode_unknown noinit n env tg wt (l\<lparr>l_iter := it\<rparr>) st'"
    have eq: "decode_step noinit n env l st = ?r" using tag Some w by (simp add: decode_step_def)
    have ok: "step_ok (fst st') ?r"
      using step_ok_known [of noinit, OF assms] step_ok_unknown [of noinit, OF assms]
      by (auto split: option.splits)
    have "unat (i_bytes_left (fst st')) < unat (i_bytes_left (fst st))"
      using pb_decode_tag_less [of env st eof w st'] tag Some by simp
    then show ?thesis unfolding eq using ok step_ok_trans [OF f ok]
      by (auto simp: step_ok_def dest!: follows_left)
  qed
qed

lemma keeps_loop:
  assumes "\<And>l st. step_ok (fst st) (step l st)"
  shows "keeps (\<lambda>x. fst (snd x)) (fst st) (decode_loop k step l st)"
proof (induction k arbitrary: l st)
  case (Suc k)
  show ?case
    using assms [of st l] keeps_trans [OF _ Suc.IH]
    by (auto simp: keeps_Some step_ok_def split: option.splits outcome.splits)
qed simp

lemma keeps_finish: "keeps fst (fst st) (Some (decode_finish l st))"
  by (simp add: decode_finish_def keeps_Some)

lemma keeps_noinit: "keeps fst (fst st) (pb_decode_noinit n env flds dest st)"
proof (induction n arbitrary: flds dest st)
  case 0
  then show ?case by (simp add: pb_decode_noinit.simps)
next
  case (Suc n)
  have step: "step_ok (fst st) (decode_step (pb_decode_noinit n env) n env l st)" for l st
    using step_ok_step [of "pb_decode_noinit n env", OF Suc.IH] by blast
  show ?case unfolding pb_decode_noinit.simps
  proof (intro keep)
    fix r ok p l st' assume "decode_loop (Suc (unat (i_bytes_left (fst st))))
        (decode_step (pb_decode_noinit n env) n env) (decode_start flds dest) st = Some r"
      "r = (ok, p)" "p = (l, st')"
    then have "keeps (\<lambda>x. fst (snd x)) (fst st) (Some (ok, l, st'))"
      using keeps_loop [of "decode_step (pb_decode_noinit n env) n env", OF step] by metis
    then show "keeps fst (fst st) (Some (if ok then decode_finish l st' else (False, st')))"
      using keeps_trans [OF _ keeps_finish] by (auto simp: keeps_Some)
  qed
qed

lemma keeps_decode: "keeps fst (fst st) (pb_decode n env flds dest st)"
  unfolding pb_decode_def by (rule keeps_pb_decode_of) (rule keeps_noinit)

lemma keeps_decode_delimited: "keeps fst (fst st) (pb_decode_delimited n env flds dest st)"
  unfolding pb_decode_delimited_def by (rule keeps_with_substream) (rule keeps_decode)

end

section \<open>Callbacks that read through the library\<close>

text \<open>An application callback as a program over \<^verbatim>\<open>pb_read\<close>: it may read any number of
  bytes, decide by what it got, and store anywhere.\<close>

datatype rprog = Done bool | Read u64 "u8 list option \<Rightarrow> rprog" | Poke addr "u8 list" rprog

primrec run_rprog :: "pb_env \<Rightarrow> rprog \<Rightarrow> ist \<Rightarrow> bool \<times> ist" where
  "run_rprog env (Done ok) st = (ok, st)"
| "run_rprog env (Read n k) st = (case pb_read env RLocal n st of (r, st) \<Rightarrow> run_rprog env (k r) st)"
| "run_rprog env (Poke a bs p) st = run_rprog env p (with_mem (\<lambda>m. write_bytes m a bs) st)"

lemma run_rprog_follows: "follows (fst st) (fst (snd (run_rprog env p st)))"
proof (induction p arbitrary: st)
  case (Read n k)
  obtain r st' where r: "pb_read env RLocal n st = (r, st')" by (cases "pb_read env RLocal n st")
  then have "follows (fst st) (fst st')" using pb_read_follows [of st env RLocal n] by simp
  then show ?case using Read.IH [of "k r" st'] r by (auto intro: follows_trans)
next
  case (Poke a bs p)
  then show ?case using Poke.IH [of "with_mem (\<lambda>m. write_bytes m a bs) st"] by simp
qed simp

definition rd_env ::
  "pb_env \<Rightarrow> (addr \<Rightarrow> pb_field \<Rightarrow> addr \<Rightarrow> heap \<Rightarrow> rprog) \<Rightarrow>
   (addr \<Rightarrow> addr \<Rightarrow> u32 \<Rightarrow> pb_wire_type \<Rightarrow> heap \<Rightarrow> rprog) \<Rightarrow> pb_env" where
  "rd_env env g h = env\<lparr>e_dec_cb := \<lambda>f s field a hp. run_rprog env (g f field a hp) (s, hp),
     e_ext_dec := \<lambda>f s x tag wt hp. run_rprog env (h f x tag wt hp) (s, hp)\<rparr>"

interpretation rd: reader "rd_env env g h" for env g h
proof unfold_locales
  show "keeps fst s (Some (e_dec_cb (rd_env env g h) f s field a hp))" for f s field a hp
    using run_rprog_follows [of "(s, hp)" env "g f field a hp"] by (intro keeps_take) (simp add: rd_env_def)
  show "keeps fst s (Some (e_ext_dec (rd_env env g h) f s x tag wt hp))" for f s x tag wt hp
    using run_rprog_follows [of "(s, hp)" env "h f x tag wt hp"] by (intro keeps_take) (simp add: rd_env_def)
qed

section \<open>Properties\<close>

text \<open>C2. Whatever the bytes, the descriptor table and the memory, \<^verbatim>\<open>pb_decode\<close> on a buffer
  never moves past the buffer's end: it stops after some number of bytes with the rest still inside
  the buffer, and when it succeeds nothing was lost (consumed plus left is the buffer).  The same
  holds for the delimited form.\<close>

theorem decode_stays_inside:
  assumes "pb_decode n (rd_env env g h) flds dest (pb_istream_from_buffer buf bufsize, hp) = Some (ok, s', hp') \<or>
    pb_decode_delimited n (rd_env env g h) flds dest (pb_istream_from_buffer buf bufsize, hp) = Some (ok, s', hp')"
  shows "\<exists>consumed. consumed + unat (i_bytes_left s') \<le> unat bufsize \<and>
    i_state s' = buf + of_nat consumed \<and> (ok \<longrightarrow> consumed + unat (i_bytes_left s') = unat bufsize)"
proof -
  let ?s = "pb_istream_from_buffer buf bufsize"
  have k: "keeps fst ?s (Some (ok, s', hp'))"
    using assms rd.keeps_decode [where st = "(?s, hp)" and env = env and g = g and h = h and n = n and flds = flds and dest = dest]
      rd.keeps_decode_delimited [where st = "(?s, hp)" and env = env and g = g and h = h and n = n and flds = flds and dest = dest]
    by auto
  show ?thesis
  proof (cases ok)
    case False
    then show ?thesis using k by (auto simp: keeps_Some within_def)
  next
    case True
    then have f: "follows ?s s'" using k by (simp add: keeps_Some)
    let ?c = "unat bufsize - unat (i_bytes_left s')"
    have le: "unat (i_bytes_left s') \<le> unat bufsize" using f by (simp add: follows_def)
    have "i_state s' = buf + of_nat ?c"
      using f le by (simp add: follows_def i_end_def of_nat_diff algebra_simps)
    then show ?thesis using le by (intro exI [of _ ?c]) simp
  qed
qed

text \<open>An input for the examples: field 1 with the value 300, at address 1024.\<close>

definition example_rd :: pb_env where
  "example_rd = rd_env example_env (\<lambda>_ _ _ _. Done True) (\<lambda>_ _ _ _ _. Done True)"

definition example_heap :: heap where
  "example_heap = \<lparr>h_mem = (\<lambda>_. 0)(1024 := 0x08, 1025 := 0xAC, 1026 := 0x02), h_blocks = (\<lambda>_. None)\<rparr>"

lemma example_decode:
  "map_option fst (pb_decode (Suc 0) example_rd example_inner 256 (pb_istream_from_buffer 1024 3, example_heap)) = Some True"
  by code_simp

lemma decode_stays_inside_witness:
  "case pb_decode (Suc 0) example_rd example_inner 256 (pb_istream_from_buffer 1024 3, example_heap) of
     None \<Rightarrow> False
   | Some (ok, s', hp') \<Rightarrow> ok \<and> (\<exists>consumed. consumed + unat (i_bytes_left s') = 3)"
proof -
  obtain s' hp' where d: "pb_decode (Suc 0) example_rd example_inner 256
      (pb_istream_from_buffer 1024 3, example_heap) = Some (True, s', hp')"
    using example_decode by (cases "pb_decode (Suc 0) example_rd example_inner 256
      (pb_istream_from_buffer 1024 3, example_heap)") auto
  from decode_stays_inside [OF disjI1, OF d [unfolded example_rd_def]] show ?thesis by (auto simp: d)
qed

end
