(* ===== verification/Pb_Total.thy ===== *)
theory Pb_Total
  imports Pb_Window
begin

text \<open>
  The decoder returns: for a descriptor table of statically allocated fields that nests at most
  \<open>n\<close> deep, \<^verbatim>\<open>pb_decode\<close> has a result for every input, message memory and stream.  The
  main loop consumes a byte per round, the packed loops a byte per item, the searches stop.
\<close>

section \<open>The decoder's iterators\<close>

text \<open>The main loop keeps an iterator that is canonical up to \<open>pSize\<close>, which it redirects to the
  local counter for fixed-count arrays.\<close>

definition redirected :: "pb_iter \<Rightarrow> pb_iter \<Rightarrow> bool" where
  "redirected it0 it \<longleftrightarrow> it = it0 \<or>
     (it = it0\<lparr>it_pSize := PLocal\<rparr> \<and> PB_HTYPE (f_type (it_field it0)) = PB_HTYPE_REPEATED)"

definition near :: "pb_iter \<Rightarrow> bool" where
  "near it \<longleftrightarrow> (\<exists>it0. canonical it0 \<and> redirected it0 it)"

lemma canonical_near: "canonical it \<Longrightarrow> near it"
  by (auto simp: near_def redirected_def)

lemma redirected_fields:
  assumes "redirected it0 it"
  shows "it_start it = it_start it0" "it_pos it = it_pos it0" "it_dest it = it_dest it0"
    "it_pData it = it_pData it0" "it_req it = it_req it0" "it_field it = it_field it0"
  using assms by (auto simp: redirected_def it_field_def)

lemma next_local:
  assumes "PB_HTYPE (f_type (it_field it)) = PB_HTYPE_REPEATED" and "f_tag (it_field it) \<noteq> 0"
  shows "pb_field_iter_next (it\<lparr>it_pSize := PLocal\<rparr>) = pb_field_iter_next it"
proof -
  have f: "it_field (it\<lparr>it_pSize := PLocal\<rparr>) = it_field it"
    "it_field (it\<lparr>it_pSize := PLocal, it_pos := Suc (it_pos it)\<rparr>) = it_field (it\<lparr>it_pos := Suc (it_pos it)\<rparr>)"
    by (simp_all add: it_field_def)
  show ?thesis unfolding pb_field_iter_next_def Let_def f pb_iter.simps
    using assms by (simp add: f)
qed

lemma canonical_tag: "canonical it \<Longrightarrow> f_tag (it_field it) \<noteq> 0"
  by (auto simp only: canonical_def it_field_def field_at_tag_zero not_le)

lemma redirected_next:
  "redirected it0 it \<Longrightarrow> canonical it0 \<Longrightarrow> pb_field_iter_next it = pb_field_iter_next it0"
  using next_local [of it0] canonical_tag [of it0] by (auto simp: redirected_def)

lemma iter_find_redirected:
  assumes "redirected it0 it" and "canonical it0"
  shows "iter_find match it = (if match (it_field it) then Some (True, it) else iter_find match it0)"
  using redirected_fields [OF assms(1)] redirected_next [OF assms]
  by (simp add: iter_find_def)

text \<open>A search from such an iterator stops, and finds such an iterator.\<close>

lemma iter_find_near:
  assumes "near it"
  shows "\<exists>b it'. iter_find match it = Some (b, it') \<and> near it' \<and> it_start it' = it_start it \<and>
    it_dest it' = it_dest it \<and> (b \<longrightarrow> match (it_field it')) \<and> (b \<or> (\<forall>f \<in> set (it_start it). \<not> match f))"
proof -
  obtain it0 where it0: "canonical it0" "redirected it0 it" using assms by (auto simp: near_def)
  note fields = redirected_fields [OF it0(2)]
  show ?thesis
  proof (cases "match (it_field it)")
    case True
    then show ?thesis using assms iter_find_redirected [OF it0(2,1), of match] by auto
  next
    case False
    obtain b it' where r: "iter_find match it0 = Some (b, it')"
      "find_result match (it_start it0) (it_dest it0) (it_pos it0) (b, it')"
      using iter_find_spec [OF it0(1), of match] by auto
    then have "canonical it'" "it_start it' = it_start it0" "it_dest it' = it_dest it0"
      "b \<longrightarrow> match (it_field it')" "b \<or> (\<forall>f \<in> set (it_start it0). \<not> match f)"
      by (auto simp only: find_result_def prod.case split: if_splits)
    then show ?thesis using False iter_find_redirected [OF it0(2,1), of match] r(1) fields canonical_near
      by auto
  qed
qed

lemma near_in_table: "near it \<Longrightarrow> it_field it \<in> set (it_start it)"
  using redirected_fields by (auto simp: near_def canonical_def it_field_def field_at_def)

text \<open>A canonical iterator's size pointer points into the message.\<close>

lemma iter_at_pSize: "\<exists>a. it_pSize (iter_at fs d p) = PAddr a"
  by (induction p) (auto simp: pb_field_iter_begin_def pb_field_iter_next_def Let_def)

lemma canonical_pSize: "canonical it \<Longrightarrow> \<exists>a. it_pSize it = PAddr a"
  using iter_at_pSize [of "it_start it" "it_dest it" "it_pos it"] by (auto simp only: canonical_def)

lemma near_pSize:
  "near it \<Longrightarrow> PB_HTYPE (f_type (it_field it)) \<noteq> PB_HTYPE_REPEATED \<Longrightarrow> canonical it"
  unfolding near_def by (metis redirected_def redirected_fields(6))

section \<open>Tables of statically allocated fields\<close>

fun static_table :: "nat \<Rightarrow> pb_env \<Rightarrow> pb_field list \<Rightarrow> bool" where
  "static_table 0 env fs \<longleftrightarrow> False"
| "static_table (Suc n) env fs \<longleftrightarrow> wf_fields fs \<and> fs \<noteq> [] \<and>
     (\<forall>f \<in> set fs. PB_ATYPE (f_type f) = PB_ATYPE_STATIC \<and>
        PB_LTYPE (f_type f) \<noteq> PB_LTYPE_EXTENSION \<and>
        PB_LTYPE (f_type f) \<le> PB_LTYPE_FIXED_LENGTH_BYTES \<and>
        (PB_LTYPE (f_type f) = PB_LTYPE_SUBMESSAGE \<longrightarrow> static_table n env (e_fields env (f_ptr f))))"

lemma static_table_wf: "static_table n env fs \<Longrightarrow> wf_fields fs"
  by (cases n) simp_all

lemma iters_canonical: "wf_fields fs \<Longrightarrow> it \<in> set (iters fs d) \<Longrightarrow> canonical it \<and> it_start it = fs"
  by (auto simp: iters_eq canonical_iter_at)

lemma iters_static:
  assumes "static_table n env fs" and "it \<in> set (iters fs d)"
  shows "canonical it" "it_field it \<in> set fs" "\<exists>a. it_pSize it = PAddr a"
  using iters_canonical [OF static_table_wf [OF assms(1)] assms(2)] canonical_pSize
    iters_field [OF static_table_wf [OF assms(1)] assms(2)] by auto

lemma at_size_PAddr: "it_pSize it = PAddr a \<Longrightarrow> at_size it g = Some (g a)"
  by (simp add: at_size_def)

lemma returns_foldM: "(\<And>x s. x \<in> set xs \<Longrightarrow> returns (f x s)) \<Longrightarrow> returns (foldM f xs s)"
  by (induction xs arbitrary: s) (auto intro!: total)

text \<open>Setting the defaults returns; releasing has nothing to do.\<close>

lemma returns_default:
  assumes "static_table n env fs" "it_field it \<in> set fs" "it_pSize it = PAddr a" "n \<le> k"
  shows "returns (pb_field_set_to_default k env it m)"
  using assms
proof (induction k arbitrary: n fs it a m)
  case (Suc k)
  then obtain n' where n: "n = Suc n'" by (cases n) auto
  let ?f = "it_field it" and ?sub = "e_fields env (f_ptr (it_field it))"
  have static: "PB_ATYPE (f_type ?f) = PB_ATYPE_STATIC" "PB_LTYPE (f_type ?f) \<noteq> PB_LTYPE_EXTENSION"
    using Suc.prems n by auto
  have sub: "returns (foldM (pb_field_set_to_default k env) (iters ?sub p) m)"
    if "PB_LTYPE (f_type ?f) = PB_LTYPE_SUBMESSAGE" for p m
  proof (rule returns_foldM)
    fix it' m assume it': "it' \<in> set (iters ?sub p)"
    have tab: "static_table n' env ?sub" using Suc.prems n that by auto
    note i = iters_static [OF tab it']
    then show "returns (pb_field_set_to_default k env it' m)"
      using Suc.IH [OF tab i(2)] Suc.prems(4) n by auto
  qed
  show ?case
    using static sub by (auto simp: pb_field_set_to_default.simps Let_def at_size_PAddr [OF Suc.prems(3)] intro!: total)
qed simp

lemma returns_defaults:
  assumes "static_table n env fs" "n \<le> k"
  shows "returns (pb_message_set_to_defaults k env fs dest m)"
  unfolding pb_message_set_to_defaults_def
  using iters_static [OF assms(1)] returns_default [OF assms(1) _ _ assms(2)]
  by (intro returns_foldM) blast

lemma foldM_id: "(\<And>x. x \<in> set xs \<Longrightarrow> f x s = Some s) \<Longrightarrow> foldM f xs s = Some s"
  by (induction xs) simp_all

lemma release_static:
  assumes "static_table n env fs" "it_field it \<in> set fs" "it_pSize it = PAddr a" "n \<le> k"
  shows "pb_release_single_field k env it h = Some h"
  using assms
proof (induction k arbitrary: n fs it a)
  case (Suc k)
  then obtain n' where n: "n = Suc n'" by (cases n) auto
  let ?f = "it_field it" and ?sub = "e_fields env (f_ptr (it_field it))"
  have static: "PB_ATYPE (f_type ?f) = PB_ATYPE_STATIC" "PB_LTYPE (f_type ?f) \<noteq> PB_LTYPE_EXTENSION"
    using Suc.prems n by auto
  have sub: "foldM (pb_release_single_field k env) (iters ?sub p) h = Some h"
    if "PB_LTYPE (f_type ?f) = PB_LTYPE_SUBMESSAGE" for p
  proof (rule foldM_id)
    fix it' assume it': "it' \<in> set (iters ?sub p)"
    have tab: "static_table n' env ?sub" using Suc.prems n that by auto
    note i = iters_static [OF tab it']
    then show "pb_release_single_field k env it' h = Some h"
      using Suc.IH [OF tab i(2)] Suc.prems(4) n by auto
  qed
  then have items: "foldM (\<lambda>i h. let p = q + of_nat i * ucast (f_data_size ?f) in
        if p = 0 then Some h else foldM (pb_release_single_field k env) (iters ?sub p) h) xs h = Some h"
    if "PB_LTYPE (f_type ?f) = PB_LTYPE_SUBMESSAGE" for q and xs :: "nat list"
    using that by (intro foldM_id) (simp add: Let_def)
  show ?case
    using static items sub
    by (auto simp: pb_release_single_field.simps Let_def release_count_def at_size_PAddr [OF Suc.prems(3)])
qed simp

lemma release_message_static:
  assumes "static_table n env fs" "n \<le> k"
  shows "pb_release k env fs dest h = Some h"
proof -
  have "pb_release_single_field k env it h = Some h" if "it \<in> set (iters fs dest)" for it
    using iters_static [OF assms(1) that] release_static [OF assms(1) _ _ assms(2)] by blast
  then show ?thesis by (simp add: pb_release_def foldM_id)
qed

section \<open>Consuming at least a byte\<close>

lemma varint_less:
  assumes "pb_decode_varint env st = (Some v, st')"
  shows "unat (i_bytes_left (fst st')) < unat (i_bytes_left (fst st))"
proof -
  obtain b st2 where r: "pb_readbyte env st = (Some b, st2)"
    using assms by (cases "pb_readbyte env st"; cases "fst (pb_readbyte env st)")
      (auto simp: pb_decode_varint_def varint64_loop.simps [of env 0])
  have "follows (fst st2) (fst (snd (pb_decode_varint env st)))"
    using r varint64_loop_follows [of st2 env] by (auto simp: pb_decode_varint_def varint64_loop.simps [of env 0] Let_def)
  then show ?thesis using assms pb_readbyte_Some(4) [OF r] by (auto simp: follows_def)
qed

lemma read_local_less:
  assumes "pb_read env RLocal n st = (Some bs, st')" and "n \<noteq> 0"
  shows "unat (i_bytes_left (fst st')) < unat (i_bytes_left (fst st))"
proof -
  have "pb_read_data env RLocal n st = (Some bs, st')" using assms by (simp add: pb_read_def)
  note f = pb_read_data_Some [OF this]
  have "0 < unat n" using assms(2) by (simp add: unat_gt_0)
  moreover have "unat (i_bytes_left (fst st')) = unat (i_bytes_left (fst st)) - unat n"
    using f(1,2) by (simp add: unat_sub)
  moreover have "unat n \<le> unat (i_bytes_left (fst st))" using f(1) by (simp add: word_le_nat_alt)
  ultimately show ?thesis by linarith
qed

lemma check_stored_left [simp]: "i_bytes_left (fst (snd (check_stored r v st))) = i_bytes_left (fst st)"
  by (auto simp: check_stored_def Let_def split: option.splits prod.splits)

text \<open>Every packable item takes at least one byte.\<close>

lemma packable_less:
  assumes "PB_DECODERS noinit n env f a st = Some (True, st')" and "PB_LTYPE (f_type f) \<le> PB_LTYPE_LAST_PACKABLE"
  shows "unat (i_bytes_left (fst st')) < unat (i_bytes_left (fst st))"
proof -
  have take: "unat (i_bytes_left (fst st')) < unat (i_bytes_left (fst st))"
    if "and_take r g = (True, st')" "\<And>v st2. r = (Some v, st2) \<Longrightarrow>
        unat (i_bytes_left (fst st2)) < unat (i_bytes_left (fst st)) \<and> i_bytes_left (fst (snd (g v st2))) = i_bytes_left (fst st2)"
    for r :: "'x option \<times> ist" and g
    using that by (cases r; cases "fst r") auto
  have v32: "pb_decode_varint32 env st = (Some v, st2) \<Longrightarrow>
      unat (i_bytes_left (fst st2)) < unat (i_bytes_left (fst st))" for v st2
    using varint32_less [of env st v st2] by (simp add: pb_decode_varint32_def)
  have sv: "pb_decode_svarint env st = (Some v, st2) \<Longrightarrow>
      unat (i_bytes_left (fst st2)) < unat (i_bytes_left (fst st))" for v st2
    using varint_less [of env st] by (cases "pb_decode_varint env st"; cases "fst (pb_decode_varint env st)")
      (auto simp: pb_decode_svarint_def)
  have "PB_LTYPE (f_type f) = 0 \<or> PB_LTYPE (f_type f) = 1 \<or> PB_LTYPE (f_type f) = 2 \<or>
      PB_LTYPE (f_type f) = 3 \<or> PB_LTYPE (f_type f) = 4 \<or> PB_LTYPE (f_type f) = 5"
    using ltype_cases [of "PB_LTYPE (f_type f)"] assms(2) by (auto simp: word_le_nat_alt)
  then show ?thesis
  proof (elim disjE)
    assume "PB_LTYPE (f_type f) = 0"
    then have "pb_dec_bool env f a st = (True, st')" using assms(1) by (simp add: PB_DECODERS_def)
    then show ?thesis unfolding pb_dec_bool_def by (rule take) (use v32 in \<open>auto split: prod.splits\<close>)
  next
    assume "PB_LTYPE (f_type f) = 1"
    then have "pb_dec_varint env f a st = (True, st')" using assms(1) by (simp add: PB_DECODERS_def)
    then show ?thesis unfolding pb_dec_varint_def by (rule take) (auto simp: Let_def dest: varint_less)
  next
    assume "PB_LTYPE (f_type f) = 2"
    then have "pb_dec_uvarint env f a st = (True, st')" using assms(1) by (simp add: PB_DECODERS_def)
    then show ?thesis unfolding pb_dec_uvarint_def by (rule take) (auto dest: varint_less)
  next
    assume "PB_LTYPE (f_type f) = 3"
    then have "pb_dec_svarint env f a st = (True, st')" using assms(1) by (simp add: PB_DECODERS_def)
    then show ?thesis unfolding pb_dec_svarint_def by (rule take) (auto dest: sv)
  next
    assume "PB_LTYPE (f_type f) = 4"
    then have "pb_decode_fixed32 env a st = (True, st')"
      using assms(1) by (simp add: PB_DECODERS_def pb_dec_fixed32_def)
    then show ?thesis unfolding pb_decode_fixed32_def
      by (rule take) (auto dest: read_local_less split: prod.splits)
  next
    assume "PB_LTYPE (f_type f) = 5"
    then have "pb_decode_fixed64 env a st = (True, st')"
      using assms(1) by (simp add: PB_DECODERS_def pb_dec_fixed64_def)
    then show ?thesis unfolding pb_decode_fixed64_def
      by (rule take) (auto dest: read_local_less split: prod.splits)
  qed
qed

section \<open>The decoder of a field\<close>

lemma returns_then:
  "returns r \<Longrightarrow> (\<And>s. r = Some (True, s) \<Longrightarrow> returns (g s)) \<Longrightarrow> returns (and_then_opt r g)"
  by (cases r) (auto simp: and_then_opt_def)

lemma returns_keep_count [simp]: "returns (keep_count c r) = returns r"
  by (simp add: keep_count_def)

lemma returns_take_case:
  "(\<And>v st. returns (g v st)) \<Longrightarrow> (\<And>st. returns (e st)) \<Longrightarrow>
   returns (case r of (None, st) \<Rightarrow> e st | (Some v, st) \<Rightarrow> g v st)"
  by (cases r; cases "fst r") auto

lemma returns_with_substream: "(\<And>st. returns (body st)) \<Longrightarrow> returns (with_substream env body st)"
  unfolding with_substream_def by (intro returns_take_case total) (auto intro!: total)

lemma returns_decode_of:
  assumes "\<And>a st. returns (noinit fs a st)" "static_table n env fs" "n \<le> k"
  shows "returns (pb_decode_of noinit k env fs dest st)"
  unfolding pb_decode_of_def
  using assms(1) returns_defaults [OF assms(2,3)] release_message_static [OF assms(2,3)]
  by (intro total) simp_all

lemma returns_static_decoders:
  assumes "PB_ATYPE (f_type f) = PB_ATYPE_STATIC" "PB_LTYPE (f_type f) \<noteq> PB_LTYPE_EXTENSION"
    "PB_LTYPE (f_type f) \<le> PB_LTYPE_FIXED_LENGTH_BYTES"
    and sub: "PB_LTYPE (f_type f) = PB_LTYPE_SUBMESSAGE \<Longrightarrow>
      static_table n env (e_fields env (f_ptr f)) \<and> (\<forall>a st. returns (noinit (e_fields env (f_ptr f)) a st))"
    and "n \<le> k"
  shows "returns (PB_DECODERS noinit k env f a st)"
proof -
  have bytes: "returns (pb_dec_bytes env f a st)" "returns (pb_dec_string env f a st)"
    unfolding pb_dec_bytes_def pb_dec_string_def Let_def
    by (rule returns_take_case; auto simp: assms(1) intro!: total)+
  have "returns (pb_dec_submessage noinit k env f a st)" if "PB_LTYPE (f_type f) = PB_LTYPE_SUBMESSAGE"
    using sub [OF that] assms(5) unfolding pb_dec_submessage_def
    by (intro total returns_with_substream returns_take_case) (auto intro!: returns_decode_of)
  then show ?thesis
    using bytes ltype_cases [OF assms(3)] assms(2) by (auto simp: PB_DECODERS_def)
qed

lemma returns_packed_static_loop:
  assumes "\<And>a st. returns (func a st)"
    and "\<And>a st st'. func a st = Some (True, st') \<Longrightarrow> unat (i_bytes_left (fst st')) < unat (i_bytes_left (fst st))"
  shows "unat (i_bytes_left (cst_stream cst)) < k \<Longrightarrow> returns (packed_static_loop k func it cst)"
proof (induction k arbitrary: cst)
  case (Suc k)
  have "returns (packed_static_loop k func it (write_size it v (c, st)))"
    if "func a (snd cst) = Some (True, st)" for a c v st
    using assms(2) [OF that] Suc.prems by (intro Suc.IH) simp
  then show ?case using assms(1) unfolding packed_static_loop.simps Let_def
    by (intro total returns_then) (auto simp: keep_count_def)
qed simp

lemma returns_packed_static:
  assumes "\<And>a st. returns (func a st)"
    and "\<And>a st st'. func a st = Some (True, st') \<Longrightarrow> unat (i_bytes_left (fst st')) < unat (i_bytes_left (fst st))"
  shows "returns (decode_packed_static func env it cst)"
  unfolding decode_packed_static_def
  by (intro returns_take_case total)
    (auto intro!: total returns_packed_static_loop [of func, OF assms] simp del: packed_static_loop.simps)

lemma returns_static_field:
  assumes "near it" "\<And>a st. returns (PB_DECODERS noinit k env (it_field it) a st)"
    and "PB_LTYPE (f_type (it_field it)) = PB_LTYPE_SUBMESSAGE \<Longrightarrow> static_table n env (e_fields env (f_ptr (it_field it)))"
    and "n \<le> k"
  shows "returns (decode_static_field noinit k env wt it cst)"
proof -
  have "\<exists>a. it_pSize it = PAddr a" if "PB_HTYPE (f_type (it_field it)) \<noteq> PB_HTYPE_REPEATED"
    using canonical_pSize [OF near_pSize [OF assms(1) that]] .
  then have size: "returns (at_size it g)" if "PB_HTYPE (f_type (it_field it)) \<noteq> PB_HTYPE_REPEATED" for g :: "addr \<Rightarrow> ist"
    using that by (auto simp: at_size_PAddr)
  have packed: "returns (decode_packed_static (PB_DECODERS noinit k env (it_field it)) env it cst)"
    if "PB_LTYPE (f_type (it_field it)) \<le> PB_LTYPE_LAST_PACKABLE" for cst
    using that by (intro returns_packed_static assms(2)) (auto dest: packable_less)
  show ?thesis unfolding decode_static_field_def Let_def
    using assms(2) packed size returns_defaults [OF assms(3,4)]
    by (intro total) (auto intro!: total)
qed

section \<open>The main loop\<close>

text \<open>Within a table that nests at most \<open>n\<close> deep, when the submessages' decoders return.\<close>

definition fields_return :: "decode_fn \<Rightarrow> nat \<Rightarrow> nat \<Rightarrow> pb_env \<Rightarrow> pb_field list \<Rightarrow> bool" where
  "fields_return noinit k n env fs \<longleftrightarrow> static_table (Suc n) env fs \<and> n < k \<and>
     (\<forall>f \<in> set fs. PB_LTYPE (f_type f) = PB_LTYPE_SUBMESSAGE \<longrightarrow>
        (\<forall>a st. returns (noinit (e_fields env (f_ptr f)) a st)))"

definition iter_on :: "pb_field list \<Rightarrow> pb_iter \<Rightarrow> bool" where
  "iter_on fs it \<longleftrightarrow> near it \<and> it_start it = fs"

lemma find_on:
  assumes "iter_on fs it"
  shows "\<exists>b it'. iter_find match it = Some (b, it') \<and> iter_on fs it' \<and> (b \<or> (\<forall>f \<in> set fs. \<not> match f))"
  using iter_find_near [of it match] assms by (auto simp: iter_on_def)

lemma on_static:
  assumes "fields_return noinit k n env fs" "iter_on fs it"
  shows "PB_ATYPE (f_type (it_field it)) = PB_ATYPE_STATIC"
    "returns (decode_static_field noinit k env wt it cst)"
proof -
  let ?f = "it_field it"
  have f: "?f \<in> set fs" using assms(2) near_in_table [of it] by (simp add: iter_on_def)
  then show a: "PB_ATYPE (f_type ?f) = PB_ATYPE_STATIC" using assms(1) by (auto simp: fields_return_def)
  have sub: "static_table n env (e_fields env (f_ptr ?f))" if "PB_LTYPE (f_type ?f) = PB_LTYPE_SUBMESSAGE"
    using assms(1) f that by (auto simp: fields_return_def)
  have n: "n \<le> k" using assms(1) by (simp add: fields_return_def)
  have "returns (PB_DECODERS noinit k env ?f a st)" for a st
    using assms(1) f sub by (intro returns_static_decoders [OF a _ _ _ n]) (auto simp: fields_return_def)
  then show "returns (decode_static_field noinit k env wt it cst)"
    using assms(2) sub n by (intro returns_static_field) (auto simp: iter_on_def)
qed

lemma release_union_on:
  assumes "fields_return noinit k n env fs" "iter_on fs it"
    and oneof: "PB_HTYPE (f_type (it_field it)) = PB_HTYPE_ONEOF"
  shows "\<exists>ok it' st'. pb_release_union_field k env it st = Some (ok, it', st') \<and> iter_on fs it'"
proof -
  have can: "canonical it" using assms(2) oneof by (intro near_pSize) (simp_all add: iter_on_def)
  obtain a where a: "it_pSize it = PAddr a" using canonical_pSize [OF can] by blast
  have find: "\<exists>b it'. pb_field_iter_find it t = Some (b, it') \<and> canonical it' \<and> iter_on fs it'"
    if can: "canonical it" and on: "iter_on fs it" for it t
  proof -
    obtain b it' where "iter_find (tag_match t) it = Some (b, it')" using find_on [OF on] by blast
    then show ?thesis using iter_find_canonical [OF can] on canonical_near
      by (auto simp: pb_field_iter_find_def iter_on_def)
  qed
  have release: "pb_release_single_field k env it' h = Some h" if can: "canonical it'" and on: "iter_on fs it'" for it' h
  proof -
    obtain b where "it_pSize it' = PAddr b" using canonical_pSize [OF can] by blast
    moreover have "it_field it' \<in> set fs" using on near_in_table [of it'] by (simp add: iter_on_def)
    ultimately show ?thesis using assms(1) release_static [of "Suc n" env fs it' b k h]
      by (simp add: fields_return_def)
  qed
  obtain b1 it1 where f1: "pb_field_iter_find it (load_u32 (h_mem (snd st)) a) = Some (b1, it1)"
    and i1: "canonical it1" "iter_on fs it1" using find [OF can assms(2)] by blast
  obtain b2 it2 where f2: "pb_field_iter_find it1 (f_tag (it_field it)) = Some (b2, it2)"
    and i2: "iter_on fs it2" using find [OF i1] by blast
  show ?thesis
    using f1 f2 i1(2) i2 assms(2) release [OF i1]
    by (cases b1; cases b2) (auto simp: pb_release_union_field_def at_size_PAddr [OF a] Let_def)
qed

lemma field_on:
  assumes "fields_return noinit k n env fs" "iter_on fs it"
  shows "\<exists>ok it' cst'. decode_field noinit k env wt it cst = Some (ok, it', cst') \<and> iter_on fs it'"
proof -
  let ?r = "if PB_HTYPE (f_type (it_field it)) = PB_HTYPE_ONEOF then pb_release_union_field k env it (snd cst)
            else Some (True, it, snd cst)"
  have "\<exists>ok it' st'. ?r = Some (ok, it', st') \<and> iter_on fs it'"
    using release_union_on [OF assms, of "snd cst"] assms(2)
    by (cases "PB_HTYPE (f_type (it_field it)) = PB_HTYPE_ONEOF") auto
  then obtain ok it' st' where r: "?r = Some (ok, it', st')" and on: "iter_on fs it'" by blast
  have "returns (decode_field_at noinit k env wt it' (fst cst, st'))"
    using on_static [OF assms(1) on] by (simp add: decode_field_at_def)
  then obtain ok' c' where "decode_field_at noinit k env wt it' (fst cst, st') = Some (ok', c')"
    unfolding returns_def by (metis not_None_eq surj_pair)
  then show ?thesis using r on by (cases c') (auto simp: decode_field_def)
qed

lemma near_fixed_count:
  assumes "near it" "is_fixed_count it"
  shows "near (it\<lparr>it_pSize := PLocal\<rparr>)"
proof -
  obtain it0 where it0: "canonical it0" "redirected it0 it" using assms(1) by (auto simp: near_def)
  then have "it = it0" using assms(2) by (auto simp: redirected_def is_fixed_count_def)
  then show ?thesis using it0(1) assms(2) by (auto simp: near_def redirected_def is_fixed_count_def)
qed

lemma known_on:
  assumes "fields_return noinit k n env fs" "iter_on fs (l_iter l)"
  shows "\<exists>out l' st'. decode_known noinit k env wt l st = Some (out, l', st') \<and> iter_on fs (l_iter l')"
proof -
  let ?it = "l_iter l"
  define it where "it = (if is_fixed_count ?it then ?it\<lparr>it_pSize := PLocal\<rparr> else ?it)"
  let ?new = "is_fixed_count ?it \<and> l_fixed l \<noteq> Some (it_pos ?it)"
  define l2 where "l2 = mark_seen it (if ?new then l\<lparr>l_fixed := Some (it_pos ?it), l_count := 0\<rparr> else l)"
  have "iter_on fs it" using assms(2) near_fixed_count [of ?it] by (auto simp: it_def iter_on_def)
  from field_on [OF assms(1) this, of wt "(l_count l2, st)"]
  obtain ok it' c' st' where "decode_field noinit k env wt it (l_count l2, st) = Some (ok, it', c', st')" "iter_on fs it'"
    by auto
  then show ?thesis using assms(2)
    unfolding decode_known_def Let_def it_def [symmetric] l2_def [symmetric] by simp
qed

text \<open>A key of 32 bits leaves 29 for the field number, so the test against the start of the
  extensions, \<^verbatim>\<open>(uint32_t)-1\<close> when there are none, never succeeds.\<close>

lemma tag_below:
  assumes "pb_decode_tag env st = (eof, Some (wt, tag), st')"
  shows "tag < 0xffffffff"
proof -
  obtain temp where "tag = drop_bit 3 (temp :: u32)"
    using assms by (auto simp: pb_decode_tag_def split: prod.splits option.splits if_splits)
  then have "unat tag = unat temp div 8" by (simp add: Prelude.unat_drop_bit)
  then have "unat tag < 2 ^ 29" using u32_less [of temp] by simp
  then show ?thesis by (simp add: word_less_nat_alt)
qed

lemma unknown_on:
  assumes "fields_return noinit k n env fs" "iter_on fs (l_iter l)" "tag < 0xffffffff"
  shows "\<exists>out l' st'. decode_unknown noinit k env tag wt l st = Some (out, l', st') \<and> iter_on fs (l_iter l')"
proof -
  have skip: "\<exists>out st'. skip_unknown env wt l st = Some (out, l, st')" for l
    by (simp add: skip_unknown_def split: prod.splits)
  obtain b it' where f: "find_extension_field (l_iter l) = Some (b, it')" and on: "iter_on fs it'"
    and b: "b \<longrightarrow> PB_LTYPE (f_type (it_field it')) = PB_LTYPE_EXTENSION"
    using find_on [OF assms(2), of "\<lambda>f. PB_LTYPE (f_type f) = PB_LTYPE_EXTENSION"]
      iter_find_near [of "l_iter l" "\<lambda>f. PB_LTYPE (f_type f) = PB_LTYPE_EXTENSION"] assms(2)
    by (auto simp: find_extension_field_def iter_on_def)
  have "(- 1 :: u32) = 0xffffffff" by simp
  then have max: "\<not> - 1 \<le> tag" using assms(3) by (metis not_le)
  have "it_field it' \<in> set fs" using on near_in_table [of it'] by (simp add: iter_on_def)
  then have "\<not> b" using b assms(1) by (auto simp: fields_return_def)
  then have "decode_unknown noinit k env tag wt l st =
     skip_unknown env wt (if tag \<ge> l_ext_start l then l\<lparr>l_iter := it', l_ext_start := - 1\<rparr> else l) st"
    using f max by (auto simp: decode_unknown_def Let_def)
  then show ?thesis using skip [of "l\<lparr>l_iter := it', l_ext_start := - 1\<rparr>"] skip [of l] on assms(2)
    by (cases "tag \<ge> l_ext_start l") auto
qed

lemma step_on:
  assumes "fields_return noinit k n env fs" "iter_on fs (l_iter l)"
  shows "\<exists>out l' st'. decode_step noinit k env l st = Some (out, l', st') \<and> iter_on fs (l_iter l')"
proof (cases "pb_decode_tag env st")
  case tag: (fields eof v s1 h1)
  let ?st1 = "(s1, h1)"
  show ?thesis
  proof (cases v)
    case None
    then show ?thesis using tag assms(2) by (auto simp: decode_step_def)
  next
    case (Some w)
    then obtain wt tg where w: "v = Some (wt, tg)" by (cases w) simp
    obtain b it' where f: "pb_field_iter_find (l_iter l) tg = Some (b, it')" "iter_on fs it'"
      using find_on [OF assms(2)] unfolding pb_field_iter_find_def by blast
    have on: "iter_on fs (l_iter (l\<lparr>l_iter := it'\<rparr>))" using f(2) by simp
    show ?thesis
      using known_on [OF assms(1) on, of wt ?st1] unknown_on [OF assms(1) on tag_below [OF tag [unfolded w]], of wt ?st1] tag w f(1)
      by (cases b) (simp_all add: decode_step_def)
  qed
qed

context reader
begin

lemma loop_on:
  assumes "fields_return (pb_decode_noinit m env) k n env fs" "iter_on fs (l_iter l)"
    and "unat (i_bytes_left (fst st)) < j"
  shows "returns (decode_loop j (decode_step (pb_decode_noinit m env) k env) l st)"
  using assms(2,3)
proof (induction j arbitrary: l st)
  case (Suc j)
  obtain out l' st' where s: "decode_step (pb_decode_noinit m env) k env l st = Some (out, l', st')"
    and on: "iter_on fs (l_iter l')" using step_on [OF assms(1) Suc.prems(1)] by blast
  have "out = Next \<Longrightarrow> unat (i_bytes_left (fst st')) < unat (i_bytes_left (fst st))"
    using step_ok_step [of "pb_decode_noinit m env", OF keeps_noinit] s by blast
  then have "out = Next \<Longrightarrow> returns (decode_loop j (decode_step (pb_decode_noinit m env) k env) l' st')"
    using Suc.prems(2) on by (intro Suc.IH) auto
  then show ?case using s by (cases out) simp_all
qed simp

lemma noinit_returns:
  "static_table n env fs \<Longrightarrow> n < m \<Longrightarrow> returns (pb_decode_noinit m env fs dest st)"
proof (induction n arbitrary: m fs dest st)
  case (Suc n)
  then obtain k where m: "m = Suc k" "Suc n \<le> k" by (cases m) auto
  have "returns (pb_decode_noinit k env (e_fields env (f_ptr f)) a st)"
    if "f \<in> set fs" "PB_LTYPE (f_type f) = PB_LTYPE_SUBMESSAGE" for f a st
    using Suc.prems(1) m(2) that by (intro Suc.IH) auto
  then have f: "fields_return (pb_decode_noinit k env) k n env fs"
    using Suc.prems(1) m(2) by (auto simp: fields_return_def simp del: static_table.simps)
  have "canonical (l_iter (decode_start fs dest))" "it_start (l_iter (decode_start fs dest)) = fs"
    using Suc.prems(1) canonical_begin by (auto simp: decode_start_def)
  then have "iter_on fs (l_iter (decode_start fs dest))" by (simp add: iter_on_def canonical_near)
  from loop_on [OF f this] show ?case
    unfolding m(1) pb_decode_noinit.simps by (intro total) (simp_all del: decode_loop.simps)
qed simp

lemma decode_returns:
  assumes "static_table n env fs" "n < m"
  shows "returns (pb_decode m env fs dest st)"
  unfolding pb_decode_def
  using assms by (intro returns_decode_of noinit_returns) auto

end

section \<open>Property\<close>

text \<open>C6. On a table of statically allocated fields that nests at most \<open>n\<close> deep, \<^verbatim>\<open>pb_decode\<close>
  always returns, with or without success: for every input, including truncated and malicious ones,
  every message memory and every stream callback, fuel above the nesting depth is enough.  In particular
  the loops of the code all end: the main loop and the packed arrays take a byte off the stream per
  round, and the searches through the table stop although the iterator wraps around.\<close>

theorem decode_terminates:
  assumes "static_table n (rd_env env g h) fs" "n < m"
  shows "pb_decode m (rd_env env g h) fs dest st \<noteq> None"
  using rd.decode_returns [OF assms] by (simp add: returns_def)

theorem decode_terminates_witness:
  "pb_decode 2 example_rd example_inner 256 (pb_istream_from_buffer 1024 3, example_heap) \<noteq> None"
  unfolding example_rd_def
proof (rule decode_terminates)
  show "static_table 1 (rd_env example_env (\<lambda>_ _ _ _. Done True) (\<lambda>_ _ _ _ _. Done True)) example_inner"
    using example_tables by (simp add: example_inner_def PB_LTYPE_def PB_ATYPE_def)
qed simp

end
