(* ===== verification/Pb_Union.thy ===== *)
theory Pb_Union
  imports Pb_Total
begin

text \<open>
  What decoding does to a oneof whose members are kept in different ways: the member that is replaced is
  released, but its storage is then read as the new member's.
\<close>

section \<open>The search for a tag\<close>

lemma find_tag:
  assumes "wf_fields fs" "distinct (map f_tag fs)" "p < length fs" "q < length fs"
    and "PB_LTYPE (f_type (fs ! p)) \<noteq> PB_LTYPE_EXTENSION"
  shows "pb_field_iter_find (iter_at fs d q) (f_tag (fs ! p)) = Some (True, iter_at fs d p)"
proof -
  have can: "canonical (iter_at fs d q)" "canonical (iter_at fs d p)" using assms(1,3,4) canonical_iter_at by blast+
  obtain b it where f: "iter_find (tag_match (f_tag (fs ! p))) (iter_at fs d q) = Some (b, it)"
    and r: "find_result (tag_match (f_tag (fs ! p))) fs d q (b, it)"
    using iter_find_spec [OF can(1), of "tag_match (f_tag (fs ! p))"] iter_at_pos [OF assms(1,4)] by auto
  have "tag_match (f_tag (fs ! p)) (fs ! p)" "fs ! p \<in> set fs" using assms(3,5) by (simp_all add: tag_match_def)
  then have b: "b" using r by (auto simp: find_result_def split: if_splits)
  have it: "canonical it" "it_start it = fs" "it_dest it = d" "f_tag (it_field it) = f_tag (fs ! p)"
    using r b by (auto simp: find_result_def tag_match_def)
  then have pos: "it_pos it < length fs" "f_tag (fs ! it_pos it) = f_tag (fs ! p)"
    by (auto simp: canonical_def it_field_def field_at_def split: if_splits)
  then have "it_pos it = p" using assms(2,3) nth_eq_iff_index_eq [of "map f_tag fs" "it_pos it" p] by simp
  then have "it = iter_at fs d p"
    using it can(2) iter_at_pos [OF assms(1,3)] by (intro canonical_unique) simp_all
  then show ?thesis using f b by (simp add: pb_field_iter_find_def)
qed

lemma field_iter_at: "wf_fields fs \<Longrightarrow> p < length fs \<Longrightarrow> it_field (iter_at fs d p) = fs ! p"
  by (simp add: it_field_def iter_at_pos field_at_def)

section \<open>Switching from a static to a pointer member\<close>

text \<open>C11. Switching a oneof from a static to a dynamically allocated member is undefined behaviour (the
  defect of CVE-2021-21401).  When the structure holds a scalar member and the message then sets a
  string member of the same oneof that is a pointer, the release of the old member leaves its value
  where it is, and \<^verbatim>\<open>allocate_field\<close> passes that value to \<^verbatim>\<open>realloc\<close> as a pointer: there is
  no result unless the scalar happens to be zero or the address of a live block.  The scalar is
  whatever the message said before.\<close>

theorem union_switch_undefined:
  assumes fs: "wf_fields fs" "distinct (map f_tag fs)" "p < length fs" "q < length fs"
    and old: "PB_ATYPE (f_type (fs ! p)) = PB_ATYPE_STATIC" "PB_LTYPE (f_type (fs ! p)) \<le> PB_LTYPE_LAST_PACKABLE"
    and new: "PB_HTYPE (f_type (fs ! q)) = PB_HTYPE_ONEOF" "PB_ATYPE (f_type (fs ! q)) = PB_ATYPE_POINTER"
      "PB_LTYPE (f_type (fs ! q)) = PB_LTYPE_STRING"
    and which: "it_pSize (iter_at fs d q) = PAddr a" "load_u32 (h_mem h) a = f_tag (fs ! p)"
    and m': "m' = store_u32 (h_mem h) a (f_tag (fs ! q))"
    and scalar: "load_ptr m' (it_pData (iter_at fs d q)) \<noteq> 0" "h_blocks h (load_ptr m' (it_pData (iter_at fs d q))) = None"
    and input: "pb_decode_varint32 env (s, h\<lparr>h_mem := m'\<rparr>) = (Some sz, s', h\<lparr>h_mem := m'\<rparr>)" "sz \<noteq> - 1"
  shows "decode_field noinit (Suc n) env PB_WT_STRING (iter_at fs d q) (c, s, h) = None"
proof -
  have ext: "PB_LTYPE (f_type (fs ! p)) \<noteq> PB_LTYPE_EXTENSION" "PB_LTYPE (f_type (fs ! q)) \<noteq> PB_LTYPE_EXTENSION"
    "PB_LTYPE (f_type (fs ! p)) \<noteq> PB_LTYPE_SUBMESSAGE"
    using old(2) new(3) by (auto simp: word_le_nat_alt)
  have field: "it_field (iter_at fs d p) = fs ! p" "it_field (iter_at fs d q) = fs ! q"
    using field_iter_at fs by blast+
  have ne: "f_tag (fs ! p) \<noteq> f_tag (fs ! q)"
    using fs old(1) new(2) nth_eq_iff_index_eq [of "map f_tag fs" p q] by auto
  have nz: "f_tag (fs ! p) \<noteq> 0" using fs(1,3) by (auto simp: wf_fields_def)
  have "pb_release_single_field (Suc n) env (iter_at fs d p) h = Some h"
    using old ext by (simp add: pb_release_single_field.simps field Let_def)
  then have u: "pb_release_union_field (Suc n) env (iter_at fs d q) (s, h) = Some (True, iter_at fs d q, s, h)"
    using find_tag [OF fs(1,2,3,4) ext(1)] find_tag [OF fs(1,2,4,3) ext(2)] ne nz which
    by (simp add: pb_release_union_field_def at_size_def field Let_def)
  have "1 + sz \<noteq> 0" using input(2) by (simp add: add.commute [of 1] flip: eq_neg_iff_add_eq_0)
  then have "unat (sz + 1) = Suc (unat sz)" using unatSuc [of sz] by (simp add: add.commute)
  then have "unat (ucast (sz + 1) :: u64) = Suc (unat (ucast sz :: u64))" by simp
  then have sz: "\<not> ucast (sz + 1) < (ucast sz :: u64)" "ucast (sz + 1) \<noteq> (0 :: u64)"
    by (simp_all add: word_less_nat_alt unat_eq_0 [symmetric])
  have "decode_pointer_field noinit (Suc n) env PB_WT_STRING (iter_at fs d q) (c, s, h) = None"
    using new which scalar input sz
    by (simp add: decode_pointer_field_def field at_size_def with_mem_def PB_DECODERS_def pb_dec_string_def
        allocate_field_def c_realloc_def keep_count_def Let_def flip: m')
  then show ?thesis using u new by (simp add: decode_field_def decode_field_at_def field keep_count_def)
qed

definition example_oneof :: "pb_field list" where
  "example_oneof =
     [\<lparr>f_tag = 1, f_type = PB_HTYPE_ONEOF OR PB_LTYPE_UVARINT, f_data_offset = 8, f_size_offset = - 8,
       f_data_size = 4, f_array_size = 0, f_ptr = 0\<rparr>,
      \<lparr>f_tag = 2, f_type = PB_ATYPE_POINTER OR PB_HTYPE_ONEOF OR PB_LTYPE_STRING, f_data_offset = PB_SIZE_MAX,
       f_size_offset = - 8, f_data_size = 1, f_array_size = 0, f_ptr = 0\<rparr>]"

text \<open>The structure at 256: member 1 is set, to 5; the message goes on with a string of length 0.\<close>

definition example_oneof_heap :: heap where
  "example_oneof_heap = \<lparr>h_mem = (\<lambda>_. 0)(256 := 1, 264 := 5), h_blocks = (\<lambda>_. None)\<rparr>"

lemma example_oneof_table:
  "wf_fields example_oneof" "distinct (map f_tag example_oneof)" "(0 :: nat) < length example_oneof" "1 < length example_oneof"
  "PB_ATYPE (f_type (example_oneof ! 0)) = PB_ATYPE_STATIC"
  "PB_LTYPE (f_type (example_oneof ! 0)) \<le> PB_LTYPE_LAST_PACKABLE"
  "PB_HTYPE (f_type (example_oneof ! 1)) = PB_HTYPE_ONEOF" "PB_ATYPE (f_type (example_oneof ! 1)) = PB_ATYPE_POINTER"
  "PB_LTYPE (f_type (example_oneof ! 1)) = PB_LTYPE_STRING"
  by (simp_all add: wf_fields_def example_oneof_def PB_ATYPE_def PB_HTYPE_def PB_LTYPE_def)

lemma example_oneof_run:
  "it_pSize (iter_at example_oneof 256 1) = PAddr 256" "load_u32 (h_mem example_oneof_heap) 256 = 1"
  "load_ptr (store_u32 (h_mem example_oneof_heap) 256 2) (it_pData (iter_at example_oneof 256 1)) = 5"
  "store_u32 (h_mem example_oneof_heap) 256 2 1024 = 0"
  by code_simp+

theorem union_switch_undefined_witness:
  "decode_field (pb_decode_noinit 1 example_rd) (Suc 0) example_rd PB_WT_STRING (iter_at example_oneof 256 1)
     (0, pb_istream_from_buffer 1024 1, example_oneof_heap) = None"
proof -
  let ?m = "store_u32 (h_mem example_oneof_heap) 256 2"
  obtain s' where r: "pb_decode_varint32 example_rd (pb_istream_from_buffer 1024 1, example_oneof_heap\<lparr>h_mem := ?m\<rparr>) =
      (Some 0, s', example_oneof_heap\<lparr>h_mem := ?m\<rparr>)"
    using example_oneof_run(4)
    by (simp add: pb_decode_varint32_def pb_decode_varint32_eof_def pb_readbyte_def call_read_def
        pb_istream_from_buffer_def buf_read_def byte_at_def read_bytes_Suc Let_def)
  show ?thesis
    by (rule union_switch_undefined [OF example_oneof_table example_oneof_run(1) _ _ _ _ r])
      (simp_all only: example_oneof_run, simp_all add: example_oneof_def example_oneof_heap_def)
qed

section \<open>A message member sent twice\<close>

lemma mem_zero_same:
  assumes "\<forall>x. \<not> in_range a n x \<longrightarrow> m x = m' x" "n \<le> 2 ^ 64"
  shows "mem_zero m a n = mem_zero m' a n"
  using assms by (intro ext) (simp add: mem_zero_def write_bytes_get in_range_def)

text \<open>The comment in \<^verbatim>\<open>pb_release_union_field\<close> promises that a member of the same type is
  merged with the old data.  For a message member that is kept in the structure it is not: the result
  of decoding it does not depend on what the member held before.\<close>

lemma oneof_message_not_merged:
  assumes "PB_HTYPE (f_type (it_field it)) = PB_HTYPE_ONEOF" "PB_LTYPE (f_type (it_field it)) = PB_LTYPE_SUBMESSAGE"
    and same: "\<forall>x. \<not> in_range (it_pData it) (unat (f_data_size (it_field it))) x \<longrightarrow> m x = m' x"
  shows "decode_static_field noinit n env wt it (c, s, h\<lparr>h_mem := m\<rparr>) =
    decode_static_field noinit n env wt it (c, s, h\<lparr>h_mem := m'\<rparr>)"
proof -
  have "unat (f_data_size (it_field it)) \<le> 2 ^ 64" using u32_less [of "f_data_size (it_field it)"] by simp
  moreover have "\<forall>x. \<not> in_range (it_pData it) (unat (f_data_size (it_field it))) x \<longrightarrow>
      store_u32 m a t x = store_u32 m' a t x" for a t
    using same by (simp add: store_u32_def store_def write_bytes_get)
  ultimately have "mem_zero (store_u32 m a t) (it_pData it) (unat (f_data_size (it_field it))) =
      mem_zero (store_u32 m' a t) (it_pData it) (unat (f_data_size (it_field it)))" for a t
    by (intro mem_zero_same)
  then show ?thesis
    using assms(1,2) by (auto simp: decode_static_field_def Let_def at_size_def with_mem_def split: psize.splits option.splits)
qed

end
