(* ===== verification/Constant_Time.thy ===== *)
theory Constant_Time
  imports Prelude
begin

text \<open>
  The branch-free comparisons of BoringSSL's \<^verbatim>\<open>crypto/internal.h\<close> on 64-bit words, and
  the proof that each is the comparison it stands for: all ones when it holds, zero otherwise.  A
  select on such a mask is the conditional it replaces.
\<close>

section \<open>The operations\<close>

type_synonym crypto_word_t = u64

text \<open>\<open>value_barrier_w\<close> only hides its argument from the compiler.\<close>

definition value_barrier_w :: "crypto_word_t \<Rightarrow> crypto_word_t" where
  "value_barrier_w a = a"

definition constant_time_msb_w :: "crypto_word_t \<Rightarrow> crypto_word_t" where
  "constant_time_msb_w a = 0 - drop_bit 63 a"

definition constant_time_lt_w :: "crypto_word_t \<Rightarrow> crypto_word_t \<Rightarrow> crypto_word_t" where
  "constant_time_lt_w a b = constant_time_msb_w (a XOR ((a XOR b) OR ((a - b) XOR a)))"

definition constant_time_lt_8 :: "crypto_word_t \<Rightarrow> crypto_word_t \<Rightarrow> u8" where
  "constant_time_lt_8 a b = ucast (constant_time_lt_w a b)"

definition constant_time_ge_w :: "crypto_word_t \<Rightarrow> crypto_word_t \<Rightarrow> crypto_word_t" where
  "constant_time_ge_w a b = NOT (constant_time_lt_w a b)"

definition constant_time_ge_8 :: "crypto_word_t \<Rightarrow> crypto_word_t \<Rightarrow> u8" where
  "constant_time_ge_8 a b = ucast (constant_time_ge_w a b)"

definition constant_time_is_zero_w :: "crypto_word_t \<Rightarrow> crypto_word_t" where
  "constant_time_is_zero_w a = constant_time_msb_w (NOT a AND (a - 1))"

definition constant_time_is_zero_8 :: "crypto_word_t \<Rightarrow> u8" where
  "constant_time_is_zero_8 a = ucast (constant_time_is_zero_w a)"

definition constant_time_eq_w :: "crypto_word_t \<Rightarrow> crypto_word_t \<Rightarrow> crypto_word_t" where
  "constant_time_eq_w a b = constant_time_is_zero_w (a XOR b)"

definition constant_time_eq_8 :: "crypto_word_t \<Rightarrow> crypto_word_t \<Rightarrow> u8" where
  "constant_time_eq_8 a b = ucast (constant_time_eq_w a b)"

text \<open>An \<^verbatim>\<open>int\<close> is converted to the unsigned word with its sign.\<close>

definition constant_time_eq_int :: "u32 \<Rightarrow> u32 \<Rightarrow> crypto_word_t" where
  "constant_time_eq_int a b = constant_time_eq_w (scast a) (scast b)"

definition constant_time_eq_int_8 :: "u32 \<Rightarrow> u32 \<Rightarrow> u8" where
  "constant_time_eq_int_8 a b = constant_time_eq_8 (scast a) (scast b)"

definition constant_time_select_w :: "crypto_word_t \<Rightarrow> crypto_word_t \<Rightarrow> crypto_word_t \<Rightarrow> crypto_word_t" where
  "constant_time_select_w msk a b = (value_barrier_w msk AND a) OR (value_barrier_w (NOT msk) AND b)"

definition constant_time_select_8 :: "u8 \<Rightarrow> u8 \<Rightarrow> u8 \<Rightarrow> u8" where
  "constant_time_select_8 msk a b = ucast (constant_time_select_w (ucast msk) (ucast a) (ucast b))"

definition constant_time_select_int :: "crypto_word_t \<Rightarrow> u32 \<Rightarrow> u32 \<Rightarrow> u32" where
  "constant_time_select_int msk a b = ucast (constant_time_select_w msk (scast a) (scast b))"

section \<open>What they compute\<close>

text \<open>\<open>bool_mask P\<close>: the word the functions return for the truth value \<open>P\<close>.\<close>

definition bool_mask :: "bool \<Rightarrow> 'a::len word" where
  "bool_mask P = (if P then - 1 else 0)"

lemma bool_mask_simps [simp]: "bool_mask True = - 1" "bool_mask False = 0"
  by (simp_all add: bool_mask_def)

lemma bit_bool_mask [simp]: "bit (bool_mask P :: 'a::len word) n \<longleftrightarrow> P \<and> n < LENGTH('a)"
  by (cases P) simp_all

lemma ucast_bool_mask [simp]: "ucast (bool_mask P :: u64) = (bool_mask P :: u8)"
  by (rule bit_word_eqI) (auto simp: bit_simps)

lemma not_bool_mask [simp]: "NOT (bool_mask P) = bool_mask (\<not> P)"
  by (cases P) simp_all

lemma drop_63: "drop_bit 63 a = (if bit a 63 then 1 else 0 :: u64)"
proof (rule bit_word_eqI)
  fix n :: nat assume "n < LENGTH(64)"
  have "\<not> bit a (63 + n)" if "n \<noteq> 0" using that bit_imp_le_length [of a "63 + n"] by auto
  then show "bit (drop_bit 63 a) n = bit (if bit a 63 then 1 else 0 :: u64) n"
    by (cases "n = 0") (auto simp: bit_simps)
qed

lemma msb_w: "constant_time_msb_w a = bool_mask (bit a 63)"
  by (simp add: constant_time_msb_w_def drop_63)

lemma bit_63: "bit (w :: u64) 63 \<longleftrightarrow> 2 ^ 63 \<le> unat w"
proof -
  have "unat w < 2 * 2 ^ 63" using unsigned_less [of w] by simp
  then have "unat w div 2 ^ 63 < 2" by (rule less_mult_imp_div_less)
  moreover have "bit w 63 \<longleftrightarrow> bit (unat w) 63" by (simp add: bit_unsigned_iff)
  then have "bit w 63 \<longleftrightarrow> odd (unat w div 2 ^ 63)" by (simp only: bit_iff_odd)
  moreover have "unat w < 2 ^ 63 \<longleftrightarrow> unat w div 2 ^ 63 = 0" by (simp add: div_eq_0_iff)
  ultimately show ?thesis by (metis less_2_cases even_zero odd_one One_nat_def not_less)
qed

lemma msb_diff_nat:
  "x < 2 ^ 64 \<Longrightarrow> y < 2 ^ 64 \<Longrightarrow> (2 ^ 63 \<le> x \<longleftrightarrow> 2 ^ 63 \<le> y) \<Longrightarrow>
   2 ^ 63 \<le> (if y \<le> x then x - y else x + 2 ^ 64 - y) \<longleftrightarrow> x < (y :: nat)"
  by auto

lemma unat_64: "unat (w :: u64) < 2 ^ 64"
  using unsigned_less [of w] by simp

lemma bit_63_diff:
  assumes "bit a 63 = bit b 63"
  shows "bit (a - b :: u64) 63 \<longleftrightarrow> a < b"
proof -
  have "unat (a - b) = (if unat b \<le> unat a then unat a - unat b else unat a + 2 ^ 64 - unat b)"
    by (simp add: unat_sub_if_size word_size)
  moreover have "2 ^ 63 \<le> unat a \<longleftrightarrow> 2 ^ 63 \<le> unat b" using assms by (simp only: bit_63)
  ultimately show ?thesis
    unfolding bit_63 word_less_nat_alt by (simp only: msb_diff_nat unat_64)
qed

theorem lt_w: "constant_time_lt_w a b = bool_mask (a < b)"
proof (cases "bit a 63 = bit b 63")
  case True
  then show ?thesis
    using bit_63_diff [OF True] by (auto simp: constant_time_lt_w_def msb_w bit_simps)
next
  case False
  then have "a < b \<longleftrightarrow> bit b 63" by (auto simp: bit_63 word_less_nat_alt)
  with False show ?thesis by (auto simp: constant_time_lt_w_def msb_w bit_simps)
qed

lemma is_zero_w: "constant_time_is_zero_w a = bool_mask (a = 0)"
proof (cases "a = 0")
  case True
  then show ?thesis by (simp add: constant_time_is_zero_w_def msb_w)
next
  case False
  then have "unat (a - 1) = unat a - 1" by (simp add: unat_minus_one)
  then have "\<not> (bit (a - 1) 63 \<and> \<not> bit a 63)" unfolding bit_63 by linarith
  with False show ?thesis by (auto simp: constant_time_is_zero_w_def msb_w bit_simps)
qed

lemma xor_eq_0 [simp]: "a XOR b = 0 \<longleftrightarrow> a = (b :: 'a::len word)"
  by (metis xor.assoc xor.right_neutral xor_self_eq)

lemma eq_w: "constant_time_eq_w a b = bool_mask (a = b)"
  by (simp add: constant_time_eq_w_def is_zero_w)

lemma select_w: "constant_time_select_w (bool_mask P) a b = (if P then a else b)"
  by (cases P) (simp_all add: constant_time_select_w_def value_barrier_w_def)

lemma ucast_select_8: "ucast ((ucast (msk :: u8) AND ucast a) OR (NOT (ucast msk) AND ucast b) :: u64)
    = ((msk AND a) OR (NOT msk AND b) :: u8)"
  by (rule bit_word_eqI) (auto simp: bit_simps)

lemma select_8: "constant_time_select_8 (bool_mask P) a b = (if P then a else b)"
  by (cases P) (simp_all only: constant_time_select_8_def constant_time_select_w_def
      value_barrier_w_def ucast_select_8, simp_all)

lemma lt_8: "constant_time_lt_8 a b = bool_mask (a < b)"
  by (simp add: constant_time_lt_8_def lt_w)

lemma ge_8: "constant_time_ge_8 a b = bool_mask (a \<ge> b)"
  by (auto simp: constant_time_ge_8_def constant_time_ge_w_def lt_w not_less)

lemma is_zero_8: "constant_time_is_zero_8 a = bool_mask (a = 0)"
  by (simp add: constant_time_is_zero_8_def is_zero_w)

lemma eq_8: "constant_time_eq_8 a b = bool_mask (a = b)"
  by (simp add: constant_time_eq_8_def eq_w)

lemma scast_eq: "(scast (a :: u32) :: u64) = scast b \<longleftrightarrow> a = b"
proof
  assume *: "(scast a :: u64) = scast b"
  show "a = b"
  proof (rule bit_word_eqI)
    fix n assume "n < LENGTH(32)"
    moreover have "bit (scast a :: u64) n = bit (scast b :: u64) n" by (simp only: *)
    ultimately show "bit a n = bit b n" by (simp add: bit_simps)
  qed
qed simp

lemma eq_int: "constant_time_eq_int a b = bool_mask (a = b)"
  by (simp add: constant_time_eq_int_def eq_w scast_eq)

lemma eq_int_8: "constant_time_eq_int_8 a b = bool_mask (a = b)"
  by (simp add: constant_time_eq_int_8_def eq_8 scast_eq)

lemmas constant_time = lt_8 ge_8 is_zero_8 eq_8 select_8 eq_int_8

end
