(* ===== verification/Buffers.thy ===== *)
theory Buffers
  imports Prelude
begin

text \<open>
  Output arrays of the list-level models.  An array is the list of its bytes; a store past its end
  makes the list longer, so that an operation keeps to its array exactly when it keeps the length.
\<close>

definition put :: "'a list \<Rightarrow> nat \<Rightarrow> 'a list \<Rightarrow> 'a list" where
  "put buf pos bs = take pos buf @ bs @ drop (pos + length bs) buf"

lemma put_Nil [simp]: "put buf pos [] = buf"
  by (simp add: put_def)

lemma length_put: "pos \<le> length buf \<Longrightarrow> length (put buf pos bs) = max (length buf) (pos + length bs)"
  by (auto simp: put_def)

lemma length_put_in [simp]: "pos + length bs \<le> length buf \<Longrightarrow> length (put buf pos bs) = length buf"
  by (simp add: put_def)

lemma take_put [simp]: "pos \<le> length buf \<Longrightarrow> take (pos + length bs) (put buf pos bs) = take pos buf @ bs"
  by (simp add: put_def)

lemma take_put_le [simp]: "n \<le> pos \<Longrightarrow> pos \<le> length buf \<Longrightarrow> take n (put buf pos bs) = take n buf"
  by (simp add: put_def)

lemma drop_put [simp]: "pos \<le> length buf \<Longrightarrow> pos + length bs \<le> n \<Longrightarrow> drop n (put buf pos bs) = drop n buf"
  by (simp add: put_def)

lemma put_0: "put buf 0 bs = bs @ drop (length bs) buf"
  by (simp add: put_def)

text \<open>Two stores next to each other, and a store over the end of the previous one.\<close>

lemma put_put [simp]:
  "pos \<le> length buf \<Longrightarrow> n = pos + length bs \<Longrightarrow> put (put buf pos bs) n cs = put buf pos (bs @ cs)"
  by (simp add: put_def ac_simps)

lemma put_over:
  "pos \<le> length buf \<Longrightarrow> length cs \<le> length ds \<Longrightarrow>
     n = pos + length bs \<Longrightarrow> put (put buf pos (bs @ cs)) n ds = put buf pos (bs @ ds)"
  by (simp add: put_def ac_simps)

lemma nth_put: "pos \<le> length buf \<Longrightarrow> i < length bs \<Longrightarrow> put buf pos bs ! (pos + i) = bs ! i"
  by (simp add: put_def nth_append)

lemma put_same: "pos \<le> length buf \<Longrightarrow> length bs \<le> length cs \<Longrightarrow> put (put buf pos bs) pos cs = put buf pos cs"
  using put_over [of pos buf bs cs pos "[]"] by simp

lemma drop_eq_mono: "drop n xs = drop n ys \<Longrightarrow> n \<le> m \<Longrightarrow> drop m xs = drop m ys"
  by (metis drop_drop le_add_diff_inverse2)

lemma put_append: "put (xs @ ys) (length xs) zs = xs @ put ys 0 zs"
  by (simp add: put_def)

end
