(* ===== verification/Base64.thy ===== *)
theory Base64
  imports Constant_Time Buffers
begin

text \<open>
  BoringSSL's \<^verbatim>\<open>crypto/base64/base64.c\<close>: the branch-free alphabet, one-shot and
  streaming encoders (48 bytes to a line), one-shot and streaming decoders.  Inputs are byte lists,
  outputs are arrays (\<^verbatim>\<open>Buffers\<close>); input and output arrays do not overlap.
\<close>

section \<open>The alphabet\<close>

definition constant_time_lt_args_8 :: "u8 \<Rightarrow> u8 \<Rightarrow> u8" where
  "constant_time_lt_args_8 a b = ucast (constant_time_msb_w (ucast a - ucast b))"

definition constant_time_in_range_8 :: "u8 \<Rightarrow> u8 \<Rightarrow> u8 \<Rightarrow> u8" where
  "constant_time_in_range_8 a mn mx = constant_time_lt_args_8 (a - mn) (mx - mn + 1)"

text \<open>The characters: \<open>A = 65\<close>, \<open>Z = 90\<close>, \<open>a = 97\<close>, \<open>z = 122\<close>, \<open>0 = 48\<close>, \<open>9 = 57\<close>, plus is 43, slash
  47 and the padding character 61.\<close>

definition conv_bin2ascii :: "u8 \<Rightarrow> u8" where
  "conv_bin2ascii b =
     (let a = b AND 0x3F;
          ret = constant_time_select_8 (constant_time_eq_8 (ucast a) 62) 43 47;
          ret = constant_time_select_8 (constant_time_lt_args_8 a 62) (a - 52 + 48) ret;
          ret = constant_time_select_8 (constant_time_lt_args_8 a 52) (a - 26 + 97) ret
      in constant_time_select_8 (constant_time_lt_args_8 a 26) (a + 65) ret)"

definition base64_ascii_to_bin :: "u8 \<Rightarrow> u8" where
  "base64_ascii_to_bin a =
     (let is_upper = constant_time_in_range_8 a 65 90;
          is_lower = constant_time_in_range_8 a 97 122;
          is_digit = constant_time_in_range_8 a 48 57;
          is_plus = constant_time_eq_8 (ucast a) 43;
          is_slash = constant_time_eq_8 (ucast a) 47;
          is_equals = constant_time_eq_8 (ucast a) 61;
          ret = 0xFF;
          ret = constant_time_select_8 is_upper (a - 65) ret;
          ret = constant_time_select_8 is_lower (a - 97 + 26) ret;
          ret = constant_time_select_8 is_digit (a - 48 + 52) ret;
          ret = constant_time_select_8 is_plus 62 ret;
          ret = constant_time_select_8 is_slash 63 ret
      in constant_time_select_8 is_equals 0 ret)"

section \<open>Encoding\<close>

text \<open>\<^verbatim>\<open>EVP_EncodedLength\<close>: the size with the terminating NUL; \<open>None\<close> when it does not fit.\<close>

definition EVP_EncodedLength :: "u64 \<Rightarrow> u64 option" where
  "EVP_EncodedLength len =
     (if len + 2 < len then None
      else let len = (len + 2) div 3 in
        if drop_bit 2 (push_bit 2 len) \<noteq> len then None
        else let len = push_bit 2 len in
          if len + 1 < len then None else Some (len + 1))"

text \<open>The four characters of a 24-bit group.\<close>

definition sextet :: "u32 \<Rightarrow> nat \<Rightarrow> u8" where
  "sextet l sh = conv_bin2ascii (ucast (drop_bit sh l))"

fun encode_block_loop :: "u8 list \<Rightarrow> u8 list" where
  "encode_block_loop [] = []"
| "encode_block_loop (s0 # s1 # s2 # src) =
     (let l = push_bit 16 (ucast s0) OR push_bit 8 (ucast s1) OR ucast s2 in
      [sextet l 18, sextet l 12, sextet l 6, sextet l 0] @ encode_block_loop src)"
| "encode_block_loop [s0, s1] =
     (let l = push_bit 16 (ucast s0) OR push_bit 8 (ucast s1) in
      [sextet l 18, sextet l 12, sextet l 6, 61])"
| "encode_block_loop [s0] =
     (let l = push_bit 16 (ucast s0) in [sextet l 18, sextet l 12, 61, 61])"

text \<open>The bytes stored at \<^verbatim>\<open>dst\<close>, the terminating NUL included, and the returned count
  without it.\<close>

definition EVP_EncodeBlock :: "u8 list \<Rightarrow> u8 list \<times> nat" where
  "EVP_EncodeBlock src = (encode_block_loop src @ [0], length (encode_block_loop src))"

text \<open>\<^verbatim>\<open>EVP_ENCODE_CTX\<close>; \<open>data_used\<close> never exceeds 48.\<close>

record encode_ctx =
  data_used :: nat
  data :: "u8 list"
  eof_seen :: bool
  error_encountered :: bool

definition EVP_EncodeInit :: encode_ctx where
  "EVP_EncodeInit = \<lparr>data_used = 0, data = replicate 48 0, eof_seen = False, error_encountered = False\<rparr>"

text \<open>One line: \<^verbatim>\<open>EVP_EncodeBlock(out, ...); out += encoded; *(out++) = '\n'; *out = 0;\<close>\<close>

definition put_line :: "u8 list \<Rightarrow> nat \<Rightarrow> u8 list \<Rightarrow> u8 list \<times> nat" where
  "put_line out pos src =
     (let (block, encoded) = EVP_EncodeBlock src; pos' = pos + encoded in
      (put (put (put out pos block) pos' [10]) (pos' + 1) [0], encoded))"

text \<open>The loop over whole lines: it stops early when \<^verbatim>\<open>total\<close> overflows.\<close>

function encode_lines :: "u8 list \<Rightarrow> nat \<Rightarrow> u64 \<Rightarrow> u8 list \<Rightarrow> bool \<times> u8 list \<times> u64 \<times> u8 list" where
  "encode_lines out pos tot inp =
     (if length inp < 48 then (True, out, tot, inp)
      else
        let (out, encoded) = put_line out pos (take 48 inp) in
        if tot + of_nat encoded + 1 < tot then (False, out, tot, drop 48 inp)
        else encode_lines out (pos + encoded + 1) (tot + of_nat encoded + 1) (drop 48 inp))"
  by pat_completeness auto
termination
  by (relation "measure (\<lambda>(out, pos, tot, inp). length inp)") auto

declare encode_lines.simps [simp del]

abbreviation (input) INT_MAX :: nat where "INT_MAX \<equiv> 0x7FFFFFFF"

text \<open>The buffered bytes completed to a line, if any are buffered.\<close>

definition encode_flush :: "encode_ctx \<Rightarrow> u8 list \<Rightarrow> u8 list \<Rightarrow> encode_ctx \<times> u8 list \<times> nat \<times> u8 list" where
  "encode_flush ctx out inp =
     (if data_used ctx = 0 then (ctx, out, 0, inp)
      else
        let todo = 48 - data_used ctx; d = put (data ctx) (data_used ctx) (take todo inp);
            (out, encoded) = put_line out 0 d in
        (ctx\<lparr>data := d, data_used := 0\<rparr>, out, encoded + 1, drop todo inp))"

definition EVP_EncodeUpdate :: "encode_ctx \<Rightarrow> u8 list \<Rightarrow> u8 list \<Rightarrow> encode_ctx \<times> u8 list \<times> nat" where
  "EVP_EncodeUpdate ctx out inp =
     (if inp = [] then (ctx, out, 0)
      else if 48 - data_used ctx > length inp then
        (ctx\<lparr>data := put (data ctx) (data_used ctx) inp, data_used := data_used ctx + length inp\<rparr>, out, 0)
      else
        let (ctx, out, pos, inp) = encode_flush ctx out inp;
            (ok, out, tot, inp) = encode_lines out pos (of_nat pos) inp in
        if \<not> ok then (ctx, out, 0)
        else
          (ctx\<lparr>data := put (data ctx) 0 inp, data_used := length inp\<rparr>, out,
           if unat tot > INT_MAX then 0 else unat tot))"

definition EVP_EncodeFinal :: "encode_ctx \<Rightarrow> u8 list \<Rightarrow> encode_ctx \<times> u8 list \<times> nat" where
  "EVP_EncodeFinal ctx out =
     (if data_used ctx = 0 then (ctx, out, 0)
      else
        let (out, encoded) = put_line out 0 (take (data_used ctx) (data ctx)) in
        (ctx\<lparr>data_used := 0\<rparr>, out, encoded + 1))"

section \<open>Decoding\<close>

definition EVP_DecodedLength :: "nat \<Rightarrow> nat option" where
  "EVP_DecodedLength len = (if len mod 4 \<noteq> 0 then None else Some ((len div 4) * 3))"

definition EVP_DecodeInit :: encode_ctx where
  "EVP_DecodeInit = \<lparr>data_used = 0, data = replicate 48 0, eof_seen = False, error_encountered = False\<rparr>"

text \<open>\<^verbatim>\<open>base64_decode_quad\<close>: the bytes stored at \<^verbatim>\<open>out\<close>, whose number is
  \<^verbatim>\<open>*out_num_bytes\<close>; \<open>None\<close> is the error return.\<close>

definition padding_pattern :: "u8 \<Rightarrow> u8 \<Rightarrow> u8 \<Rightarrow> u8 \<Rightarrow> u32" where
  "padding_pattern i0 i1 i2 i3 =
     push_bit 3 (of_bool (i0 = 61)) OR push_bit 2 (of_bool (i1 = 61)) OR
     push_bit 1 (of_bool (i2 = 61)) OR of_bool (i3 = 61)"

definition base64_decode_quad :: "u8 \<Rightarrow> u8 \<Rightarrow> u8 \<Rightarrow> u8 \<Rightarrow> u8 list option" where
  "base64_decode_quad i0 i1 i2 i3 =
     (let a = base64_ascii_to_bin i0; b = base64_ascii_to_bin i1;
          c = base64_ascii_to_bin i2; d = base64_ascii_to_bin i3 in
      if a = 0xFF \<or> b = 0xFF \<or> c = 0xFF \<or> d = 0xFF then None
      else
        let v = push_bit 18 (ucast a) OR push_bit 12 (ucast b) OR push_bit 6 (ucast c) OR ucast d :: u32;
            pat = padding_pattern i0 i1 i2 i3 in
        if pat = 0 then Some [ucast (drop_bit 16 v), ucast (drop_bit 8 v), ucast v]
        else if pat = 1 then Some [ucast (drop_bit 16 v), ucast (drop_bit 8 v)]
        else if pat = 3 then Some [ucast (drop_bit 16 v)]
        else None)"

definition base64_space :: "u8 \<Rightarrow> bool" where
  "base64_space c \<longleftrightarrow> c = 32 \<or> c = 9 \<or> c = 13 \<or> c = 10"

text \<open>The state of the streaming decoder: context, output array and \<^verbatim>\<open>bytes_out\<close>, which is also
  how far \<^verbatim>\<open>out\<close> has advanced.  Each character of the input is one step; false: the update
  returns \<open>-1\<close>.\<close>

definition decode_char :: "u8 \<Rightarrow> encode_ctx \<times> u8 list \<times> nat \<Rightarrow> bool \<times> encode_ctx \<times> u8 list \<times> nat" where
  "decode_char c st =
     (case st of (ctx, out, bytes_out) \<Rightarrow>
        if base64_space c then (True, st)
        else if eof_seen ctx then (False, ctx\<lparr>error_encountered := True\<rparr>, out, bytes_out)
        else
          let ctx = ctx\<lparr>data := put (data ctx) (data_used ctx) [c], data_used := data_used ctx + 1\<rparr> in
          if data_used ctx \<noteq> 4 then (True, ctx, out, bytes_out)
          else
            case base64_decode_quad (data ctx ! 0) (data ctx ! 1) (data ctx ! 2) (data ctx ! 3) of
              None \<Rightarrow> (False, ctx\<lparr>error_encountered := True\<rparr>, out, bytes_out)
            | Some bs \<Rightarrow>
                (True, ctx\<lparr>data_used := 0, eof_seen := eof_seen ctx \<or> length bs < 3\<rparr>,
                 put out bytes_out bs, bytes_out + length bs))"

fun decode_chars :: "u8 list \<Rightarrow> encode_ctx \<times> u8 list \<times> nat \<Rightarrow> bool \<times> encode_ctx \<times> u8 list \<times> nat" where
  "decode_chars [] st = (True, st)"
| "decode_chars (c # cs) st = and_then (decode_char c st) (decode_chars cs)"

text \<open>The returned values are the C function's result (\<open>-1\<close> error, \<open>0\<close> end of data seen, \<open>1\<close> more may
  follow) and \<^verbatim>\<open>*out_len\<close>.\<close>

definition EVP_DecodeUpdate :: "encode_ctx \<Rightarrow> u8 list \<Rightarrow> u8 list \<Rightarrow> int \<times> encode_ctx \<times> u8 list \<times> nat" where
  "EVP_DecodeUpdate ctx out inp =
     (if error_encountered ctx then (-1, ctx, out, 0)
      else case decode_chars inp (ctx, out, 0) of
        (False, ctx, out, _) \<Rightarrow> (-1, ctx, out, 0)
      | (True, ctx, out, bytes_out) \<Rightarrow>
          if bytes_out > INT_MAX then (-1, ctx\<lparr>error_encountered := True\<rparr>, out, 0)
          else (if eof_seen ctx then 0 else 1, ctx, out, bytes_out))"

definition EVP_DecodeFinal :: "encode_ctx \<Rightarrow> int" where
  "EVP_DecodeFinal ctx = (if error_encountered ctx \<or> data_used ctx \<noteq> 0 then -1 else 1)"

text \<open>The loop of \<^verbatim>\<open>EVP_DecodeBase64\<close>, on the input from index \<open>i\<close> on.\<close>

fun decode_quads :: "u8 list \<Rightarrow> u8 list \<times> nat \<Rightarrow> bool \<times> u8 list \<times> nat" where
  "decode_quads (i0 # i1 # i2 # i3 # inp) (out, bytes_out) =
     (case base64_decode_quad i0 i1 i2 i3 of
        None \<Rightarrow> (False, out, bytes_out)
      | Some bs \<Rightarrow>
          let out = put out bytes_out bs; bytes_out = bytes_out + length bs in
          if length bs \<noteq> 3 \<and> inp \<noteq> [] then (False, out, bytes_out)
          else decode_quads inp (out, bytes_out))"
| "decode_quads _ st = (True, st)"

definition EVP_DecodeBase64 :: "u8 list \<Rightarrow> nat \<Rightarrow> u8 list \<Rightarrow> bool \<times> u8 list \<times> nat" where
  "EVP_DecodeBase64 out max_out inp =
     (if length inp mod 4 \<noteq> 0 then (False, out, 0)
      else case EVP_DecodedLength (length inp) of
        None \<Rightarrow> (False, out, 0)
      | Some max_len \<Rightarrow>
          if max_out < max_len then (False, out, 0)
          else case decode_quads inp (out, 0) of
            (False, out, _) \<Rightarrow> (False, out, 0)
          | (True, out, bytes_out) \<Rightarrow> (True, out, bytes_out))"

text \<open>\<^verbatim>\<open>while (dst_len % 3 != 0) dst[dst_len++] = 0;\<close>\<close>

function pad_with_nul :: "u8 list \<Rightarrow> nat \<Rightarrow> u8 list \<times> nat" where
  "pad_with_nul dst dst_len =
     (if dst_len mod 3 \<noteq> 0 then pad_with_nul (put dst dst_len [0]) (dst_len + 1) else (dst, dst_len))"
  by pat_completeness auto
termination
  by (relation "measure (\<lambda>(dst, dst_len). (3 - dst_len mod 3) mod 3)") (auto simp: mod_Suc)

declare pad_with_nul.simps [simp del]

definition trim_block :: "u8 list \<Rightarrow> u8 list" where
  "trim_block src =
     rev (dropWhile base64_space (rev (dropWhile (\<lambda>c. c = 32 \<or> c = 9) src)))"

definition EVP_DecodeBlock :: "u8 list \<Rightarrow> u8 list \<Rightarrow> int \<times> u8 list" where
  "EVP_DecodeBlock dst src =
     (let src = trim_block src in
      case EVP_DecodedLength (length src) of
        None \<Rightarrow> (-1, dst)
      | Some dst_len \<Rightarrow>
          if dst_len > INT_MAX then (-1, dst)
          else case EVP_DecodeBase64 dst dst_len src of
            (False, dst, _) \<Rightarrow> (-1, dst)
          | (True, dst, dst_len) \<Rightarrow> (case pad_with_nul dst dst_len of (dst, n) \<Rightarrow> (int n, dst)))"

section \<open>The alphabet is a code\<close>

lemma u8_below_63: "\<not> bit (ucast (c :: u8) :: u64) 63"
  using bit_imp_le_length [of c 63] by (auto simp: bit_simps)

lemma lt_args_8: "constant_time_lt_args_8 a b = bool_mask (a < b)"
  using bit_63_diff [of "ucast a" "ucast b"]
  by (simp add: u8_below_63 constant_time_lt_args_8_def msb_w word_less_nat_alt)

lemma ucast_u8_eq [simp]: "(ucast (a :: u8) :: u64) = ucast b \<longleftrightarrow> a = b"
  by (auto simp: word_unat_eq_iff)

lemma in_range_8:
  assumes "mn \<le> mx" "unat mx - unat mn < 255"
  shows "constant_time_in_range_8 a mn mx = bool_mask (mn \<le> a \<and> a \<le> mx)"
proof -
  have "unat (a - mn) < unat (mx - mn + 1) \<longleftrightarrow> unat mn \<le> unat a \<and> unat a \<le> unat mx"
  proof (cases "unat mn \<le> unat a")
    case True
    with assms show ?thesis
      by (auto simp: word_le_nat_alt unat_sub_if_size word_size unat_word_ariths)
  next
    case False
    have "unat mx < 256" "unat mn \<le> unat mx" using assms(1) by (simp_all add: word_le_nat_alt)
    with False have "\<not> unat a + 256 - unat mn < Suc (unat mx - unat mn)" by linarith
    with False assms show ?thesis
      by (auto simp: word_le_nat_alt unat_sub_if_size word_size unat_word_ariths)
  qed
  then show ?thesis
    by (simp add: constant_time_in_range_8_def lt_args_8 word_less_nat_alt word_le_nat_alt)
qed

text \<open>The two tables in ordinary conditionals.\<close>

lemma conv_bin2ascii_cases:
  "conv_bin2ascii b =
     (let a = b AND 0x3F in
      if a < 26 then a + 65 else if a < 52 then a - 26 + 97 else if a < 62 then a - 52 + 48
      else if a = 62 then 43 else 47)"
  using ucast_u8_eq [of _ 62] by (simp add: conv_bin2ascii_def Let_def lt_args_8 eq_8 select_8)

lemma base64_ascii_to_bin_cases:
  "base64_ascii_to_bin a =
     (if a = 61 then 0 else if a = 47 then 63 else if a = 43 then 62
      else if 48 \<le> a \<and> a \<le> 57 then a - 48 + 52
      else if 97 \<le> a \<and> a \<le> 122 then a - 97 + 26
      else if 65 \<le> a \<and> a \<le> 90 then a - 65 else 0xFF)"
  using ucast_u8_eq [of a 61] ucast_u8_eq [of a 43] ucast_u8_eq [of a 47]
  by (simp add: base64_ascii_to_bin_def Let_def in_range_8 eq_8 select_8)

text \<open>The alphabet of the encoding, and that the two tables are inverse on it.\<close>

definition base64_alphabet :: "u8 list" where
  "base64_alphabet =
     map of_char ''ABCDEFGHIJKLMNOPQRSTUVWXYZabcdefghijklmnopqrstuvwxyz0123456789+/''"

lemma conv_bin2ascii_mod: "conv_bin2ascii b = conv_bin2ascii (b AND 0x3F)"
  by (simp add: conv_bin2ascii_cases Let_def and.assoc)

lemma unat_and_3F: "unat (b AND 0x3F :: u8) < 64"
proof -
  have "b AND 0x3F = take_bit 6 b" by (simp add: take_bit_eq_mask mask_eq_exp_minus_1)
  then show ?thesis by (simp add: unsigned_take_bit_eq take_bit_nat_def)
qed

lemma u8_64_cases:
  assumes "list_all (\<lambda>n. P (of_nat n :: u8)) [0..<64]"
  shows "P (b AND 0x3F)"
proof -
  note unat_and_3F [of b]
  moreover have "\<forall>n < 64. P (of_nat n)" using assms by (simp add: list_all_iff)
  ultimately have "P (of_nat (unat (b AND 0x3F)))" by blast
  then show ?thesis by simp
qed

lemma alphabet_check: "map (\<lambda>n. conv_bin2ascii (of_nat n)) [0..<64] = base64_alphabet"
  unfolding conv_bin2ascii_cases base64_alphabet_def by code_simp

lemma table_check:
  "list_all (\<lambda>n. let b = of_nat n :: u8; c = conv_bin2ascii b in
     base64_ascii_to_bin c = b \<and> c \<noteq> 61 \<and> \<not> base64_space c) [0..<64]"
  unfolding conv_bin2ascii_cases base64_ascii_to_bin_cases by code_simp

lemma table_at:
  "base64_ascii_to_bin (conv_bin2ascii b) = b AND 0x3F"
  "conv_bin2ascii b \<noteq> 61" "\<not> base64_space (conv_bin2ascii b)"
  using u8_64_cases [OF table_check, of b] by (simp_all add: Let_def flip: conv_bin2ascii_mod)

lemma conv_alphabet: "conv_bin2ascii b = base64_alphabet ! unat (b AND 0x3F)"
proof -
  have "base64_alphabet ! unat (b AND 0x3F) = conv_bin2ascii (of_nat (unat (b AND 0x3F)))"
    using unat_and_3F [of b] by (simp flip: alphabet_check)
  then show ?thesis by (simp flip: conv_bin2ascii_mod)
qed

lemma inverse_digits:
  "list_all (\<lambda>n. conv_bin2ascii (of_nat n - 48 + 52) = of_nat n) [48..<58]"
  "list_all (\<lambda>n. conv_bin2ascii (of_nat n - 97 + 26) = of_nat n) [97..<123]"
  "list_all (\<lambda>n. conv_bin2ascii (of_nat n - 65) = of_nat n) [65..<91]"
  unfolding conv_bin2ascii_cases by code_simp+

lemma u8_between:
  fixes c :: u8
  assumes "list_all (\<lambda>n. P (of_nat n :: u8)) [i..<Suc j]" "of_nat i \<le> c" "c \<le> of_nat j" "j < 256"
    "i < 256"
  shows "P c"
proof -
  have "unat c \<in> {i..<Suc j}" using assms(2-) by (auto simp: word_le_nat_alt unat_of_nat)
  moreover have "\<forall>n \<in> {i..<Suc j}. P (of_nat n)" using assms(1) by (simp add: list_all_iff del: upt_Suc)
  ultimately have "P (of_nat (unat c))" by blast
  then show ?thesis by simp
qed

lemma inverse_table:
  "base64_ascii_to_bin c = 0xFF \<or> c = 61 \<or> conv_bin2ascii (base64_ascii_to_bin c) = c"
proof -
  have "conv_bin2ascii 63 = 47" "conv_bin2ascii 62 = 43" by (simp_all add: conv_bin2ascii_cases)
  moreover have "48 \<le> c \<Longrightarrow> c \<le> 57 \<Longrightarrow> conv_bin2ascii (c - 48 + 52) = c"
    using u8_between [of "\<lambda>c. conv_bin2ascii (c - 48 + 52) = c" 48 57] inverse_digits(1) by simp
  moreover have "97 \<le> c \<Longrightarrow> c \<le> 122 \<Longrightarrow> conv_bin2ascii (c - 97 + 26) = c"
    using u8_between [of "\<lambda>c. conv_bin2ascii (c - 97 + 26) = c" 97 122] inverse_digits(2) by simp
  moreover have "65 \<le> c \<Longrightarrow> c \<le> 90 \<Longrightarrow> conv_bin2ascii (c - 65) = c"
    using u8_between [of "\<lambda>c. conv_bin2ascii (c - 65) = c" 65 90] inverse_digits(3) by simp
  ultimately show ?thesis unfolding base64_ascii_to_bin_cases by (simp del: word_le_nat_alt)
qed

lemma sextet_facts [simp]:
  "base64_ascii_to_bin (sextet l n) = ucast (drop_bit n l) AND 0x3F"
  "sextet l n \<noteq> 61" "\<not> base64_space (sextet l n)"
  by (simp_all add: sextet_def table_at)

lemma pad_facts [simp]: "base64_ascii_to_bin 61 = 0" "\<not> base64_space 61"
  by (simp_all add: base64_ascii_to_bin_cases base64_space_def)

lemma and_3F_neq [simp]: "b AND 0x3F \<noteq> (0xFF :: u8)"
proof
  assume "b AND 0x3F = (0xFF :: u8)"
  then have "bit (b AND 0x3F) 7 = bit (0xFF :: u8) 7" by (simp only:)
  then show False by (simp add: bit_simps)
qed

text \<open>The branch-free tables are the base64 code: \<^verbatim>\<open>conv_bin2ascii\<close> looks its low six bits up
  in the base64 alphabet, \<^verbatim>\<open>base64_ascii_to_bin\<close> reads the character back, and rejects (with
  \<^verbatim>\<open>0xff\<close>) every character outside the alphabet except the padding character.\<close>

theorem base64_code:
  "conv_bin2ascii b = base64_alphabet ! unat (b AND 0x3F) \<and>
   base64_ascii_to_bin (conv_bin2ascii b) = b AND 0x3F \<and>
   (base64_ascii_to_bin c = 0xFF \<or> c = 61 \<or> conv_bin2ascii (base64_ascii_to_bin c) = c)"
  using table_at [of b] conv_alphabet [of b] inverse_table [of c] by simp

section \<open>Decoding inverts encoding\<close>

lemma bit_3F [simp]: "bit (63 :: int) k \<longleftrightarrow> k < 6" "bit (63 :: nat) k \<longleftrightarrow> k < 6"
proof -
  have "(63 :: int) = mask 6" "(63 :: nat) = mask 6" by (simp_all add: mask_eq_exp_minus_1)
  then show "bit (63 :: int) k \<longleftrightarrow> k < 6" "bit (63 :: nat) k \<longleftrightarrow> k < 6"
    by (simp_all only: bit_mask_iff) (simp_all add: possible_bit_def)
qed

text \<open>A sextet put back where it was taken from.\<close>

lemma bit_sextet:
  assumes "n + 6 \<le> 32"
  shows "bit (push_bit n (ucast (ucast (drop_bit n l) AND 0x3F :: u8)) :: u32) k \<longleftrightarrow>
    n \<le> k \<and> k < n + 6 \<and> bit (l :: u32) k"
proof (cases "n \<le> k")
  case True
  then obtain j where "k = n + j" by (auto simp: le_iff_add)
  with assms show ?thesis by (auto simp: bit_simps bit_3F)
qed (simp add: bit_simps)

definition sextet_at :: "u32 \<Rightarrow> nat \<Rightarrow> u32" where
  "sextet_at l n = push_bit n (ucast (ucast (drop_bit n l) AND 0x3F :: u8))"

lemma bit_sextet_at: "n + 6 \<le> 32 \<Longrightarrow> bit (sextet_at l n) k \<longleftrightarrow> n \<le> k \<and> k < n + 6 \<and> bit l k"
  unfolding sextet_at_def by (rule bit_sextet)

lemma sextet_at_0: "ucast (ucast l AND 0x3F :: u8) = sextet_at l 0" for l :: u32
  by (simp add: sextet_at_def)

text \<open>A quad decodes to the bytes of the group it was made from.\<close>

lemma quad_sextets:
  "base64_decode_quad (sextet l 18) (sextet l 12) (sextet l 6) (sextet l 0) =
     Some [ucast (drop_bit 16 l), ucast (drop_bit 8 l), ucast l]"
proof -
  let ?v = "sextet_at l 18 OR sextet_at l 12 OR sextet_at l 6 OR sextet_at l 0"
  have "(ucast (drop_bit n ?v) :: u8) = ucast (drop_bit n l)" if "n + 8 \<le> 24" for n
    using that by (intro bit_word_eqI) (auto simp: bit_simps bit_sextet_at)
  from this [of 16] this [of 8] this [of 0] show ?thesis
    by (simp add: base64_decode_quad_def padding_pattern_def Let_def sextet_at_0 [of l] flip: sextet_at_def)
qed

lemma quad_two:
  "base64_decode_quad (sextet l 18) (sextet l 12) (sextet l 6) 61 =
     Some [ucast (drop_bit 16 l), ucast (drop_bit 8 l)]"
proof -
  let ?v = "sextet_at l 18 OR sextet_at l 12 OR sextet_at l 6"
  have "(ucast (drop_bit n ?v) :: u8) = ucast (drop_bit n l)" if "8 \<le> n" "n + 8 \<le> 24" for n
    using that by (intro bit_word_eqI) (auto simp: bit_simps bit_sextet_at)
  from this [of 16] this [of 8] show ?thesis
    by (simp add: base64_decode_quad_def padding_pattern_def Let_def flip: sextet_at_def)
qed

lemma quad_one:
  "base64_decode_quad (sextet l 18) (sextet l 12) 61 61 = Some [ucast (drop_bit 16 l)]"
proof -
  let ?v = "sextet_at l 18 OR sextet_at l 12"
  have "(ucast (drop_bit 16 ?v) :: u8) = ucast (drop_bit 16 l)"
    by (intro bit_word_eqI) (auto simp: bit_simps bit_sextet_at)
  then show ?thesis
    by (simp add: base64_decode_quad_def padding_pattern_def Let_def flip: sextet_at_def)
qed

text \<open>The bytes a group is assembled from.\<close>

lemma group_bytes:
  fixes s0 s1 s2 :: u8
  defines "l \<equiv> push_bit 16 (ucast s0) OR push_bit 8 (ucast s1) OR ucast s2 :: u32"
  shows "ucast (drop_bit 16 l) = s0" "ucast (drop_bit 8 l) = s1" "ucast l = s2"
  unfolding l_def by (intro bit_word_eqI; auto simp: bit_simps dest: bit_imp_le_length)+

lemma group_bytes_two:
  fixes s0 s1 :: u8
  shows "ucast (drop_bit 16 (push_bit 16 (ucast s0) OR push_bit 8 (ucast s1) :: u32)) = s0"
    "ucast (drop_bit 8 (push_bit 16 (ucast s0) OR push_bit 8 (ucast s1) :: u32)) = s1"
    "ucast (drop_bit 16 (push_bit 16 (ucast s0) :: u32)) = s0"
  by (intro bit_word_eqI; auto simp: bit_simps dest: bit_imp_le_length)+

lemma decode_quads_encode:
  assumes "n \<le> length out"
  shows "decode_quads (encode_block_loop src) (out, n) = (True, put out n src, n + length src)"
  using assms
proof (induction src arbitrary: out n rule: encode_block_loop.induct)
  case (2 s0 s1 s2 src)
  then show ?case
    by (simp add: Let_def quad_sextets group_bytes length_put del: drop_bit_or)
qed (simp_all add: Let_def quad_two quad_one group_bytes_two del: drop_bit_or)

lemma div_3_step: "(5 + n) div 3 = Suc (Suc (Suc n) div 3)" for n :: nat
  by simp

lemma length_encode_block_loop: "length (encode_block_loop src) = 4 * ((length src + 2) div 3)"
  by (induction src rule: encode_block_loop.induct) (simp_all add: Let_def div_3_step)

lemma decode_encode_block:
  assumes "3 * ((length src + 2) div 3) \<le> max_out"
  shows "EVP_DecodeBase64 out max_out (encode_block_loop src) = (True, put out 0 src, length src)"
  using assms
  by (simp add: EVP_DecodeBase64_def EVP_DecodedLength_def length_encode_block_loop decode_quads_encode)

end
