(* ===== verification/Base64_Stream.thy ===== *)
theory Base64_Stream
  imports Base64
begin

text \<open>
  The streaming interface of \<^verbatim>\<open>crypto/base64/base64.c\<close> against its specification: the
  encoder writes the lines of the whole input however it is cut into updates, the decoder does not
  see how its input is cut, and it undoes the encoder.
\<close>

section \<open>The specification: lines of 48 bytes\<close>

function full_lines :: "u8 list \<Rightarrow> u8 list" where
  "full_lines inp =
     (if length inp < 48 then []
      else encode_block_loop (take 48 inp) @ [10] @ full_lines (drop 48 inp))"
  by pat_completeness auto
termination
  by (relation "measure length") auto

declare full_lines.simps [simp del]

function last_line :: "u8 list \<Rightarrow> u8 list" where
  "last_line inp = (if length inp < 48 then inp else last_line (drop 48 inp))"
  by pat_completeness auto
termination
  by (relation "measure length") auto

declare last_line.simps [simp del]

definition base64_lines :: "u8 list \<Rightarrow> u8 list" where
  "base64_lines inp =
     full_lines inp @ (if last_line inp = [] then [] else encode_block_loop (last_line inp) @ [10])"

lemma full_lines_short [simp]: "length inp < 48 \<Longrightarrow> full_lines inp = []"
  by (simp add: full_lines.simps)

lemma last_line_short [simp]: "length inp < 48 \<Longrightarrow> last_line inp = inp"
  by (simp add: last_line.simps)

lemma full_lines_step:
  "length xs = 48 \<Longrightarrow> full_lines (xs @ ys) = encode_block_loop xs @ 10 # full_lines ys"
  by (simp add: full_lines.simps [of "xs @ ys"])

lemma last_line_step: "length xs = 48 \<Longrightarrow> last_line (xs @ ys) = last_line ys"
  by (simp add: last_line.simps [of "xs @ ys"])

lemma length_last_line: "length (last_line inp) < 48"
proof (induction inp rule: last_line.induct)
  case (1 inp)
  then show ?case by (cases "length inp < 48") (simp_all add: last_line.simps [of inp])
qed

lemma length_full_lines: "length (full_lines inp) = 65 * (length inp div 48)"
proof (induction inp rule: full_lines.induct)
  case (1 inp)
  show ?case
  proof (cases "length inp < 48")
    case False
    with 1 have "length (full_lines (drop 48 inp)) = 65 * ((length inp - 48) div 48)" by simp
    moreover from False have "length inp div 48 = Suc ((length inp - 48) div 48)"
      by (simp add: le_div_geq)
    ultimately show ?thesis
      using False by (simp add: full_lines.simps [of inp] length_encode_block_loop)
  qed simp
qed

lemma split_line: "\<not> length xs < 48 \<Longrightarrow> \<exists>us vs. xs = us @ vs \<and> length us = 48"
  by (rule exI [of _ "take 48 xs"], rule exI [of _ "drop 48 xs"]) simp

lemma lines_append:
  "full_lines (xs @ ys) = full_lines xs @ full_lines (last_line xs @ ys)"
  "last_line (xs @ ys) = last_line (last_line xs @ ys)"
proof (induction xs rule: full_lines.induct)
  case (1 xs)
  have "full_lines (xs @ ys) = full_lines xs @ full_lines (last_line xs @ ys) \<and>
        last_line (xs @ ys) = last_line (last_line xs @ ys)"
  proof (cases "length xs < 48")
    case False
    then obtain us vs where xs: "xs = us @ vs" and us: "length us = 48"
      by (blast dest: split_line)
    with 1 False show ?thesis by (simp add: full_lines_step last_line_step)
  qed simp
  then show "full_lines (xs @ ys) = full_lines xs @ full_lines (last_line xs @ ys)"
    "last_line (xs @ ys) = last_line (last_line xs @ ys)" by simp_all
qed

lemma base64_lines_append: "base64_lines (xs @ ys) = full_lines xs @ base64_lines (last_line xs @ ys)"
  by (simp add: base64_lines_def lines_append [of xs ys])

section \<open>The encoder\<close>

text \<open>The array after the bytes \<open>bs\<close> have been written: they are followed by a NUL, unless nothing
  has been written.\<close>

definition written :: "u8 list \<Rightarrow> u8 list \<Rightarrow> u8 list" where
  "written out bs = (if bs = [] then out else put out 0 (bs @ [0]))"

lemma length_written [simp]: "length bs \<le> length (written out bs)"
  by (simp add: written_def put_0)

lemma put_line_written:
  "put_line (written out bs) (length bs) src =
     (written out (bs @ encode_block_loop src @ [10]), length (encode_block_loop src))"
proof -
  have *: "put_line out' pos src = (put out' pos ((encode_block_loop src @ [10]) @ [0]), length (encode_block_loop src))"
    if "pos \<le> length out'" for out' pos
    using that by (simp add: put_line_def EVP_EncodeBlock_def put_over)
  show ?thesis
    using * [of "length bs" "written out bs", OF length_written] by (auto simp: written_def put_over)
qed

lemma encode_lines_correct:
  assumes "length bs + 65 * (length inp div 48) < 2 ^ 64"
  shows "encode_lines (written out bs) (length bs) (of_nat (length bs)) inp =
     (True, written out (bs @ full_lines inp), of_nat (length (bs @ full_lines inp)), last_line inp)"
  using assms
proof (induction inp arbitrary: bs rule: full_lines.induct)
  case (1 inp)
  show ?case
  proof (cases "length inp < 48")
    case True
    then show ?thesis by (simp add: encode_lines.simps)
  next
    case False
    then obtain us vs where inp: "inp = us @ vs" and us: "length us = 48"
      by (blast dest: split_line)
    have small: "length bs + 65 + 65 * (length vs div 48) < 2 ^ 64"
      using 1(2) us by (simp add: inp le_div_geq)
    then have "unat (of_nat (length bs + 65) :: u64) = length bs + 65" "unat (of_nat (length bs) :: u64) = length bs"
      by (simp_all add: unsigned_of_nat take_bit_nat_eq_self del: of_nat_add)
    then have "\<not> (of_nat (length bs) + 65 :: u64) < of_nat (length bs)"
      by (simp add: word_less_nat_alt)
    moreover note 1(1) [of "bs @ encode_block_loop us @ [10]"]
    ultimately show ?thesis
      using False small us
      by (simp add: inp encode_lines.simps [of _ _ _ "us @ vs"] put_line_written full_lines_step
          last_line_step length_encode_block_loop ac_simps)
  qed
qed

text \<open>The bytes held back in the context, and the invariant of the encoder's context.\<close>

definition buffered :: "encode_ctx \<Rightarrow> u8 list" where
  "buffered ctx = take (data_used ctx) (data ctx)"

definition encode_inv :: "encode_ctx \<Rightarrow> bool" where
  "encode_inv ctx \<longleftrightarrow> data_used ctx < 48 \<and> length (data ctx) = 48"

lemma length_buffered: "encode_inv ctx \<Longrightarrow> length (buffered ctx) = data_used ctx"
  by (simp add: buffered_def encode_inv_def)

text \<open>An update writes the full lines of the buffered bytes and its input, and holds back the rest.\<close>

definition update_spec ::
  "encode_ctx \<Rightarrow> u8 list \<Rightarrow> u8 list \<Rightarrow> encode_ctx \<times> u8 list \<times> nat \<Rightarrow> bool" where
  "update_spec ctx out inp r \<longleftrightarrow>
     (case r of (ctx', out', n) \<Rightarrow>
        encode_inv ctx' \<and> buffered ctx' = last_line (buffered ctx @ inp) \<and>
        out' = written out (full_lines (buffered ctx @ inp)) \<and>
        n = length (full_lines (buffered ctx @ inp)))"

lemma update_buffers:
  assumes "encode_inv ctx" "length inp < 48 - data_used ctx"
  shows "update_spec ctx out inp (EVP_EncodeUpdate ctx out inp)"
  using assms
  by (auto simp: update_spec_def EVP_EncodeUpdate_def encode_inv_def buffered_def written_def put_def)

lemma flush_correct:
  assumes "encode_inv ctx" "48 - data_used ctx \<le> length inp"
  obtains d rest bs where
    "encode_flush ctx out inp = (ctx\<lparr>data := d, data_used := 0\<rparr>, written out bs, length bs, rest)"
    "length d = 48" "full_lines (buffered ctx @ inp) = bs @ full_lines rest"
    "last_line (buffered ctx @ inp) = last_line rest" "length rest \<le> length inp" "length bs \<le> 65"
proof (cases "data_used ctx = 0")
  case True
  with assms that [of "data ctx" "[]" inp] show ?thesis
    by (simp add: encode_flush_def written_def buffered_def encode_inv_def)
next
  case False
  define todo where "todo = 48 - data_used ctx"
  define d where "d = put (data ctx) (data_used ctx) (take todo inp)"
  have d: "d = buffered ctx @ take todo inp" and len: "length d = 48"
    using assms by (auto simp: d_def put_def buffered_def encode_inv_def todo_def)
  then have split: "buffered ctx @ inp = d @ drop todo inp" by simp
  have line: "put_line out 0 d = (written out (encode_block_loop d @ [10]), length (encode_block_loop d))"
    using put_line_written [of out "[]" d] by (simp add: written_def)
  have "encode_flush ctx out inp =
      (ctx\<lparr>data := d, data_used := 0\<rparr>, written out (encode_block_loop d @ [10]),
       length (encode_block_loop d @ [10]), drop todo inp)"
    using False line by (simp add: encode_flush_def Let_def flip: todo_def d_def)
  from that [OF this len] show ?thesis
    by (simp add: split len full_lines_step last_line_step length_encode_block_loop)
qed

lemma update_writes:
  assumes "encode_inv ctx" "48 - data_used ctx \<le> length inp"
    and "65 * (length (buffered ctx @ inp) div 48) \<le> INT_MAX"
  shows "update_spec ctx out inp (EVP_EncodeUpdate ctx out inp)"
proof -
  from flush_correct [OF assms(1,2)] obtain d rest bs where fl:
    "encode_flush ctx out inp = (ctx\<lparr>data := d, data_used := 0\<rparr>, written out bs, length bs, rest)"
    "length d = 48" "full_lines (buffered ctx @ inp) = bs @ full_lines rest"
    "last_line (buffered ctx @ inp) = last_line rest" by metis
  have len: "length (bs @ full_lines rest) \<le> INT_MAX"
    using assms(3) length_full_lines [of "buffered ctx @ inp"] by (simp add: fl(3))
  then have "length bs + 65 * (length rest div 48) < 2 ^ 64" by (simp add: length_full_lines)
  note el = encode_lines_correct [OF this, of out]
  have small: "unat (of_nat (length (bs @ full_lines rest)) :: u64) = length (bs @ full_lines rest)"
    using len by (simp add: unsigned_of_nat take_bit_nat_eq_self del: of_nat_add)
  have "inp \<noteq> []" using assms(1,2) by (auto simp: encode_inv_def)
  then have "EVP_EncodeUpdate ctx out inp =
      (ctx\<lparr>data := put d 0 (last_line rest), data_used := length (last_line rest)\<rparr>,
       written out (bs @ full_lines rest), length (bs @ full_lines rest))"
    using assms(2) len el small by (simp add: EVP_EncodeUpdate_def fl(1) del: of_nat_add length_append)
  then show ?thesis
    using fl length_last_line [of rest]
    by (simp add: update_spec_def encode_inv_def buffered_def put_def)
qed

lemma update_correct:
  assumes "encode_inv ctx" "65 * (length (buffered ctx @ inp) div 48) \<le> INT_MAX"
  shows "update_spec ctx out inp (EVP_EncodeUpdate ctx out inp)"
  using update_buffers [OF assms(1)] update_writes [OF assms(1) _ assms(2)] by (meson not_le)

lemma final_correct:
  assumes "encode_inv ctx"
  shows "EVP_EncodeFinal ctx out =
    (ctx\<lparr>data_used := 0\<rparr>,
     written out (if buffered ctx = [] then [] else encode_block_loop (buffered ctx) @ [10]),
     length (if buffered ctx = [] then [] else encode_block_loop (buffered ctx) @ [10]))"
proof -
  have "put_line out 0 src = (written out (encode_block_loop src @ [10]), length (encode_block_loop src))" for src
    using put_line_written [of out "[]" src] by (simp add: written_def)
  moreover have "buffered ctx = [] \<longleftrightarrow> data_used ctx = 0"
    using length_buffered [OF assms] by auto
  ultimately show ?thesis
    by (auto simp: EVP_EncodeFinal_def written_def buffered_def)
qed

text \<open>A client that passes the chunks to \<^verbatim>\<open>EVP_EncodeUpdate\<close> one after the other,
  finishes with \<^verbatim>\<open>EVP_EncodeFinal\<close> and collects what each call reports as written.\<close>

fun encode_session :: "u8 list \<Rightarrow> encode_ctx \<Rightarrow> u8 list list \<Rightarrow> u8 list" where
  "encode_session buf ctx [] = (case EVP_EncodeFinal ctx buf of (ctx, out, n) \<Rightarrow> take n out)"
| "encode_session buf ctx (c # cs) =
     (case EVP_EncodeUpdate ctx buf c of (ctx, out, n) \<Rightarrow> take n out @ encode_session buf ctx cs)"

lemma take_written [simp]: "take (length bs) (written out bs) = bs"
  by (simp add: written_def put_0)

lemma encode_session_from:
  assumes "encode_inv ctx" "list_all (\<lambda>c. 65 * ((length c + 47) div 48) \<le> INT_MAX) chunks"
  shows "encode_session buf ctx chunks = base64_lines (buffered ctx @ concat chunks)"
  using assms
proof (induction chunks arbitrary: ctx)
  case Nil
  then have "length (buffered ctx) < 48" by (simp add: length_buffered) (simp add: encode_inv_def)
  then show ?case using Nil by (simp add: final_correct base64_lines_def)
next
  case (Cons c cs)
  have "length (buffered ctx @ c) \<le> length c + 47"
    using length_buffered [OF Cons.prems(1)] Cons.prems(1) by (simp add: encode_inv_def)
  then have "65 * (length (buffered ctx @ c) div 48) \<le> 65 * ((length c + 47) div 48)"
    by (intro mult_le_mono div_le_mono) simp_all
  then have "65 * (length (buffered ctx @ c) div 48) \<le> INT_MAX"
    using Cons.prems(2) by simp
  from update_correct [OF Cons.prems(1) this, of buf] Cons show ?case
    using base64_lines_append [of "buffered ctx @ c" "concat cs"]
    by (auto simp: update_spec_def split: prod.splits)
qed

lemma buffered_init [simp]: "buffered EVP_EncodeInit = []"
  by (simp add: buffered_def EVP_EncodeInit_def)

lemma encode_inv_init [simp]: "encode_inv EVP_EncodeInit"
  by (simp add: encode_inv_def EVP_EncodeInit_def)

text \<open>C13. However the input is cut into chunks, the streaming encoder produces the same bytes: the
  base64 lines of the whole input, 48 input bytes to a line, the last line padded, each line ended
  by a newline.  Each chunk must be small enough for its output to be counted in an
  \<^verbatim>\<open>int\<close>.\<close>

theorem encode_chunks:
  assumes "list_all (\<lambda>c. 65 * ((length c + 47) div 48) \<le> INT_MAX) chunks"
  shows "encode_session buf EVP_EncodeInit chunks = base64_lines (concat chunks)"
  using encode_session_from [OF encode_inv_init assms, of buf] by simp

theorem encode_chunks_witness:
  "encode_session [] EVP_EncodeInit [[1, 2], [], [3, 4]] = base64_lines [1, 2, 3, 4]"
  using encode_chunks [of "[[1, 2], [], [3, 4]]" "[]"] by simp

text \<open>An update keeps the context's invariant (fewer than 48 bytes held back), stores nothing
  beyond the reported bytes and one terminating NUL, and so stays inside every output array that
  is longer than what it reports.\<close>

theorem encode_update_bounds:
  assumes "encode_inv ctx" "65 * ((length inp + 47) div 48) \<le> INT_MAX"
    and "EVP_EncodeUpdate ctx out inp = (ctx', out', n)"
  shows "encode_inv ctx' \<and> drop (n + 1) out' = drop (n + 1) out \<and>
    (n < length out \<longrightarrow> length out' = length out)"
proof -
  have "length (buffered ctx @ inp) \<le> length inp + 47"
    using length_buffered [OF assms(1)] assms(1) by (simp add: encode_inv_def)
  then have "65 * (length (buffered ctx @ inp) div 48) \<le> 65 * ((length inp + 47) div 48)"
    by (intro mult_le_mono div_le_mono) simp_all
  with assms(2) have "65 * (length (buffered ctx @ inp) div 48) \<le> INT_MAX" by simp
  from update_correct [OF assms(1) this, of out] assms(3) show ?thesis
    by (auto simp: update_spec_def written_def put_0)
qed

theorem encode_update_bounds_witness:
  "let (ctx', out', n) = EVP_EncodeUpdate EVP_EncodeInit (replicate 100 7) (replicate 50 1) in
   encode_inv ctx' \<and> drop (n + 1) out' = drop (n + 1) (replicate 100 7)"
  using encode_update_bounds [OF encode_inv_init, of "replicate 50 1" "replicate 100 7"]
  by (simp split: prod.splits)

section \<open>The decoder\<close>

lemma decode_chars_append:
  "decode_chars (xs @ ys) st = and_then (decode_chars xs st) (decode_chars ys)"
  by (induction xs arbitrary: st) (simp_all add: and_then_def split: prod.splits)

text \<open>The output array in front of the current position does not matter.\<close>

definition shift_out :: "u8 list \<Rightarrow> bool \<times> encode_ctx \<times> u8 list \<times> nat \<Rightarrow> bool \<times> encode_ctx \<times> u8 list \<times> nat" where
  "shift_out pre r = (case r of (ok, ctx, out, n) \<Rightarrow> (ok, ctx, pre @ out, length pre + n))"

lemma put_shift: "put (pre @ out) (length pre + n) bs = pre @ put out n bs"
  by (simp add: put_def ac_simps)

lemma decode_char_shift:
  "decode_char c (ctx, pre @ out, length pre + n) = shift_out pre (decode_char c (ctx, out, n))"
  by (simp add: decode_char_def shift_out_def Let_def put_shift split: option.splits)

lemma decode_chars_shift:
  "decode_chars cs (ctx, pre @ out, length pre + n) = shift_out pre (decode_chars cs (ctx, out, n))"
proof (induction cs arbitrary: ctx out n)
  case (Cons c cs)
  then show ?case
    by (cases "decode_char c (ctx, out, n)")
       (auto simp: decode_char_shift and_then_def shift_out_def split: prod.splits)
qed (simp add: shift_out_def)

text \<open>The invariant of the decoder's context.\<close>

definition decode_inv :: "encode_ctx \<Rightarrow> bool" where
  "decode_inv ctx \<longleftrightarrow> length (data ctx) = 48 \<and>
     (error_encountered ctx \<or> data_used ctx < 4 \<and> (eof_seen ctx \<longrightarrow> data_used ctx = 0))"

lemma decode_inv_init [simp]: "decode_inv EVP_DecodeInit"
  by (simp add: decode_inv_def EVP_DecodeInit_def)

lemma length_quad: "base64_decode_quad a b c d = Some bs \<Longrightarrow> length bs \<le> 3 \<and> bs \<noteq> []"
  by (auto simp: base64_decode_quad_def Let_def split: if_splits)

text \<open>What a character does to the array and the counters, whether it is accepted or not.\<close>

definition decode_progress ::
  "nat \<Rightarrow> encode_ctx \<times> u8 list \<times> nat \<Rightarrow> bool \<times> encode_ctx \<times> u8 list \<times> nat \<Rightarrow> bool" where
  "decode_progress k st r \<longleftrightarrow>
     (case (st, r) of ((ctx, out, n), ok, ctx', out', n') \<Rightarrow>
        decode_inv ctx' \<and> error_encountered ctx' = (\<not> ok) \<and>
        n \<le> n' \<and> length out' = max (length out) n' \<and> drop n' out' = drop n' out \<and>
        4 * n' + 3 * data_used ctx' \<le> 4 * n + 3 * (data_used ctx + k))"

lemma decode_char_progress:
  assumes "decode_inv ctx" "\<not> error_encountered ctx" "n \<le> length out"
  shows "decode_progress 1 (ctx, out, n) (decode_char c (ctx, out, n))"
proof (cases "base64_space c \<or> eof_seen ctx")
  case True
  with assms show ?thesis by (auto simp: decode_char_def decode_progress_def decode_inv_def)
next
  case False
  let ?d = "put (data ctx) (data_used ctx) [c]"
  have len: "length ?d = 48" using assms by (simp add: decode_inv_def)
  show ?thesis
  proof (cases "data_used ctx = 3")
    case True
    with False assms len show ?thesis
      by (cases "base64_decode_quad (?d ! 0) (?d ! 1) (?d ! 2) (?d ! 3)")
         (auto simp: decode_char_def decode_progress_def decode_inv_def length_put max_def dest: length_quad)
  next
    case used: False
    with False assms len show ?thesis
      by (auto simp: decode_char_def decode_progress_def decode_inv_def)
  qed
qed

lemma decode_chars_progress:
  assumes "decode_inv ctx" "\<not> error_encountered ctx" "n \<le> length out"
  shows "decode_progress (length cs) (ctx, out, n) (decode_chars cs (ctx, out, n))"
  using assms
proof (induction cs arbitrary: ctx out n)
  case (Cons c cs)
  obtain ok ctx1 out1 n1 where r: "decode_char c (ctx, out, n) = (ok, ctx1, out1, n1)"
    by (cases "decode_char c (ctx, out, n)")
  note p = decode_char_progress [OF Cons.prems, of c, unfolded r]
  show ?case
  proof (cases ok)
    case True
    with p Cons.IH [of ctx1 n1 out1]
    have "decode_progress (length cs) (ctx1, out1, n1) (decode_chars cs (ctx1, out1, n1))"
      by (auto simp: decode_progress_def)
    with p True r show ?thesis
      by (cases "decode_chars cs (ctx1, out1, n1)")
         (auto simp: decode_progress_def and_then_def dest: drop_eq_mono)
  next
    case False
    with p r show ?thesis by (auto simp: decode_progress_def and_then_def)
  qed
qed (auto simp: decode_progress_def)

text \<open>Whatever the input, an update of the streaming decoder keeps its context consistent (fewer
  than four characters held back, none after the end of the data, an error recorded exactly when it
  returns \<open>-1\<close>), reports at most three bytes for four characters, and stays inside an output array of
  that size.\<close>

theorem decode_update_inv:
  assumes "decode_inv ctx" "EVP_DecodeUpdate ctx out inp = (r, ctx', out', n)"
  shows "decode_inv ctx' \<and> (r = -1 \<longleftrightarrow> error_encountered ctx') \<and> (r = -1 \<longrightarrow> n = 0) \<and>
    4 * n \<le> 3 * (data_used ctx + length inp) \<and>
    (3 * (data_used ctx + length inp) \<le> 4 * length out \<longrightarrow> length out' = length out)"
proof (cases "error_encountered ctx")
  case True
  with assms show ?thesis by (auto simp: EVP_DecodeUpdate_def)
next
  case False
  obtain ok ctx1 out1 n1 where r: "decode_chars inp (ctx, out, 0) = (ok, ctx1, out1, n1)"
    by (cases "decode_chars inp (ctx, out, 0)")
  from decode_chars_progress [OF assms(1) False, of 0 out inp]
  have "decode_inv ctx1" "error_encountered ctx1 = (\<not> ok)" "length out1 = max (length out) n1"
    "4 * n1 \<le> 3 * (data_used ctx + length inp)"
    by (auto simp: decode_progress_def r)
  then show ?thesis
    using assms(2) False
    by (auto simp: EVP_DecodeUpdate_def r decode_inv_def max_def split: bool.splits if_splits)
qed

theorem decode_update_inv_witness:
  "let (r, ctx', out', n) = EVP_DecodeUpdate EVP_DecodeInit [0, 0, 0] [81, 81, 61, 61] in
   decode_inv ctx' \<and> (r = -1 \<longleftrightarrow> error_encountered ctx') \<and> length out' = 3"
  using decode_update_inv [OF decode_inv_init, of "[0, 0, 0]" "[81, 81, 61, 61]"]
  by (auto simp: EVP_DecodeInit_def split: prod.splits)

text \<open>C14. The streaming decoder does not see where its input is cut: two updates, the second storing
  behind what the first reported and made only when the first did not fail, do exactly what one update on the
  joined input does, with the same context and output, and the same result and count: \<open>-1\<close> if either fails, and else
  the result of the second and the sum of the counts.  (The output of the joined input must fit in an
  \<^verbatim>\<open>int\<close>, since a call that stores more fails.)\<close>

theorem decode_update_split:
  assumes "decode_inv ctx" "3 * (data_used ctx + length xs + length ys) \<le> 4 * INT_MAX"
  shows "EVP_DecodeUpdate ctx out (xs @ ys) =
    (case EVP_DecodeUpdate ctx out xs of (r1, ctx1, out1, n1) \<Rightarrow>
       if r1 = -1 then (-1, ctx1, out1, 0)
       else case EVP_DecodeUpdate ctx1 (drop n1 out1) ys of (r2, ctx2, out2, n2) \<Rightarrow>
         if r2 = -1 then (-1, ctx2, take n1 out1 @ out2, 0) else (r2, ctx2, take n1 out1 @ out2, n1 + n2))"
proof (cases "error_encountered ctx")
  case True
  then show ?thesis by (simp add: EVP_DecodeUpdate_def)
next
  case ne: False
  obtain ok1 ctx1 out1 n1 where d1: "decode_chars xs (ctx, out, 0) = (ok1, ctx1, out1, n1)"
    by (cases "decode_chars xs (ctx, out, 0)")
  from decode_chars_progress [OF assms(1) ne, of 0 out xs]
  have p1: "decode_inv ctx1" "error_encountered ctx1 = (\<not> ok1)" "n1 \<le> length out1"
    "4 * n1 + 3 * data_used ctx1 \<le> 3 * (data_used ctx + length xs)"
    by (simp_all add: decode_progress_def d1)
  have "4 * n1 \<le> 4 * INT_MAX" using p1(4) assms(2) unfolding distrib_left by linarith
  then have "n1 \<le> INT_MAX" by simp
  then have u1: "EVP_DecodeUpdate ctx out xs =
      (if ok1 then (if eof_seen ctx1 then 0 else 1, ctx1, out1, n1) else (-1, ctx1, out1, 0))"
    using ne by (simp add: EVP_DecodeUpdate_def d1)
  show ?thesis
  proof (cases ok1)
    case False
    then show ?thesis using ne u1 by (simp add: EVP_DecodeUpdate_def decode_chars_append d1 and_then_def)
  next
    case True
    obtain ok2 ctx2 out2 n2 where d2: "decode_chars ys (ctx1, drop n1 out1, 0) = (ok2, ctx2, out2, n2)"
      by (cases "decode_chars ys (ctx1, drop n1 out1, 0)")
    from decode_chars_progress [of ctx1 0 "drop n1 out1" ys] p1(1,2) True
    have "4 * n2 + 3 * data_used ctx2 \<le> 3 * (data_used ctx1 + length ys)" by (simp add: decode_progress_def d2)
    then have "4 * (n1 + n2) \<le> 4 * INT_MAX" using p1(4) assms(2) unfolding distrib_left by linarith
    then have n: "n1 + n2 \<le> INT_MAX" by simp
    have joined: "decode_chars (xs @ ys) (ctx, out, 0) = (ok2, ctx2, take n1 out1 @ out2, n1 + n2)"
      using decode_chars_shift [of ys ctx1 "take n1 out1" "drop n1 out1" 0] p1(3) True
      by (simp add: decode_chars_append d1 d2 and_then_def shift_out_def min.absorb2)
    have "EVP_DecodeUpdate ctx1 (drop n1 out1) ys = (if ok2 then (if eof_seen ctx2 then 0 else 1, ctx2, out2, n2) else (-1, ctx2, out2, 0))"
      using True p1(2) n by (cases ok2) (simp_all add: EVP_DecodeUpdate_def d2)
    moreover have "EVP_DecodeUpdate ctx out (xs @ ys) =
        (if ok2 then (if eof_seen ctx2 then 0 else 1, ctx2, take n1 out1 @ out2, n1 + n2) else (-1, ctx2, take n1 out1 @ out2, 0))"
      using ne n by (cases ok2) (simp_all add: EVP_DecodeUpdate_def joined)
    ultimately show ?thesis using u1 True by simp
  qed
qed

text \<open>Cut inside a quadruple; and a character that no text has fails on either side of the cut.\<close>

theorem decode_update_split_witness:
  "fst (EVP_DecodeUpdate EVP_DecodeInit [] ([81, 10] @ [85])) = 1 \<and>
   fst (EVP_DecodeUpdate EVP_DecodeInit [] ([81, 81, 81, 33] @ [85])) = -1 \<and>
   fst (EVP_DecodeUpdate EVP_DecodeInit [] ([81, 81] @ [81, 33])) = -1"
proof -
  have quad: "base64_decode_quad 81 81 81 33 = None" by code_simp
  have size: "3 * (data_used EVP_DecodeInit + length xs + length ys) \<le> 4 * INT_MAX"
    if "length xs + length ys \<le> 100" for xs ys :: "u8 list"
    using that by (simp add: EVP_DecodeInit_def)
  show ?thesis
    using decode_update_split [OF decode_inv_init size, of "[81, 10]" "[85]" "[]"]
      decode_update_split [OF decode_inv_init size, of "[81, 81, 81, 33]" "[85]" "[]"]
      decode_update_split [OF decode_inv_init size, of "[81, 81]" "[81, 33]" "[]"]
    by (simp add: EVP_DecodeUpdate_def EVP_DecodeInit_def decode_char_def base64_space_def put_def quad and_then_def Let_def)
qed

section \<open>Decoding what the encoder wrote\<close>

lemma nth_put_0 [simp]:
  "put d 0 [a, b, c, e] ! 0 = a" "put d 0 [a, b, c, e] ! Suc 0 = b"
  "put d 0 [a, b, c, e] ! 2 = c" "put d 0 [a, b, c, e] ! 3 = e"
  by (simp_all add: put_0 numeral_2_eq_2 numeral_3_eq_3)

text \<open>A fresh decoder state: nothing held back, the end not seen.\<close>

definition ready :: "encode_ctx \<Rightarrow> bool" where
  "ready ctx \<longleftrightarrow> data_used ctx = 0 \<and> \<not> eof_seen ctx \<and> \<not> error_encountered ctx"

lemma ready_update [simp]:
  "ready ctx \<Longrightarrow> ctx\<lparr>data := d, eof_seen := False\<rparr> = ctx\<lparr>data := d\<rparr>"
  by (cases ctx) (simp add: ready_def)

lemma ready_data [simp]: "ready (ctx\<lparr>data := d\<rparr>) = ready ctx"
  by (simp add: ready_def)

lemma ready_fields: "ready ctx \<Longrightarrow> data_used ctx = 0" "ready ctx \<Longrightarrow> \<not> eof_seen ctx"
  by (simp_all add: ready_def)

lemma ready_used:
  "ready ctx \<Longrightarrow> ctx\<lparr>data := d, data_used := 0, eof_seen := p\<rparr> = ctx\<lparr>data := d, eof_seen := p\<rparr>"
  by (cases ctx) (simp add: ready_def)

lemma decode_chars_quad:
  assumes "base64_decode_quad a b c d = Some bs" "ready ctx"
    and "\<not> base64_space a" "\<not> base64_space b" "\<not> base64_space c" "\<not> base64_space d"
  shows "decode_chars (a # b # c # d # cs) (ctx, out, n) =
    decode_chars cs (ctx\<lparr>data := put (data ctx) 0 [a, b, c, d], eof_seen := length bs < 3\<rparr>,
      put out n bs, n + length bs)"
  using assms(1,3-6) by (simp add: decode_char_def and_then_def ready_used [OF assms(2)] ready_fields [OF assms(2)])

lemma decode_block_chars:
  assumes "ready ctx" "n \<le> length out"
  shows "\<exists>d. decode_chars (encode_block_loop src) (ctx, out, n) =
    (True, ctx\<lparr>data := d, eof_seen := length src mod 3 \<noteq> 0\<rparr>, put out n src, n + length src)"
  using assms
proof (induction src arbitrary: ctx out n rule: encode_block_loop.induct)
  case 1
  then show ?case by (auto simp: ready_def intro!: exI [of _ "data ctx"])
next
  case (2 s0 s1 s2 src)
  define l :: u32 where "l = push_bit 16 (ucast s0) OR push_bit 8 (ucast s1) OR ucast s2"
  let ?ctx = "ctx\<lparr>data := put (data ctx) 0 [sextet l 18, sextet l 12, sextet l 6, sextet l 0]\<rparr>"
  have bytes: "ucast (drop_bit 16 l) = s0" "ucast (drop_bit 8 l) = s1" "ucast l = s2"
    unfolding l_def by (rule group_bytes)+
  have q: "base64_decode_quad (sextet l 18) (sextet l 12) (sextet l 6) (sextet l 0) = Some [s0, s1, s2]"
    by (simp only: quad_sextets bytes)
  have "ready ?ctx" "n + 3 \<le> length (put out n [s0, s1, s2])" using 2(2,3) by (simp_all add: length_put)
  from 2(1) [OF l_def this] obtain d where rest:
    "decode_chars (encode_block_loop src) (?ctx, put out n [s0, s1, s2], n + 3) =
      (True, ?ctx\<lparr>data := d, eof_seen := length src mod 3 \<noteq> 0\<rparr>,
       put (put out n [s0, s1, s2]) (n + 3) src, n + 3 + length src)" by blast
  have "decode_chars (encode_block_loop (s0 # s1 # s2 # src)) (ctx, out, n) =
      decode_chars (encode_block_loop src) (?ctx, put out n [s0, s1, s2], n + 3)"
    using decode_chars_quad [OF q 2(2), of "encode_block_loop src" out n] 2(2)
    by (simp add: Let_def numeral_3_eq_3 del: decode_chars.simps(2) flip: l_def)
  then show ?case using 2(3) by (simp add: rest) blast
next
  case (3 s0 s1)
  define l :: u32 where "l = push_bit 16 (ucast s0) OR push_bit 8 (ucast s1)"
  have q: "base64_decode_quad (sextet l 18) (sextet l 12) (sextet l 6) 61 = Some [s0, s1]"
    using quad_two [of l] group_bytes_two by (simp only: l_def)
  from decode_chars_quad [OF q 3(1), of "[]" out n] show ?case
    by (auto simp: Let_def simp del: decode_chars.simps(2) simp flip: l_def)
next
  case (4 s0)
  define l :: u32 where "l = push_bit 16 (ucast s0)"
  have q: "base64_decode_quad (sextet l 18) (sextet l 12) 61 61 = Some [s0]"
    using quad_one [of l] group_bytes_two by (simp only: l_def)
  from decode_chars_quad [OF q 4(1), of "[]" out n] show ?case
    by (auto simp: Let_def simp del: decode_chars.simps(2) simp flip: l_def)
qed

lemma decode_newline: "decode_chars (10 # cs) st = decode_chars cs st"
  by (cases st) (simp add: decode_char_def base64_space_def and_then_def)

lemma decode_lines:
  assumes "ready ctx" "n \<le> length out"
  shows "\<exists>d. decode_chars (base64_lines bs) (ctx, out, n) =
    (True, ctx\<lparr>data := d, eof_seen := length bs mod 3 \<noteq> 0\<rparr>, put out n bs, n + length bs)"
  using assms
proof (induction bs arbitrary: ctx out n rule: full_lines.induct)
  case (1 bs)
  show ?case
  proof (cases "length bs < 48")
    case True
    then show ?thesis
      using decode_block_chars [OF 1(2,3), of bs] 1(2)
      by (auto simp: base64_lines_def decode_chars_append and_then_def decode_newline ready_def
          simp del: decode_chars.simps(2) intro: exI [of _ "data ctx"])
  next
    case False
    then obtain us vs where bs: "bs = us @ vs" and us: "length us = 48" by (blast dest: split_line)
    then have lines: "base64_lines bs = encode_block_loop us @ 10 # base64_lines vs"
      by (simp add: base64_lines_def full_lines_step last_line_step)
    from decode_block_chars [OF 1(2,3), of us] us obtain d where
      first: "decode_chars (encode_block_loop us) (ctx, out, n) =
        (True, ctx\<lparr>data := d, eof_seen := False\<rparr>, put out n us, n + 48)" by auto
    have "\<exists>d'. decode_chars (base64_lines (drop 48 bs)) (ctx\<lparr>data := d, eof_seen := False\<rparr>, put out n us, n + 48) =
        (True, (ctx\<lparr>data := d, eof_seen := False\<rparr>)\<lparr>data := d', eof_seen := length (drop 48 bs) mod 3 \<noteq> 0\<rparr>,
         put (put out n us) (n + 48) (drop 48 bs), n + 48 + length (drop 48 bs))"
      using 1(2,3) False us by (intro 1(1)) (auto simp: ready_def length_put)
    moreover have "(48 + length vs) mod 3 = length vs mod 3" by presburger
    ultimately show ?thesis
      using 1(3) us by (auto simp: lines [unfolded bs] decode_chars_append and_then_def decode_newline first bs
          simp del: decode_chars.simps(2))
  qed
qed

text \<open>C12. Encoding a message piece by piece and decoding the text gives the message back: the decoder
  accepts, reports its exact length, stores it at the start of the output array, and
  \<^verbatim>\<open>EVP_DecodeFinal\<close> agrees that the data is complete.\<close>

theorem stream_roundtrip:
  assumes "list_all (\<lambda>c. 65 * ((length c + 47) div 48) \<le> INT_MAX) chunks"
    and "length (concat chunks) \<le> INT_MAX"
    and "EVP_DecodeUpdate EVP_DecodeInit out (encode_session buf EVP_EncodeInit chunks) = (r, ctx, out', n)"
  shows "r = (if length (concat chunks) mod 3 = 0 then 1 else 0) \<and> n = length (concat chunks) \<and>
    take n out' = concat chunks \<and> EVP_DecodeFinal ctx = 1"
proof -
  have "ready EVP_DecodeInit" by (simp add: ready_def EVP_DecodeInit_def)
  from decode_lines [OF this, of 0 out "concat chunks"] obtain d where
    "decode_chars (base64_lines (concat chunks)) (EVP_DecodeInit, out, 0) =
      (True, EVP_DecodeInit\<lparr>data := d, eof_seen := length (concat chunks) mod 3 \<noteq> 0\<rparr>,
       put out 0 (concat chunks), length (concat chunks))" by auto
  moreover have "encode_session buf EVP_EncodeInit chunks = base64_lines (concat chunks)"
    using encode_session_from [OF encode_inv_init assms(1), of buf] by simp
  ultimately show ?thesis
    using assms(2,3) by (auto simp: EVP_DecodeUpdate_def EVP_DecodeFinal_def EVP_DecodeInit_def put_0)
qed

theorem stream_roundtrip_witness:
  "let (r, ctx, out', n) =
      EVP_DecodeUpdate EVP_DecodeInit [] (encode_session [] EVP_EncodeInit [[104, 101], [108, 108, 111]])
   in r = 0 \<and> take n out' = [104, 101, 108, 108, 111] \<and> EVP_DecodeFinal ctx = 1"
proof -
  obtain r ctx out' n where e:
    "EVP_DecodeUpdate EVP_DecodeInit [] (encode_session [] EVP_EncodeInit [[104, 101], [108, 108, 111]]) =
       (r, ctx, out', n)" by (rule prod_cases4)
  show ?thesis unfolding e using stream_roundtrip [OF _ _ e] by (simp, elim conjE, simp)
qed

section \<open>One-shot encoding and decoding\<close>

text \<open>\<^verbatim>\<open>EVP_DecodeBase64\<close> inverts \<^verbatim>\<open>EVP_EncodeBlock\<close>: given an output bound of three
  bytes per quad it accepts the text, reports the exact length of the original and stores it.\<close>

theorem block_roundtrip:
  assumes "3 * ((length src + 2) div 3) \<le> max_out"
  shows "EVP_DecodeBase64 out max_out (butlast (fst (EVP_EncodeBlock src))) = (True, put out 0 src, length src)"
  using decode_encode_block [OF assms] by (simp add: EVP_EncodeBlock_def)

theorem block_roundtrip_witness:
  "EVP_DecodeBase64 [0, 0, 0, 0] 3 (butlast (fst (EVP_EncodeBlock [255, 0]))) = (True, [255, 0, 0, 0], 2)"
  using block_roundtrip [of "[255, 0]" 3 "[0, 0, 0, 0]"] by (simp add: put_0)

lemma shift_back: "drop_bit 2 (push_bit 2 q) = q \<longleftrightarrow> unat (q :: u64) < 2 ^ 62"
proof -
  have "unat (drop_bit 2 (push_bit 2 q)) = (4 * unat q mod 2 ^ 64) div 4"
    by (simp add: unat_drop_bit push_bit_eq_mult unat_word_ariths mult.commute)
  also have "\<dots> = unat q mod 2 ^ 62" using mod_mult_mult1 [of 4 "unat q" "2 ^ 62"] by simp
  finally show ?thesis by (simp add: word_unat_eq_iff mod_eq_self_iff_div_eq_0 div_eq_0_iff)
qed

text \<open>\<^verbatim>\<open>EVP_EncodedLength\<close> is exact: when it succeeds, \<^verbatim>\<open>EVP_EncodeBlock\<close> on an input of that
  length stores exactly that many bytes, the NUL included; it fails exactly when that number does
  not fit in a \<^verbatim>\<open>size_t\<close>.\<close>

theorem encoded_length_exact:
  assumes "length src < 2 ^ 64"
  shows "EVP_EncodedLength (of_nat (length src)) =
    (if length (fst (EVP_EncodeBlock src)) < 2 ^ 64
     then Some (of_nat (length (fst (EVP_EncodeBlock src)))) else None)"
proof -
  define L where "L = length src"
  have L: "unat (of_nat L :: u64) = L" using assms by (simp add: L_def unsigned_of_nat take_bit_nat_eq_self)
  have block: "length (fst (EVP_EncodeBlock src)) = 4 * ((L + 2) div 3) + 1"
    by (simp add: EVP_EncodeBlock_def length_encode_block_loop L_def)
  show ?thesis
  proof (cases "L + 2 < 2 ^ 64")
    case False
    then have "unat (of_nat L + 2 :: u64) = L + 2 - 2 ^ 64"
      using assms L by (simp add: unat_word_ariths L_def mod_if)
    moreover have "L + 2 - 2 ^ 64 < L" using False assms by (simp add: L_def)
    ultimately have "(of_nat L + 2 :: u64) < of_nat L"
      unfolding word_less_nat_alt L by simp
    moreover have "2 ^ 64 div 3 \<le> (L + 2) div 3" using False by (intro div_le_mono) simp
    then have "\<not> 4 * ((L + 2) div 3) + 1 < 2 ^ 64" by simp
    ultimately show ?thesis unfolding block L_def by (simp add: EVP_EncodedLength_def)
  next
    case True
    define q :: u64 where "q = (of_nat L + 2) div 3"
    have "unat (of_nat L + 2 :: u64) = L + 2" using True L by (simp add: unat_word_ariths)
    then have no: "\<not> (of_nat L + 2 :: u64) < of_nat L" and q: "unat q = (L + 2) div 3"
      using L by (simp_all add: word_less_nat_alt q_def unat_div)
    have enc: "EVP_EncodedLength (of_nat L) =
        (if drop_bit 2 (push_bit 2 q) \<noteq> q then None
         else if push_bit 2 q + 1 < push_bit 2 q then None else Some (push_bit 2 q + 1))"
      using no by (simp add: EVP_EncodedLength_def Let_def q_def)
    show ?thesis
    proof (cases "unat q < 2 ^ 62")
      case small: True
      have "unat (push_bit 2 q) = 4 * unat q"
        using small by (simp add: push_bit_eq_mult unat_word_ariths)
      then have "\<not> push_bit 2 q + 1 < push_bit 2 q"
        using small by (simp add: word_less_nat_alt unat_word_ariths)
      moreover have "push_bit 2 q + 1 = of_nat (4 * unat q + 1)" by (simp add: push_bit_eq_mult)
      moreover have "4 * unat q + 1 < 2 ^ 64" using small by simp
      ultimately show ?thesis
        using small unfolding block L_def [symmetric] enc shift_back q [symmetric] by (simp add: add.commute)
    next
      case False
      then show ?thesis unfolding block L_def [symmetric] enc shift_back q [symmetric] by simp
    qed
  qed
qed

theorem encoded_length_exact_witness:
  "EVP_EncodedLength (of_nat (length [1, 2, 3, 4 :: u8])) = Some 9"
  using encoded_length_exact [of "[1, 2, 3, 4]"]
  by (simp add: EVP_EncodeBlock_def length_encode_block_loop)

end
