(* ===== verification/F_Base64.thy ===== *)
theory F_Base64
  imports Base64
begin

text \<open>
  \<^verbatim>\<open>fbase64.c\<close> of FirebaseDatabase's SocketRocket: the OpenBSD base64 routines
  \<^verbatim>\<open>f_b64_ntop\<close> and \<^verbatim>\<open>f_b64_pton\<close>.  The encoder is shown to agree with BoringSSL's, the
  decoder to read back what it writes and to need one byte more than the data when the data is
  padded.
\<close>

section \<open>f_b64_ntop\<close>

text \<open>The conversion of a length to the \<^verbatim>\<open>int\<close> the functions return, which keeps its low 32 bits.\<close>

definition as_int :: "nat \<Rightarrow> int" where
  "as_int n = sint (of_nat n :: 32 word)"

lemma as_int: "n < 2 ^ 31 \<Longrightarrow> as_int n = int n"
proof -
  assume n: "n < 2 ^ 31"
  then have "uint (of_nat n :: 32 word) = int n" by (simp add: uint_nat unat_of_nat)
  then show ?thesis using n by (simp add: as_int_def sint_uint signed_take_bit_int_eq_self)
qed

text \<open>The table is the same alphabet.\<close>

definition Base64_table :: "u8 \<Rightarrow> u8" where
  "Base64_table b = base64_alphabet ! unat b"

abbreviation (input) Pad64 :: u8 where "Pad64 \<equiv> 61"

text \<open>\<^verbatim>\<open>while (2 < srclength)\<close>; false: the loop returned \<open>-1\<close>.\<close>

fun ntop_loop :: "nat \<Rightarrow> u8 list \<Rightarrow> u8 list \<Rightarrow> nat \<Rightarrow> bool \<times> u8 list \<times> u8 list \<times> nat" where
  "ntop_loop targsize (i0 # i1 # i2 # src) target datalength =
     (let o0 = drop_bit 2 i0;
          o1 = push_bit 4 (i0 AND 0x03) + drop_bit 4 i1;
          o2 = push_bit 2 (i1 AND 0x0F) + drop_bit 6 i2;
          o3 = i2 AND 0x3F in
      if datalength + 4 > targsize then (False, src, target, datalength)
      else ntop_loop targsize src
             (put target datalength [Base64_table o0, Base64_table o1, Base64_table o2, Base64_table o3])
             (datalength + 4))"
| "ntop_loop targsize src target datalength = (True, src, target, datalength)"

text \<open>The padded last group; one or two bytes are left.\<close>

definition ntop_pad :: "nat \<Rightarrow> u8 list \<Rightarrow> u8 list \<Rightarrow> nat \<Rightarrow> bool \<times> u8 list \<times> nat" where
  "ntop_pad targsize src target datalength =
     (if src = [] then (True, target, datalength)
      else
        let i0 = byte_at src 0; i1 = byte_at src 1; i2 = 0;
            o0 = drop_bit 2 i0;
            o1 = push_bit 4 (i0 AND 0x03) + drop_bit 4 i1;
            o2 = push_bit 2 (i1 AND 0x0F) + drop_bit 6 i2 in
        if datalength + 4 > targsize then (False, target, datalength)
        else (True,
              put target datalength
                [Base64_table o0, Base64_table o1,
                 if length src = 1 then Pad64 else Base64_table o2, Pad64],
              datalength + 4))"

definition f_b64_ntop :: "u8 list \<Rightarrow> u8 list \<Rightarrow> nat \<Rightarrow> int \<times> u8 list" where
  "f_b64_ntop src target targsize =
     (case ntop_loop targsize src target 0 of
        (False, _, target, _) \<Rightarrow> (-1, target)
      | (True, src, target, datalength) \<Rightarrow>
          (case ntop_pad targsize src target datalength of
             (False, target, _) \<Rightarrow> (-1, target)
           | (True, target, datalength) \<Rightarrow>
               if datalength \<ge> targsize then (-1, target)
               else (as_int datalength, put target datalength [0])))"

section \<open>f_b64_pton\<close>

text \<open>The C locale's \<^verbatim>\<open>isspace\<close>.\<close>

definition c_isspace :: "u8 \<Rightarrow> bool" where
  "c_isspace ch \<longleftrightarrow> ch = 32 \<or> (9 \<le> ch \<and> ch \<le> 13)"

text \<open>\<^verbatim>\<open>strchr(Base64, ch) - Base64\<close> for a character that is not NUL.\<close>

fun index_of :: "'a \<Rightarrow> 'a list \<Rightarrow> nat option" where
  "index_of x [] = None"
| "index_of x (y # ys) = (if x = y then Some 0 else map_option Suc (index_of x ys))"

definition strchr_Base64 :: "u8 \<Rightarrow> u8 option" where
  "strchr_Base64 ch = map_option of_nat (index_of ch base64_alphabet)"

text \<open>How the main loop ends: with \<open>-1\<close>, at the end of the string, or at a padding character (the
  rest is what follows it).  \<open>target\<close> is \<open>None\<close> for NULL; the string ends at its first NUL; \<open>tarindex\<close> is a
  \<^verbatim>\<open>u_int\<close> and wraps at \<open>2 ^ 32\<close>.\<close>

definition index_after :: "nat \<Rightarrow> nat" where
  "index_after tarindex = (tarindex + 1) mod 2 ^ 32"

datatype pton_exit = PFail "u8 list option" | PEnd nat nat "u8 list option" | PPad nat nat "u8 list option" "u8 list"

lemma index_after: "k + 3 < 2 ^ 32 \<Longrightarrow> index_after k = k + 1 \<and> index_after (k + 1) = k + 2 \<and> index_after (k + 2) = k + 3"
  by (simp add: index_after_def)

definition pton_char :: "nat \<Rightarrow> u8 \<Rightarrow> nat \<Rightarrow> nat \<Rightarrow> u8 list option \<Rightarrow> (nat \<times> nat \<times> u8 list option) option" where
  "pton_char targsize pos state tarindex target =
     (if state = 0 then
        (case target of
           None \<Rightarrow> Some (1, tarindex, None)
         | Some t \<Rightarrow>
             if tarindex \<ge> targsize then None
             else Some (1, tarindex, Some (put t tarindex [push_bit 2 pos])))
      else if state = 1 then
        (case target of
           None \<Rightarrow> Some (2, index_after tarindex, None)
         | Some t \<Rightarrow>
             if index_after tarindex \<ge> targsize then None
             else Some (2, index_after tarindex,
               Some (put (put t tarindex [t ! tarindex OR drop_bit 4 pos]) (index_after tarindex) [push_bit 4 (pos AND 0x0F)])))
      else if state = 2 then
        (case target of
           None \<Rightarrow> Some (3, index_after tarindex, None)
         | Some t \<Rightarrow>
             if index_after tarindex \<ge> targsize then None
             else Some (3, index_after tarindex,
               Some (put (put t tarindex [t ! tarindex OR drop_bit 2 pos]) (index_after tarindex) [push_bit 6 (pos AND 0x03)])))
      else
        (case target of
           None \<Rightarrow> Some (0, index_after tarindex, None)
         | Some t \<Rightarrow>
             if tarindex \<ge> targsize then None
             else Some (0, index_after tarindex, Some (put t tarindex [t ! tarindex OR pos]))))"

fun pton_loop :: "nat \<Rightarrow> u8 list \<Rightarrow> nat \<Rightarrow> nat \<Rightarrow> u8 list option \<Rightarrow> pton_exit" where
  "pton_loop targsize [] state tarindex target = PEnd state tarindex target"
| "pton_loop targsize (ch # src) state tarindex target =
     (if ch = 0 then PEnd state tarindex target
      else if c_isspace ch then pton_loop targsize src state tarindex target
      else if ch = Pad64 then PPad state tarindex target src
      else case strchr_Base64 ch of
        None \<Rightarrow> PFail target
      | Some pos \<Rightarrow>
          (case pton_char targsize pos state tarindex target of
             None \<Rightarrow> PFail target
           | Some (state, tarindex, target) \<Rightarrow> pton_loop targsize src state tarindex target))"

text \<open>The C string from the cursor on, up to its NUL.\<close>

definition c_string :: "u8 list \<Rightarrow> u8 list" where
  "c_string src = takeWhile (\<lambda>c. c \<noteq> 0) src"

text \<open>After a padding character: \<open>src\<close> is what follows it.\<close>

definition pton_rest_ok :: "nat \<Rightarrow> nat \<Rightarrow> u8 list option \<Rightarrow> u8 list \<Rightarrow> bool" where
  "pton_rest_ok state tarindex target src =
     (if state = 0 \<or> state = 1 then False
      else
        let src = c_string src;
            after = (if state = 2 then
                       (case dropWhile c_isspace src of
                          [] \<Rightarrow> None
                        | ch # rest \<Rightarrow> if ch \<noteq> Pad64 then None else Some rest)
                     else Some src) in
        case after of
          None \<Rightarrow> False
        | Some rest \<Rightarrow>
            list_all c_isspace rest \<and>
            (case target of None \<Rightarrow> True | Some t \<Rightarrow> t ! tarindex = 0))"

definition f_b64_pton :: "u8 list \<Rightarrow> u8 list option \<Rightarrow> nat \<Rightarrow> int \<times> u8 list option" where
  "f_b64_pton src target targsize =
     (case pton_loop targsize src 0 0 target of
        PFail target \<Rightarrow> (-1, target)
      | PPad state tarindex target src \<Rightarrow>
          if pton_rest_ok state tarindex target src then (as_int tarindex, target) else (-1, target)
      | PEnd state tarindex target \<Rightarrow>
          if state \<noteq> 0 then (-1, target) else (as_int tarindex, target))"

section \<open>The two encoders agree\<close>

lemma u8_masks: "(0x03 :: u8) = mask 2" "(0x0F :: u8) = mask 4" "(0x3F :: u8) = mask 6"
  by (simp_all add: mask_eq_exp_minus_1)

lemma add_pieces:
  "push_bit 4 (i0 AND 0x03) + drop_bit 4 i1 = (push_bit 4 (i0 AND 0x03) OR drop_bit 4 i1 :: u8)"
  "push_bit 2 (i1 AND 0x0F) + drop_bit 6 i2 = (push_bit 2 (i1 AND 0x0F) OR drop_bit 6 i2 :: u8)"
  unfolding u8_masks by (rule disjunctive_add; auto simp: bit_simps dest: bit_imp_le_length)+

lemma pieces:
  fixes i0 i1 i2 :: u8
  defines "l \<equiv> push_bit 16 (ucast i0) OR push_bit 8 (ucast i1) OR ucast i2 :: u32"
  shows "Base64_table (drop_bit 2 i0) = sextet l 18"
    "Base64_table (push_bit 4 (i0 AND 0x03) + drop_bit 4 i1) = sextet l 12"
    "Base64_table (push_bit 2 (i1 AND 0x0F) + drop_bit 6 i2) = sextet l 6"
    "Base64_table (i2 AND 0x3F) = sextet l 0"
proof -
  have "drop_bit 2 i0 = ucast (drop_bit 18 l) AND 0x3F"
    unfolding l_def u8_masks by (intro bit_word_eqI) (auto simp: bit_simps dest: bit_imp_le_length)
  then show "Base64_table (drop_bit 2 i0) = sextet l 18"
    by (simp only: Base64_table_def sextet_def conv_alphabet)
  have "push_bit 4 (i0 AND 0x03) + drop_bit 4 i1 = ucast (drop_bit 12 l) AND 0x3F"
    unfolding l_def add_pieces unfolding u8_masks by (intro bit_word_eqI) (auto simp: bit_simps dest: bit_imp_le_length)
  then show "Base64_table (push_bit 4 (i0 AND 0x03) + drop_bit 4 i1) = sextet l 12"
    by (simp only: Base64_table_def sextet_def conv_alphabet)
  have "push_bit 2 (i1 AND 0x0F) + drop_bit 6 i2 = ucast (drop_bit 6 l) AND 0x3F"
    unfolding l_def add_pieces unfolding u8_masks by (intro bit_word_eqI) (auto simp: bit_simps dest: bit_imp_le_length)
  then show "Base64_table (push_bit 2 (i1 AND 0x0F) + drop_bit 6 i2) = sextet l 6"
    by (simp only: Base64_table_def sextet_def conv_alphabet)
  have "i2 AND 0x3F = ucast (drop_bit 0 l) AND 0x3F"
    unfolding l_def u8_masks by (intro bit_word_eqI) (auto simp: bit_simps dest: bit_imp_le_length)
  then show "Base64_table (i2 AND 0x3F) = sextet l 0"
    by (simp only: Base64_table_def sextet_def conv_alphabet)
qed

definition ntop_body :: "nat \<Rightarrow> u8 list \<Rightarrow> u8 list \<Rightarrow> nat \<Rightarrow> bool \<times> u8 list \<times> nat" where
  "ntop_body targsize src target datalength =
     (case ntop_loop targsize src target datalength of
        (False, _, target, datalength) \<Rightarrow> (False, target, datalength)
      | (True, src, target, datalength) \<Rightarrow> ntop_pad targsize src target datalength)"

lemma ntop_body_group:
  "ntop_body targsize (i0 # i1 # i2 # src) target datalength =
     (if datalength + 4 > targsize then (False, target, datalength)
      else ntop_body targsize src (put target datalength (encode_block_loop [i0, i1, i2])) (datalength + 4))"
  unfolding ntop_body_def ntop_loop.simps Let_def pieces [where ?i0.0 = i0 and ?i1.0 = i1 and ?i2.0 = i2] encode_block_loop.simps by simp

lemma byte_at_two: "byte_at [i0, i1] 0 = i0" "byte_at [i0, i1] 1 = i1"
  by (simp_all add: byte_at_def)

lemma byte_at_one: "byte_at [i0] 0 = i0" "byte_at [i0] 1 = 0"
  by (simp_all add: byte_at_def)

lemma ntop_pad_two:
  "ntop_pad targsize [i0, i1] target datalength =
     (if datalength + 4 > targsize then (False, target, datalength)
      else (True, put target datalength (encode_block_loop [i0, i1]), datalength + 4))"
  unfolding ntop_pad_def Let_def byte_at_two pieces [where ?i0.0 = i0 and ?i1.0 = i1 and ?i2.0 = 0]
    encode_block_loop.simps by simp

lemma ntop_pad_one:
  "ntop_pad targsize [i0] target datalength =
     (if datalength + 4 > targsize then (False, target, datalength)
      else (True, put target datalength (encode_block_loop [i0]), datalength + 4))"
  unfolding ntop_pad_def Let_def byte_at_one pieces [where ?i0.0 = i0 and ?i1.0 = 0 and ?i2.0 = 0]
    encode_block_loop.simps by simp

lemma ntop_pad_Nil: "ntop_pad targsize [] target datalength = (True, target, datalength)"
  by (simp add: ntop_pad_def)

lemma ntop_body_correct:
  assumes "datalength \<le> length target" "datalength \<le> targsize"
  shows "if datalength + length (encode_block_loop src) \<le> targsize
    then ntop_body targsize src target datalength =
      (True, put target datalength (encode_block_loop src), datalength + length (encode_block_loop src))
    else fst (ntop_body targsize src target datalength) = False"
  using assms
proof (induction src arbitrary: target datalength rule: encode_block_loop.induct)
  case (2 i0 i1 i2 src)
  let ?t = "put target datalength (encode_block_loop [i0, i1, i2])"
  have len: "length (encode_block_loop [i0, i1, i2]) = 4" by (simp add: Let_def)
  then have "datalength + 4 \<le> length ?t" using 2(2) by (simp add: length_put)
  moreover have "encode_block_loop (i0 # i1 # i2 # src) = encode_block_loop [i0, i1, i2] @ encode_block_loop src"
    by (simp add: Let_def)
  moreover have "put ?t (datalength + 4) (encode_block_loop src) =
      put target datalength (encode_block_loop (i0 # i1 # i2 # src))"
    using 2(2) len by (subst put_put) (simp_all add: Let_def)
  ultimately show ?case
    using 2(1) [OF refl, of "datalength + 4" ?t] len
    by (auto simp: ntop_body_group simp del: encode_block_loop.simps)
qed (simp_all add: ntop_body_def ntop_pad_Nil ntop_pad_one ntop_pad_two Let_def)

text \<open>The two base64 encoders of the pods agree: with room for the text and its NUL,
  \<^verbatim>\<open>f_b64_ntop\<close> stores what BoringSSL's \<^verbatim>\<open>EVP_EncodeBlock\<close> stores and returns the same
  length; with less room it returns \<open>-1\<close>.\<close>

theorem ntop_is_encode_block:
  "if snd (EVP_EncodeBlock src) < targsize
   then f_b64_ntop src target targsize =
     (as_int (snd (EVP_EncodeBlock src)), put target 0 (fst (EVP_EncodeBlock src)))
   else fst (f_b64_ntop src target targsize) = -1"
proof -
  have "f_b64_ntop src target targsize =
      (case ntop_body targsize src target 0 of
         (False, target, _) \<Rightarrow> (-1, target)
       | (True, target, datalength) \<Rightarrow>
           if datalength \<ge> targsize then (-1, target)
           else (as_int datalength, put target datalength [0]))"
    by (auto simp: f_b64_ntop_def ntop_body_def split: prod.splits bool.splits)
  then show ?thesis
    using ntop_body_correct [of 0 target targsize src]
    by (auto simp: EVP_EncodeBlock_def split: prod.splits bool.splits if_splits)
qed

section \<open>The decoder reads the encoder's text\<close>

lemma index_of_nth: "distinct xs \<Longrightarrow> n < length xs \<Longrightarrow> index_of (xs ! n) xs = Some n"
proof (induction xs arbitrary: n)
  case (Cons x xs)
  then show ?case by (cases n) auto
qed simp

lemma conv_of_nat: "n < 64 \<Longrightarrow> base64_ascii_to_bin (conv_bin2ascii (of_nat n)) = of_nat n"
proof -
  assume "n < 64"
  then have "n \<in> set [0..<64]" by (simp only: set_upt atLeastLessThan_iff le0)
  with table_check [unfolded list_all_iff Let_def] show ?thesis by blast
qed

lemma distinct_alphabet: "distinct base64_alphabet"
proof -
  have "inj_on (\<lambda>n. conv_bin2ascii (of_nat n)) {0..<64}"
  proof (rule inj_onI)
    fix x y :: nat
    assume "x \<in> {0..<64}" "y \<in> {0..<64}" and eq: "conv_bin2ascii (of_nat x) = conv_bin2ascii (of_nat y)"
    then have xy: "x < 64" "y < 64" by simp_all
    then have "(of_nat x :: u8) = of_nat y" using eq by (metis conv_of_nat)
    moreover have "unat (of_nat x :: u8) = x" "unat (of_nat y :: u8) = y"
      using xy by (simp_all only: unat_of_nat_u8)
    ultimately show "x = y" by metis
  qed
  then show ?thesis unfolding alphabet_check [symmetric] distinct_map by (simp only: distinct_upt set_upt)
qed

lemma length_alphabet: "length base64_alphabet = 64"
  unfolding alphabet_check [symmetric] by (simp only: length_map length_upt)

lemma strchr_sextet: "strchr_Base64 (sextet l n) = Some (ucast (drop_bit n l) AND 0x3F)"
proof -
  have "index_of (base64_alphabet ! unat (b AND 0x3F)) base64_alphabet = Some (unat (b AND 0x3F))" for b :: u8
    by (rule index_of_nth [OF distinct_alphabet]) (simp only: length_alphabet unat_and_3F)
  then show ?thesis unfolding strchr_Base64_def sextet_def conv_alphabet by (simp only: option.map of_nat_unat ucast_id)
qed

lemma text_check:
  "list_all (\<lambda>n. let c = conv_bin2ascii (of_nat n) in c \<noteq> 0 \<and> \<not> c_isspace c) [0..<64]"
  unfolding conv_bin2ascii_cases by code_simp

lemma sextet_text: "sextet l n \<noteq> 0" "\<not> c_isspace (sextet l n)"
  using u8_64_cases [OF text_check, of "ucast (drop_bit n l)"]
  by (simp_all add: sextet_def Let_def flip: conv_bin2ascii_mod)

lemma pton_sextet:
  "pton_loop T (sextet l n # src) state k t =
     (case pton_char T (ucast (drop_bit n l) AND 0x3F) state k t of
        None \<Rightarrow> PFail t
      | Some (state, k, t) \<Rightarrow> pton_loop T src state k t)"
  by (simp add: sextet_text strchr_sextet)

text \<open>Four characters of a full group.\<close>

definition six :: "u32 \<Rightarrow> nat \<Rightarrow> u8" where
  "six l n = ucast (drop_bit n l) AND 0x3F"

lemma six_bytes:
  "push_bit 2 (six l 18) OR drop_bit 4 (six l 12) = ucast (drop_bit 16 l)"
  "push_bit 4 (six l 12 AND 0x0F) OR drop_bit 2 (six l 6) = ucast (drop_bit 8 l)"
  "push_bit 6 (six l 6 AND 0x03) OR six l 0 = ucast l"
  unfolding six_def u8_masks by (intro bit_word_eqI; auto simp: bit_simps)+

lemma pton_two_chars:
  assumes "k + 1 < T" "T \<le> length t" "k + 3 < 2 ^ 32"
  shows "pton_loop T (sextet l 18 # sextet l 12 # src) 0 k (Some t) =
    pton_loop T src 2 (k + 1) (Some (put t k [ucast (drop_bit 16 l), push_bit 4 (six l 12 AND 0x0F)]))"
  using assms index_after [OF assms(3)] nth_put [of k t 0 "[push_bit 2 (six l 18)]"]
  by (simp add: pton_sextet pton_char_def put_same six_bytes flip: six_def del: push_bit_and pton_loop.simps(2))

lemma pton_third_char:
  assumes "k + 2 < T" "T \<le> length t" "k + 3 < 2 ^ 32"
  shows "pton_loop T (sextet l 6 # src) 2 (k + 1) (Some (put t k [a, push_bit 4 (six l 12 AND 0x0F)])) =
    pton_loop T src 3 (k + 2) (Some (put t k [a, ucast (drop_bit 8 l), push_bit 6 (six l 6 AND 0x03)]))"
proof -
  let ?b = "push_bit 4 (six l 12 AND 0x0F)"
  have "put t k [a, ?b] ! (k + 1) = ?b" using assms nth_put [of k t 1 "[a, ?b]"] by simp
  moreover have "put (put t k [a, ?b]) (k + 1) cs = put t k (a # cs)" if "cs \<noteq> []" for cs
    using assms that put_over [of k t "[?b]" cs "k + 1" "[a]"] by (cases cs) auto
  ultimately show ?thesis
    using assms index_after [OF assms(3)] six_bytes(2) [of l]
    by (simp add: pton_sextet pton_char_def flip: six_def del: push_bit_and pton_loop.simps(2))
qed

lemma pton_fourth_char:
  assumes "k + 2 < T" "T \<le> length t" "k + 3 < 2 ^ 32"
  shows "pton_loop T (sextet l 0 # src) 3 (k + 2) (Some (put t k [a, b, push_bit 6 (six l 6 AND 0x03)])) =
    pton_loop T src 0 (k + 3) (Some (put t k [a, b, ucast l]))"
proof -
  let ?c = "push_bit 6 (six l 6 AND 0x03)"
  have "put t k [a, b, ?c] ! (k + 2) = ?c" using assms nth_put [of k t 2 "[a, b, ?c]"] by simp
  moreover have "put (put t k [a, b, ?c]) (k + 2) cs = put t k (a # b # cs)" if "cs \<noteq> []" for cs
    using assms that put_over [of k t "[?c]" cs "k + 2" "[a, b]"] by (cases cs) auto
  moreover have "six l 0 = ucast l AND 0x3F" by (simp add: six_def)
  ultimately show ?thesis
    using assms index_after [OF assms(3)] six_bytes(3) [of l]
    by (simp add: pton_sextet pton_char_def numeral_3_eq_3 flip: six_def del: push_bit_and pton_loop.simps(2))
qed

text \<open>The room the decoder asks for: one byte more than the data when the text is padded.\<close>

definition pton_need :: "u8 list \<Rightarrow> nat" where
  "pton_need src = length src + (if length src mod 3 = 0 then 0 else 1)"

definition pton_exit_for :: "u8 list \<Rightarrow> nat \<Rightarrow> u8 list \<Rightarrow> u8 list \<Rightarrow> pton_exit" where
  "pton_exit_for src k t junk =
     (if length src mod 3 = 0 then PEnd 0 (k + length src) (Some (put t k src))
      else if length src mod 3 = 1 then PPad 2 (k + length src) (Some (put t k (src @ [0]))) (61 # 0 # junk)
      else PPad 3 (k + length src) (Some (put t k (src @ [0]))) (0 # junk))"

lemma pton_two_fail:
  assumes "\<not> k + 1 < T" "k + 3 < 2 ^ 32"
  shows "\<exists>t'. pton_loop T (sextet l 18 # sextet l 12 # src) 0 k (Some t) = PFail t'"
  using assms index_after [OF assms(2)] by (auto simp: pton_sextet pton_char_def simp del: pton_loop.simps(2))

lemma pton_third_fail:
  assumes "\<not> k + 2 < T" "k + 3 < 2 ^ 32"
  shows "\<exists>t'. pton_loop T (sextet l 6 # src) 2 (k + 1) (Some t) = PFail t'"
  using assms index_after [OF assms(2)] by (auto simp: pton_sextet pton_char_def simp del: pton_loop.simps(2))

lemma pton_three_fail:
  assumes "\<not> k + 2 < T" "T \<le> length t" "k + 3 < 2 ^ 32"
  shows "\<exists>t'. pton_loop T (sextet l 18 # sextet l 12 # sextet l 6 # src) 0 k (Some t) = PFail t'"
proof (cases "k + 1 < T")
  case True
  show ?thesis unfolding pton_two_chars [OF True assms(2,3)] by (rule pton_third_fail [OF assms(1,3)])
next
  case False
  then show ?thesis using assms(3) by (rule pton_two_fail)
qed

lemma pton_three_chars:
  assumes "k + 2 < T" "T \<le> length t" "k + 3 < 2 ^ 32"
  shows "pton_loop T (sextet l 18 # sextet l 12 # sextet l 6 # src) 0 k (Some t) =
    pton_loop T src 3 (k + 2)
      (Some (put t k [ucast (drop_bit 16 l), ucast (drop_bit 8 l), push_bit 6 (six l 6 AND 0x03)]))"
proof -
  have "k + 1 < T" using assms by simp
  show ?thesis unfolding pton_two_chars [OF \<open>k + 1 < T\<close> assms(2,3)] by (rule pton_third_char [OF assms])
qed

lemma pton_pad: "pton_loop T (61 # src) state k t = PPad state k t src"
  by (simp add: c_isspace_def)

text \<open>The bits that are left over in a padded group are zero.\<close>

lemma no_slop:
  "push_bit 4 (six (push_bit 16 (ucast (s0 :: u8))) 12 AND 0x0F) = 0"
  "push_bit 6 (six (push_bit 16 (ucast (s0 :: u8)) OR push_bit 8 (ucast (s1 :: u8))) 6 AND 0x03) = 0"
  unfolding six_def u8_masks by (intro bit_word_eqI; auto simp: bit_simps dest: bit_imp_le_length)+

lemma pton_loop_encode:
  assumes "T \<le> length t" "k \<le> T" "k + length src + 3 < 2 ^ 32"
  shows "if k + pton_need src \<le> T
    then pton_loop T (encode_block_loop src @ 0 # junk) 0 k (Some t) = pton_exit_for src k t junk
    else \<exists>t'. pton_loop T (encode_block_loop src @ 0 # junk) 0 k (Some t) = PFail t'"
  using assms
proof (induction src arbitrary: k t rule: encode_block_loop.induct)
  case 1
  then show ?case by (simp add: pton_need_def pton_exit_for_def)
next
  case (2 s0 s1 s2 src)
  define l :: u32 where "l = push_bit 16 (ucast s0) OR push_bit 8 (ucast s1) OR ucast s2"
  have bytes: "ucast (drop_bit 16 l) = s0" "ucast (drop_bit 8 l) = s1" "ucast l = s2"
    unfolding l_def by (rule group_bytes)+
  have enc: "encode_block_loop (s0 # s1 # s2 # src) @ 0 # junk =
      sextet l 18 # sextet l 12 # sextet l 6 # sextet l 0 # encode_block_loop src @ 0 # junk"
    by (simp add: Let_def l_def)
  have need: "pton_need (s0 # s1 # s2 # src) = 3 + pton_need src"
    by (simp add: pton_need_def)
  have k: "k + 3 < 2 ^ 32" using 2(4) by simp
  show ?case
  proof (cases "k + 2 < T")
    case True
    have step: "pton_loop T (encode_block_loop (s0 # s1 # s2 # src) @ 0 # junk) 0 k (Some t) =
        pton_loop T (encode_block_loop src @ 0 # junk) 0 (k + 3) (Some (put t k [s0, s1, s2]))"
      unfolding enc pton_three_chars [OF True 2(2) k] pton_fourth_char [OF True 2(2) k] bytes by (rule refl)
    have "pton_exit_for src (k + 3) (put t k [s0, s1, s2]) junk = pton_exit_for (s0 # s1 # s2 # src) k t junk"
      using True 2(2) by (simp add: pton_exit_for_def ac_simps)
    then show ?thesis
      using 2(1) [OF l_def, of "put t k [s0, s1, s2]" "k + 3"] True 2(2,4)
      unfolding step need by (simp add: length_put ac_simps)
  next
    case False
    then show ?thesis
      using pton_three_fail [OF False 2(2) k, of l] unfolding enc need by (simp del: pton_loop.simps)
  qed
next
  case (3 s0 s1)
  define l :: u32 where "l = push_bit 16 (ucast s0) OR push_bit 8 (ucast s1)"
  have bytes: "ucast (drop_bit 16 l) = s0" "ucast (drop_bit 8 l) = s1" "push_bit 6 (six l 6 AND 0x03) = 0"
    unfolding l_def by (rule group_bytes_two no_slop)+
  have enc: "encode_block_loop [s0, s1] @ 0 # junk = sextet l 18 # sextet l 12 # sextet l 6 # 61 # 0 # junk"
    by (simp add: Let_def l_def)
  have k: "k + 3 < 2 ^ 32" using 3(3) by simp
  show ?case
  proof (cases "k + 2 < T")
    case True
    show ?thesis unfolding enc pton_three_chars [OF True 3(1) k] bytes pton_pad
      using True by (simp add: pton_need_def pton_exit_for_def)
  next
    case False
    then show ?thesis
      using pton_three_fail [OF False 3(1) k, of l] unfolding enc
      by (simp add: pton_need_def del: pton_loop.simps)
  qed
next
  case (4 s0)
  define l :: u32 where "l = push_bit 16 (ucast s0)"
  have bytes: "ucast (drop_bit 16 l) = s0" "push_bit 4 (six l 12 AND 0x0F) = 0"
    unfolding l_def by (rule group_bytes_two no_slop)+
  have enc: "encode_block_loop [s0] @ 0 # junk = sextet l 18 # sextet l 12 # 61 # 61 # 0 # junk"
    by (simp add: Let_def l_def)
  have k: "k + 3 < 2 ^ 32" using 4(3) by simp
  show ?case
  proof (cases "k + 1 < T")
    case True
    show ?thesis unfolding enc pton_two_chars [OF True 4(1) k] bytes pton_pad
      using True by (simp add: pton_need_def pton_exit_for_def)
  next
    case False
    then show ?thesis
      using pton_two_fail [OF False k, of l] unfolding enc
      by (simp add: pton_need_def del: pton_loop.simps)
  qed
qed

text \<open>C15. \<^verbatim>\<open>f_b64_pton\<close> reads back what the encoders write, whatever follows the NUL: it
  returns the length and stores the data, provided the target has room for the data and, when the
  text is padded, for one byte more; with less room it returns \<open>-1\<close>, although the data may fit.  The data must be
  shorter than \<open>2 ^ 31\<close> bytes, since the index is a \<^verbatim>\<open>u_int\<close> and the result an \<^verbatim>\<open>int\<close>.\<close>

theorem pton_inverts_encode:
  assumes "targsize \<le> length target" "length src < 2 ^ 31"
  shows "if length src + (if length src mod 3 = 0 then 0 else 1) \<le> targsize
    then f_b64_pton (fst (EVP_EncodeBlock src) @ junk) (Some target) targsize =
      (int (length src), Some (put target 0 (src @ (if length src mod 3 = 0 then [] else [0]))))
    else fst (f_b64_pton (fst (EVP_EncodeBlock src) @ junk) (Some target) targsize) = -1"
proof -
  have "length src mod 3 = 0 \<or> length src mod 3 = 1 \<or> length src mod 3 = 2" by presburger
  moreover have "put target 0 (src @ [0]) ! length src = 0" by (simp add: put_0 nth_append)
  ultimately show ?thesis
    using pton_loop_encode [OF assms(1), of 0 src junk] as_int [OF assms(2)] assms(2)
    by (auto simp: f_b64_pton_def EVP_EncodeBlock_def pton_need_def pton_exit_for_def pton_rest_ok_def
        c_string_def c_isspace_def split: if_splits)
qed

theorem pton_inverts_encode_witness:
  "f_b64_pton (fst (EVP_EncodeBlock [77]) @ [1, 2]) (Some [9, 9]) 2 = (1, Some [77, 0]) \<and>
   fst (f_b64_pton (fst (EVP_EncodeBlock [77]) @ [1, 2]) (Some [9]) 1) = -1"
  using pton_inverts_encode [of 2 "[9, 9]" "[77]" "[1, 2]"] pton_inverts_encode [of 1 "[9]" "[77]" "[1, 2]"]
  by (simp add: put_0)

end
