(* ===== verification/Digits.thy ===== *)
theory Digits
  imports Prelude
begin

text \<open>
  Positional notation, most significant digit first: the digits of a number without leading zeros,
  the number a digit list stands for, and that the two are inverse.  The DER codec writes tags in
  base 128 and lengths and integers in base 256.
\<close>

fun digits :: "nat \<Rightarrow> nat \<Rightarrow> nat list" where
  "digits B n = (if B < 2 \<or> n = 0 then [] else digits B (n div B) @ [n mod B])"

declare digits.simps [simp del]

definition undigits :: "nat \<Rightarrow> nat list \<Rightarrow> nat" where
  "undigits B ds = foldl (\<lambda>a d. a * B + d) 0 ds"

lemma digits_0 [simp]: "digits B 0 = []"
  by (simp add: digits.simps)

lemma digits_step: "2 \<le> B \<Longrightarrow> 0 < n \<Longrightarrow> digits B n = digits B (n div B) @ [n mod B]"
  by (subst digits.simps) simp

lemma digits_eq_Nil [simp]: "2 \<le> B \<Longrightarrow> digits B n = [] \<longleftrightarrow> n = 0"
  by (cases "n = 0") (simp_all add: digits_step)

lemma digits_push:
  "2 \<le> B \<Longrightarrow> d < B \<Longrightarrow> a * B + d \<noteq> 0 \<Longrightarrow> digits B (a * B + d) = digits B a @ [d]"
  by (subst digits.simps) simp

lemma digits_less: "2 \<le> B \<Longrightarrow> list_all (\<lambda>d. d < B) (digits B n)"
proof (induction B n rule: digits.induct)
  case (1 B n)
  then show ?case by (cases "n = 0") (simp_all add: digits_step)
qed

lemma hd_digits: "2 \<le> B \<Longrightarrow> 0 < n \<Longrightarrow> hd (digits B n) \<noteq> 0"
proof (induction B n rule: digits.induct)
  case (1 B n)
  show ?case
  proof (cases "n div B = 0")
    case True
    then have "n mod B = n" using 1(2) by (simp add: div_eq_0_iff)
    then show ?thesis using 1(2,3) True by (simp add: digits_step)
  next
    case False
    then have "hd (digits B (n div B)) \<noteq> 0" "digits B (n div B) \<noteq> []"
      using 1(1) [OF _ 1(2)] 1(2,3) by simp_all
    then show ?thesis using digits_step [OF 1(2,3)] by simp
  qed
qed

lemma undigits_Nil [simp]: "undigits B [] = 0"
  by (simp add: undigits_def)

lemma undigits_snoc [simp]: "undigits B (ds @ [d]) = undigits B ds * B + d"
  by (simp add: undigits_def)

lemma undigits_single [simp]: "undigits B [d] = d"
  by (simp add: undigits_def)

lemma undigits_digits [simp]: "2 \<le> B \<Longrightarrow> undigits B (digits B n) = n"
proof (induction B n rule: digits.induct)
  case (1 B n)
  then show ?case by (cases "n = 0") (simp_all add: digits_step)
qed

lemma undigits_pos: "ds \<noteq> [] \<Longrightarrow> hd ds \<noteq> 0 \<Longrightarrow> 0 < B \<Longrightarrow> 0 < undigits B ds"
proof (induction ds rule: rev_induct)
  case (snoc d ds)
  then show ?case by (cases "ds = []") simp_all
qed simp

lemma digits_undigits:
  "2 \<le> B \<Longrightarrow> list_all (\<lambda>d. d < B) ds \<Longrightarrow> (ds = [] \<or> hd ds \<noteq> 0) \<Longrightarrow> digits B (undigits B ds) = ds"
proof (induction ds rule: rev_induct)
  case Nil
  then show ?case by simp
next
  case (snoc d ds)
  have "undigits B ds * B + d \<noteq> 0"
    using undigits_pos [of "ds @ [d]" B] snoc.prems by simp
  then show ?case using snoc digits_push [of B d "undigits B ds"] by (cases "ds = []") simp_all
qed

lemma undigits_less:
  "list_all (\<lambda>d. d < B) ds \<Longrightarrow> undigits B ds < B ^ length ds"
proof (induction ds rule: rev_induct)
  case Nil
  then show ?case by simp
next
  case (snoc d ds)
  then have "undigits B ds + 1 \<le> B ^ length ds" "d < B" by simp_all
  then have "(undigits B ds + 1) * B \<le> B ^ length ds * B" by (intro mult_le_mono1)
  then show ?case using \<open>d < B\<close> by (simp add: algebra_simps)
qed

lemma undigits_ge:
  "0 < B \<Longrightarrow> ds \<noteq> [] \<Longrightarrow> hd ds \<noteq> 0 \<Longrightarrow> B ^ (length ds - 1) \<le> undigits B ds"
proof (induction ds rule: rev_induct)
  case Nil
  then show ?case by simp
next
  case (snoc d ds)
  show ?case
  proof (cases "ds = []")
    case True
    then show ?thesis using snoc.prems by simp
  next
    case False
    then have "B ^ (length ds - 1) \<le> undigits B ds" using snoc by simp
    then have "B ^ (length ds - 1) * B \<le> undigits B ds * B" by (rule mult_le_mono1)
    moreover have "B ^ (length ds - 1) * B = B ^ length ds"
      using False by (cases ds) simp_all
    ultimately have "B ^ length ds \<le> undigits B ds * B + d" by linarith
    then show ?thesis by simp
  qed
qed

lemma length_digits_le: "2 \<le> B \<Longrightarrow> length (digits B n) \<le> k \<longleftrightarrow> n < B ^ k"
proof
  assume B: "2 \<le> B" and k: "length (digits B n) \<le> k"
  have "n < B ^ length (digits B n)" using undigits_less [OF digits_less [OF B], of n] B by simp
  also have "\<dots> \<le> B ^ k" using B k by (intro power_increasing) simp_all
  finally show "n < B ^ k" .
next
  assume B: "2 \<le> B" and n: "n < B ^ k"
  show "length (digits B n) \<le> k"
  proof (cases "n = 0")
    case False
    then have "B ^ (length (digits B n) - 1) \<le> n"
      using undigits_ge [of B "digits B n"] hd_digits [OF B, of n] B by simp
    then have "B ^ (length (digits B n) - 1) < B ^ k" using n by (rule le_less_trans)
    moreover have "1 < B" using B by linarith
    ultimately have "length (digits B n) - 1 < k" by (metis power_less_imp_less_exp)
    then show ?thesis by linarith
  qed simp
qed

lemma undigits_append: "undigits B (xs @ ys) = undigits B xs * B ^ length ys + undigits B ys"
proof (induction ys rule: rev_induct)
  case Nil
  then show ?case by simp
next
  case (snoc y ys)
  then show ?case by (simp add: algebra_simps flip: append_assoc)
qed

lemma undigits_prefix_le: "0 < B \<Longrightarrow> undigits B xs \<le> undigits B (xs @ ys)"
  by (simp add: undigits_append trans_le_add1)

section \<open>Digits in machine words\<close>

text \<open>\<^verbatim>\<open>(v << k) | d\<close> appends a digit of \<open>k\<close> bits, as long as nothing is shifted out.\<close>

lemma push_bit_or_digit:
  fixes v d :: "'a::len word"
  assumes "unat d < 2 ^ k" "unat v * 2 ^ k + unat d < 2 ^ LENGTH('a)"
  shows "unat (push_bit k v OR d) = unat v * 2 ^ k + unat d"
proof -
  have "take_bit k d = d"
    using assms(1) by (simp add: word_unat_eq_iff unsigned_take_bit_eq take_bit_nat_eq_self)
  then have "push_bit k v OR d = push_bit k v + d"
    by (metis (no_types) bit_push_bit_iff bit_take_bit_iff disjunctive_add leD)
  moreover have "unat v * 2 ^ k < 2 ^ LENGTH('a)" using assms(2) by linarith
  then have "unat (push_bit k v) = unat v * 2 ^ k"
    by (simp add: unsigned_push_bit_eq push_bit_nat_def take_bit_nat_eq_self)
  ultimately show ?thesis using assms(2) by (simp add: unat_word_ariths)
qed

text \<open>Testing the top bit of a byte and masking the others.\<close>

lemma byte_high_bit: "(b :: u8) AND 0x80 \<noteq> 0 \<longleftrightarrow> 128 \<le> unat b" "(b :: u8) AND 0x80 = 0 \<longleftrightarrow> unat b < 128"
proof -
  have "b AND 2 ^ 7 = 0 \<longleftrightarrow> \<not> bit b 7" by (rule and_exp_eq_0_iff_not_bit)
  moreover have "bit b 7 \<longleftrightarrow> odd (unat b div 128)"
    using bit_unsigned_iff [where 'a = nat, of b 7] by (simp add: bit_iff_odd)
  ultimately show "b AND 0x80 \<noteq> 0 \<longleftrightarrow> 128 \<le> unat b" "b AND 0x80 = 0 \<longleftrightarrow> unat b < 128"
    using odd_div_128 [of "unat b"] u8_less [of b] by auto
qed

lemma unat_and_mask: "unat (x AND mask k) = unat x mod 2 ^ k"
  by (simp add: unsigned_take_bit_eq take_bit_nat_def flip: take_bit_eq_mask)

lemma byte_low_bits: "unat (ucast (b :: u8) AND 0x7f :: u64) = unat b mod 128"
proof -
  have "(0x7f :: u64) = mask 7" by (simp add: mask_eq_exp_minus_1)
  then show ?thesis using unat_and_mask [of "ucast b :: u64" 7] by simp
qed

lemma unat_or_high: "d < 128 \<Longrightarrow> unat (of_nat d OR 0x80 :: u8) = d + 128"
  using push_bit_or_digit [of "of_nat d :: u8" 7 1] by (simp add: unat_of_nat or.commute)

definition be_value :: "u8 list \<Rightarrow> u64" where
  "be_value bs = foldl (\<lambda>r b. push_bit 8 r OR ucast b) 0 bs"

lemma be_value_snoc: "be_value (bs @ [b]) = push_bit 8 (be_value bs) OR ucast b"
  by (simp add: be_value_def)

lemma unat_u8_list: "list_all (\<lambda>d. d < 256) (map unat (bs :: u8 list))"
  using u8_less by (auto simp: list_all_iff)

lemma unat_be_value: "length bs \<le> 8 \<Longrightarrow> unat (be_value bs) = undigits 256 (map unat bs)"
proof (induction bs rule: rev_induct)
  case Nil
  then show ?case by (simp add: be_value_def)
next
  case (snoc b bs)
  have "undigits 256 (map unat (bs @ [b])) < 256 ^ length (bs @ [b])"
    using undigits_less [OF unat_u8_list [of "bs @ [b]"]] by simp
  also have "\<dots> \<le> (256 :: nat) ^ 8" using snoc.prems by (intro power_increasing) simp_all
  finally have "undigits 256 (map unat bs) * 2 ^ 8 + unat b < 2 ^ 64" by simp
  then show ?case
    using snoc push_bit_or_digit [of "ucast b" 8 "be_value bs"] u8_less [of b]
    by (simp add: be_value_snoc)
qed

end
