(* ===== verification/Cbs.thy ===== *)
theory Cbs
  imports C_Memory Digits
begin

text \<open>
  BoringSSL's byte-string reader, \<^verbatim>\<open>crypto/bytestring/cbs.c\<close>: a \<^verbatim>\<open>CBS\<close> is
  a pointer and a length into constant memory, every getter takes bytes off its front, and on top of
  them the DER parser for tags, lengths, integers, booleans, optional elements and bit strings.  A
  getter returns its out parameter as \<open>Some\<close> exactly when the C function returns one, and the
  reader it leaves behind in both cases (a getter may fail after it has consumed something).  What an
  out parameter holds after a failure is not part of the model.  The theory holds the code, the byte
  view of a reader and the laws of the plain getters; \<open>Der\<close> holds the theorems on the parser.
\<close>

section \<open>Plain getters\<close>

record cbs =
  cbs_data :: addr
  cbs_len :: u64

type_synonym 'a getter = "mem \<Rightarrow> cbs \<Rightarrow> 'a option \<times> cbs"

definition CBS_init :: "addr \<Rightarrow> u64 \<Rightarrow> cbs" where
  "CBS_init p n = \<lparr>cbs_data = p, cbs_len = n\<rparr>"

definition cbs_get :: "u64 \<Rightarrow> cbs \<Rightarrow> addr option \<times> cbs" where
  "cbs_get n c =
     (if cbs_len c < n then (None, c)
      else (Some (cbs_data c), c\<lparr>cbs_data := cbs_data c + n, cbs_len := cbs_len c - n\<rparr>))"

definition CBS_skip :: "u64 \<Rightarrow> cbs \<Rightarrow> unit option \<times> cbs" where
  "CBS_skip n c = bind_io (cbs_get n c) (\<lambda>_ c. (Some (), c))"

definition CBS_contains_zero_byte :: "mem \<Rightarrow> cbs \<Rightarrow> bool" where
  "CBS_contains_zero_byte m c = list_ex (\<lambda>b. b = 0) (read_bytes m (cbs_data c) (unat (cbs_len c)))"

definition CRYPTO_memcmp :: "mem \<Rightarrow> addr \<Rightarrow> addr \<Rightarrow> nat \<Rightarrow> u8" where
  "CRYPTO_memcmp m a b n = foldl (\<lambda>x i. x OR (m (a + of_nat i) XOR m (b + of_nat i))) 0 [0..<n]"

definition CBS_mem_equal :: "mem \<Rightarrow> cbs \<Rightarrow> addr \<Rightarrow> u64 \<Rightarrow> bool" where
  "CBS_mem_equal m c p n =
     (if n \<noteq> cbs_len c then False else CRYPTO_memcmp m (cbs_data c) p (unat n) = 0)"

definition cbs_get_u :: "u64 \<Rightarrow> u64 getter" where
  "cbs_get_u n m c =
     bind_io (cbs_get n c)
       (\<lambda>p c. (Some (foldl (\<lambda>r b. push_bit 8 r OR ucast b) 0 (read_bytes m p (unat n))), c))"

definition CBS_get_u8 :: "u8 getter" where
  "CBS_get_u8 m c = bind_io (cbs_get 1 c) (\<lambda>p c. (Some (m p), c))"

definition CBS_get_u16 :: "u16 getter" where
  "CBS_get_u16 m c = bind_io (cbs_get_u 2 m c) (\<lambda>v c. (Some (ucast v), c))"

definition CBS_get_u24 :: "u32 getter" where
  "CBS_get_u24 m c = bind_io (cbs_get_u 3 m c) (\<lambda>v c. (Some (ucast v), c))"

definition CBS_get_u32 :: "u32 getter" where
  "CBS_get_u32 m c = bind_io (cbs_get_u 4 m c) (\<lambda>v c. (Some (ucast v), c))"

definition CBS_get_u64 :: "u64 getter" where
  "CBS_get_u64 m c = cbs_get_u 8 m c"

text \<open>\<^verbatim>\<open>CRYPTO_bswap2/4/8\<close>, in the portable version of the header.\<close>

definition CRYPTO_bswap2 :: "u16 \<Rightarrow> u16" where
  "CRYPTO_bswap2 x = drop_bit 8 x OR push_bit 8 x"

definition CRYPTO_bswap4 :: "u32 \<Rightarrow> u32" where
  "CRYPTO_bswap4 x =
     (let x = drop_bit 16 x OR push_bit 16 x
      in drop_bit 8 (x AND 0xff00ff00) OR push_bit 8 (x AND 0x00ff00ff))"

definition CRYPTO_bswap8 :: "u64 \<Rightarrow> u64" where
  "CRYPTO_bswap8 x =
     ucast (CRYPTO_bswap4 (ucast (drop_bit 32 x))) OR push_bit 32 (ucast (CRYPTO_bswap4 (ucast x)))"

definition CBS_get_u16le :: "u16 getter" where
  "CBS_get_u16le m c = bind_io (CBS_get_u16 m c) (\<lambda>v c. (Some (CRYPTO_bswap2 v), c))"

definition CBS_get_u32le :: "u32 getter" where
  "CBS_get_u32le m c = bind_io (CBS_get_u32 m c) (\<lambda>v c. (Some (CRYPTO_bswap4 v), c))"

definition CBS_get_u64le :: "u64 getter" where
  "CBS_get_u64le m c = bind_io (cbs_get_u 8 m c) (\<lambda>v c. (Some (CRYPTO_bswap8 v), c))"

definition CBS_get_last_u8 :: "u8 getter" where
  "CBS_get_last_u8 m c =
     (if cbs_len c = 0 then (None, c)
      else (Some (m (cbs_data c + (cbs_len c - 1))), c\<lparr>cbs_len := cbs_len c - 1\<rparr>))"

definition CBS_get_bytes :: "u64 \<Rightarrow> cbs \<Rightarrow> cbs option \<times> cbs" where
  "CBS_get_bytes n c = bind_io (cbs_get n c) (\<lambda>p c. (Some (CBS_init p n), c))"

text \<open>The copy returns the memory after \<^verbatim>\<open>memcpy\<close> to \<^verbatim>\<open>out\<close>.\<close>

definition CBS_copy_bytes :: "addr \<Rightarrow> u64 \<Rightarrow> mem getter" where
  "CBS_copy_bytes out n m c =
     bind_io (cbs_get n c) (\<lambda>p c. (Some (write_bytes m out (read_bytes m p (unat n))), c))"

definition cbs_get_length_prefixed :: "u64 \<Rightarrow> cbs getter" where
  "cbs_get_length_prefixed len_len m c =
     bind_io (cbs_get_u len_len m c) (\<lambda>n c. CBS_get_bytes n c)"

definition CBS_get_u8_length_prefixed :: "cbs getter" where
  "CBS_get_u8_length_prefixed m c = cbs_get_length_prefixed 1 m c"

definition CBS_get_u16_length_prefixed :: "cbs getter" where
  "CBS_get_u16_length_prefixed m c = cbs_get_length_prefixed 2 m c"

definition CBS_get_u24_length_prefixed :: "cbs getter" where
  "CBS_get_u24_length_prefixed m c = cbs_get_length_prefixed 3 m c"

section \<open>Tags and elements\<close>

text \<open>The do-while loop of \<^verbatim>\<open>parse_base128_integer\<close>, entered with the value so far.\<close>

lemma CBS_get_u8_shrinks: "CBS_get_u8 m c = (Some b, c') \<Longrightarrow> unat (cbs_len c') < unat (cbs_len c)"
  by (auto simp: CBS_get_u8_def cbs_get_def unat_minus_one unat_gt_0 split: if_splits)

function base128_loop :: "u64 \<Rightarrow> u64 getter" where
  "base128_loop v m c =
     bind_io (CBS_get_u8 m c)
       (\<lambda>b c.
          if drop_bit (64 - 7) v \<noteq> 0 then (None, c)
          else if v = 0 \<and> b = 0x80 then (None, c)
          else
            let v = push_bit 7 v OR (ucast b AND 0x7f) in
            if b AND 0x80 \<noteq> 0 then base128_loop v m c else (Some v, c))"
  by pat_completeness auto
termination
  by (relation "measure (\<lambda>(v, m, c). unat (cbs_len c))") (auto dest: CBS_get_u8_shrinks)

declare base128_loop.simps [simp del]

definition parse_base128_integer :: "u64 getter" where
  "parse_base128_integer m c = base128_loop 0 m c"

definition CBS_ASN1_TAG_SHIFT :: nat where "CBS_ASN1_TAG_SHIFT = 24"
definition CBS_ASN1_CONSTRUCTED :: u32 where "CBS_ASN1_CONSTRUCTED = push_bit CBS_ASN1_TAG_SHIFT 0x20"
definition CBS_ASN1_TAG_NUMBER_MASK :: u32 where
  "CBS_ASN1_TAG_NUMBER_MASK = push_bit (5 + CBS_ASN1_TAG_SHIFT) 1 - 1"
definition CBS_ASN1_BOOLEAN :: u32 where "CBS_ASN1_BOOLEAN = 1"
definition CBS_ASN1_INTEGER :: u32 where "CBS_ASN1_INTEGER = 2"
definition CBS_ASN1_OCTETSTRING :: u32 where "CBS_ASN1_OCTETSTRING = 4"

definition parse_asn1_tag :: "u32 getter" where
  "parse_asn1_tag m c =
     bind_io (CBS_get_u8 m c)
       (\<lambda>tag_byte c.
          let tag = push_bit CBS_ASN1_TAG_SHIFT (ucast tag_byte AND 0xe0);
              tag_number = ucast (tag_byte AND 0x1f) in
          if tag_number = 0x1f then
            bind_io (parse_base128_integer m c)
              (\<lambda>v c. if v > ucast CBS_ASN1_TAG_NUMBER_MASK \<or> v < 0x1f then (None, c)
                     else (Some (tag OR ucast v), c))
          else (Some (tag OR tag_number), c))"

text \<open>The element, header included, with its tag and the length of its header.  The header is parsed
  on a copy of the reader, so a malformed one leaves the reader where it was.\<close>

definition cbs_get_any_asn1_element :: "bool \<Rightarrow> (cbs \<times> u32 \<times> u64) getter" where
  "cbs_get_any_asn1_element ber_ok m c =
     (case bind_io (parse_asn1_tag m c)
             (\<lambda>tag header. bind_io (CBS_get_u8 m header) (\<lambda>length_byte header. (Some (tag, length_byte), header))) of
        (None, _) \<Rightarrow> (None, c)
      | (Some (tag, length_byte), header) \<Rightarrow>
          let header_len = cbs_len c - cbs_len header;
              element = (\<lambda>len header_len. bind_io (CBS_get_bytes len c) (\<lambda>out c. (Some (out, tag, header_len), c))) in
          if length_byte AND 0x80 = 0 then element (ucast length_byte + header_len) header_len
          else
            let num_bytes = ucast (length_byte AND 0x7f) :: u64 in
            if ber_ok \<and> tag AND CBS_ASN1_CONSTRUCTED \<noteq> 0 \<and> num_bytes = 0
            then element header_len header_len
            else if num_bytes = 0 \<or> num_bytes > 4 then (None, c)
            else case cbs_get_u num_bytes m header of
                (None, _) \<Rightarrow> (None, c)
              | (Some len, _) \<Rightarrow>
                  if len < 128 then (None, c)
                  else if drop_bit ((unat num_bytes - 1) * 8) len = 0 then (None, c)
                  else if len + header_len + num_bytes < len then (None, c)
                  else element (len + (header_len + num_bytes)) (header_len + num_bytes))"

definition CBS_get_any_asn1_element :: "(cbs \<times> u32 \<times> u64) getter" where
  "CBS_get_any_asn1_element m c = cbs_get_any_asn1_element False m c"

definition CBS_get_any_ber_asn1_element :: "(cbs \<times> u32 \<times> u64) getter" where
  "CBS_get_any_ber_asn1_element m c = cbs_get_any_asn1_element True m c"

definition CBS_get_any_asn1 :: "(cbs \<times> u32) getter" where
  "CBS_get_any_asn1 m c =
     bind_io (CBS_get_any_asn1_element m c)
       (\<lambda>(out, tag, header_len) c.
          case CBS_skip header_len out of (None, _) \<Rightarrow> (None, c) | (Some _, out) \<Rightarrow> (Some (out, tag), c))"

definition cbs_get_asn1 :: "u32 \<Rightarrow> bool \<Rightarrow> cbs getter" where
  "cbs_get_asn1 tag_value skip_header m c =
     bind_io (CBS_get_any_asn1_element m c)
       (\<lambda>(out, tag, header_len) c.
          if tag \<noteq> tag_value then (None, c)
          else if skip_header then
            (case CBS_skip header_len out of (None, _) \<Rightarrow> (None, c) | (Some _, out) \<Rightarrow> (Some out, c))
          else (Some out, c))"

definition CBS_get_asn1 :: "u32 \<Rightarrow> cbs getter" where
  "CBS_get_asn1 tag_value m c = cbs_get_asn1 tag_value True m c"

definition CBS_get_asn1_element :: "u32 \<Rightarrow> cbs getter" where
  "CBS_get_asn1_element tag_value m c = cbs_get_asn1 tag_value False m c"

definition CBS_peek_asn1_tag :: "u32 \<Rightarrow> mem \<Rightarrow> cbs \<Rightarrow> bool" where
  "CBS_peek_asn1_tag tag_value m c =
     (if cbs_len c < 1 then False
      else case fst (parse_asn1_tag m c) of None \<Rightarrow> False | Some tag \<Rightarrow> tag_value = tag)"

section \<open>Values\<close>

fun uint64_loop :: "u8 list \<Rightarrow> u64 \<Rightarrow> u64 option" where
  "uint64_loop [] v = Some v"
| "uint64_loop (b # bs) v =
     (if drop_bit 56 v \<noteq> 0 then None else uint64_loop bs (push_bit 8 v OR ucast b))"

definition CBS_get_asn1_uint64 :: "u64 getter" where
  "CBS_get_asn1_uint64 m c =
     bind_io (CBS_get_asn1 CBS_ASN1_INTEGER m c)
       (\<lambda>bytes c.
          let p = cbs_data bytes; n = cbs_len bytes in
          if n = 0 then (None, c)
          else if m p AND 0x80 \<noteq> 0 then (None, c)
          else if m p = 0 \<and> n > 1 \<and> m (p + 1) AND 0x80 = 0 then (None, c)
          else (uint64_loop (read_bytes m p (unat n)) 0, c))"

text \<open>The bytes of \<^verbatim>\<open>union { int64_t i; uint8_t bytes[8]; }\<close> are little-endian; the value is
  its 64-bit pattern.\<close>

definition CBS_get_asn1_int64 :: "u64 getter" where
  "CBS_get_asn1_int64 m c =
     bind_io (CBS_get_asn1 CBS_ASN1_INTEGER m c)
       (\<lambda>bytes c.
          let p = cbs_data bytes; n = cbs_len bytes in
          if n = 0 \<or> n > 8 then (None, c)
          else if n > 1 \<and> m p = 0 \<and> m (p + 1) AND 0x80 = 0 then (None, c)
          else if n > 1 \<and> m p = 0xff \<and> m (p + 1) AND 0x80 \<noteq> 0 then (None, c)
          else
            let is_negative = m p AND 0x80 \<noteq> 0;
                u = replicate 8 (if is_negative then 0xff else 0);
                u = foldl (\<lambda>u i. u[i := m (p + (n - of_nat i - 1))]) u [0..<unat n] in
            (Some (bytes_to_word u), c))"

definition CBS_get_asn1_bool :: "bool getter" where
  "CBS_get_asn1_bool m c =
     bind_io (CBS_get_asn1 CBS_ASN1_BOOLEAN m c)
       (\<lambda>bytes c.
          if cbs_len bytes \<noteq> 1 then (None, c)
          else
            let value = m (cbs_data bytes) in
            if value \<noteq> 0 \<and> value \<noteq> 0xff then (None, c) else (Some (value \<noteq> 0), c))"

text \<open>The value is \<open>Some None\<close> when the element is absent, which is not a failure.\<close>

definition CBS_get_optional_asn1 :: "u32 \<Rightarrow> cbs option getter" where
  "CBS_get_optional_asn1 tag m c =
     (if CBS_peek_asn1_tag tag m c
      then bind_io (CBS_get_asn1 tag m c) (\<lambda>out c. (Some (Some out), c))
      else (Some None, c))"

text \<open>The value is the reader stored in \<^verbatim>\<open>*out\<close> and \<^verbatim>\<open>*out_present\<close>.\<close>

definition CBS_get_optional_asn1_octet_string :: "u32 \<Rightarrow> (cbs \<times> bool) getter" where
  "CBS_get_optional_asn1_octet_string tag m c =
     bind_io (CBS_get_optional_asn1 tag m c)
       (\<lambda>present c.
          case present of
            None \<Rightarrow> (Some (CBS_init 0 0, False), c)
          | Some child \<Rightarrow>
              (case CBS_get_asn1 CBS_ASN1_OCTETSTRING m child of
                 (None, _) \<Rightarrow> (None, c)
               | (Some out, child) \<Rightarrow>
                   if cbs_len child \<noteq> 0 then (None, c) else (Some (out, True), c)))"

definition CBS_get_optional_asn1_uint64 :: "u32 \<Rightarrow> u64 \<Rightarrow> u64 getter" where
  "CBS_get_optional_asn1_uint64 tag default_value m c =
     bind_io (CBS_get_optional_asn1 tag m c)
       (\<lambda>present c.
          case present of
            None \<Rightarrow> (Some default_value, c)
          | Some child \<Rightarrow>
              (case CBS_get_asn1_uint64 m child of
                 (None, _) \<Rightarrow> (None, c)
               | (Some out, child) \<Rightarrow> if cbs_len child \<noteq> 0 then (None, c) else (Some out, c)))"

definition CBS_get_optional_asn1_bool :: "u32 \<Rightarrow> int \<Rightarrow> int getter" where
  "CBS_get_optional_asn1_bool tag default_value m c =
     bind_io (CBS_get_optional_asn1 tag m c)
       (\<lambda>present c.
          case present of
            None \<Rightarrow> (Some default_value, c)
          | Some child \<Rightarrow>
              (case CBS_get_asn1 CBS_ASN1_BOOLEAN m child of
                 (None, _) \<Rightarrow> (None, c)
               | (Some child2, child) \<Rightarrow>
                   if cbs_len child2 \<noteq> 1 \<or> cbs_len child \<noteq> 0 then (None, c)
                   else
                     let boolean = m (cbs_data child2) in
                     if boolean = 0 then (Some 0, c)
                     else if boolean = 0xff then (Some 1, c)
                     else (None, c)))"

definition CBS_is_valid_asn1_bitstring :: "mem \<Rightarrow> cbs \<Rightarrow> bool" where
  "CBS_is_valid_asn1_bitstring m c =
     (case CBS_get_u8 m c of
        (None, _) \<Rightarrow> False
      | (Some num_unused_bits, c) \<Rightarrow>
          if num_unused_bits > 7 then False
          else if num_unused_bits = 0 then True
          else case CBS_get_last_u8 m c of
                 (None, _) \<Rightarrow> False
               | (Some last_byte, _) \<Rightarrow>
                   (ucast last_byte :: u32) AND (push_bit (unat num_unused_bits) 1 - 1) = 0)"

definition CBS_asn1_bitstring_has_bit :: "mem \<Rightarrow> cbs \<Rightarrow> u32 \<Rightarrow> bool" where
  "CBS_asn1_bitstring_has_bit m c b =
     (if \<not> CBS_is_valid_asn1_bitstring m c then False
      else
        let byte_num = ucast (drop_bit 3 b + 1) :: u64; bit_num = 7 - (b AND 7) in
        byte_num < cbs_len c \<and>
          (ucast (m (cbs_data c + byte_num)) :: u32) AND push_bit (unat bit_num) 1 \<noteq> 0)"

section \<open>The bytes of a reader\<close>

definition cbs_bytes :: "mem \<Rightarrow> cbs \<Rightarrow> u8 list" where
  "cbs_bytes m c = read_bytes m (cbs_data c) (unat (cbs_len c))"

text \<open>The reader after \<open>n\<close> bytes were taken off its front, and the one over its first \<open>n\<close> bytes.\<close>

definition cbs_adv :: "nat \<Rightarrow> cbs \<Rightarrow> cbs" where
  "cbs_adv n c = \<lparr>cbs_data = cbs_data c + of_nat n, cbs_len = cbs_len c - of_nat n\<rparr>"

definition cbs_front :: "nat \<Rightarrow> cbs \<Rightarrow> cbs" where
  "cbs_front n c = \<lparr>cbs_data = cbs_data c, cbs_len = of_nat n\<rparr>"

lemma length_cbs_bytes [simp]: "length (cbs_bytes m c) = unat (cbs_len c)"
  by (simp add: cbs_bytes_def)

lemma cbs_adv_0 [simp]: "cbs_adv 0 c = c"
  by (simp add: cbs_adv_def)

lemma cbs_adv_adv [simp]: "cbs_adv a (cbs_adv b c) = cbs_adv (b + a) c"
  by (simp add: cbs_adv_def algebra_simps)

lemma unat_sub_of_nat: "n \<le> unat (x :: u64) \<Longrightarrow> unat (x - of_nat n) = unat x - n"
  using u64_less [of x] by (simp add: unat_sub word_le_nat_alt del: u64_less)

lemma len_adv: "n \<le> unat (cbs_len c) \<Longrightarrow> unat (cbs_len (cbs_adv n c)) = unat (cbs_len c) - n"
  by (simp add: cbs_adv_def unat_sub_of_nat)

lemma read_bytes_take: "k \<le> n \<Longrightarrow> take k (read_bytes m a n) = read_bytes m a k"
  by (rule nth_equalityI) auto

lemma read_bytes_drop: "drop k (read_bytes m a n) = read_bytes m (a + of_nat k) (n - k)"
  by (rule nth_equalityI) (auto simp: algebra_simps)

lemma bytes_adv: "n \<le> unat (cbs_len c) \<Longrightarrow> cbs_bytes m (cbs_adv n c) = drop n (cbs_bytes m c)"
  by (simp add: cbs_bytes_def read_bytes_drop len_adv) (simp add: cbs_adv_def)

lemma bytes_front:
  assumes "n \<le> unat (cbs_len c)"
  shows "cbs_bytes m (cbs_front n c) = take n (cbs_bytes m c)"
proof -
  have "n < 2 ^ 64" using assms le_less_trans [OF _ u64_less] by simp
  then show ?thesis using assms by (simp add: cbs_bytes_def cbs_front_def read_bytes_take)
qed

lemma bytes_Cons: "cbs_len c \<noteq> 0 \<Longrightarrow> cbs_bytes m c = m (cbs_data c) # cbs_bytes m (cbs_adv 1 c)"
proof (cases "unat (cbs_len c)")
  case 0
  then show "cbs_len c \<noteq> 0 \<Longrightarrow> ?thesis" by (simp add: unat_eq_0)
next
  case (Suc n)
  then show ?thesis using len_adv [of 1 c] by (simp add: cbs_bytes_def read_bytes_Suc) (simp add: cbs_adv_def)
qed

lemma get_spec:
  "cbs_get n c = (if unat n \<le> unat (cbs_len c) then (Some (cbs_data c), cbs_adv (unat n) c) else (None, c))"
  by (simp add: cbs_get_def cbs_adv_def word_less_nat_alt not_less)

lemma skip_spec:
  "CBS_skip n c = (if unat n \<le> unat (cbs_len c) then (Some (), cbs_adv (unat n) c) else (None, c))"
  by (simp add: CBS_skip_def get_spec)

lemma get_bytes_spec:
  "CBS_get_bytes n c =
     (if unat n \<le> unat (cbs_len c) then (Some (cbs_front (unat n) c), cbs_adv (unat n) c) else (None, c))"
  by (simp add: CBS_get_bytes_def get_spec CBS_init_def cbs_front_def)

lemma get_u8_spec:
  "CBS_get_u8 m c = (case cbs_bytes m c of [] \<Rightarrow> (None, c) | b # _ \<Rightarrow> (Some b, cbs_adv 1 c))"
proof (cases "cbs_len c = 0")
  case True
  then show ?thesis by (simp add: CBS_get_u8_def get_spec cbs_bytes_def)
next
  case False
  then show ?thesis using unat_gt_0 [of "cbs_len c"] by (simp add: CBS_get_u8_def get_spec bytes_Cons)
qed

lemma get_u_spec:
  "cbs_get_u n m c =
     (if unat n \<le> unat (cbs_len c)
      then (Some (be_value (take (unat n) (cbs_bytes m c))), cbs_adv (unat n) c) else (None, c))"
  by (simp add: cbs_get_u_def get_spec be_value_def cbs_bytes_def read_bytes_take)

lemmas getter_specs = get_spec skip_spec get_bytes_spec get_u8_spec get_u_spec

end
