(* ===== verification/Der.thy ===== *)
theory Der
  imports Cbs
begin

text \<open>
  What the parser of \<open>Cbs\<close> accepts.  The reference is the distinguished encoding itself: a tag in one
  byte or in base 128, a length in the fewest bytes that hold it, integers as the shortest two's
  complement.  The parser is shown to accept exactly these encodings, to consume exactly them, and to
  leave the reader untouched on everything else.
\<close>

section \<open>The encoding\<close>

definition cont_byte :: "nat \<Rightarrow> u8" where
  "cont_byte d = of_nat d OR 0x80"

definition base128 :: "nat \<Rightarrow> u8 list" where
  "base128 n = map cont_byte (digits 128 (n div 128)) @ [of_nat (n mod 128)]"

definition be_bytes :: "nat \<Rightarrow> u8 list" where
  "be_bytes n = map of_nat (digits 256 n)"

definition tag_number :: "u32 \<Rightarrow> nat" where
  "tag_number t = unat (t AND CBS_ASN1_TAG_NUMBER_MASK)"

definition tag_bits :: "u32 \<Rightarrow> u8" where
  "tag_bits t = ucast (drop_bit CBS_ASN1_TAG_SHIFT t) AND 0xe0"

definition der_tag :: "u32 \<Rightarrow> u8 list" where
  "der_tag t =
     (if tag_number t < 31 then [tag_bits t OR of_nat (tag_number t)]
      else (tag_bits t OR 0x1f) # base128 (tag_number t))"

definition der_length :: "nat \<Rightarrow> u8 list" where
  "der_length n =
     (if n < 128 then [of_nat n] else (of_nat (length (be_bytes n)) OR 0x80) # be_bytes n)"

definition der_element :: "u32 \<Rightarrow> u8 list \<Rightarrow> u8 list" where
  "der_element t body = der_tag t @ der_length (length body) @ body"

section \<open>Base 128\<close>

lemma unat_cont_byte: "d < 128 \<Longrightarrow> unat (cont_byte d) = d + 128"
  by (simp add: cont_byte_def unat_or_high)

lemma shift_out_iff: "k < 64 \<Longrightarrow> drop_bit k (v :: u64) \<noteq> 0 \<longleftrightarrow> 2 ^ k \<le> unat v"
proof -
  have "unat (drop_bit k v) = unat v div 2 ^ k"
    using unsigned_drop_bit_eq [of k v, where 'a = nat] by (simp add: drop_bit_eq_div take_bit_nat_eq_self)
  then show "k < 64 \<Longrightarrow> ?thesis" by (metis div_eq_0_iff not_less power_eq_0_iff unat_eq_0 zero_neq_numeral)
qed

definition acc128 :: "u64 \<Rightarrow> nat \<Rightarrow> u64" where
  "acc128 v d = of_nat (unat v * 128 + d)"

lemma unat_acc128: "unat v < 2 ^ 57 \<Longrightarrow> d < 128 \<Longrightarrow> unat (acc128 v d) = unat v * 128 + d"
  unfolding acc128_def by (rule unat_of_nat64) simp

text \<open>One round of the loop, on numbers.\<close>

lemma base128_step:
  "base128_loop v m c =
     (case cbs_bytes m c of
        [] \<Rightarrow> (None, c)
      | b # _ \<Rightarrow>
          if 2 ^ 57 \<le> unat v \<or> (v = 0 \<and> b = 0x80) then (None, cbs_adv 1 c)
          else if 128 \<le> unat b then base128_loop (acc128 v (unat b mod 128)) m (cbs_adv 1 c)
          else (Some (acc128 v (unat b mod 128)), cbs_adv 1 c))"
proof (cases "cbs_bytes m c")
  case Nil
  then show ?thesis by (subst base128_loop.simps) (simp add: get_u8_spec)
next
  case (Cons b bs)
  have "push_bit 7 v OR (ucast b AND 0x7f) = acc128 v (unat b mod 128)" if v: "unat v < 2 ^ 57"
  proof -
    have "unat (push_bit 7 v OR (ucast b AND 0x7f)) = unat (acc128 v (unat b mod 128))"
      using v by (subst push_bit_or_digit) (simp_all add: byte_low_bits unat_acc128)
    then show ?thesis by (rule word_unat_eq_iff [THEN iffD2])
  qed
  then show ?thesis
    using Cons shift_out_iff [of 57 v] by (subst base128_loop.simps)
      (simp add: get_u8_spec byte_high_bit Let_def not_le)
qed

text \<open>A number read in base 128 with the value \<open>v\<close> already accumulated.\<close>

definition reads128 :: "nat \<Rightarrow> nat list \<Rightarrow> nat \<Rightarrow> nat \<Rightarrow> bool" where
  "reads128 v ds d n \<longleftrightarrow>
     list_all (\<lambda>d. d < 128) (ds @ [d]) \<and> (v = 0 \<longrightarrow> ds = [] \<or> hd ds \<noteq> 0) \<and>
     n = foldl (\<lambda>a d. a * 128 + d) v (ds @ [d]) \<and> n < 2 ^ 64"

lemma foldl_128_ge: "v \<le> foldl (\<lambda>a d. a * 128 + d) v (ds :: nat list)"
proof (induction ds arbitrary: v)
  case (Cons d ds)
  have "v \<le> v * 128 + d" by simp
  also have "\<dots> \<le> foldl (\<lambda>a d. a * 128 + d) (v * 128 + d) ds" by (rule Cons)
  finally show ?case by simp
qed simp

lemma reads128_Cons:
  assumes "unat v < 2 ^ 57" "e < 128"
  shows "reads128 (unat v) (e # ds) d n \<longleftrightarrow>
    (v = 0 \<longrightarrow> e \<noteq> 0) \<and> reads128 (unat (acc128 v e)) ds d n"
proof -
  have "unat v = 0 \<longleftrightarrow> v = 0" by (rule unat_eq_0)
  then show ?thesis using assms by (auto simp: reads128_def unat_acc128)
qed

lemma reads128_bound: "reads128 v (e # ds) d n \<Longrightarrow> v < 2 ^ 57"
  using foldl_128_ge [of "v * 128 + e" "ds @ [d]"] by (simp add: reads128_def)

lemma reads128_Nil: "reads128 v [] d n \<longleftrightarrow> d < 128 \<and> n = v * 128 + d \<and> n < 2 ^ 64"
  by (auto simp: reads128_def)

lemma base128_loop_complete:
  "cbs_bytes m c = map cont_byte ds @ of_nat d # rest \<Longrightarrow> reads128 (unat v) ds d n \<Longrightarrow>
   base128_loop v m c = (Some (of_nat n), cbs_adv (length ds + 1) c)"
proof (induction ds arbitrary: v c)
  case Nil
  then have n: "d < 128" "unat v * 128 + d < 2 ^ 64" "n = unat v * 128 + d" by (simp_all add: reads128_Nil)
  then have "unat v < 2 ^ 57" by simp
  have u: "unat (of_nat d :: u8) = d" using n by (simp add: unat_of_nat)
  moreover have "(of_nat d :: u8) \<noteq> 0x80" using u n by auto
  ultimately show ?case using Nil.prems(1) n \<open>unat v < 2 ^ 57\<close>
    by (subst base128_step) (simp add: acc128_def)
next
  case (Cons e ds)
  have e: "e < 128" using Cons.prems(2) by (simp add: reads128_def)
  have v: "unat v < 2 ^ 57" using reads128_bound [OF Cons.prems(2)] .
  have "unat (cbs_len c) = Suc (length ds + 1 + length rest)"
    using arg_cong [OF Cons.prems(1), of length] by simp
  then have "cbs_bytes m (cbs_adv 1 c) = map cont_byte ds @ of_nat d # rest"
    using Cons.prems(1) by (simp add: bytes_adv)
  then have "base128_loop (acc128 v e) m (cbs_adv 1 c) =
      (Some (of_nat n), cbs_adv (length ds + 1) (cbs_adv 1 c))"
    using Cons.prems(2) reads128_Cons [OF v e] by (intro Cons.IH) simp_all
  moreover have "v = 0 \<longrightarrow> cont_byte e \<noteq> 0x80"
    using Cons.prems(2) reads128_Cons [OF v e] unat_cont_byte [OF e] by auto
  ultimately show ?case
    using Cons.prems(1) v e by (subst base128_step) (simp add: unat_cont_byte)
qed

lemma cont_byte_0: "cont_byte 0 = 0x80"
  by (simp add: cont_byte_def)

lemma cont_byte_of: "128 \<le> unat (b :: u8) \<Longrightarrow> cont_byte (unat b mod 128) = b"
proof -
  assume b: "128 \<le> unat b"
  have "unat b - 128 < 128" using u8_less [of b] by linarith
  then have "unat b mod 128 = unat b - 128" using b by (simp only: le_mod_geq mod_less)
  then have "unat (cont_byte (unat b mod 128)) = unat b" using b unat_cont_byte [of "unat b mod 128"] by simp
  then show ?thesis by (rule word_unat_eq_iff [THEN iffD2])
qed

lemma base128_loop_sound:
  "base128_loop v m c = (Some w, c') \<Longrightarrow>
   \<exists>ds d rest. cbs_bytes m c = map cont_byte ds @ of_nat d # rest \<and> reads128 (unat v) ds d (unat w) \<and>
     c' = cbs_adv (length ds + 1) c"
proof (induction "unat (cbs_len c)" arbitrary: v c rule: less_induct)
  case less
  obtain b bs where b: "cbs_bytes m c = b # bs"
    using less.prems by (subst (asm) base128_step) (auto split: list.splits)
  have small: "unat v < 2 ^ 57" "v = 0 \<longrightarrow> b \<noteq> 0x80"
    using less.prems b by (subst (asm) base128_step; auto split: if_splits)+
  let ?e = "unat b mod 128"
  have len: "0 < unat (cbs_len c)" using arg_cong [OF b, of length] by simp
  then have bs: "cbs_bytes m (cbs_adv 1 c) = bs" using b by (simp add: bytes_adv)
  show ?case
  proof (cases "128 \<le> unat b")
    case False
    then have "w = acc128 v (unat b)" "c' = cbs_adv 1 c"
      using less.prems b small by (subst (asm) base128_step; auto)+
    then have "reads128 (unat v) [] (unat b) (unat w)" using False small by (simp add: reads128_Nil unat_acc128)
    then show ?thesis using b \<open>c' = cbs_adv 1 c\<close>
      by (intro exI [of _ "[]"] exI [of _ "unat b"] exI [of _ bs]) simp
  next
    case True
    then have "base128_loop (acc128 v ?e) m (cbs_adv 1 c) = (Some w, c')"
      using less.prems b small by (subst (asm) base128_step) (auto simp: not_le)
    note call = this
    have "unat (cbs_len (cbs_adv 1 c)) < unat (cbs_len c)" using len by (simp add: len_adv)
    from less.hyps [OF this call] obtain ds d rest where ds: "bs = map cont_byte ds @ of_nat d # rest"
      "reads128 (unat (acc128 v ?e)) ds d (unat w)" "c' = cbs_adv (length ds + 1) (cbs_adv 1 c)"
      unfolding bs by blast
    have "v = 0 \<longrightarrow> ?e \<noteq> 0"
      using small(2) cont_byte_of [OF True] cont_byte_0 by metis
    then have "reads128 (unat v) (?e # ds) d (unat w)" using ds(2) small(1) by (simp add: reads128_Cons)
    then show ?thesis using b ds cont_byte_of [OF True]
      by (intro exI [of _ "?e # ds"] exI [of _ d] exI [of _ rest]) simp
  qed
qed

text \<open>From the start, the loop reads exactly the base-128 encodings of 64-bit numbers.\<close>

lemma reads128_base128: "reads128 0 ds d n \<Longrightarrow> map cont_byte ds @ [of_nat d] = base128 n"
proof -
  assume r: "reads128 0 ds d n"
  have "list_all (\<lambda>d. d < 128) ds" "ds = [] \<or> hd ds \<noteq> 0" "d < 128" "n = undigits 128 ds * 128 + d"
    using r by (auto simp: reads128_def undigits_def)
  then show ?thesis using digits_undigits [of 128 ds] by (simp add: base128_def)
qed

lemma base128_reads128: "n < 2 ^ 64 \<Longrightarrow> reads128 0 (digits 128 (n div 128)) (n mod 128) n"
  using undigits_digits [of 128 "n div 128"] digits_less [of 128 "n div 128"] hd_digits [of 128 "n div 128"]
  by (cases "n div 128 = 0") (auto simp: reads128_def undigits_def)

lemma length_base128: "length (base128 n) = length (digits 128 (n div 128)) + 1"
  by (simp add: base128_def)

lemma parse_base128_complete:
  "cbs_bytes m c = base128 n @ rest \<Longrightarrow> n < 2 ^ 64 \<Longrightarrow>
   parse_base128_integer m c = (Some (of_nat n), cbs_adv (length (base128 n)) c)"
  unfolding parse_base128_integer_def length_base128
  by (rule base128_loop_complete [where d = "n mod 128" and rest = rest])
     (simp_all add: base128_def base128_reads128)

lemma parse_base128_sound:
  assumes "parse_base128_integer m c = (Some w, c')"
  shows "\<exists>rest. cbs_bytes m c = base128 (unat w) @ rest" "c' = cbs_adv (length (base128 (unat w))) c"
proof -
  obtain ds d rest where ds: "cbs_bytes m c = map cont_byte ds @ of_nat d # rest"
    "reads128 0 ds d (unat w)" "c' = cbs_adv (length ds + 1) c"
    using base128_loop_sound [OF assms [unfolded parse_base128_integer_def]] by auto
  have e: "map cont_byte ds @ [of_nat d] = base128 (unat w)" using reads128_base128 [OF ds(2)] .
  then have "length (base128 (unat w)) = length ds + 1" by (metis length_append_singleton length_map Suc_eq_plus1)
  then show "\<exists>rest. cbs_bytes m c = base128 (unat w) @ rest" "c' = cbs_adv (length (base128 (unat w))) c"
    using ds(1,3) by (simp_all flip: e)
qed

section \<open>Tags\<close>

lemma tag_masks:
  "CBS_ASN1_TAG_NUMBER_MASK = mask 29" "(0x1f :: u8) = mask 5" "(0xe0 :: u8) = NOT (mask 5)"
  "CBS_ASN1_TAG_SHIFT = 24"
  by (simp_all add: CBS_ASN1_TAG_NUMBER_MASK_def CBS_ASN1_TAG_SHIFT_def mask_eq_exp_minus_1)

definition make_tag :: "u8 \<Rightarrow> u32 \<Rightarrow> u32" where
  "make_tag hi v = push_bit 24 (ucast (hi AND 0xe0)) OR v"

lemma make_tag_parts:
  assumes "unat v < 2 ^ 29"
  shows "tag_bits (make_tag hi v) = hi AND 0xe0" "tag_number (make_tag hi v) = unat v"
proof -
  have "take_bit 29 v = v"
    using assms by (simp add: word_unat_eq_iff unsigned_take_bit_eq take_bit_nat_eq_self)
  then have v: "bit v k \<Longrightarrow> k < 29" for k by (metis bit_take_bit_iff)
  show "tag_bits (make_tag hi v) = hi AND 0xe0"
    unfolding tag_bits_def make_tag_def tag_masks
    by (rule bit_word_eqI) (auto simp: bit_simps dest: v)
  have "make_tag hi v AND mask 29 = v"
    unfolding make_tag_def tag_masks by (rule bit_word_eqI) (auto simp: bit_simps dest: v)
  then show "tag_number (make_tag hi v) = unat v" by (simp add: tag_number_def tag_masks)
qed

lemma tag_bits_masked [simp]: "tag_bits t AND 0xe0 = tag_bits t"
  by (simp add: tag_bits_def and.assoc)

lemma tag_number_less: "tag_number t < 2 ^ 29"
  by (simp add: tag_number_def tag_masks unat_and_mask)

lemma make_tag_of: "make_tag (tag_bits t) (of_nat (tag_number t)) = t"
proof -
  have "(of_nat (tag_number t) :: u32) = t AND mask 29" by (simp add: tag_number_def tag_masks)
  then show ?thesis unfolding make_tag_def tag_bits_def tag_masks
    by (intro bit_word_eqI) (auto simp: bit_simps)
qed

lemma tag_byte_split: "(b :: u8) = (b AND 0xe0) OR (b AND 0x1f)"
  unfolding tag_masks by (rule bit_word_eqI) (auto simp: bit_simps)

lemma tag_byte_join:
  assumes "k < 32"
  shows "(tag_bits t OR of_nat k) AND 0xe0 = tag_bits t" "(tag_bits t OR of_nat k) AND 0x1f = of_nat k"
proof -
  have "take_bit 5 k = k" using assms by (simp add: take_bit_nat_eq_self)
  then have v: "bit k j \<Longrightarrow> j < 5" for j by (metis bit_take_bit_iff)
  show "(tag_bits t OR of_nat k) AND 0xe0 = tag_bits t"
    unfolding tag_bits_def tag_masks by (rule bit_word_eqI) (auto simp: bit_simps dest: v)
  show "(tag_bits t OR of_nat k) AND 0x1f = of_nat k"
    unfolding tag_bits_def tag_masks by (rule bit_word_eqI) (auto simp: bit_simps dest: v)
qed

lemma parse_tag_step:
  "parse_asn1_tag m c =
     (case cbs_bytes m c of
        [] \<Rightarrow> (None, c)
      | b # _ \<Rightarrow>
          if b AND 0x1f = 0x1f then
            bind_io (parse_base128_integer m (cbs_adv 1 c))
              (\<lambda>v c. if 2 ^ 29 \<le> unat v \<or> unat v < 31 then (None, c) else (Some (make_tag b (ucast v)), c))
          else (Some (make_tag b (ucast (b AND 0x1f))), cbs_adv 1 c))"
proof -
  have hi: "push_bit 24 (ucast b AND 0xe0 :: u32) = push_bit 24 (ucast (b AND 0xe0))" for b :: u8
    by (simp add: unsigned_and_eq)
  have num: "(ucast (b AND 0x1f) :: u32) = 0x1f \<longleftrightarrow> b AND 0x1f = 0x1f" for b :: u8
    by (simp add: word_unat_eq_iff)
  have big: "v > ucast CBS_ASN1_TAG_NUMBER_MASK \<longleftrightarrow> 2 ^ 29 \<le> unat v" for v :: u64
    by (auto simp: tag_masks mask_eq_exp_minus_1 word_less_nat_alt)
  have low: "v < 0x1f \<longleftrightarrow> unat v < 31" for v :: u64 by (simp add: word_less_nat_alt)
  show ?thesis
    unfolding parse_asn1_tag_def get_u8_spec Let_def big low num make_tag_def CBS_ASN1_TAG_SHIFT_def hi
    by (simp split: list.split)
qed

lemma parse_tag_complete:
  assumes "cbs_bytes m c = der_tag t @ rest"
  shows "parse_asn1_tag m c = (Some t, cbs_adv (length (der_tag t)) c)"
proof (cases "tag_number t < 31")
  case True
  let ?b = "tag_bits t OR of_nat (tag_number t)"
  have b: "cbs_bytes m c = ?b # rest" using assms True by (simp add: der_tag_def)
  have u: "unat (of_nat (tag_number t) :: u8) = tag_number t" using True by (simp add: unat_of_nat)
  then have "(of_nat (tag_number t) :: u8) \<noteq> 0x1f" using True by auto
  moreover have "(ucast (of_nat (tag_number t) :: u8) :: u32) = of_nat (tag_number t)"
    using u tag_number_less [of t] by (simp add: word_unat_eq_iff unat_of_nat)
  moreover have "make_tag ?b (of_nat (tag_number t)) = t"
    using make_tag_of [of t] True by (simp add: make_tag_def tag_byte_join)
  ultimately show ?thesis
    using True b by (simp add: parse_tag_step tag_byte_join der_tag_def)
next
  case False
  let ?n = "tag_number t"
  have b: "cbs_bytes m c = (tag_bits t OR 0x1f) # base128 ?n @ rest" using assms False by (simp add: der_tag_def)
  have "0 < unat (cbs_len c)" using arg_cong [OF b, of length] by simp
  then have bs: "cbs_bytes m (cbs_adv 1 c) = base128 ?n @ rest" using b by (simp add: bytes_adv)
  have n: "?n < 2 ^ 64" using tag_number_less [of t] by simp
  have "parse_base128_integer m (cbs_adv 1 c) = (Some (of_nat ?n), cbs_adv (length (base128 ?n)) (cbs_adv 1 c))"
    by (rule parse_base128_complete [OF bs n])
  moreover have "make_tag (tag_bits t OR 0x1f) (of_nat ?n) = t"
    using make_tag_of [of t] tag_byte_join [of 31 t] by (simp add: make_tag_def)
  moreover have "(ucast (of_nat ?n :: u64) :: u32) = of_nat ?n"
    using tag_number_less [of t]
    by (simp add: word_unat_eq_iff unat_of_nat unsigned_ucast_eq take_bit_nat_eq_self)
  ultimately show ?thesis
    using b False tag_number_less [of t] n tag_byte_join(2) [of 31 t]
    by (simp add: parse_tag_step der_tag_def)
qed

lemma parse_tag_sound:
  assumes "parse_asn1_tag m c = (Some t, c')"
  shows "(\<exists>rest. cbs_bytes m c = der_tag t @ rest) \<and> c' = cbs_adv (length (der_tag t)) c"
proof -
  obtain b bs where b: "cbs_bytes m c = b # bs"
    using assms by (cases "cbs_bytes m c") (simp_all add: parse_tag_step)
  have len: "0 < unat (cbs_len c)" using arg_cong [OF b, of length] by simp
  show ?thesis
  proof (cases "b AND 0x1f = 0x1f")
    case False
    let ?n = "unat (b AND 0x1f)"
    have t: "t = make_tag b (ucast (b AND 0x1f))" "c' = cbs_adv 1 c"
      using assms b False by (simp_all add: parse_tag_step)
    have "?n < 32" by (simp add: tag_masks unat_and_mask)
    moreover have "?n \<noteq> 31" using False by (simp add: word_unat_eq_iff)
    ultimately have n: "?n < 31" by linarith
    then have p: "tag_bits t = b AND 0xe0" "tag_number t = ?n"
      using make_tag_parts [of "ucast (b AND 0x1f)" b] t by simp_all
    have "der_tag t = [b]" using n tag_byte_split [of b] by (simp add: der_tag_def p)
    then show ?thesis using b t by simp
  next
    case True
    from assms obtain v where v: "parse_base128_integer m (cbs_adv 1 c) = (Some v, c')"
      "\<not> 2 ^ 29 \<le> unat v" "\<not> unat v < 31" and t: "t = make_tag b (ucast v)"
      unfolding parse_tag_step b by (auto simp: True bind_io_eq_Some split: if_splits)
    have "unat (ucast v :: u32) = unat v" using v(2) by (simp add: unsigned_ucast_eq take_bit_nat_eq_self)
    then have p: "tag_bits t = b AND 0xe0" "tag_number t = unat v"
      using make_tag_parts [of "ucast v" b] t v(2) by simp_all
    obtain rest where r: "cbs_bytes m (cbs_adv 1 c) = base128 (unat v) @ rest"
      using parse_base128_sound(1) [OF v(1)] by blast
    have c': "c' = cbs_adv (length (base128 (unat v))) (cbs_adv 1 c)" by (rule parse_base128_sound(2) [OF v(1)])
    have "cbs_bytes m (cbs_adv 1 c) = bs" using b len by (simp add: bytes_adv)
    then have "cbs_bytes m c = der_tag t @ rest"
      using b r v(3) True tag_byte_split [of b] by (simp add: der_tag_def p)
    then show ?thesis using c' v(3) by (auto simp: der_tag_def p)
  qed
qed

lemma length_der_tag: "length (der_tag t) \<le> 6" "0 < length (der_tag t)"
proof -
  have "length (digits 128 (tag_number t div 128)) \<le> 4"
    using tag_number_less [of t] by (simp add: length_digits_le)
  then show "length (der_tag t) \<le> 6" "0 < length (der_tag t)" by (simp_all add: der_tag_def length_base128)
qed

section \<open>Lengths\<close>

text \<open>The length octets, read as numbers: how many there are and the length they give.\<close>

definition parse_length :: "u8 list \<Rightarrow> (nat \<times> nat) option" where
  "parse_length bs =
     (case bs of
        [] \<Rightarrow> None
      | b # octets \<Rightarrow>
          if unat b < 128 then Some (1, unat b)
          else
            let k = unat b mod 128; n = undigits 256 (map unat (take k octets)) in
            if k = 0 \<or> 4 < k \<or> length octets < k \<or> n < 128 \<or> n < 256 ^ (k - 1) then None
            else Some (1 + k, n))"

lemma be_bytes_of:
  assumes "bs \<noteq> []" "hd bs \<noteq> 0"
  shows "be_bytes (undigits 256 (map unat (bs :: u8 list))) = bs"
proof -
  have "hd (map unat bs) \<noteq> 0" using assms by (simp add: hd_map unat_eq_0)
  then have "digits 256 (undigits 256 (map unat bs)) = map unat bs"
    using unat_u8_list [of bs] by (intro digits_undigits) simp_all
  then show ?thesis by (simp add: be_bytes_def comp_def)
qed

lemma be_bytes_undigits:
  assumes "bs \<noteq> []" "256 ^ (length bs - 1) \<le> undigits 256 (map unat bs)"
  shows "be_bytes (undigits 256 (map unat (bs :: u8 list))) = bs"
proof (rule be_bytes_of [OF assms(1)])
  obtain b cs where bs: "bs = b # cs" using assms(1) by (cases bs) auto
  show "hd bs \<noteq> 0"
  proof
    assume "hd bs = 0"
    then have "undigits 256 (map unat bs) = undigits 256 (map unat cs)"
      using undigits_append [of 256 "[unat b]" "map unat cs"] by (simp add: bs)
    then show False using assms(2) undigits_less [OF unat_u8_list [of cs]] by (simp add: bs)
  qed
qed

lemma map_unat_of_nat: "list_all (\<lambda>d. d < 256) ds \<Longrightarrow> map unat (map of_nat ds :: u8 list) = ds"
  by (induction ds) (simp_all add: unat_of_nat)

lemma map_unat_be_bytes: "map unat (be_bytes n) = digits 256 n"
  by (simp add: be_bytes_def map_unat_of_nat digits_less del: map_map)

lemma length_be_bytes: "length (be_bytes n) \<le> k \<longleftrightarrow> n < 256 ^ k"
  by (simp add: be_bytes_def length_digits_le)

lemma der_length_cont: "der_length n = (if n < 128 then [of_nat n] else cont_byte (length (be_bytes n)) # be_bytes n)"
  by (simp add: der_length_def cont_byte_def)

lemma be_bytes_long:
  assumes "128 \<le> n" "n < 2 ^ 32"
  shows "0 < length (be_bytes n)" "length (be_bytes n) \<le> 4" "256 ^ (length (be_bytes n) - 1) \<le> n"
proof -
  show "0 < length (be_bytes n)" using assms by (simp add: be_bytes_def)
  show "length (be_bytes n) \<le> 4" using assms by (simp add: length_be_bytes)
  show "256 ^ (length (be_bytes n) - 1) \<le> n"
    using undigits_ge [of 256 "digits 256 n"] hd_digits [of 256 n] assms by (simp add: be_bytes_def)
qed

lemma parse_length_complete:
  assumes "n < 2 ^ 32"
  shows "parse_length (der_length n @ rest) = Some (length (der_length n), n)"
proof (cases "n < 128")
  case True
  then show ?thesis by (simp add: parse_length_def der_length_def unat_of_nat)
next
  case False
  note l = be_bytes_long [of n]
  then have "unat (cont_byte (length (be_bytes n))) = length (be_bytes n) + 128"
    using False assms by (intro unat_cont_byte) simp
  moreover have "(length (be_bytes n) + 128) mod 128 = length (be_bytes n)" using l False assms by simp
  moreover have "undigits 256 (map unat (take (length (be_bytes n)) (be_bytes n @ rest))) = n"
    by (simp add: map_unat_be_bytes)
  ultimately show ?thesis using l False assms by (simp add: parse_length_def der_length_cont Let_def)
qed

lemma parse_length_sound:
  assumes "parse_length bs = Some (k, n)"
  shows "n < 2 ^ 32 \<and> k = length (der_length n) \<and> (\<exists>rest. bs = der_length n @ rest)"
proof -
  obtain b octets where bs: "bs = b # octets" using assms by (cases bs) (simp_all add: parse_length_def)
  show ?thesis
  proof (cases "unat b < 128")
    case True
    then have "k = 1" "n = unat b" using assms by (simp_all add: parse_length_def bs)
    then show ?thesis using True bs by (simp add: der_length_def)
  next
    case False
    let ?j = "unat b mod 128"
    let ?ds = "take ?j octets"
    have j: "?j \<noteq> 0" "?j \<le> 4" "?j \<le> length octets" "128 \<le> n" "256 ^ (?j - 1) \<le> n" "k = 1 + ?j"
      and n: "n = undigits 256 (map unat ?ds)"
      using assms False by (simp_all add: parse_length_def bs Let_def split: if_splits)
    have len: "length ?ds = ?j" using j by simp
    then have "?ds \<noteq> []" using j(1) by (metis list.size(3))
    then have be: "be_bytes n = ?ds" using be_bytes_undigits [of ?ds] j(5) len n by simp
    then have "length (be_bytes n) \<le> 4" using len j by simp
    then have "n < 2 ^ 32" by (simp add: length_be_bytes)
    moreover have "cont_byte ?j = b" using False by (intro cont_byte_of) simp
    then have "der_length n = b # ?ds" using be len j by (simp add: der_length_cont)
    ultimately show ?thesis using bs j len append_take_drop_id [of ?j octets] by (metis append_Cons length_Cons plus_1_eq_Suc)
  qed
qed

section \<open>Elements\<close>

text \<open>The element parser on numbers.  In particular the overflow test never fires: the header of an
  element is at most eleven bytes and the length it gives is below \<open>2 ^ 32\<close>.\<close>

definition element_result :: "cbs \<Rightarrow> u32 \<Rightarrow> nat \<Rightarrow> nat \<Rightarrow> (cbs \<times> u32 \<times> u64) option \<times> cbs" where
  "element_result c t hl n =
     (if hl + n \<le> unat (cbs_len c)
      then (Some (cbs_front (hl + n) c, t, of_nat hl), cbs_adv (hl + n) c) else (None, c))"

lemma get_bytes_sum:
  assumes "unat len = hl + n" "unat l = hl"
  shows "bind_io (CBS_get_bytes len c) (\<lambda>out c. (Some (out, t, l), c)) = element_result c t hl n"
proof -
  have "of_nat hl = l" using assms(2) by auto
  then show ?thesis using assms(1) by (simp add: get_bytes_spec element_result_def)
qed

lemma element_step:
  assumes t: "parse_asn1_tag m c = (Some t, h)"
  shows "cbs_get_any_asn1_element False m c =
     (case parse_length (cbs_bytes m h) of
        None \<Rightarrow> (None, c) | Some (k, n) \<Rightarrow> element_result c t (length (der_tag t) + k) n)"
proof (cases "cbs_bytes m h")
  case Nil
  then show ?thesis by (simp add: cbs_get_any_asn1_element_def t get_u8_spec parse_length_def)
next
  case (Cons b octets)
  let ?tl = "length (der_tag t)"
  obtain rest where bytes: "cbs_bytes m c = der_tag t @ rest" and h: "h = cbs_adv ?tl c"
    using parse_tag_sound [OF t] by blast
  have tl: "?tl \<le> unat (cbs_len c)" using arg_cong [OF bytes, of length] by simp
  have rest: "rest = b # octets" using bytes h tl Cons by (simp add: bytes_adv)
  then have len: "unat (cbs_len c) = ?tl + Suc (length octets)" using arg_cong [OF bytes, of length] by simp
  let ?h = "cbs_adv 1 h"
  have h1: "?h = cbs_adv (?tl + 1) c" by (simp add: h)
  have octets: "cbs_bytes m ?h = octets" "unat (cbs_len ?h) = length octets"
    using bytes rest len by (simp_all add: h bytes_adv len_adv)
  let ?hl = "cbs_len c - cbs_len ?h"
  have hl: "unat ?hl = ?tl + 1"
    using len octets(2) unat_sub [of "cbs_len ?h" "cbs_len c"] by (simp add: word_le_nat_alt)
  note small = length_der_tag(1) [of t]
  show ?thesis
  proof (cases "unat b < 128")
    case True
    have "unat (ucast b + ?hl) = (?tl + 1) + unat b"
      using hl small True by (simp add: unat_word_ariths)
    from get_bytes_sum [OF this hl] show ?thesis
      using True Cons by (simp add: cbs_get_any_asn1_element_def t get_u8_spec parse_length_def
          byte_high_bit Let_def)
  next
    case False
    let ?nb = "ucast (b AND 0x7f) :: u64"
    have "(ucast (b AND 0x7f) :: u64) = ucast b AND 0x7f" by (simp add: unsigned_and_eq)
    then have nb: "unat ?nb = unat b mod 128" by (simp only: byte_low_bits)
    then have nb8: "unat (b AND 0x7f) = unat b mod 128" by simp
    let ?k = "unat b mod 128"
    let ?len = "be_value (take ?k octets)"
    have bounds: "?k \<le> 4 \<Longrightarrow> unat ?len < 2 ^ 32"
    proof -
      assume k: "?k \<le> 4"
      have "unat ?len < 256 ^ length (take ?k octets)"
        using undigits_less [OF unat_u8_list [of "take ?k octets"]] k by (simp add: unat_be_value)
      also have "\<dots> \<le> (256 :: nat) ^ 4" using k by (intro power_increasing) simp_all
      finally show "unat ?len < 2 ^ 32" by simp
    qed
    have long: "?len < 128 \<longleftrightarrow> unat ?len < 128" by (simp add: word_less_nat_alt)
    have minimal: "drop_bit ((unat ?nb - 1) * 8) ?len = 0 \<longleftrightarrow> unat ?len < 256 ^ (?k - 1)" if "?k \<le> 4"
    proof -
      have "(?k - 1) * 8 < 64" using that by simp
      then have "drop_bit ((?k - 1) * 8) ?len = 0 \<longleftrightarrow> unat ?len < 2 ^ ((?k - 1) * 8)"
        using shift_out_iff not_less by blast
      moreover have "(2 :: nat) ^ ((?k - 1) * 8) = 256 ^ (?k - 1)"
        by (simp add: mult.commute [of _ 8] power_mult)
      ultimately show ?thesis by (simp only: nb)
    qed
    have fits: "\<not> ?len + ?hl + ?nb < ?len" "unat (?len + (?hl + ?nb)) = (?tl + (1 + ?k)) + unat ?len"
        "unat (?hl + ?nb) = ?tl + (1 + ?k)" if "?k \<le> 4"
      using bounds [OF that] hl small nb that
      by (simp_all add: word_less_nat_alt unat_word_ariths)
    have num: "?nb = 0 \<longleftrightarrow> ?k = 0" "?nb > 4 \<longleftrightarrow> 4 < ?k"
      by (simp_all add: word_less_nat_alt flip: nb unat_eq_0)
    have len_eq: "?k \<le> 4 \<Longrightarrow> unat ?len = undigits 256 (map unat (take ?k octets))"
      by (rule unat_be_value) simp
    show ?thesis
      using False Cons get_bytes_sum [OF fits(2,3)] fits(1) minimal
      by (simp add: cbs_get_any_asn1_element_def t get_u8_spec parse_length_def get_u_spec octets nb8 num
          byte_high_bit Let_def long not_le del: One_nat_def flip: len_eq)
  qed
qed

definition header_len :: "u32 \<Rightarrow> u8 list \<Rightarrow> nat" where
  "header_len t body = length (der_tag t) + length (der_length (length body))"

lemma length_der_element: "length (der_element t body) = header_len t body + length body"
  by (simp add: der_element_def header_len_def)

lemma element_complete:
  assumes "cbs_bytes m c = der_element t body @ rest" "length body < 2 ^ 32"
  shows "cbs_get_any_asn1_element False m c =
    (Some (cbs_front (length (der_element t body)) c, t, of_nat (header_len t body)),
     cbs_adv (length (der_element t body)) c)"
proof -
  let ?h = "cbs_adv (length (der_tag t)) c"
  have len: "unat (cbs_len c) = length (der_element t body) + length rest"
    using arg_cong [OF assms(1), of length] by simp
  have t: "parse_asn1_tag m c = (Some t, ?h)"
    by (rule parse_tag_complete) (simp add: assms(1) der_element_def)
  have "cbs_bytes m ?h = der_length (length body) @ body @ rest"
    using assms(1) len by (simp add: bytes_adv der_element_def)
  then have "parse_length (cbs_bytes m ?h) = Some (length (der_length (length body)), length body)"
    using assms(2) by (simp add: parse_length_complete)
  then show ?thesis
    using element_step [OF t] len by (simp add: element_result_def length_der_element header_len_def)
qed

lemma element_sound:
  assumes "cbs_get_any_asn1_element False m c = (Some (out, t, hl), c')"
  shows "\<exists>body rest. cbs_bytes m c = der_element t body @ rest \<and> length body < 2 ^ 32 \<and>
     out = cbs_front (length (der_element t body)) c \<and> hl = of_nat (header_len t body) \<and>
     c' = cbs_adv (length (der_element t body)) c"
proof -
  obtain u h where t: "parse_asn1_tag m c = (Some u, h)"
    using assms by (cases "parse_asn1_tag m c"; cases "fst (parse_asn1_tag m c)")
      (auto simp: cbs_get_any_asn1_element_def)
  obtain k n where l: "parse_length (cbs_bytes m h) = Some (k, n)"
    and r: "element_result c u (length (der_tag u) + k) n = (Some (out, t, hl), c')"
    using assms unfolding element_step [OF t] by (auto split: option.splits)
  then have u: "u = t" by (simp add: element_result_def split: if_splits)
  obtain rest where bytes: "cbs_bytes m c = der_tag u @ rest" and h: "h = cbs_adv (length (der_tag u)) c"
    using parse_tag_sound [OF t] by blast
  have len: "unat (cbs_len c) = length (der_tag u) + length rest" using arg_cong [OF bytes, of length] by simp
  then have "cbs_bytes m h = rest" using bytes h by (simp add: bytes_adv)
  then obtain rest' where n: "n < 2 ^ 32" "k = length (der_length n)" and rest: "rest = der_length n @ rest'"
    using parse_length_sound [OF l] by auto
  have room: "length (der_tag u) + k + n \<le> unat (cbs_len c)"
    using r by (simp add: element_result_def split: if_splits)
  then have n': "n \<le> length rest'" using len rest n(2) by simp
  have "cbs_bytes m c = der_element t (take n rest') @ drop n rest'"
    using bytes rest n' u by (simp add: der_element_def min.absorb2)
  moreover have "length (der_element t (take n rest')) = length (der_tag u) + k + n"
    "header_len t (take n rest') = length (der_tag u) + k"
    using n n' u by (simp_all add: length_der_element header_len_def min.absorb2)
  moreover have "length (take n rest') < 2 ^ 32" using n(1) by simp
  ultimately show ?thesis using r room by (auto simp: element_result_def)
qed

lemma element_none:
  "cbs_get_any_asn1_element False m c = (None, c') \<Longrightarrow> c' = c"
  unfolding cbs_get_any_asn1_element_def
  by (auto simp: Let_def get_bytes_spec split: option.splits prod.splits if_splits)

text \<open>Skipping the header of an element leaves its contents.\<close>

definition cbs_body :: "u32 \<Rightarrow> u8 list \<Rightarrow> cbs \<Rightarrow> cbs" where
  "cbs_body t body c = cbs_front (length body) (cbs_adv (header_len t body) c)"

lemma skip_header:
  assumes "cbs_bytes m c = der_element t body @ rest"
  shows "CBS_skip (of_nat (header_len t body)) (cbs_front (length (der_element t body)) c) =
     (Some (), cbs_body t body c)"
    and "cbs_bytes m (cbs_body t body c) = body"
    and "cbs_bytes m (cbs_adv (length (der_element t body)) c) = rest"
proof -
  have len: "unat (cbs_len c) = header_len t body + length body + length rest"
    using arg_cong [OF assms, of length] by (simp add: length_der_element)
  moreover have "unat (cbs_len c) < 2 ^ 64" by simp
  ultimately have fits: "header_len t body + length body < 2 ^ 64" by linarith
  then have "unat (of_nat (header_len t body) + of_nat (length body) :: u64) = header_len t body + length body"
    using unat_of_nat64 [of "header_len t body + length body"] by simp
  then show "CBS_skip (of_nat (header_len t body)) (cbs_front (length (der_element t body)) c) =
     (Some (), cbs_body t body c)"
    using fits by (simp add: skip_spec cbs_front_def cbs_body_def cbs_adv_def length_der_element)
  show "cbs_bytes m (cbs_adv (length (der_element t body)) c) = rest"
    using assms len by (simp add: bytes_adv length_der_element)
  have "cbs_bytes m (cbs_adv (header_len t body) c) = body @ rest"
    using assms len by (simp add: bytes_adv) (simp add: der_element_def header_len_def)
  then show "cbs_bytes m (cbs_body t body c) = body"
    using len by (simp add: cbs_body_def bytes_front len_adv)
qed

lemma any_asn1_complete:
  "cbs_bytes m c = der_element t body @ rest \<Longrightarrow> length body < 2 ^ 32 \<Longrightarrow>
   CBS_get_any_asn1 m c = (Some (cbs_body t body c, t), cbs_adv (length (der_element t body)) c)"
  by (simp add: CBS_get_any_asn1_def CBS_get_any_asn1_element_def element_complete skip_header(1))

lemma any_asn1_cases:
  obtains (element) t body rest where "cbs_bytes m c = der_element t body @ rest" "length body < 2 ^ 32"
    "CBS_get_any_asn1 m c = (Some (cbs_body t body c, t), cbs_adv (length (der_element t body)) c)"
    "CBS_get_any_asn1_element m c =
      (Some (cbs_front (length (der_element t body)) c, t, of_nat (header_len t body)),
       cbs_adv (length (der_element t body)) c)"
  | (malformed) "CBS_get_any_asn1 m c = (None, c)" "CBS_get_any_asn1_element m c = (None, c)"
    "\<And>t body rest. cbs_bytes m c = der_element t body @ rest \<Longrightarrow> \<not> length body < 2 ^ 32"
proof (cases "fst (CBS_get_any_asn1_element m c)")
  case None
  then have "CBS_get_any_asn1_element m c = (None, c)"
    using element_none [of m c] by (cases "CBS_get_any_asn1_element m c") (auto simp: CBS_get_any_asn1_element_def)
  then show thesis using element_complete [of m c]
    by (intro malformed) (auto simp: CBS_get_any_asn1_def CBS_get_any_asn1_element_def)
next
  case (Some r)
  then obtain out t hl c' where "CBS_get_any_asn1_element m c = (Some (out, t, hl), c')"
    by (cases "CBS_get_any_asn1_element m c"; cases r) auto
  from element_sound [OF this [unfolded CBS_get_any_asn1_element_def]]
  obtain body rest where b: "cbs_bytes m c = der_element t body @ rest" "length body < 2 ^ 32" by blast
  then show thesis using any_asn1_complete [OF b] element_complete [OF b]
    by (intro element) (simp_all add: CBS_get_any_asn1_element_def)
qed

end
