(* ===== verification/Der_Values.thy ===== *)
theory Der_Values
  imports Der
begin

text \<open>
  The theorems on the getters of \<open>Cbs\<close>: which inputs the element, integer and boolean parsers accept
  and what they return, that no getter leaves its reader's window, and what the plain getters and the
  comparison functions compute.
\<close>

section \<open>Elements with a given tag\<close>

text \<open>C16. The DER parser accepts exactly the encodings of X.690: for every memory and reader,
  \<^verbatim>\<open>CBS_get_any_asn1\<close> succeeds if and only if the reader starts with a tag and a length in
  their unique shortest form followed by that many bytes (fewer than \<open>2 ^ 32\<close>), and then it returns that
  tag and those bytes and stands exactly behind them.  On everything else the reader is untouched.\<close>

theorem der_parse_exact:
  "case CBS_get_any_asn1 m c of
     (Some (out, tag), c') \<Rightarrow>
       cbs_bytes m c = der_element tag (cbs_bytes m out) @ cbs_bytes m c' \<and> length (cbs_bytes m out) < 2 ^ 32
   | (None, c') \<Rightarrow>
       c' = c \<and> (\<nexists>tag body rest. cbs_bytes m c = der_element tag body @ rest \<and> length body < 2 ^ 32)"
proof (cases rule: any_asn1_cases [of m c])
  case (element t body rest)
  then show ?thesis using skip_header [OF element(1)] by (simp del: length_cbs_bytes)
next
  case malformed
  then show ?thesis by auto
qed

lemma get_asn1_complete:
  "cbs_bytes m c = der_element t body @ rest \<Longrightarrow> length body < 2 ^ 32 \<Longrightarrow>
   CBS_get_asn1 t m c = (Some (cbs_body t body c), cbs_adv (length (der_element t body)) c)"
  by (simp add: CBS_get_asn1_def cbs_get_asn1_def CBS_get_any_asn1_element_def element_complete skip_header(1))

text \<open>An element with another tag is consumed although the getter fails.\<close>

lemma get_asn1_cases:
  obtains (element) body rest where "cbs_bytes m c = der_element t body @ rest" "length body < 2 ^ 32"
    "CBS_get_asn1 t m c = (Some (cbs_body t body c), cbs_adv (length (der_element t body)) c)"
  | (other) u body rest where "u \<noteq> t" "cbs_bytes m c = der_element u body @ rest" "length body < 2 ^ 32"
    "CBS_get_asn1 t m c = (None, cbs_adv (length (der_element u body)) c)"
  | (malformed) "CBS_get_asn1 t m c = (None, c)"
    "\<And>u body rest. cbs_bytes m c = der_element u body @ rest \<Longrightarrow> \<not> length body < 2 ^ 32"
proof (cases rule: any_asn1_cases [of m c])
  case e: (element u body rest)
  show thesis
  proof (cases "u = t")
    case True
    then show thesis using get_asn1_complete [of m c t body rest] e by (intro element) simp_all
  next
    case False
    then show thesis using e by (intro other) (simp_all add: CBS_get_asn1_def cbs_get_asn1_def)
  qed
next
  case m: malformed
  then show thesis by (intro malformed) (simp_all add: CBS_get_asn1_def cbs_get_asn1_def)
qed

section \<open>Integers\<close>

text \<open>The shortest two's complement form: the magnitude with a zero octet in front when its top bit is
  set, and for negative numbers the complement of the form of \<open>- z - 1\<close>.\<close>

definition der_uint :: "nat \<Rightarrow> u8 list" where
  "der_uint n =
     (if be_bytes n = [] \<or> 128 \<le> unat (hd (be_bytes n)) then 0 # be_bytes n else be_bytes n)"

definition der_int :: "int \<Rightarrow> u8 list" where
  "der_int z = (if 0 \<le> z then der_uint (nat z) else map NOT (der_uint (nat (- z - 1))))"

definition octets_value :: "u8 list \<Rightarrow> nat" where
  "octets_value bs = undigits 256 (map unat bs)"

definition shortest :: "u8 list \<Rightarrow> bool" where
  "shortest bs \<longleftrightarrow> bs \<noteq> [] \<and>
     \<not> (tl bs \<noteq> [] \<and> hd bs = 0 \<and> unat (hd (tl bs)) < 128) \<and>
     \<not> (tl bs \<noteq> [] \<and> hd bs = 0xff \<and> 128 \<le> unat (hd (tl bs)))"

lemma octets_value_be_bytes [simp]: "octets_value (be_bytes n) = n" "octets_value (0 # be_bytes n) = n"
  using undigits_append [of 256 "[0]" "digits 256 n"] by (simp_all add: octets_value_def map_unat_be_bytes)

lemma octets_value_Cons: "octets_value (b # bs) = unat b * 256 ^ length bs + octets_value bs"
  using undigits_append [of 256 "[unat b]" "map unat bs"] by (simp add: octets_value_def)

lemma octets_value_less: "octets_value bs < 256 ^ length bs"
  using undigits_less [OF unat_u8_list [of bs]] by (simp add: octets_value_def)

lemma hd_be_bytes: "0 < n \<Longrightarrow> hd (be_bytes n) \<noteq> 0"
proof -
  assume n: "0 < n"
  then have "hd (map unat (be_bytes n)) \<noteq> 0" using hd_digits [of 256 n] by (simp add: map_unat_be_bytes)
  then show ?thesis using n by (auto simp: be_bytes_def hd_map)
qed

lemma octets_value_uint [simp]: "octets_value (der_uint n) = n"
  by (simp add: der_uint_def)

lemma der_uint_shape: "shortest (der_uint n)" "unat (hd (der_uint n)) < 128"
proof -
  show "unat (hd (der_uint n)) < 128" by (simp add: der_uint_def not_le)
  show "shortest (der_uint n)"
  proof (cases "be_bytes n = []")
    case False
    then have "hd (be_bytes n) \<noteq> 0" using hd_be_bytes [of n] by (cases "n = 0") (simp_all add: be_bytes_def)
    then show ?thesis using False by (auto simp: der_uint_def shortest_def)
  qed (simp add: der_uint_def shortest_def)
qed

lemma der_uint_of:
  assumes "shortest bs" "unat (hd bs) < 128"
  shows "der_uint (octets_value bs) = bs"
proof (cases "hd bs = 0")
  case False
  then have "be_bytes (octets_value bs) = bs"
    using assms(1) unfolding octets_value_def by (intro be_bytes_of) (simp_all add: shortest_def)
  then show ?thesis using assms by (simp add: der_uint_def shortest_def)
next
  case True
  then obtain cs where bs: "bs = 0 # cs" using assms(1) by (cases bs) (simp_all add: shortest_def)
  have v: "octets_value (0 # cs) = octets_value cs" by (simp add: octets_value_Cons)
  show ?thesis
  proof (cases "cs = []")
    case True
    then show ?thesis by (simp add: bs v octets_value_def der_uint_def be_bytes_def)
  next
    case False
    then have h: "128 \<le> unat (hd cs)" using assms(1) by (simp add: shortest_def bs not_less)
    then have "hd cs \<noteq> 0" by auto
    then have "be_bytes (octets_value cs) = cs"
      using False unfolding octets_value_def by (intro be_bytes_of)
    then show ?thesis using h by (simp add: bs v der_uint_def)
  qed
qed

lemma length_der_uint: "length (der_uint n) \<le> 8 \<longleftrightarrow> n < 2 ^ 63"
proof
  assume len: "length (der_uint n) \<le> 8"
  obtain b bs where d: "der_uint n = b # bs" using der_uint_shape(1) [of n] by (cases "der_uint n") (auto simp: shortest_def)
  have "unat b * 256 ^ length bs + octets_value bs < (unat b + 1) * 256 ^ length bs"
    using octets_value_less [of bs] by simp
  also have "\<dots> \<le> 128 * 256 ^ length bs" using der_uint_shape(2) [of n] by (intro mult_le_mono1) (simp add: d)
  also have "\<dots> \<le> 128 * 256 ^ (7 :: nat)" using len by (intro mult_le_mono2 power_increasing) (simp_all add: d)
  finally show "n < 2 ^ 63" using octets_value_uint [of n] by (simp add: d octets_value_Cons)
next
  assume n: "n < 2 ^ 63"
  then have len: "length (be_bytes n) \<le> 8" by (simp add: length_be_bytes)
  show "length (der_uint n) \<le> 8"
  proof (cases "be_bytes n = [] \<or> unat (hd (be_bytes n)) < 128 \<or> length (be_bytes n) < 8")
    case False
    then obtain b bs where d: "be_bytes n = b # bs" "128 \<le> unat b" "length bs = 7"
      using len by (cases "be_bytes n") auto
    have "128 * 256 ^ length bs \<le> unat b * 256 ^ length bs" using d(2) by (rule mult_le_mono1)
    also have "\<dots> \<le> n" using octets_value_be_bytes(1) [of n] by (simp add: d(1) octets_value_Cons)
    finally show ?thesis using n d(3) by simp
  qed (use len in \<open>auto simp: der_uint_def\<close>)
qed

text \<open>The loop of \<^verbatim>\<open>CBS_get_asn1_uint64\<close> computes the value or finds that it does not fit.\<close>

lemma foldl_256_ge: "v \<le> foldl (\<lambda>a d. a * 256 + d) v (ds :: nat list)"
proof (induction ds arbitrary: v)
  case (Cons d ds)
  have "v \<le> v * 256 + d" by simp
  also have "\<dots> \<le> foldl (\<lambda>a d. a * 256 + d) (v * 256 + d) ds" by (rule Cons)
  finally show ?case by simp
qed simp

lemma uint64_loop_value:
  "uint64_loop bs v =
     (let n = foldl (\<lambda>a d. a * 256 + d) (unat v) (map unat bs) in if n < 2 ^ 64 then Some (of_nat n) else None)"
proof (induction bs arbitrary: v)
  case Nil
  then show ?case by simp
next
  case (Cons b bs)
  show ?case
  proof (cases "2 ^ 56 \<le> unat v")
    case True
    then have "2 ^ 64 \<le> unat v * 256 + unat b" by simp
    also have "\<dots> \<le> foldl (\<lambda>a d. a * 256 + d) (unat v * 256 + unat b) (map unat bs)" by (rule foldl_256_ge)
    finally show ?thesis using True shift_out_iff [of 56 v] by (simp add: Let_def)
  next
    case False
    then have "unat (push_bit 8 v OR ucast b) = unat v * 256 + unat b"
      using push_bit_or_digit [of "ucast b :: u64" 8 v] u8_less [of b] by simp
    then show ?thesis using False shift_out_iff [of 56 v] Cons.IH [of "push_bit 8 v OR ucast b"] by simp
  qed
qed

definition uint64_of :: "u8 list \<Rightarrow> u64 option" where
  "uint64_of bs =
     (if shortest bs \<and> unat (hd bs) < 128 \<and> octets_value bs < 2 ^ 64 then Some (of_nat (octets_value bs)) else None)"

lemma reader_octets:
  "cbs_len c \<noteq> 0 \<Longrightarrow> m (cbs_data c) = hd (cbs_bytes m c)"
  "cbs_len c > 1 \<longleftrightarrow> cbs_bytes m c \<noteq> [] \<and> tl (cbs_bytes m c) \<noteq> []"
  "cbs_len c > 1 \<Longrightarrow> m (cbs_data c + 1) = hd (tl (cbs_bytes m c))"
  "cbs_len c = 0 \<longleftrightarrow> cbs_bytes m c = []"
proof -
  show e: "cbs_len c = 0 \<longleftrightarrow> cbs_bytes m c = []" for c
    by (simp flip: length_0_conv unat_eq_0)
  show "cbs_len c \<noteq> 0 \<Longrightarrow> m (cbs_data c) = hd (cbs_bytes m c)" by (simp add: bytes_Cons)
  have t: "tl (cbs_bytes m c) = cbs_bytes m (cbs_adv 1 c)" if "cbs_len c \<noteq> 0"
    using that by (simp add: bytes_Cons)
  have "cbs_len c > 1 \<longleftrightarrow> cbs_len c \<noteq> 0 \<and> cbs_len (cbs_adv 1 c) \<noteq> 0"
    using unat_minus_one [of "cbs_len c"] by (auto simp: cbs_adv_def word_less_nat_alt simp flip: unat_eq_0)
  then show g: "cbs_len c > 1 \<longleftrightarrow> cbs_bytes m c \<noteq> [] \<and> tl (cbs_bytes m c) \<noteq> []"
    using t e by metis
  show "cbs_len c > 1 \<Longrightarrow> m (cbs_data c + 1) = hd (tl (cbs_bytes m c))"
    using t \<open>(cbs_len c > 1) = (cbs_len c \<noteq> 0 \<and> cbs_len (cbs_adv 1 c) \<noteq> 0)\<close>
      bytes_Cons [of "cbs_adv 1 c" m] by (simp add: cbs_adv_def)
qed

lemma get_uint64_spec:
  "CBS_get_asn1_uint64 m c =
     bind_io (CBS_get_asn1 CBS_ASN1_INTEGER m c) (\<lambda>out c. (uint64_of (cbs_bytes m out), c))"
proof -
  have "(let p = cbs_data out; n = cbs_len out in
      if n = 0 then (None, c)
      else if m p AND 0x80 \<noteq> 0 then (None, c)
      else if m p = 0 \<and> n > 1 \<and> m (p + 1) AND 0x80 = 0 then (None, c)
      else (uint64_loop (read_bytes m p (unat n)) 0, c)) = (uint64_of (cbs_bytes m out), c)" for out and c :: cbs
    using reader_octets [of out m]
    by (cases "cbs_len out = 0"; cases "cbs_len out > 1")
      (auto simp: uint64_of_def shortest_def Let_def byte_high_bit uint64_loop_value octets_value_def
        undigits_def cbs_bytes_def [symmetric])
  then show ?thesis by (simp add: CBS_get_asn1_uint64_def)
qed

lemma uint64_of_iff: "uint64_of bs = Some v \<longleftrightarrow> bs = der_uint (unat v)"
proof
  assume "uint64_of bs = Some v"
  then have "shortest bs" "unat (hd bs) < 128" "unat v = octets_value bs"
    by (auto simp: uint64_of_def split: if_splits)
  then show "bs = der_uint (unat v)" by (simp add: der_uint_of)
next
  assume "bs = der_uint (unat v)"
  then show "uint64_of bs = Some v" by (simp add: uint64_of_def der_uint_shape)
qed

lemma length_der_uint_u64: "n < 2 ^ 64 \<Longrightarrow> length (der_uint n) < 2 ^ 32"
proof -
  assume "n < 2 ^ 64"
  then have "length (be_bytes n) \<le> 8" by (simp add: length_be_bytes)
  then have "length (der_uint n) \<le> 9" by (simp add: der_uint_def)
  then show ?thesis by simp
qed

text \<open>A getter for the contents of an element with a given tag accepts exactly the encodings of the
  values its contents parser accepts.\<close>

lemma value_getter_exact:
  assumes g: "g m c = bind_io (CBS_get_asn1 t m c) (\<lambda>out c. (f (cbs_bytes m out), c))"
    and f: "\<And>bs v. f bs = Some v \<longleftrightarrow> bs = enc v" and short: "\<And>v. length (enc v) < 2 ^ 32"
  shows "case g m c of
      (Some v, c') \<Rightarrow> cbs_bytes m c = der_element t (enc v) @ cbs_bytes m c'
    | (None, c') \<Rightarrow> \<nexists>v rest. cbs_bytes m c = der_element t (enc v) @ rest"
proof (cases "\<exists>v rest. cbs_bytes m c = der_element t (enc v) @ rest")
  case True
  then obtain v rest where b: "cbs_bytes m c = der_element t (enc v) @ rest" by blast
  then have "g m c = (Some v, cbs_adv (length (der_element t (enc v))) c)"
    using get_asn1_complete [OF b short] skip_header(2) [OF b] f [of "enc v" v] by (simp add: g)
  then show ?thesis using b skip_header(3) [OF b] by simp
next
  case False
  have "fst (g m c) = None"
  proof (cases rule: get_asn1_cases [of m c t])
    case (element body rest)
    have "f body = None"
    proof (cases "f body")
      case (Some v)
      then have "body = enc v" using f by blast
      then show ?thesis using False element(1) by blast
    qed
    then show ?thesis using element skip_header(2) [OF element(1)] by (simp add: g)
  qed (simp_all add: g)
  then show ?thesis using False by (cases "g m c") simp
qed

text \<open>\<^verbatim>\<open>CBS_get_asn1_uint64\<close> is the exact inverse of the DER encoding of unsigned integers: it
  returns \<open>v\<close> and what follows if and only if the reader starts with the INTEGER element whose contents
  are the shortest two's complement form of \<open>v\<close>, for the full range of 64 bits.\<close>

theorem uint64_exact:
  "case CBS_get_asn1_uint64 m c of
     (Some v, c') \<Rightarrow> cbs_bytes m c = der_element CBS_ASN1_INTEGER (der_uint (unat v)) @ cbs_bytes m c'
   | (None, _) \<Rightarrow> \<nexists>v rest. cbs_bytes m c = der_element CBS_ASN1_INTEGER (der_uint (unat (v :: u64))) @ rest"
proof (rule value_getter_exact [OF get_uint64_spec, where enc = "\<lambda>v. der_uint (unat v)"])
  show "length (der_uint (unat v)) < 2 ^ 32" for v :: u64 by (rule length_der_uint_u64) simp
qed (rule uint64_of_iff)

section \<open>Signed integers\<close>

definition int64_of :: "u8 list \<Rightarrow> u64 option" where
  "int64_of bs =
     (if shortest bs \<and> length bs \<le> 8
      then Some (bytes_to_word (rev bs @ replicate (8 - length bs) (if unat (hd bs) < 128 then 0 else 0xff)))
      else None)"

lemma store_reversed:
  "j \<le> length bs \<Longrightarrow> length bs \<le> length u \<Longrightarrow>
   foldl (\<lambda>u i. u[i := bs ! (length bs - i - 1)]) u [0..<j] = take j (rev bs) @ drop j u"
proof (induction j)
  case 0
  then show ?case by simp
next
  case (Suc j)
  have "take (Suc j) (rev bs) = take j (rev bs) @ [bs ! (length bs - j - 1)]"
    using Suc.prems by (simp add: take_Suc_conv_app_nth rev_nth)
  moreover have "drop j u = u ! j # drop (Suc j) u" using Suc.prems by (simp add: Cons_nth_drop_Suc)
  ultimately show ?case using Suc by (simp add: list_update_append min.absorb2)
qed

lemma get_int64_spec:
  "CBS_get_asn1_int64 m c =
     bind_io (CBS_get_asn1 CBS_ASN1_INTEGER m c) (\<lambda>out c. (int64_of (cbs_bytes m out), c))"
proof -
  have "(let p = cbs_data out; n = cbs_len out in
      if n = 0 \<or> n > 8 then (None, c)
      else if n > 1 \<and> m p = 0 \<and> m (p + 1) AND 0x80 = 0 then (None, c)
      else if n > 1 \<and> m p = 0xff \<and> m (p + 1) AND 0x80 \<noteq> 0 then (None, c)
      else
        let is_negative = m p AND 0x80 \<noteq> 0;
            u = replicate 8 (if is_negative then 0xff else 0);
            u = foldl (\<lambda>u i. u[i := m (p + (n - of_nat i - 1))]) u [0..<unat n] in
        (Some (bytes_to_word u), c)) = (int64_of (cbs_bytes m out), c)" for out and c :: cbs
  proof (cases "cbs_len out = 0 \<or> cbs_len out > 8")
    case True
    then show ?thesis using reader_octets(4) [of out m]
      by (auto simp: int64_of_def shortest_def word_less_nat_alt)
  next
    case False
    let ?bs = "cbs_bytes m out"
    have n: "length ?bs \<le> 8" "0 < length ?bs"
      using False by (simp_all add: word_less_nat_alt unat_gt_0)
    have at: "m (cbs_data out + (cbs_len out - of_nat i - 1)) = ?bs ! (length ?bs - i - 1)" if "i < length ?bs" for i
    proof -
      have "of_nat (length ?bs - i - 1) = cbs_len out - of_nat i - 1"
        using that by (simp add: of_nat_diff)
      then show ?thesis using that by (simp add: cbs_bytes_def algebra_simps)
    qed
    have "foldl (\<lambda>u i. u[i := m (cbs_data out + (cbs_len out - of_nat i - 1))]) u [0..<unat (cbs_len out)] =
        foldl (\<lambda>u i. u[i := ?bs ! (length ?bs - i - 1)]) u [0..<length ?bs]" for u
      using at by (intro foldl_cong) simp_all
    then have "foldl (\<lambda>u i. u[i := m (cbs_data out + (cbs_len out - of_nat i - 1))]) (replicate 8 x)
        [0..<unat (cbs_len out)] = rev ?bs @ replicate (8 - length ?bs) x" for x
      using n store_reversed [of "length ?bs" ?bs "replicate 8 x"] by (simp add: drop_replicate)
    then show ?thesis using False n reader_octets [of out m]
      by (auto simp: int64_of_def shortest_def Let_def byte_high_bit not_le not_less)
  qed
  then show ?thesis by (simp add: CBS_get_asn1_int64_def)
qed

lemma bytes_to_word_zeros: "bytes_to_word (replicate k 0) = 0"
  by (induction k) simp_all

lemma bytes_to_word_rev: "bytes_to_word (rev bs @ replicate k 0) = be_value bs"
proof (induction bs rule: rev_induct)
  case Nil
  then show ?case by (simp add: bytes_to_word_zeros be_value_def)
next
  case (snoc b bs)
  then show ?case by (simp add: be_value_snoc or.commute)
qed

lemma bytes_to_word_not:
  assumes "8 * length bs = LENGTH('a)"
  shows "bytes_to_word (map NOT bs) = NOT (bytes_to_word bs :: 'a::len word)"
proof (rule bit_word_eqI)
  fix k assume "k < LENGTH('a)"
  moreover from this have "k div 8 < length bs" using assms by linarith
  ultimately show "bit (bytes_to_word (map NOT bs) :: 'a word) k = bit (NOT (bytes_to_word bs :: 'a word)) k"
    by (simp add: bit_bytes_to_word bit_simps)
qed

lemma unat_not_u8: "unat (NOT (b :: u8)) = 255 - unat b"
proof -
  have "NOT b = (- 1) - b" by (simp add: not_eq_complement)
  then show ?thesis by (simp add: unat_sub unsigned_minus_1_eq_mask mask_eq_exp_minus_1)
qed

lemma not_u8:
  "128 \<le> unat (NOT (b :: u8)) \<longleftrightarrow> unat b < 128" "unat (NOT (b :: u8)) < 128 \<longleftrightarrow> 128 \<le> unat b"
  "NOT b = 0 \<longleftrightarrow> b = 0xff" "NOT b = 0xff \<longleftrightarrow> b = 0"
proof -
  have "unat b < 256" by simp
  then show "128 \<le> unat (NOT b) \<longleftrightarrow> unat b < 128" "unat (NOT b) < 128 \<longleftrightarrow> 128 \<le> unat b"
    unfolding unat_not_u8 by linarith+
  show "NOT b = 0 \<longleftrightarrow> b = 0xff" "NOT b = 0xff \<longleftrightarrow> b = 0"
    unfolding word_unat_eq_iff [where 'a = 8] unat_not_u8 using \<open>unat b < 256\<close>
    by (simp_all del: u8_less unat_eq_0) arith+
qed

lemma shortest_not: "shortest (map NOT bs) \<longleftrightarrow> shortest bs"
proof (cases bs)
  case (Cons b cs)
  then show ?thesis by (cases cs) (auto simp: shortest_def not_u8 not_le not_less)
qed simp

lemma int64_of_not: "int64_of (map NOT bs) = map_option NOT (int64_of bs)"
proof (cases "shortest bs \<and> length bs \<le> 8")
  case True
  then obtain b cs where bs: "bs = b # cs" by (cases bs) (auto simp: shortest_def)
  let ?u = "\<lambda>x. rev bs @ replicate (8 - length bs) (x :: u8)"
  have "bytes_to_word (rev (map NOT bs) @ replicate (8 - length bs) (NOT x)) =
      NOT (bytes_to_word (?u x) :: u64)" for x
    using True bytes_to_word_not [of "?u x", where 'a = 64] by (simp add: rev_map)
  moreover have n: "(NOT 0 :: u8) = 0xff" "(NOT 0xff :: u8) = 0" by (simp_all only: not_u8)
  ultimately have "bytes_to_word (rev (map NOT bs) @ replicate (8 - length bs) 0xff) =
      NOT (bytes_to_word (?u 0) :: u64)"
    "bytes_to_word (rev (map NOT bs) @ replicate (8 - length bs) 0) =
      NOT (bytes_to_word (?u 0xff) :: u64)"
    by (metis n)+
  then show ?thesis using True shortest_not [of bs]
    by (simp add: int64_of_def not_u8 bs not_less)
qed (auto simp: int64_of_def shortest_not)

lemma sint_not: "sint (NOT w) = - sint (w :: u64) - 1"
proof -
  have "sint (NOT w) = NOT (sint w)" by (rule bit_eqI) (auto simp: bit_simps)
  then show ?thesis by (simp only: not_eq_complement)
qed

lemma sint_small:
  fixes w :: u64
  shows "0 \<le> sint w \<longleftrightarrow> unat w < 2 ^ 63" and "0 \<le> sint w \<Longrightarrow> nat (sint w) = unat w"
proof -
  have b: "0 \<le> sint w \<longleftrightarrow> \<not> bit w 63" using bit_last_iff [of w] by (simp flip: not_less)
  have "bit w 63 \<longleftrightarrow> odd (unat w div 2 ^ 63)"
    using bit_unsigned_iff [where 'a = nat, of w 63] by (simp add: bit_iff_odd)
  moreover have "unat w div 2 ^ 63 < 2" by (simp add: less_mult_imp_div_less)
  then have "odd (unat w div 2 ^ 63) \<longleftrightarrow> unat w div 2 ^ 63 \<noteq> 0" by (auto simp: less_2_cases_iff)
  ultimately show "0 \<le> sint w \<longleftrightarrow> unat w < 2 ^ 63" using b by (simp add: div_eq_0_iff)
  assume "0 \<le> sint w"
  then have "\<not> bit (uint w) 63" using b by (simp add: bit_unsigned_iff)
  then have "sint w = take_bit 63 (uint w)" by (simp add: sint_uint signed_take_bit_eq_if_positive)
  moreover have "unat w < 2 ^ 63" using \<open>0 \<le> sint w\<close> \<open>(0 \<le> sint w) = (unat w < 2 ^ 63)\<close> by blast
  then have "take_bit 63 (unat w) = unat w" by (rule take_bit_nat_eq_self)
  then have "take_bit 63 (uint w) = uint w" unfolding uint_nat of_nat_take_bit [symmetric] by (rule arg_cong)
  ultimately show "nat (sint w) = unat w" by (simp only: unat_eq_nat_uint)
qed

lemma der_int_not: "der_int (- z - 1) = map NOT (der_int z)"
  by (auto simp: der_int_def comp_def)

lemma int64_of_nonneg:
  assumes "unat (hd bs) < 128"
  shows "int64_of bs = Some w \<longleftrightarrow> 0 \<le> sint w \<and> bs = der_int (sint w)"
proof
  assume i: "int64_of bs = Some w"
  then have s: "shortest bs" "length bs \<le> 8" and w: "w = be_value bs"
    using assms by (auto simp: int64_of_def bytes_to_word_rev split: if_splits)
  have n: "unat w = octets_value bs" using s(2) w by (simp add: unat_be_value octets_value_def)
  have bs: "der_uint (unat w) = bs" using s(1) assms by (simp add: n der_uint_of)
  then have "0 \<le> sint w" using s(2) length_der_uint [of "unat w"] by (simp add: sint_small(1))
  then show "0 \<le> sint w \<and> bs = der_int (sint w)" using bs by (simp add: der_int_def sint_small(2))
next
  assume a: "0 \<le> sint w \<and> bs = der_int (sint w)"
  then have bs: "bs = der_uint (unat w)" by (simp add: der_int_def sint_small(2))
  then have s: "shortest bs" "length bs \<le> 8"
    using a length_der_uint [of "unat w"] by (simp_all add: der_uint_shape sint_small(1))
  have "unat (be_value bs) = unat w"
    using s(2) octets_value_uint [of "unat w"] by (simp add: unat_be_value bs octets_value_def)
  then have "be_value bs = w" by (rule word_unat_eq_iff [THEN iffD2])
  then show "int64_of bs = Some w" using s assms by (simp add: int64_of_def bytes_to_word_rev)
qed

lemma der_uint_not_Nil: "der_uint n \<noteq> []"
  by (simp add: der_uint_def)

lemma hd_der_int: "unat (hd (der_int z)) < 128 \<longleftrightarrow> 0 \<le> z"
proof -
  show ?thesis using der_uint_not_Nil der_uint_shape(2) by (auto simp: der_int_def hd_map not_u8 not_le not_less)
qed

lemma int64_of_iff: "int64_of bs = Some w \<longleftrightarrow> bs = der_int (sint w)"
proof (cases "unat (hd bs) < 128")
  case True
  then show ?thesis using int64_of_nonneg [OF True, of w] hd_der_int [of "sint w"] by auto
next
  case False
  show ?thesis
  proof (cases "bs = []")
    case True
    then show ?thesis using der_uint_not_Nil [of "nat (sint w)", symmetric] der_uint_not_Nil
      by (simp add: int64_of_def shortest_def der_int_def)
  next
    case ne: False
    have "int64_of bs = Some w \<longleftrightarrow> int64_of (map NOT bs) = Some (NOT w)"
      by (cases "int64_of bs") (auto simp: int64_of_not)
    also have "\<dots> \<longleftrightarrow> 0 \<le> sint (NOT w) \<and> map NOT bs = der_int (sint (NOT w))"
      using False ne by (intro int64_of_nonneg) (simp add: hd_map not_u8)
    also have "\<dots> \<longleftrightarrow> sint w < 0 \<and> bs = der_int (sint w)"
      unfolding sint_not der_int_not by (auto simp: inj_map_eq_map inj_def)
    finally show ?thesis using False hd_der_int [of "sint w"] by auto
  qed
qed

text \<open>\<^verbatim>\<open>CBS_get_asn1_int64\<close> accepts exactly the INTEGER elements whose contents are the
  shortest two's complement form of a 64-bit signed number, and returns that number (sign extension
  through the union included).\<close>

theorem int64_exact:
  "case CBS_get_asn1_int64 m c of
     (Some v, c') \<Rightarrow> cbs_bytes m c = der_element CBS_ASN1_INTEGER (der_int (sint v)) @ cbs_bytes m c'
   | (None, _) \<Rightarrow> \<nexists>v rest. cbs_bytes m c = der_element CBS_ASN1_INTEGER (der_int (sint (v :: u64))) @ rest"
proof (rule value_getter_exact [OF get_int64_spec, where enc = "\<lambda>v. der_int (sint v)"])
  show "length (der_int (sint v)) < 2 ^ 32" for v :: u64
  proof -
    have "nat (if 0 \<le> sint v then sint v else - sint v - 1) < 2 ^ 64"
      using sint_small(2) [of v] sint_small(2) [of "NOT v"] by (simp add: sint_not)
    from length_der_uint_u64 [OF this] show ?thesis by (simp add: der_int_def split: if_splits)
  qed
qed (rule int64_of_iff)

text \<open>C17. \<^verbatim>\<open>CBS_get_asn1_uint64\<close> and \<^verbatim>\<open>CBS_get_asn1_int64\<close> are the exact inverses of the DER
  encoding of unsigned and of signed 64-bit integers: each returns \<open>v\<close> and what follows if and only if the
  reader starts with the INTEGER element whose contents are the shortest two's complement form of \<open>v\<close>, for
  the full range.\<close>

theorem integers_exact:
  "(case CBS_get_asn1_uint64 m c of
      (Some v, c') \<Rightarrow> cbs_bytes m c = der_element CBS_ASN1_INTEGER (der_uint (unat v)) @ cbs_bytes m c'
    | (None, _) \<Rightarrow> \<nexists>v rest. cbs_bytes m c = der_element CBS_ASN1_INTEGER (der_uint (unat (v :: u64))) @ rest) \<and>
   (case CBS_get_asn1_int64 m c of
      (Some v, c') \<Rightarrow> cbs_bytes m c = der_element CBS_ASN1_INTEGER (der_int (sint v)) @ cbs_bytes m c'
    | (None, _) \<Rightarrow> \<nexists>v rest. cbs_bytes m c = der_element CBS_ASN1_INTEGER (der_int (sint (v :: u64))) @ rest)"
  by (rule conjI [OF uint64_exact int64_exact])

end
