(* ===== verification/Cbs_Props.thy ===== *)
theory Cbs_Props
  imports Der_Values
begin

text \<open>
  The rest of \<open>Cbs\<close>: that no getter leaves the window of its reader, what the length-prefixed getters
  consume when they fail, little-endian integers, comparison, optional elements and bit strings.
\<close>

section \<open>Staying inside the reader\<close>

definition suffix_of :: "cbs \<Rightarrow> cbs \<Rightarrow> bool" where
  "suffix_of c c' \<longleftrightarrow> (\<exists>k \<le> unat (cbs_len c). c' = cbs_adv k c)"

definition part_of :: "cbs \<Rightarrow> cbs \<Rightarrow> bool" where
  "part_of c d \<longleftrightarrow> (\<exists>k. k + unat (cbs_len d) \<le> unat (cbs_len c) \<and> cbs_data d = cbs_data c + of_nat k)"

lemma suffix_refl [simp]: "suffix_of c c"
  unfolding suffix_of_def by (rule exI [of _ 0]) simp

lemma suffix_adv: "k \<le> unat (cbs_len c) \<Longrightarrow> suffix_of c (cbs_adv k c)"
  unfolding suffix_of_def by blast

lemma suffix_trans: "suffix_of a b \<Longrightarrow> suffix_of b c \<Longrightarrow> suffix_of a c"
proof -
  assume "suffix_of a b" "suffix_of b c"
  then obtain j k where "j \<le> unat (cbs_len a)" "b = cbs_adv j a" "k \<le> unat (cbs_len b)" "c = cbs_adv k b"
    by (auto simp: suffix_of_def)
  then have "j + k \<le> unat (cbs_len a)" "c = cbs_adv (j + k) a" by (simp_all add: len_adv)
  then show ?thesis by (auto simp: suffix_of_def)
qed

lemma unat_of_nat_le: "n \<le> unat (x :: u64) \<Longrightarrow> unat (of_nat n :: u64) = n"
  using le_less_trans [OF _ u64_less, of n x] by simp

lemma part_front_adv: "k + n \<le> unat (cbs_len c) \<Longrightarrow> part_of c (cbs_front n (cbs_adv k c))"
proof -
  assume a: "k + n \<le> unat (cbs_len c)"
  then have "unat (of_nat n :: u64) = n" by (intro unat_of_nat_le [of n "cbs_len c"]) simp
  then show ?thesis unfolding part_of_def using a by (intro exI [of _ k]) (simp add: cbs_front_def cbs_adv_def)
qed

lemma part_front: "n \<le> unat (cbs_len c) \<Longrightarrow> part_of c (cbs_front n c)"
  using part_front_adv [of 0 n c] by simp

lemma part_trans: "part_of a b \<Longrightarrow> part_of b c \<Longrightarrow> part_of a c"
proof -
  assume "part_of a b" "part_of b c"
  then obtain j k where "j + unat (cbs_len b) \<le> unat (cbs_len a)" "cbs_data b = cbs_data a + of_nat j"
    "k + unat (cbs_len c) \<le> unat (cbs_len b)" "cbs_data c = cbs_data b + of_nat k"
    by (auto simp: part_of_def)
  then show ?thesis unfolding part_of_def by (intro exI [of _ "j + k"]) simp
qed

lemma suffix_part: "suffix_of c d \<Longrightarrow> part_of c d"
proof -
  assume "suffix_of c d"
  then obtain k where "k \<le> unat (cbs_len c)" "d = cbs_adv k c" by (auto simp: suffix_of_def)
  then show ?thesis unfolding part_of_def by (intro exI [of _ k]) (simp add: len_adv, simp add: cbs_adv_def)
qed

lemma ber_element_cases:
  "cbs_get_any_asn1_element True m c = cbs_get_any_asn1_element False m c \<or>
   (\<exists>t hl. cbs_get_any_asn1_element True m c = bind_io (CBS_get_bytes hl c) (\<lambda>out c. (Some (out, t, hl), c)))"
  unfolding cbs_get_any_asn1_element_def by (auto simp: Let_def split: option.splits prod.splits)

text \<open>C18. No element getter leaves its reader, whatever the bytes and with BER's indefinite lengths
  allowed as well: the element lies inside the reader's window and starts where the reader stood, its
  header is no longer than it (so the getters that skip the header never hit their assertion), and the
  reader moves to exactly behind the element, or not at all.\<close>

theorem elements_stay_inside:
  "case cbs_get_any_asn1_element ber_ok m c of
     (Some (out, _, hl), c') \<Rightarrow>
       part_of c out \<and> cbs_data out = cbs_data c \<and> unat hl \<le> unat (cbs_len out) \<and>
       c' = cbs_adv (unat (cbs_len out)) c \<and> unat (cbs_len out) \<le> unat (cbs_len c)
   | (None, c') \<Rightarrow> c' = c"
proof -
  have "P (cbs_get_any_asn1_element ber_ok m c)"
    if der: "P (cbs_get_any_asn1_element False m c)"
      and indef: "\<And>t hl. P (bind_io (CBS_get_bytes hl c) (\<lambda>out c. (Some (out, t, hl), c)))" for P
  proof (cases ber_ok)
    case True
    with ber_element_cases [of m c] show ?thesis by (elim disjE exE) (simp_all only: der indef)
  next
    case False
    then show ?thesis using der by (simp only: False)
  qed
  note cases_of = this
  show ?thesis
  proof (rule cases_of)
    show "case cbs_get_any_asn1_element False m c of
       (Some (out, _, hl), c') \<Rightarrow>
         part_of c out \<and> cbs_data out = cbs_data c \<and> unat hl \<le> unat (cbs_len out) \<and>
         c' = cbs_adv (unat (cbs_len out)) c \<and> unat (cbs_len out) \<le> unat (cbs_len c)
     | (None, c') \<Rightarrow> c' = c"
    proof (cases rule: any_asn1_cases [of m c])
      case (element t body rest)
      have "length (der_element t body) \<le> unat (cbs_len c)"
        using arg_cong [OF element(1), of length] by simp
      moreover from this have "unat (of_nat (length (der_element t body)) :: u64) = length (der_element t body)"
        "unat (of_nat (header_len t body) :: u64) = header_len t body"
        by (intro unat_of_nat_le [of _ "cbs_len c"]; simp add: length_der_element)+
      ultimately show ?thesis
        using element(4) part_front [of "length (der_element t body)" c]
        by (simp add: CBS_get_any_asn1_element_def) (simp add: cbs_front_def length_der_element)
    next
      case malformed
      then show ?thesis by (simp add: CBS_get_any_asn1_element_def)
    qed
  qed (auto simp: get_bytes_spec part_front, simp_all add: cbs_front_def)
qed

section \<open>Length prefixes\<close>

text \<open>The getters of length-prefixed contents on every input: with a complete prefix they read a
  big-endian length and, when that many bytes follow, return exactly these; when they do not, they fail
  after consuming the prefix; a truncated prefix consumes nothing.\<close>

theorem length_prefixed_behaviour:
  "CBS_get_u16_length_prefixed m c =
     (case cbs_bytes m c of
        hi # lo # rest \<Rightarrow>
          let n = 256 * unat hi + unat lo in
          if n \<le> length rest then (Some (cbs_front n (cbs_adv 2 c)), cbs_adv (2 + n) c)
          else (None, cbs_adv 2 c)
      | _ \<Rightarrow> (None, c))"
proof (cases "2 \<le> unat (cbs_len c)")
  case False
  have "length (cbs_bytes m c) < 2" using False by simp
  then consider "cbs_bytes m c = []" | b where "cbs_bytes m c = [b]"
    by (cases "cbs_bytes m c"; cases "tl (cbs_bytes m c)") (simp_all del: length_cbs_bytes)
  then show ?thesis using False
    by cases (simp_all add: CBS_get_u16_length_prefixed_def cbs_get_length_prefixed_def get_u_spec)
next
  case True
  then have "2 \<le> length (cbs_bytes m c)" by simp
  then obtain hi lo rest where b: "cbs_bytes m c = hi # lo # rest"
    by (cases "cbs_bytes m c"; cases "tl (cbs_bytes m c)") auto
  have len: "unat (cbs_len c) = Suc (Suc (length rest))" using arg_cong [OF b, of length] by simp
  have "unat (be_value [hi, lo]) = 256 * unat hi + unat lo"
    by (simp add: unat_be_value) (simp add: undigits_def)
  then show ?thesis using b len
    by (simp add: CBS_get_u16_length_prefixed_def cbs_get_length_prefixed_def get_u_spec get_bytes_spec len_adv Let_def)
qed

section \<open>Comparison\<close>

lemma memcmp_zero:
  "foldl (\<lambda>x i. x OR (f i XOR g i)) (x :: u8) is = 0 \<longleftrightarrow> x = 0 \<and> (\<forall>i \<in> set is. f i = g i)"
proof (induction "is" arbitrary: x)
  case (Cons i "is")
  have "f i XOR g i = 0 \<longleftrightarrow> f i = g i" by (metis xor_self_eq bit_eq_iff bit_xor_iff bit_0_eq)
  then show ?case using Cons by (auto simp: or_eq_0_iff)
qed simp

text \<open>The constant-time comparison is equality: \<^verbatim>\<open>CBS_mem_equal\<close> is true if and only if the
  reader's bytes are the \<open>n\<close> bytes at \<open>p\<close>, and \<^verbatim>\<open>CRYPTO_memcmp\<close> is zero for no other
  memory of that size.\<close>

theorem mem_equal_iff:
  "CBS_mem_equal m c p n \<longleftrightarrow> cbs_bytes m c = read_bytes m p (unat n)"
proof (cases "n = cbs_len c")
  case True
  then show ?thesis
    by (auto simp: CBS_mem_equal_def CRYPTO_memcmp_def memcmp_zero cbs_bytes_def list_eq_iff_nth_eq)
next
  case False
  then have "length (cbs_bytes m c) \<noteq> length (read_bytes m p (unat n))" by (simp add: word_unat_eq_iff)
  then have "cbs_bytes m c \<noteq> read_bytes m p (unat n)" by (rule contrapos_nn) (rule arg_cong)
  then show ?thesis using False by (simp add: CBS_mem_equal_def)
qed

section \<open>Little-endian integers\<close>

lemma bswap_bytes:
  fixes f :: "'a::len word \<Rightarrow> 'a word"
  assumes n: "LENGTH('a) = 8 * n" "length xs = n"
    and f: "\<And>j r x. j < n \<Longrightarrow> r < 8 \<Longrightarrow> bit (f x) (8 * j + r) \<longleftrightarrow> bit x (8 * (n - 1 - j) + r)"
  shows "f (bytes_to_word xs) = bytes_to_word (rev xs)"
proof (rule bit_word_eqI)
  fix k assume k: "k < LENGTH('a)"
  define j r where "j = k div 8" and "r = k mod 8"
  have e: "k = 8 * j + r" and r: "r < 8" by (simp_all add: j_def r_def)
  have j: "j < n" using k n by (simp add: j_def less_mult_imp_div_less mult.commute)
  then have l: "8 * (n - 1 - j) + r < 8 * n" "(8 * (n - 1 - j) + r) div 8 = n - 1 - j"
    "(8 * (n - 1 - j) + r) mod 8 = r" "(8 * j + r) div 8 = j" "(8 * j + r) mod 8 = r"
    using r by auto
  show "bit (f (bytes_to_word xs)) k = bit (bytes_to_word (rev xs) :: 'a word) k"
    using j l k n by (simp add: e f [OF j r] bit_bytes_to_word rev_nth)
qed

lemma bit_bswap2: "j < 2 \<Longrightarrow> r < 8 \<Longrightarrow> bit (CRYPTO_bswap2 x) (8 * j + r) \<longleftrightarrow> bit x (8 * (2 - 1 - j) + r)"
proof -
  assume r: "r < 8" and "j < 2"
  then consider "j = 0" | "j = 1" by linarith
  then show ?thesis unfolding CRYPTO_bswap2_def using r
    by cases (auto simp: bit_simps add.commute dest: bit_imp_le_length)
qed

lemma bswap_masks: "(0xff00ff00 :: u32) = push_bit 8 (mask 8) OR push_bit 24 (mask 8)"
   "(0x00ff00ff :: u32) = mask 8 OR push_bit 16 (mask 8)"
  by (simp_all add: mask_eq_exp_minus_1)

lemma bit_bswap4: "j < 4 \<Longrightarrow> r < 8 \<Longrightarrow> bit (CRYPTO_bswap4 x) (8 * j + r) \<longleftrightarrow> bit x (8 * (4 - 1 - j) + r)"
proof -
  assume r: "r < 8" and "j < 4"
  then consider "j = 0" | "j = 1" | "j = 2" | "j = 3" by linarith
  then show ?thesis unfolding CRYPTO_bswap4_def bswap_masks Let_def using r
    by cases (auto simp: bit_simps add.commute dest: bit_imp_le_length)
qed

lemma bit_bswap8: "j < 8 \<Longrightarrow> r < 8 \<Longrightarrow> bit (CRYPTO_bswap8 x) (8 * j + r) \<longleftrightarrow> bit x (8 * (8 - 1 - j) + r)"
proof -
  assume r: "r < 8" and j: "j < 8"
  show ?thesis
  proof (cases "j < 4")
    case True
    then have "8 * j + r < 32" "32 + (8 * (3 - j) + r) = 8 * (7 - j) + r" "8 * (3 - j) + r < 32"
      using r by linarith+
    then have "bit x (32 + (8 * (3 - j) + r)) = bit x (8 * (7 - j) + r)" by (metis)
    then show ?thesis using bit_bswap4 [OF True r, of "ucast (drop_bit 32 x)"] \<open>8 * j + r < 32\<close> \<open>8 * (3 - j) + r < 32\<close>
      by (simp add: CRYPTO_bswap8_def bit_simps)
  next
    case False
    then have l: "32 \<le> 8 * j + r" "8 * j + r - 32 = 8 * (j - 4) + r" "8 * (j - 4) + r < 32"
      "8 * (3 - (j - 4)) + r = 8 * (7 - j) + r" "8 * (7 - j) + r < 32" "8 * j + r < 64" "j - 4 < 4"
      using r j by linarith+
    then show ?thesis using bit_bswap4 [OF l(7) r, of "ucast x"]
      by (auto simp: CRYPTO_bswap8_def bit_simps dest: bit_imp_le_length)
  qed
qed

lemma ucast_be_value:
  "ucast (be_value bs :: u64) = (bytes_to_word (rev bs) :: 'a::len word)" if "LENGTH('a) \<le> 64"
proof -
  have "be_value bs = bytes_to_word (rev bs)" using bytes_to_word_rev [of bs 0] by simp
  then show ?thesis using that by (intro bit_word_eqI) (auto simp: bit_simps bit_bytes_to_word)
qed

text \<open>The little-endian getters, which read big-endian and swap with
  \<^verbatim>\<open>CRYPTO_bswap2/4/8\<close>, return the little-endian value of the next two, four or eight bytes
  and consume exactly these; with fewer bytes they fail and consume nothing.\<close>

theorem little_endian_getters:
  "CBS_get_u16le m c =
     (if 2 \<le> length (cbs_bytes m c) then (Some (bytes_to_word (take 2 (cbs_bytes m c))), cbs_adv 2 c) else (None, c)) \<and>
   CBS_get_u32le m c =
     (if 4 \<le> length (cbs_bytes m c) then (Some (bytes_to_word (take 4 (cbs_bytes m c))), cbs_adv 4 c) else (None, c)) \<and>
   CBS_get_u64le m c =
     (if 8 \<le> length (cbs_bytes m c) then (Some (bytes_to_word (take 8 (cbs_bytes m c))), cbs_adv 8 c) else (None, c))"
proof -
  let ?bs = "cbs_bytes m c"
  have "CRYPTO_bswap2 (bytes_to_word (rev (take 2 ?bs))) = bytes_to_word (take 2 ?bs)" if "2 \<le> length ?bs"
    using that bswap_bytes [of 2 "rev (take 2 ?bs)" CRYPTO_bswap2, OF _ _ bit_bswap2] by simp
  moreover have "CRYPTO_bswap4 (bytes_to_word (rev (take 4 ?bs))) = bytes_to_word (take 4 ?bs)" if "4 \<le> length ?bs"
    using that bswap_bytes [of 4 "rev (take 4 ?bs)" CRYPTO_bswap4, OF _ _ bit_bswap4] by simp
  moreover have "CRYPTO_bswap8 (bytes_to_word (rev (take 8 ?bs))) = bytes_to_word (take 8 ?bs)" if "8 \<le> length ?bs"
    using that bswap_bytes [of 8 "rev (take 8 ?bs)" CRYPTO_bswap8, OF _ _ bit_bswap8] by simp
  ultimately show ?thesis
    using ucast_be_value [where 'a = 64, of "take 8 ?bs"]
    by (simp_all add: CBS_get_u16le_def CBS_get_u32le_def CBS_get_u64le_def CBS_get_u16_def CBS_get_u32_def
        get_u_spec ucast_be_value [where 'a = 16] ucast_be_value [where 'a = 32])
qed

text \<open>The getters of several bytes on every input.  A length-prefixed getter with a complete prefix reads
  a big-endian length and, when that many bytes follow, returns exactly these; when they do not, it fails
  after consuming the prefix; a truncated prefix consumes nothing.  The little-endian getters return the
  little-endian value of the next two, four or eight bytes and consume exactly these; with fewer bytes they
  fail and consume nothing.\<close>

theorem multi_byte_getters:
  "CBS_get_u16_length_prefixed m c =
     (case cbs_bytes m c of
        hi # lo # rest \<Rightarrow>
          let n = 256 * unat hi + unat lo in
          if n \<le> length rest then (Some (cbs_front n (cbs_adv 2 c)), cbs_adv (2 + n) c)
          else (None, cbs_adv 2 c)
      | _ \<Rightarrow> (None, c)) \<and>
   CBS_get_u16le m c =
     (if 2 \<le> length (cbs_bytes m c) then (Some (bytes_to_word (take 2 (cbs_bytes m c))), cbs_adv 2 c) else (None, c)) \<and>
   CBS_get_u32le m c =
     (if 4 \<le> length (cbs_bytes m c) then (Some (bytes_to_word (take 4 (cbs_bytes m c))), cbs_adv 4 c) else (None, c)) \<and>
   CBS_get_u64le m c =
     (if 8 \<le> length (cbs_bytes m c) then (Some (bytes_to_word (take 8 (cbs_bytes m c))), cbs_adv 8 c) else (None, c))"
  by (rule conjI [OF length_prefixed_behaviour little_endian_getters])

section \<open>Bit strings\<close>

text \<open>The contents of a BIT STRING: the number of unused bits, then the bits, first bit highest.\<close>

definition octet_bits :: "u8 \<Rightarrow> bool list" where
  "octet_bits b = map (\<lambda>i. bit b (7 - i)) [0..<8]"

definition bitstring_bits :: "u8 list \<Rightarrow> bool list" where
  "bitstring_bits bs = concat (map octet_bits (tl bs))"

definition valid_bitstring :: "u8 list \<Rightarrow> bool" where
  "valid_bitstring bs \<longleftrightarrow> bs \<noteq> [] \<and> hd bs \<le> 7 \<and>
     (hd bs = 0 \<or> tl bs \<noteq> [] \<and> (\<forall>i < unat (hd bs). \<not> bit (last bs) i))"

lemma nth_bits: "i < 8 * length bs \<Longrightarrow> concat (map octet_bits bs) ! i = bit (bs ! (i div 8)) (7 - i mod 8)"
proof (induction bs arbitrary: i)
  case (Cons b bs)
  show ?case
  proof (cases "i < 8")
    case True
    then show ?thesis by (simp add: octet_bits_def nth_append)
  next
    case False
    then obtain j where i: "i = j + 8" by (metis add.commute le_iff_add linorder_not_less)
    then show ?thesis using Cons by (simp add: octet_bits_def nth_append div_add_self2)
  qed
qed simp

lemma length_bits: "length (concat (map octet_bits bs)) = 8 * length bs"
  by (induction bs) (simp_all add: octet_bits_def)

lemma get_last_u8_spec:
  "CBS_get_last_u8 m c =
     (if cbs_bytes m c = [] then (None, c)
      else (Some (last (cbs_bytes m c)), c\<lparr>cbs_len := cbs_len c - 1\<rparr>))"
proof (cases "cbs_len c = 0")
  case True
  then show ?thesis using reader_octets(4) [of c m] by (simp add: CBS_get_last_u8_def)
next
  case False
  then have "of_nat (unat (cbs_len c) - 1) = cbs_len c - 1"
    by (simp add: of_nat_diff Suc_le_eq unat_gt_0)
  then have "last (cbs_bytes m c) = m (cbs_data c + (cbs_len c - 1))"
    using False reader_octets(4) [of c m] unat_gt_0 [of "cbs_len c"]
    by (simp add: last_conv_nth) (simp add: cbs_bytes_def)
  then show ?thesis using False reader_octets(4) [of c m] by (simp add: CBS_get_last_u8_def)
qed

lemma low_bits_zero:
  assumes "n \<le> 8"
  shows "(ucast (b :: u8) :: u32) AND (push_bit n 1 - 1) = 0 \<longleftrightarrow> (\<forall>i < n. \<not> bit b i)"
proof -
  have "push_bit n 1 - 1 = (mask n :: u32)" by (simp add: mask_eq_exp_minus_1 push_bit_eq_mult)
  moreover have "(ucast b :: u32) AND mask n = 0 \<longleftrightarrow> (\<forall>i < 32. \<not> (bit b i \<and> i < n))"
    by (auto simp: bit_eq_iff [of "_ AND _"] bit_simps)
  moreover have "i < n \<Longrightarrow> i < 32" for i using assms by linarith
  ultimately show ?thesis by metis
qed

lemma valid_bitstring_spec: "CBS_is_valid_asn1_bitstring m c \<longleftrightarrow> valid_bitstring (cbs_bytes m c)"
proof (cases "cbs_bytes m c")
  case Nil
  then show ?thesis by (simp add: CBS_is_valid_asn1_bitstring_def get_u8_spec valid_bitstring_def)
next
  case (Cons u octets)
  have "0 < unat (cbs_len c)" using arg_cong [OF Cons, of length] by simp
  then have adv: "cbs_bytes m (cbs_adv 1 c) = octets" using Cons by (simp add: bytes_adv)
  have u: "u \<le> 7 \<Longrightarrow> unat u \<le> 8" by (simp add: word_le_nat_alt)
  show ?thesis
    using Cons adv low_bits_zero [OF u, of "last octets"]
    by (auto simp: CBS_is_valid_asn1_bitstring_def get_u8_spec get_last_u8_spec valid_bitstring_def
        not_le not_less)
qed

text \<open>\<^verbatim>\<open>CBS_asn1_bitstring_has_bit\<close> reads the bit string as X.690 defines it: it is true if
  and only if the contents are a valid bit string (at most seven unused bits, present and zero) whose
  bit with that number, counting from the top of the first octet, exists and is set; unused and missing
  bits read as unset.\<close>

theorem bitstring_has_bit:
  "CBS_asn1_bitstring_has_bit m c b \<longleftrightarrow>
     valid_bitstring (cbs_bytes m c) \<and> unat b < length (bitstring_bits (cbs_bytes m c)) \<and>
     bitstring_bits (cbs_bytes m c) ! unat b"
proof (cases "valid_bitstring (cbs_bytes m c)")
  case False
  then show ?thesis by (simp add: CBS_asn1_bitstring_has_bit_def valid_bitstring_spec)
next
  case True
  then obtain u octets where b: "cbs_bytes m c = u # octets"
    by (cases "cbs_bytes m c") (auto simp: valid_bitstring_def)
  have len: "unat (cbs_len c) = Suc (length octets)" using arg_cong [OF b, of length] by simp
  let ?n = "ucast (drop_bit 3 b + 1) :: u64"
  have ub: "unat b < 2 ^ 32" using unsigned_less [of b] by simp
  then have "take_bit 32 (unat b) = unat b" by (rule take_bit_nat_eq_self)
  then have "unat (drop_bit 3 b) = unat b div 8"
    using unsigned_drop_bit_eq [of 3 b, where 'a = nat] by (simp add: drop_bit_eq_div)
  moreover note ub
  then have "unat b div 8 + 1 < 2 ^ 32" by simp
  ultimately have n: "unat ?n = unat b div 8 + 1"
    by (simp add: unsigned_ucast_eq unat_word_ariths take_bit_nat_eq_self)
  have "b AND 7 = b AND mask 3" by (simp add: mask_eq_exp_minus_1)
  then have "unat (b AND 7) = unat b mod 8" using unat_and_mask [of b 3] by simp
  moreover have "b AND 7 \<le> 7" by (simp add: word_and_le1)
  ultimately have i: "unat (7 - (b AND 7)) = 7 - unat b mod 8" by (simp add: unat_sub)
  have at: "m (cbs_data c + ?n) = octets ! (unat b div 8)" if "unat b div 8 < length octets"
  proof -
    have "m (cbs_data c + of_nat (unat b div 8 + 1)) = cbs_bytes m c ! (unat b div 8 + 1)"
      using that len by (simp add: cbs_bytes_def)
    moreover have "of_nat (unat ?n) = ?n" by (simp only: of_nat_unat ucast_id)
    then have "of_nat (unat b div 8 + 1) = ?n" by (simp only: n)
    ultimately show ?thesis by (simp only: b nth_Cons_Suc Suc_eq_plus1 [symmetric])
  qed
  have test: "(ucast (x :: u8) :: u32) AND push_bit k 1 \<noteq> 0 \<longleftrightarrow> bit x k" if "k < 8" for x k
    using that and_exp_eq_0_iff_not_bit [of "ucast x :: u32" k] by (simp add: push_bit_eq_mult bit_simps)
  have "?n < cbs_len c \<longleftrightarrow> unat b div 8 < length octets"
    by (simp only: word_less_nat_alt n len Suc_eq_plus1 add_less_cancel_right)
  also have "\<dots> \<longleftrightarrow> unat b < length (bitstring_bits (cbs_bytes m c))"
    by (simp add: bitstring_bits_def b length_bits less_mult_imp_div_less mult.commute div_less_iff_less_mult)
  finally have lt: "?n < cbs_len c \<longleftrightarrow> unat b < length (bitstring_bits (cbs_bytes m c))" .
  show ?thesis
    using True lt \<open>(?n < cbs_len c) = (unat b div 8 < length octets)\<close> at test [of "7 - unat b mod 8"] nth_bits [of "unat b" octets]
    by (auto simp: CBS_asn1_bitstring_has_bit_def valid_bitstring_spec i Let_def bitstring_bits_def b length_bits)
qed

section \<open>Optional elements\<close>

lemma peek_iff: "CBS_peek_asn1_tag t m c \<longleftrightarrow> (\<exists>rest. cbs_bytes m c = der_tag t @ rest)"
proof
  assume "CBS_peek_asn1_tag t m c"
  then have "fst (parse_asn1_tag m c) = Some t"
    by (auto simp: CBS_peek_asn1_tag_def split: if_splits option.splits)
  then obtain c' where "parse_asn1_tag m c = (Some t, c')" by (cases "parse_asn1_tag m c") auto
  then show "\<exists>rest. cbs_bytes m c = der_tag t @ rest" using parse_tag_sound by blast
next
  assume "\<exists>rest. cbs_bytes m c = der_tag t @ rest"
  then obtain rest where b: "cbs_bytes m c = der_tag t @ rest" by blast
  have "0 < unat (cbs_len c)"
    using arg_cong [OF b, of length] length_der_tag(2) [of t] by (simp del: length_greater_0_conv)
  then have "\<not> cbs_len c < 1" by (simp add: word_less_nat_alt)
  then show "CBS_peek_asn1_tag t m c" using parse_tag_complete [OF b] by (simp add: CBS_peek_asn1_tag_def)
qed

text \<open>\<^verbatim>\<open>CBS_get_optional_asn1\<close> on every input: the element is reported absent, and nothing
  consumed, exactly when the reader does not start with its tag; present when a complete element with
  that tag follows, which is consumed; and a tag without a well-formed element is an error that
  consumes nothing.\<close>

theorem optional_element:
  "case CBS_get_optional_asn1 t m c of
     (Some None, c') \<Rightarrow> c' = c \<and> (\<nexists>rest. cbs_bytes m c = der_tag t @ rest)
   | (Some (Some out), c') \<Rightarrow> cbs_bytes m c = der_element t (cbs_bytes m out) @ cbs_bytes m c'
   | (None, c') \<Rightarrow> c' = c \<and> (\<exists>rest. cbs_bytes m c = der_tag t @ rest) \<and>
       (\<nexists>body rest. cbs_bytes m c = der_element t body @ rest \<and> length body < 2 ^ 32)"
proof (cases "CBS_peek_asn1_tag t m c")
  case False
  then have "\<nexists>rest. cbs_bytes m c = der_tag t @ rest" by (simp only: peek_iff not_False_eq_True)
  then show ?thesis using False by (simp add: CBS_get_optional_asn1_def)
next
  case True
  then obtain rest where b: "cbs_bytes m c = der_tag t @ rest" by (auto simp: peek_iff)
  show ?thesis
  proof (cases rule: get_asn1_cases [of m c t])
    case (element body rest)
    then show ?thesis using True skip_header [OF element(1)] by (simp add: CBS_get_optional_asn1_def)
  next
    case (other u body rest')
    then have "cbs_bytes m c = der_tag u @ der_length (length body) @ body @ rest'" by (simp add: der_element_def)
    then have "u = t" using parse_tag_complete [OF b] parse_tag_complete [of m c u] by simp
    then show ?thesis using other(1) by simp
  next
    case malformed
    then show ?thesis using True b by (auto simp: CBS_get_optional_asn1_def)
  qed
qed

end
