(* ===== verification/Cbb.thy ===== *)
theory Cbb
  imports Cbs
begin

text \<open>
  BoringSSL's byte-string writer, \<^verbatim>\<open>crypto/bytestring/cbb.c\<close>: a growing or fixed buffer
  shared by a chain of \<^verbatim>\<open>CBB\<close> objects, each holding the offset of a length prefix that is
  written when its parent is flushed.  The objects live in a store (a handle is a number, as the C code
  uses their addresses), because the parent reaches its child through a pointer while the caller writes
  through the child.  A call has no result (\<open>None\<close>) when it would store outside the buffer or the bound
  on the depth of the chain of children is used up.
\<close>

section \<open>State\<close>

text \<open>\<open>buf\<close> holds all \<open>cap\<close> bytes of the allocation; \<open>blen\<close> of them are in use.\<close>

record cbb_buffer =
  buf :: "u8 list"
  blen :: u64
  cap :: u64
  can_resize :: bool
  error :: bool

record cbb =
  c_base :: bool
  c_child :: "nat option"
  c_offset :: u64
  c_pending_len_len :: u8
  c_pending_is_asn1 :: bool
  c_is_child :: bool

record cbb_state =
  base :: cbb_buffer
  cbbs :: "nat \<Rightarrow> cbb"

text \<open>The allocator: which sizes of byte buffers it grants, whether it grants the control block
  \<^verbatim>\<open>struct cbb_buffer_st\<close> and the copies that \<^verbatim>\<open>CBB_flush_asn1_set_of\<close> sorts, and what fresh
  memory holds.\<close>

record cbb_env =
  alloc_ok :: "u64 \<Rightarrow> bool"
  block_ok :: bool
  junk :: u8

definition CBB_zero :: cbb where
  "CBB_zero = \<lparr>c_base = False, c_child = None, c_offset = 0, c_pending_len_len = 0,
     c_pending_is_asn1 = False, c_is_child = False\<rparr>"

definition set_cbb :: "nat \<Rightarrow> cbb \<Rightarrow> cbb_state \<Rightarrow> cbb_state" where
  "set_cbb k c s = s\<lparr>cbbs := (cbbs s)(k := c)\<rparr>"

definition cbb_set_error :: "cbb_state \<Rightarrow> cbb_state" where
  "cbb_set_error s = s\<lparr>base := (base s)\<lparr>error := True\<rparr>\<rparr>"

definition cbb_init :: "cbb_env \<Rightarrow> nat \<Rightarrow> u8 list \<Rightarrow> cbb_state \<Rightarrow> bool \<times> cbb_state" where
  "cbb_init env k b s =
     (if \<not> block_ok env then (False, s)
      else (True, set_cbb k ((cbbs s k)\<lparr>c_base := True, c_is_child := False\<rparr>)
        (s\<lparr>base := \<lparr>buf = b, blen = 0, cap = of_nat (length b), can_resize = True, error = False\<rparr>\<rparr>)))"

definition CBB_init :: "cbb_env \<Rightarrow> nat \<Rightarrow> u64 \<Rightarrow> cbb_state \<Rightarrow> bool \<times> cbb_state" where
  "CBB_init env k initial_capacity s =
     (let s = set_cbb k CBB_zero s in
      if initial_capacity > 0 \<and> \<not> alloc_ok env initial_capacity then (False, s)
      else cbb_init env k (replicate (unat initial_capacity) (junk env)) s)"

definition CBB_init_fixed :: "cbb_env \<Rightarrow> nat \<Rightarrow> u8 list \<Rightarrow> cbb_state \<Rightarrow> bool \<times> cbb_state" where
  "CBB_init_fixed env k b s =
     (case cbb_init env k b (set_cbb k CBB_zero s) of
        (False, s) \<Rightarrow> (False, s)
      | (True, s) \<Rightarrow> (True, s\<lparr>base := (base s)\<lparr>can_resize := False\<rparr>\<rparr>))"

section \<open>The buffer\<close>

definition cbb_buffer_reserve :: "cbb_env \<Rightarrow> u64 \<Rightarrow> cbb_buffer \<Rightarrow> bool \<times> cbb_buffer" where
  "cbb_buffer_reserve env n b =
     (let newlen = blen b + n; err = (False, b\<lparr>error := True\<rparr>) in
      if newlen < blen b then err
      else if newlen > cap b then
        if \<not> can_resize b then err
        else
          let newcap = cap b * 2;
              newcap = (if newcap < cap b \<or> newcap < newlen then newlen else newcap) in
          if \<not> alloc_ok env newcap then err
          else (True, b\<lparr>buf := buf b @ replicate (unat newcap - length (buf b)) (junk env), cap := newcap\<rparr>)
      else (True, b))"

definition cbb_buffer_add :: "cbb_env \<Rightarrow> u64 \<Rightarrow> cbb_buffer \<Rightarrow> bool \<times> cbb_buffer" where
  "cbb_buffer_add env n b =
     (case cbb_buffer_reserve env n b of
        (False, b) \<Rightarrow> (False, b) | (True, b) \<Rightarrow> (True, b\<lparr>blen := blen b + n\<rparr>))"

text \<open>A store of bytes at an index of the buffer; \<open>None\<close> when it leaves the allocation.\<close>

definition store_at :: "u64 \<Rightarrow> u8 list \<Rightarrow> cbb_buffer \<Rightarrow> cbb_buffer option" where
  "store_at i bs b =
     (if unat i + length bs \<le> length (buf b)
      then Some (b\<lparr>buf := take (unat i) (buf b) @ bs @ drop (unat i + length bs) (buf b)\<rparr>)
      else None)"

text \<open>\<^verbatim>\<open>for (i = n - 1; i < n; i--) { buf[i] = v; v >>= 8; }\<close>: the last byte first, then
  what is left of \<open>v\<close>.\<close>

fun store_be :: "nat \<Rightarrow> u64 \<Rightarrow> u64 \<Rightarrow> cbb_buffer \<Rightarrow> (u64 \<times> cbb_buffer) option" where
  "store_be 0 i v b = Some (v, b)"
| "store_be (Suc n) i v b =
     (case store_at (i + of_nat n) [ucast v] b of
        None \<Rightarrow> None | Some b \<Rightarrow> store_be n i (drop_bit 8 v) b)"

definition cbb_buffer_add_u :: "cbb_env \<Rightarrow> u64 \<Rightarrow> nat \<Rightarrow> cbb_buffer \<Rightarrow> (bool \<times> cbb_buffer) option" where
  "cbb_buffer_add_u env v len_len b =
     (if len_len = 0 then Some (True, b)
      else case cbb_buffer_add env (of_nat len_len) b of
          (False, b) \<Rightarrow> Some (False, b)
        | (True, b') \<Rightarrow>
            (case store_be len_len (blen b) v b' of
               None \<Rightarrow> None
             | Some (v, b) \<Rightarrow> if v \<noteq> 0 then Some (False, b\<lparr>error := True\<rparr>) else Some (True, b)))"

text \<open>Running a buffer operation on the shared buffer.\<close>

definition on_base :: "(cbb_buffer \<Rightarrow> (bool \<times> cbb_buffer) option) \<Rightarrow> cbb_state \<Rightarrow> (bool \<times> cbb_state) option" where
  "on_base f s = map_option (\<lambda>(ok, b). (ok, s\<lparr>base := b\<rparr>)) (f (base s))"

section \<open>Flushing\<close>

text \<open>The number of length octets, the first of them, and whether the length fits.\<close>

definition asn1_len_len :: "u64 \<Rightarrow> (u8 \<times> u8) option" where
  "asn1_len_len len =
     (if len > 0xfffffffe then None
      else if len > 0xffffff then Some (5, 0x80 OR 4)
      else if len > 0xffff then Some (4, 0x80 OR 3)
      else if len > 0xff then Some (3, 0x80 OR 2)
      else if len > 0x7f then Some (2, 0x80 OR 1)
      else Some (1, ucast len))"

text \<open>The rest of \<^verbatim>\<open>CBB_flush\<close> after the child was flushed: \<open>j\<close> is the child and
  \<open>child_start\<close> where its contents begin.\<close>

definition move_contents :: "cbb_env \<Rightarrow> u8 \<Rightarrow> u64 \<Rightarrow> u64 \<Rightarrow> cbb_buffer \<Rightarrow> (bool \<times> cbb_buffer) option" where
  "move_contents env len_len child_start len b =
     (if len_len = 1 then Some (True, b)
      else
        let extra_bytes = ucast (len_len - 1) in
        case cbb_buffer_add env extra_bytes b of
          (False, b) \<Rightarrow> Some (False, b)
        | (True, b) \<Rightarrow>
            map_option (Pair True)
              (store_at (child_start + extra_bytes) (take (unat len) (drop (unat child_start) (buf b))) b))"

definition flush_err :: "cbb_state \<Rightarrow> (bool \<times> cbb_state) option" where
  "flush_err s = Some (False, cbb_set_error s)"

text \<open>\<^verbatim>\<open>for (i = pending_len_len - 1; ...) buf[offset + i] = len; len >>= 8;\<close> and unlinking
  the child.\<close>

definition write_prefix :: "nat \<Rightarrow> nat \<Rightarrow> u64 \<Rightarrow> cbb_state \<Rightarrow> (bool \<times> cbb_state) option" where
  "write_prefix k j len s =
     (case store_be (unat (c_pending_len_len (cbbs s j))) (c_offset (cbbs s j)) len (base s) of
        None \<Rightarrow> None
      | Some (len, b) \<Rightarrow>
          let s = s\<lparr>base := b\<rparr> in
          if len \<noteq> 0 then flush_err s
          else
            let s = set_cbb j ((cbbs s j)\<lparr>c_base := False\<rparr>) s in
            Some (True, set_cbb k ((cbbs s k)\<lparr>c_child := None\<rparr>) s))"

definition flush_asn1 :: "cbb_env \<Rightarrow> nat \<Rightarrow> nat \<Rightarrow> u64 \<Rightarrow> u64 \<Rightarrow> cbb_state \<Rightarrow> (bool \<times> cbb_state) option" where
  "flush_asn1 env k j child_start len s =
     (case asn1_len_len len of
        None \<Rightarrow> flush_err s
      | Some (len_len, initial_length_byte) \<Rightarrow>
          (case move_contents env len_len child_start len (base s) of
             None \<Rightarrow> None
           | Some (False, b) \<Rightarrow> flush_err (s\<lparr>base := b\<rparr>)
           | Some (True, b) \<Rightarrow>
               (case store_at (c_offset (cbbs s j)) [initial_length_byte] b of
                  None \<Rightarrow> None
                | Some b \<Rightarrow>
                    let s = s\<lparr>base := b\<rparr>; c = cbbs s j in
                    write_prefix k j (if len_len = 1 then 0 else len)
                      (set_cbb j (c\<lparr>c_offset := c_offset c + 1, c_pending_len_len := len_len - 1\<rparr>) s))))"

definition finish_child :: "cbb_env \<Rightarrow> nat \<Rightarrow> nat \<Rightarrow> u64 \<Rightarrow> cbb_state \<Rightarrow> (bool \<times> cbb_state) option" where
  "finish_child env k j child_start s =
     (if child_start < c_offset (cbbs s j) \<or> blen (base s) < child_start then flush_err s
      else
        let len = blen (base s) - child_start in
        if c_pending_is_asn1 (cbbs s j) then flush_asn1 env k j child_start len s
        else write_prefix k j len s)"

fun CBB_flush :: "nat \<Rightarrow> cbb_env \<Rightarrow> nat \<Rightarrow> cbb_state \<Rightarrow> (bool \<times> cbb_state) option" where
  "CBB_flush 0 env k s = None"
| "CBB_flush (Suc n) env k s =
     (if \<not> c_base (cbbs s k) \<or> error (base s) then Some (False, s)
      else case c_child (cbbs s k) of
          None \<Rightarrow> Some (True, s)
        | Some j \<Rightarrow>
            if c_pending_len_len (cbbs s j) = 0 then Some (True, s)
            else
              let child_start = c_offset (cbbs s j) + ucast (c_pending_len_len (cbbs s j)) in
              (case CBB_flush n env j s of
                 None \<Rightarrow> None
               | Some (False, s) \<Rightarrow> flush_err s
               | Some (True, s) \<Rightarrow> finish_child env k j child_start s))"

section \<open>Operations\<close>

text \<open>\<^verbatim>\<open>if (!CBB_flush(cbb)) return 0;\<close> and then an operation on the buffer.\<close>

definition flush_then ::
  "nat \<Rightarrow> cbb_env \<Rightarrow> nat \<Rightarrow> (cbb_state \<Rightarrow> (bool \<times> cbb_state) option) \<Rightarrow> cbb_state \<Rightarrow> (bool \<times> cbb_state) option" where
  "flush_then n env k f s = and_then_opt (CBB_flush n env k s) f"

definition CBB_cleanup :: "nat \<Rightarrow> cbb_state \<Rightarrow> cbb_state" where
  "CBB_cleanup k s =
     (if c_is_child (cbbs s k) then s else set_cbb k ((cbbs s k)\<lparr>c_base := False\<rparr>) s)"

definition CBB_finish :: "nat \<Rightarrow> cbb_env \<Rightarrow> nat \<Rightarrow> bool \<Rightarrow> cbb_state \<Rightarrow> (u8 list option \<times> cbb_state) option" where
  "CBB_finish n env k has_out s =
     (if c_is_child (cbbs s k) then Some (None, s)
      else case CBB_flush n env k s of
          None \<Rightarrow> None
        | Some (False, s) \<Rightarrow> Some (None, s)
        | Some (True, s) \<Rightarrow>
            if can_resize (base s) \<and> \<not> has_out then Some (None, s)
            else Some (Some (take (unat (blen (base s))) (buf (base s))), CBB_cleanup k s))"

definition CBB_data :: "nat \<Rightarrow> cbb_state \<Rightarrow> u64" where
  "CBB_data k s = c_offset (cbbs s k) + ucast (c_pending_len_len (cbbs s k))"

definition CBB_len :: "nat \<Rightarrow> cbb_state \<Rightarrow> u64" where
  "CBB_len k s = blen (base s) - c_offset (cbbs s k) - ucast (c_pending_len_len (cbbs s k))"

text \<open>\<open>j\<close> is the caller's object \<^verbatim>\<open>out_contents\<close>.\<close>

definition start_child :: "nat \<Rightarrow> nat \<Rightarrow> u64 \<Rightarrow> u8 \<Rightarrow> bool \<Rightarrow> cbb_state \<Rightarrow> cbb_state" where
  "start_child k j offset len_len is_asn1 s =
     (let s = set_cbb j (CBB_zero\<lparr>c_base := True, c_is_child := True\<rparr>) s;
          s = set_cbb k ((cbbs s k)\<lparr>c_child := Some j\<rparr>) s in
      set_cbb j ((cbbs s j)\<lparr>c_offset := offset, c_pending_len_len := len_len, c_pending_is_asn1 := is_asn1\<rparr>) s)"

definition cbb_add_length_prefixed ::
  "nat \<Rightarrow> cbb_env \<Rightarrow> nat \<Rightarrow> nat \<Rightarrow> u8 \<Rightarrow> cbb_state \<Rightarrow> (bool \<times> cbb_state) option" where
  "cbb_add_length_prefixed n env k j len_len =
     flush_then n env k (\<lambda>s.
       let offset = blen (base s) in
       case cbb_buffer_add env (ucast len_len) (base s) of
         (False, b) \<Rightarrow> Some (False, s\<lparr>base := b\<rparr>)
       | (True, b) \<Rightarrow>
           map_option (\<lambda>b. (True, start_child k j offset len_len False (s\<lparr>base := b\<rparr>)))
             (store_at offset (replicate (unat len_len) 0) b))"

definition CBB_add_u8_length_prefixed where
  "CBB_add_u8_length_prefixed n env k j = cbb_add_length_prefixed n env k j 1"

definition CBB_add_u16_length_prefixed where
  "CBB_add_u16_length_prefixed n env k j = cbb_add_length_prefixed n env k j 2"

definition CBB_add_u24_length_prefixed where
  "CBB_add_u24_length_prefixed n env k j = cbb_add_length_prefixed n env k j 3"

definition CBB_add_bytes :: "nat \<Rightarrow> cbb_env \<Rightarrow> nat \<Rightarrow> u8 list \<Rightarrow> cbb_state \<Rightarrow> (bool \<times> cbb_state) option" where
  "CBB_add_bytes n env k bs =
     flush_then n env k
       (on_base (\<lambda>b. case cbb_buffer_add env (of_nat (length bs)) b of
            (False, b) \<Rightarrow> Some (False, b)
          | (True, b') \<Rightarrow> map_option (Pair True) (store_at (blen b) bs b')))"

text \<open>The caller fills the space through the returned pointer, which is the index \<open>blen\<close> had.\<close>

definition CBB_add_space :: "nat \<Rightarrow> cbb_env \<Rightarrow> nat \<Rightarrow> u64 \<Rightarrow> cbb_state \<Rightarrow> (bool \<times> cbb_state) option" where
  "CBB_add_space n env k len = flush_then n env k (on_base (\<lambda>b. Some (cbb_buffer_add env len b)))"

definition CBB_reserve :: "nat \<Rightarrow> cbb_env \<Rightarrow> nat \<Rightarrow> u64 \<Rightarrow> cbb_state \<Rightarrow> (bool \<times> cbb_state) option" where
  "CBB_reserve n env k len = flush_then n env k (on_base (\<lambda>b. Some (cbb_buffer_reserve env len b)))"

definition CBB_did_write :: "nat \<Rightarrow> u64 \<Rightarrow> cbb_state \<Rightarrow> (bool \<times> cbb_state) option" where
  "CBB_did_write k len s =
     (if \<not> c_base (cbbs s k) then None
      else
        let newlen = blen (base s) + len in
        if c_child (cbbs s k) \<noteq> None \<or> newlen < blen (base s) \<or> newlen > cap (base s) then Some (False, s)
        else Some (True, s\<lparr>base := (base s)\<lparr>blen := newlen\<rparr>\<rparr>))"

definition cbb_add_u :: "nat \<Rightarrow> cbb_env \<Rightarrow> nat \<Rightarrow> u64 \<Rightarrow> nat \<Rightarrow> cbb_state \<Rightarrow> (bool \<times> cbb_state) option" where
  "cbb_add_u n env k v len_len = flush_then n env k (on_base (cbb_buffer_add_u env v len_len))"

definition CBB_add_u8 :: "nat \<Rightarrow> cbb_env \<Rightarrow> nat \<Rightarrow> u8 \<Rightarrow> cbb_state \<Rightarrow> (bool \<times> cbb_state) option" where
  "CBB_add_u8 n env k value = cbb_add_u n env k (ucast value) 1"

definition CBB_add_u16 :: "nat \<Rightarrow> cbb_env \<Rightarrow> nat \<Rightarrow> u16 \<Rightarrow> cbb_state \<Rightarrow> (bool \<times> cbb_state) option" where
  "CBB_add_u16 n env k value = cbb_add_u n env k (ucast value) 2"

definition CBB_add_u24 :: "nat \<Rightarrow> cbb_env \<Rightarrow> nat \<Rightarrow> u32 \<Rightarrow> cbb_state \<Rightarrow> (bool \<times> cbb_state) option" where
  "CBB_add_u24 n env k value = cbb_add_u n env k (ucast value) 3"

definition CBB_add_u32 :: "nat \<Rightarrow> cbb_env \<Rightarrow> nat \<Rightarrow> u32 \<Rightarrow> cbb_state \<Rightarrow> (bool \<times> cbb_state) option" where
  "CBB_add_u32 n env k value = cbb_add_u n env k (ucast value) 4"

definition CBB_add_u64 :: "nat \<Rightarrow> cbb_env \<Rightarrow> nat \<Rightarrow> u64 \<Rightarrow> cbb_state \<Rightarrow> (bool \<times> cbb_state) option" where
  "CBB_add_u64 n env k value = cbb_add_u n env k value 8"

definition CBB_add_u16le where "CBB_add_u16le n env k value = CBB_add_u16 n env k (CRYPTO_bswap2 value)"
definition CBB_add_u32le where "CBB_add_u32le n env k value = CBB_add_u32 n env k (CRYPTO_bswap4 value)"
definition CBB_add_u64le where "CBB_add_u64le n env k value = CBB_add_u64 n env k (CRYPTO_bswap8 value)"

definition CBB_discard_child :: "nat \<Rightarrow> cbb_state \<Rightarrow> cbb_state" where
  "CBB_discard_child k s =
     (case c_child (cbbs s k) of
        None \<Rightarrow> s
      | Some j \<Rightarrow>
          let s = s\<lparr>base := (base s)\<lparr>blen := c_offset (cbbs s j)\<rparr>\<rparr>;
              s = set_cbb j ((cbbs s j)\<lparr>c_base := False\<rparr>) s in
          set_cbb k ((cbbs s k)\<lparr>c_child := None\<rparr>) s)"

section \<open>ASN.1\<close>

text \<open>A run of \<^verbatim>\<open>CBB_add_u8\<close> calls that stops at the first failure.\<close>

definition add_each :: "nat \<Rightarrow> cbb_env \<Rightarrow> nat \<Rightarrow> u8 list \<Rightarrow> cbb_state \<Rightarrow> (bool \<times> cbb_state) option" where
  "add_each n env k bs = loopM (CBB_add_u8 n env k) bs"

text \<open>\<^verbatim>\<open>while (copy > 0) { len_len++; copy >>= 7; }\<close>\<close>

function count_groups :: "u64 \<Rightarrow> nat" where
  "count_groups copy = (if copy > 0 then Suc (count_groups (drop_bit 7 copy)) else 0)"
  by pat_completeness auto
termination
  by (relation "measure unat") (simp_all add: drop_bit_less word_gt_0)

declare count_groups.simps [simp del]

definition base128_octets :: "u64 \<Rightarrow> u8 list" where
  "base128_octets v =
     (let len_len = (if count_groups v = 0 then 1 else count_groups v) in
      map (\<lambda>i. let byte = ucast (drop_bit (7 * i) v) AND 0x7f in if i \<noteq> 0 then byte OR 0x80 else byte)
        (rev [0..<len_len]))"

definition add_base128_integer :: "nat \<Rightarrow> cbb_env \<Rightarrow> nat \<Rightarrow> u64 \<Rightarrow> cbb_state \<Rightarrow> (bool \<times> cbb_state) option" where
  "add_base128_integer n env k v = add_each n env k (base128_octets v)"

definition CBB_add_asn1 :: "nat \<Rightarrow> cbb_env \<Rightarrow> nat \<Rightarrow> nat \<Rightarrow> u32 \<Rightarrow> cbb_state \<Rightarrow> (bool \<times> cbb_state) option" where
  "CBB_add_asn1 n env k j tag =
     flush_then n env k (\<lambda>s.
       let tag_bits = ucast (drop_bit CBS_ASN1_TAG_SHIFT tag) AND 0xe0;
           tag_number = tag AND CBS_ASN1_TAG_NUMBER_MASK in
       and_then_opt
         (if tag_number \<ge> 0x1f
          then and_then_opt (CBB_add_u8 n env k (tag_bits OR 0x1f) s) (add_base128_integer n env k (ucast tag_number))
          else CBB_add_u8 n env k (tag_bits OR ucast tag_number) s)
         (\<lambda>s. let offset = blen (base s) in
            and_then_opt (CBB_add_u8 n env k 0 s) (\<lambda>s. Some (True, start_child k j offset 1 True s))))"

text \<open>The octets the loop of \<^verbatim>\<open>CBB_add_asn1_uint64\<close> adds: leading zeros are skipped, a zero is
  put in front of a set top bit, and zero is one octet.\<close>

fun uint64_octets :: "bool \<Rightarrow> u8 list \<Rightarrow> u8 list" where
  "uint64_octets started [] = (if started then [] else [0])"
| "uint64_octets started (byte # bytes) =
     (if \<not> started then
        if byte = 0 then uint64_octets False bytes
        else (if byte AND 0x80 \<noteq> 0 then [0] else []) @ byte # uint64_octets True bytes
      else byte # uint64_octets True bytes)"

text \<open>\<open>j\<close> is the address of the local \<^verbatim>\<open>child\<close>.\<close>

definition CBB_add_asn1_uint64 :: "nat \<Rightarrow> cbb_env \<Rightarrow> nat \<Rightarrow> nat \<Rightarrow> u64 \<Rightarrow> cbb_state \<Rightarrow> (bool \<times> cbb_state) option" where
  "CBB_add_asn1_uint64 n env k j value s =
     and_then_opt (CBB_add_asn1 n env k j CBS_ASN1_INTEGER s) (\<lambda>s.
       and_then_opt
         (add_each n env j (uint64_octets False (map (\<lambda>i. ucast (drop_bit (8 * (7 - i)) value)) [0..<8])) s)
         (CBB_flush n env k))"

fun skip_sign :: "u8 list \<Rightarrow> nat \<Rightarrow> nat" where
  "skip_sign bytes 0 = 0"
| "skip_sign bytes (Suc start) =
     (if bytes ! Suc start = 0xff \<and> bytes ! start AND 0x80 \<noteq> 0 then skip_sign bytes start else Suc start)"

definition CBB_add_asn1_int64 :: "nat \<Rightarrow> cbb_env \<Rightarrow> nat \<Rightarrow> nat \<Rightarrow> u64 \<Rightarrow> cbb_state \<Rightarrow> (bool \<times> cbb_state) option" where
  "CBB_add_asn1_int64 n env k j value s =
     (if 0 \<le> sint value then CBB_add_asn1_uint64 n env k j value s
      else
        let bytes = word_to_bytes 8 value; start = skip_sign bytes 7 in
        and_then_opt (CBB_add_asn1 n env k j CBS_ASN1_INTEGER s) (\<lambda>s.
          and_then_opt (add_each n env j (map (\<lambda>i. bytes ! i) (rev [0..<Suc start])) s)
            (CBB_flush n env k)))"

definition CBB_add_asn1_octet_string ::
  "nat \<Rightarrow> cbb_env \<Rightarrow> nat \<Rightarrow> nat \<Rightarrow> u8 list \<Rightarrow> cbb_state \<Rightarrow> (bool \<times> cbb_state) option" where
  "CBB_add_asn1_octet_string n env k j bs s =
     and_then_opt (CBB_add_asn1 n env k j CBS_ASN1_OCTETSTRING s) (\<lambda>s.
       and_then_opt (CBB_add_bytes n env j bs s) (CBB_flush n env k))"

definition CBB_add_asn1_bool :: "nat \<Rightarrow> cbb_env \<Rightarrow> nat \<Rightarrow> nat \<Rightarrow> bool \<Rightarrow> cbb_state \<Rightarrow> (bool \<times> cbb_state) option" where
  "CBB_add_asn1_bool n env k j value s =
     and_then_opt (CBB_add_asn1 n env k j CBS_ASN1_BOOLEAN s) (\<lambda>s.
       and_then_opt (CBB_add_u8 n env j (if value then 0xff else 0) s) (CBB_flush n env k))"

section \<open>Object identifiers as text\<close>

text \<open>The loop of \<^verbatim>\<open>parse_dotted_decimal\<close> over the text; the first value returned is
  \<^verbatim>\<open>*out\<close>, \<open>None\<close> on failure.  Both failures and the end leave the reader behind the last
  character read.\<close>

fun dotted_loop :: "bool \<Rightarrow> u64 \<Rightarrow> u8 list \<Rightarrow> u64 option \<times> u8 list" where
  "dotted_loop seen_digit v [] = (if seen_digit then Some v else None, [])"
| "dotted_loop seen_digit v (u # rest) =
     (if u = 0x2e \<and> rest \<noteq> [] then (if seen_digit then Some v else None, rest)
      else if u < 0x30 \<or> u > 0x39 \<or> (seen_digit \<and> v = 0) \<or> v > 0xffffffffffffffff div 10 \<or>
              v * 10 > 0xffffffffffffffff - ucast (u - 0x30) then (None, rest)
      else dotted_loop True (v * 10 + ucast (u - 0x30)) rest)"

definition parse_dotted_decimal :: "u8 list \<Rightarrow> u64 option \<times> u8 list" where
  "parse_dotted_decimal = dotted_loop False 0"

lemma dotted_loop_shrinks: "length (snd (dotted_loop seen v bs)) \<le> length bs"
  by (induction seen v bs rule: dotted_loop.induct) (auto simp: Let_def)

lemma parse_dotted_shrinks: "parse_dotted_decimal bs = (Some v, rest) \<Longrightarrow> bs \<noteq> [] \<Longrightarrow> length rest < length bs"
proof -
  assume p: "parse_dotted_decimal bs = (Some v, rest)" and "bs \<noteq> []"
  then obtain u cs where bs: "bs = u # cs" by (cases bs) auto
  then have "rest = cs \<or> rest = snd (dotted_loop True (0 * 10 + ucast (u - 0x30)) cs)"
    using p by (auto simp: parse_dotted_decimal_def split: if_splits)
  then show ?thesis using dotted_loop_shrinks [of True "0 * 10 + ucast (u - 0x30)" cs] bs by (auto simp: le_imp_less_Suc)
qed

function oid_components ::
  "nat \<Rightarrow> cbb_env \<Rightarrow> nat \<Rightarrow> u8 list \<Rightarrow> cbb_state \<Rightarrow> (bool \<times> cbb_state) option" where
  "oid_components n env k cs s =
     (if cs = [] then Some (True, s)
      else case parse_dotted_decimal cs of
          (None, _) \<Rightarrow> Some (False, s)
        | (Some a, rest) \<Rightarrow> and_then_opt (add_base128_integer n env k a s) (oid_components n env k rest))"
  by pat_completeness auto
termination
  by (relation "measure (\<lambda>(n, env, k, cs, s). length cs)") (auto dest: parse_dotted_shrinks [OF sym])

declare oid_components.simps [simp del]

definition CBB_add_asn1_oid_from_text ::
  "nat \<Rightarrow> cbb_env \<Rightarrow> nat \<Rightarrow> u8 list \<Rightarrow> cbb_state \<Rightarrow> (bool \<times> cbb_state) option" where
  "CBB_add_asn1_oid_from_text n env k cs =
     flush_then n env k (\<lambda>s.
       case parse_dotted_decimal cs of
         (None, _) \<Rightarrow> Some (False, s)
       | (Some a, cs) \<Rightarrow>
           (case parse_dotted_decimal cs of
              (None, _) \<Rightarrow> Some (False, s)
            | (Some b, cs) \<Rightarrow>
                if a > 2 \<or> (a < 2 \<and> b > 39) \<or> b > 0xffffffffffffffff - 80 then Some (False, s)
                else and_then_opt (add_base128_integer n env k (40 * a + b) s) (oid_components n env k cs)))"

end
