(* ===== verification/Cbb_Props.thy ===== *)
theory Cbb_Props
  imports Cbb Der_Values
begin

text \<open>
  The writer of \<open>Cbb\<close> implements its contract: every operation appends the bytes it stands for behind
  what was written, never stores outside the buffer, and fails only when the buffer cannot grow.  An
  element opened with \<^verbatim>\<open>CBB_add_asn1\<close> and flushed is its DER encoding, so what the writer
  emits is read back by the getters of \<open>Cbs\<close>.
\<close>

section \<open>The buffer\<close>

definition wf_buf :: "cbb_buffer \<Rightarrow> bool" where
  "wf_buf b \<longleftrightarrow> length (buf b) = unat (cap b) \<and> unat (blen b) \<le> unat (cap b)"

definition content :: "cbb_buffer \<Rightarrow> u8 list" where
  "content b = take (unat (blen b)) (buf b)"

text \<open>\<open>n\<close> more bytes certainly fit.\<close>

definition room :: "cbb_env \<Rightarrow> cbb_buffer \<Rightarrow> nat \<Rightarrow> bool" where
  "room env b n \<longleftrightarrow> unat (blen b) + n < 2 ^ 64 \<and>
     (unat (blen b) + n \<le> unat (cap b) \<or> (can_resize b \<and> (\<forall>m. alloc_ok env m)))"

text \<open>\<open>b'\<close> has \<open>bs\<close> appended.\<close>

definition extended :: "u8 list \<Rightarrow> cbb_buffer \<Rightarrow> cbb_buffer \<Rightarrow> bool" where
  "extended bs b b' \<longleftrightarrow> wf_buf b' \<and> content b' = content b @ bs \<and> error b' = error b \<and>
     can_resize b' = can_resize b \<and> unat (cap b) \<le> unat (cap b')"

lemma length_content [simp]: "wf_buf b \<Longrightarrow> length (content b) = unat (blen b)"
  by (simp add: wf_buf_def content_def min.absorb2)

lemma extended_blen: "wf_buf b \<Longrightarrow> extended bs b b' \<Longrightarrow> unat (blen b') = unat (blen b) + length bs"
  by (metis extended_def length_append length_content)

lemma extended_trans: "extended xs a b \<Longrightarrow> extended ys b c \<Longrightarrow> extended (xs @ ys) a c"
  by (simp add: extended_def)

lemma room_extended:
  assumes "wf_buf b" "extended xs b b'" "room env b (length xs + n)"
  shows "room env b' n"
proof -
  have "unat (blen b') = unat (blen b) + length xs" by (rule extended_blen [OF assms(1,2)])
  then show ?thesis using assms(2,3) by (auto simp: room_def extended_def)
qed

lemma room_mono: "room env b n \<Longrightarrow> m \<le> n \<Longrightarrow> room env b m"
  by (auto simp: room_def)

lemma reserve_cases:
  assumes "wf_buf b"
  obtains (ok) b' where "cbb_buffer_reserve env n b = (True, b')" "extended [] b b'" "blen b' = blen b"
      "unat (blen b) + unat n \<le> unat (cap b')" "take (unat (blen b)) (buf b') = content b"
  | (full) "cbb_buffer_reserve env n b = (False, b\<lparr>error := True\<rparr>)" "\<not> room env b (unat n)"
proof (cases "unat (blen b) + unat n < 2 ^ 64")
  case False
  have p: "(2 :: nat) ^ 64 = 18446744073709551616" by simp
  have "unat (blen b) + unat n - 2 ^ 64 < 2 ^ 64"
    using u64_less [of n] u64_less [of "blen b"] unfolding p by linarith
  then have "(unat (blen b) + unat n) mod 2 ^ 64 = unat (blen b) + unat n - 2 ^ 64"
    using False by (simp only: le_mod_geq mod_less not_less)
  then have "unat (blen b + n) = unat (blen b) + unat n - 2 ^ 64" by (simp add: unat_word_ariths)
  then have "blen b + n < blen b"
    unfolding word_less_nat_alt using False u64_less [of n] unfolding p by linarith
  then show thesis using False by (intro full) (simp_all add: cbb_buffer_reserve_def Let_def room_def)
next
  case True
  then have s: "unat (blen b + n) = unat (blen b) + unat n" by (simp add: unat_word_ariths)
  then have nw: "\<not> blen b + n < blen b" by (simp add: word_less_nat_alt)
  show thesis
  proof (cases "unat (blen b) + unat n \<le> unat (cap b)")
    case True
    then have "cbb_buffer_reserve env n b = (True, b)"
      using s nw by (simp add: cbb_buffer_reserve_def Let_def word_less_nat_alt)
    then show thesis using assms True by (intro ok [of b]) (simp_all add: extended_def content_def)
  next
    case False
    define newcap where "newcap = (if cap b * 2 < cap b \<or> cap b * 2 < blen b + n then blen b + n else cap b * 2)"
    have r: "cbb_buffer_reserve env n b =
        (if can_resize b \<and> alloc_ok env newcap
         then (True, b\<lparr>buf := buf b @ replicate (unat newcap - length (buf b)) (junk env), cap := newcap\<rparr>)
         else (False, b\<lparr>error := True\<rparr>))"
      using s nw False by (simp add: cbb_buffer_reserve_def Let_def word_less_nat_alt newcap_def)
    have c: "unat (blen b) + unat n \<le> unat newcap"
      using s by (auto simp: newcap_def word_less_nat_alt not_less)
    show thesis
    proof (cases "can_resize b \<and> alloc_ok env newcap")
      case True
      show thesis
        using r True c False assms
        by (intro ok [of "b\<lparr>buf := buf b @ replicate (unat newcap - length (buf b)) (junk env), cap := newcap\<rparr>"])
          (simp_all add: extended_def wf_buf_def content_def)
    next
      case f: False
      then show thesis using r False by (intro full) (auto simp: room_def)
    qed
  qed
qed

lemma add_cases:
  assumes "wf_buf b"
  obtains (ok) b' where "cbb_buffer_add env n b = (True, b')" "unat (blen b') = unat (blen b) + unat n"
      "wf_buf b'" "take (unat (blen b)) (buf b') = content b" "error b' = error b"
      "can_resize b' = can_resize b" "unat (cap b) \<le> unat (cap b')"
  | (full) "cbb_buffer_add env n b = (False, b\<lparr>error := True\<rparr>)" "\<not> room env b (unat n)"
proof (cases rule: reserve_cases [OF assms, of env n, case_names ok full])
  case r: (ok b')
  have "unat (blen b + n) = unat (blen b) + unat n"
    using le_less_trans [OF r(4) u64_less] by (simp add: unat_word_ariths)
  then show thesis using r
    by (intro ok [of "b'\<lparr>blen := blen b' + n\<rparr>"]) (auto simp: cbb_buffer_add_def extended_def wf_buf_def)
next
  case r: full
  then show thesis by (intro full) (simp_all add: cbb_buffer_add_def)
qed

lemma store_at_end:
  assumes "wf_buf b'" "unat (blen b') = i + length bs" "take i (buf b') = pre" "unat p = i"
  shows "\<exists>b''. store_at p bs b' = Some b'' \<and> wf_buf b'' \<and> content b'' = pre @ bs \<and>
     error b'' = error b' \<and> can_resize b'' = can_resize b' \<and> cap b'' = cap b'"
proof -
  have "i + length bs \<le> length (buf b')" using assms(1,2) by (simp add: wf_buf_def)
  moreover from this have "length pre = i" using assms(3) by (auto simp: min.absorb2)
  ultimately show ?thesis using assms by (simp add: store_at_def wf_buf_def content_def)
qed

lemma append_cases:
  assumes "wf_buf b" "unat n = length bs"
  obtains (ok) b' b'' where "cbb_buffer_add env n b = (True, b')" "store_at (blen b) bs b' = Some b''"
      "extended bs b b''"
  | (full) "cbb_buffer_add env n b = (False, b\<lparr>error := True\<rparr>)" "\<not> room env b (length bs)"
proof (cases rule: add_cases [OF assms(1), of env n, case_names ok full])
  case a: (ok b')
  then obtain b'' where "store_at (blen b) bs b' = Some b''" "wf_buf b''" "content b'' = content b @ bs"
     "error b'' = error b'" "can_resize b'' = can_resize b'" "cap b'' = cap b'"
    using store_at_end [of b' "unat (blen b)" bs "content b" "blen b"] assms(2) by auto
  then show thesis using a by (intro ok [of b' b'']) (simp_all add: extended_def)
next
  case full
  then show thesis using assms(2) by (intro that(2)) simp_all
qed

lemma word_to_bytes_Suc: "word_to_bytes (Suc n) v = ucast v # word_to_bytes n (drop_bit 8 v)"
  by (rule nth_equalityI) (auto simp: nth_word_to_bytes nth_Cons' drop_bit_drop_bit gr0_conv_Suc add.commute)

lemma store_be_spec:
  "unat i + n \<le> length (buf b) \<Longrightarrow> length (buf b) < 2 ^ 64 \<Longrightarrow>
   store_be n i v b = Some (drop_bit (8 * n) v,
     b\<lparr>buf := take (unat i) (buf b) @ rev (word_to_bytes n v) @ drop (unat i + n) (buf b)\<rparr>)"
proof (induction n arbitrary: v b)
  case 0
  then show ?case by (simp add: word_to_bytes_def)
next
  case (Suc n)
  have u: "unat (i + of_nat n) = unat i + n" using Suc.prems by (simp add: unat_word_ariths)
  let ?buf = "take (unat i + n) (buf b) @ [ucast v] @ drop (Suc (unat i + n)) (buf b)"
  have "store_at (i + of_nat n) [ucast v] b = Some (b\<lparr>buf := ?buf\<rparr>)"
    using u Suc.prems by (simp add: store_at_def)
  moreover have "store_be n i (drop_bit 8 v) (b\<lparr>buf := ?buf\<rparr>) =
     Some (drop_bit (8 * n) (drop_bit 8 v), b\<lparr>buf := take (unat i) ?buf @
       rev (word_to_bytes n (drop_bit 8 v)) @ drop (unat i + n) ?buf\<rparr>)"
    using Suc.prems Suc.IH [of "b\<lparr>buf := ?buf\<rparr>" "drop_bit 8 v"] by simp
  moreover have "take (unat i) ?buf = take (unat i) (buf b)"
    "drop (unat i + n) ?buf = [ucast v] @ drop (Suc (unat i + n)) (buf b)"
    using Suc.prems by simp_all
  ultimately show ?case by (simp add: drop_bit_drop_bit add.commute word_to_bytes_Suc)
qed

lemma add_u_cases:
  assumes "wf_buf b" "0 < k" "k < 2 ^ 64" "drop_bit (8 * k) v = 0"
  obtains (ok) b' where "cbb_buffer_add_u env v k b = Some (True, b')" "extended (rev (word_to_bytes k v)) b b'"
  | (full) "cbb_buffer_add_u env v k b = Some (False, b\<lparr>error := True\<rparr>)" "\<not> room env b k"
proof -
  let ?bs = "rev (word_to_bytes k v)"
  have k: "unat (of_nat k :: u64) = length ?bs" using assms(3) by simp
  show thesis
  proof (cases rule: append_cases [OF assms(1) k, of env, case_names ok full])
    case a: (ok b' b'')
    have "store_be k (blen b) v b' = Some (0, b'')"
    proof -
      have s: "unat (blen b) + k \<le> length (buf b')" using a(2) by (simp add: store_at_def split: if_splits)
      have "cap b' = cap b''" "length (buf b') = length (buf b'')"
        using a(2) by (auto simp: store_at_def split: if_splits)
      then have "length (buf b') < 2 ^ 64" using a(3) by (simp add: extended_def wf_buf_def)
      then show ?thesis using store_be_spec [OF s] a(2) assms(4) by (auto simp: store_at_def split: if_splits)
    qed
    then show thesis using a assms(2) by (intro ok [of b'']) (simp_all add: cbb_buffer_add_u_def)
  next
    case full
    then show thesis using assms(2) by (intro that(2)) (simp_all add: cbb_buffer_add_u_def)
  qed
qed

section \<open>Operations on the chain\<close>

text \<open>An object without a pending child, on a healthy buffer.\<close>

definition good :: "cbb_state \<Rightarrow> bool" where
  "good s \<longleftrightarrow> wf_buf (base s) \<and> \<not> error (base s)"

definition idle :: "nat \<Rightarrow> cbb_state \<Rightarrow> bool" where
  "idle k s \<longleftrightarrow> c_base (cbbs s k) \<and> c_child (cbbs s k) = None"

text \<open>\<open>after J bs s s'\<close>: \<open>bs\<close> was appended, and no object outside \<open>J\<close> changed.\<close>

definition after :: "nat set \<Rightarrow> u8 list \<Rightarrow> cbb_state \<Rightarrow> cbb_state \<Rightarrow> bool" where
  "after J bs s s' \<longleftrightarrow> good s' \<and> extended bs (base s) (base s') \<and> (\<forall>i. i \<notin> J \<longrightarrow> cbbs s' i = cbbs s i)"

text \<open>An operation appends \<open>bs\<close>: it has a result, and fails only if there is not certainly room.\<close>

definition appends ::
  "cbb_env \<Rightarrow> nat set \<Rightarrow> u8 list \<Rightarrow> cbb_state \<Rightarrow> (bool \<times> cbb_state) option \<Rightarrow> bool" where
  "appends env J bs s r \<longleftrightarrow>
     (case r of
        None \<Rightarrow> False
      | Some (ok, s') \<Rightarrow> if ok then after J bs s s' else \<not> room env (base s) (length bs))"

lemma after_refl: "good s \<Longrightarrow> after J [] s s"
  by (simp add: after_def good_def extended_def)

lemma after_trans: "after J xs s t \<Longrightarrow> after J ys t u \<Longrightarrow> after J (xs @ ys) s u"
  by (auto simp: after_def intro: extended_trans)

lemma after_good: "after J bs s s' \<Longrightarrow> good s'"
  by (simp add: after_def)

lemma after_idle: "after J bs s s' \<Longrightarrow> k \<notin> J \<Longrightarrow> idle k s' = idle k s"
  by (simp add: after_def idle_def)

lemma after_room: "good s \<Longrightarrow> after J xs s s' \<Longrightarrow> room env (base s) (length xs + n) \<Longrightarrow> room env (base s') n"
  by (auto simp: after_def good_def intro: room_extended)

lemma appends_then:
  assumes "good s" "appends env J xs s r" "\<And>s'. after J xs s s' \<Longrightarrow> appends env J ys s' (f s')"
  shows "appends env J (xs @ ys) s (and_then_opt r f)"
proof -
  from assms(2) obtain ok s' where r: "r = Some (ok, s')"
    and s': "if ok then after J xs s s' else \<not> room env (base s) (length xs)"
    by (auto simp: appends_def split: option.splits)
  show ?thesis
  proof (cases ok)
    case False
    then show ?thesis using r s' room_mono [of env "base s" "length xs + length ys" "length xs"]
      by (auto simp: appends_def)
  next
    case True
    then have a: "after J xs s s'" using s' by simp
    obtain ok2 t where f: "f s' = Some (ok2, t)"
      and t: "if ok2 then after J ys s' t else \<not> room env (base s') (length ys)"
      using assms(3) [OF a] by (auto simp: appends_def split: option.splits)
    show ?thesis using r True f t after_trans [OF a, of ys t] after_room [OF assms(1) a, of env "length ys"]
      by (cases ok2) (auto simp: appends_def)
  qed
qed

lemma appends_mono: "appends env J bs s r \<Longrightarrow> J \<subseteq> K \<Longrightarrow> appends env K bs s r"
  by (auto simp: appends_def after_def split: option.splits if_splits)

lemma flush_idle: "idle k s \<Longrightarrow> good s \<Longrightarrow> CBB_flush (Suc n) env k s = Some (True, s)"
  by (simp add: idle_def good_def)

lemma flush_then_idle:
  "idle k s \<Longrightarrow> good s \<Longrightarrow> flush_then (Suc n) env k f s = f s"
  by (simp add: flush_then_def flush_idle del: CBB_flush.simps)

lemma base_appends:
  "good s \<Longrightarrow> extended bs (base s) b \<Longrightarrow> appends env J bs s (Some (True, s\<lparr>base := b\<rparr>))"
  by (auto simp: appends_def after_def good_def extended_def)

lemma add_u_appends:
  assumes "idle k s" "good s" "0 < j" "j < 2 ^ 64" "drop_bit (8 * j) v = 0"
  shows "appends env J (rev (word_to_bytes j v)) s (cbb_add_u (Suc n) env k v j s)"
proof -
  have wf: "wf_buf (base s)" using assms(2) by (simp add: good_def)
  show ?thesis
    unfolding cbb_add_u_def flush_then_idle [OF assms(1,2)]
  proof (cases rule: add_u_cases [OF wf assms(3-5), of env, case_names ok full])
    case (ok b')
    then show "appends env J (rev (word_to_bytes j v)) s (on_base (cbb_buffer_add_u env v j) s)"
      using base_appends [OF assms(2), of _ b'] by (simp add: on_base_def)
  next
    case full
    then show "appends env J (rev (word_to_bytes j v)) s (on_base (cbb_buffer_add_u env v j) s)"
      by (simp add: on_base_def appends_def)
  qed
qed

lemma word_to_bytes_1: "word_to_bytes (Suc 0) v = [ucast v]"
  by (simp add: word_to_bytes_def)

lemma drop_bit_ucast_u8: "drop_bit 8 (ucast (v :: u8) :: u64) = 0"
  by (rule bit_word_eqI) (auto simp: bit_simps dest: bit_imp_le_length)

lemma ucast_ucast_u8: "(ucast (ucast (v :: u8) :: u64) :: u8) = v"
  by (rule bit_word_eqI) (auto simp: bit_simps)

lemma add_u8_appends:
  "idle k s \<Longrightarrow> good s \<Longrightarrow> appends env J [v] s (CBB_add_u8 (Suc n) env k v s)"
  using add_u_appends [of k s 1 "ucast v" env J n]
  by (simp add: CBB_add_u8_def word_to_bytes_1 drop_bit_ucast_u8 ucast_ucast_u8)

lemma add_each_appends:
  "idle k s \<Longrightarrow> good s \<Longrightarrow> k \<notin> J \<Longrightarrow> appends env J bs s (add_each (Suc n) env k bs s)"
proof (induction bs arbitrary: s)
  case Nil
  then show ?case by (simp add: add_each_def appends_def after_refl)
next
  case (Cons b bs)
  have "appends env J ([b] @ bs) s (and_then_opt (CBB_add_u8 (Suc n) env k b s) (add_each (Suc n) env k bs))"
  proof (rule appends_then [OF Cons.prems(2) add_u8_appends [OF Cons.prems(1,2)]])
    fix s' assume "after J [b] s s'"
    then show "appends env J bs s' (add_each (Suc n) env k bs s')"
      using Cons.prems after_good after_idle by (intro Cons.IH) blast+
  qed
  then show ?case by (simp add: add_each_def)
qed

lemma add_bytes_appends:
  assumes "idle k s" "good s" "length bs < 2 ^ 64"
  shows "appends env J bs s (CBB_add_bytes (Suc n) env k bs s)"
proof -
  have wf: "wf_buf (base s)" using assms(2) by (simp add: good_def)
  have l: "unat (of_nat (length bs) :: u64) = length bs" using assms(3) by simp
  show ?thesis
    unfolding CBB_add_bytes_def flush_then_idle [OF assms(1,2)]
  proof (cases rule: append_cases [OF wf l, of env, case_names ok full])
    case (ok b' b'')
    then show "appends env J bs s (on_base (\<lambda>b. case cbb_buffer_add env (of_nat (length bs)) b of
            (False, b) \<Rightarrow> Some (False, b)
          | (True, b') \<Rightarrow> map_option (Pair True) (store_at (blen b) bs b')) s)"
      using base_appends [OF assms(2) ok(3)] by (simp add: on_base_def)
  next
    case full
    then show "appends env J bs s (on_base (\<lambda>b. case cbb_buffer_add env (of_nat (length bs)) b of
            (False, b) \<Rightarrow> Some (False, b)
          | (True, b') \<Rightarrow> map_option (Pair True) (store_at (blen b) bs b')) s)"
      by (simp add: on_base_def appends_def)
  qed
qed

section \<open>Tags\<close>

lemma count_groups_digits: "count_groups v = length (digits 128 (unat v))"
proof (induction v rule: count_groups.induct)
  case (1 v)
  show ?case
  proof (cases "v = 0")
    case True
    then show ?thesis by (subst count_groups.simps) simp
  next
    case False
    then have "0 < v" "0 < unat v" by (simp_all add: word_gt_0 unat_gt_0)
    then show ?thesis using 1 by (subst count_groups.simps) (simp add: digits_step unat_drop_bit)
  qed
qed

lemma nth_digits: "2 \<le> B \<Longrightarrow> i < length (digits B n) \<Longrightarrow> rev (digits B n) ! i = n div B ^ i mod B"
proof (induction B n arbitrary: i rule: digits.induct)
  case (1 B n)
  then have n: "0 < n" by (cases "n = 0") simp_all
  then show ?case using 1 by (cases i) (simp_all add: digits_step div_mult2_eq mult.commute)
qed

lemma digits_map: "2 \<le> B \<Longrightarrow> digits B n = map (\<lambda>i. n div B ^ i mod B) (rev [0..<length (digits B n)])"
proof -
  assume B: "2 \<le> B"
  have "rev (digits B n) = map (\<lambda>i. n div B ^ i mod B) [0..<length (digits B n)]"
    by (rule nth_equalityI) (simp_all add: nth_digits [OF B])
  then show ?thesis by (metis rev_rev_ident rev_map)
qed

lemma group_octet:
  "ucast (drop_bit (7 * i) (v :: u64)) AND (0x7f :: u8) = of_nat (unat v div 128 ^ i mod 128)"
proof -
  have "(0x7f :: u8) = mask 7" by (simp add: mask_eq_exp_minus_1)
  have "unat (ucast (drop_bit (7 * i) v) AND (0x7f :: u8)) = unat (drop_bit (7 * i) v) mod 256 mod 128"
    unfolding \<open>(0x7f :: u8) = mask 7\<close> unat_and_mask by (simp add: unsigned_ucast_eq take_bit_nat_def)
  also have "\<dots> = unat v div 2 ^ (7 * i) mod 128" by (simp add: unat_drop_bit mod_mod_cancel)
  also have "(2 :: nat) ^ (7 * i) = 128 ^ i" by (simp add: power_mult)
  finally show ?thesis by (intro word_unat_eq_iff [THEN iffD2]) (simp add: unat_of_nat)
qed

lemma base128_octets_spec: "base128_octets v = base128 (unat v)"
proof (cases "v = 0")
  case True
  then show ?thesis by (simp add: base128_octets_def base128_def count_groups.simps)
next
  case False
  then have pos: "0 < unat v" by (simp add: unat_gt_0)
  let ?l = "length (digits 128 (unat v div 128))"
  have l: "length (digits 128 (unat v)) = Suc ?l" using pos by (simp add: digits_step)
  have "base128_octets v = map (\<lambda>i. let byte = of_nat (unat v div 128 ^ i mod 128) in
      if i \<noteq> 0 then byte OR 0x80 else byte) (rev [0..<Suc ?l])"
    by (simp add: base128_octets_def count_groups_digits l group_octet Let_def del: upt_Suc)
  also have "rev [0..<Suc ?l] = map Suc (rev [0..<?l]) @ [0]"
    by (simp only: upt_conv_Cons [of 0 "Suc ?l"] map_Suc_upt [symmetric] rev.simps rev_map zero_less_Suc)
  also have "map (\<lambda>i. let byte = of_nat (unat v div 128 ^ i mod 128) in
      if i \<noteq> 0 then byte OR 0x80 else byte) (map Suc (rev [0..<?l]) @ [0]) =
      map cont_byte (map (\<lambda>i. unat v div 128 div 128 ^ i mod 128) (rev [0..<?l])) @ [of_nat (unat v mod 128)]"
    by (simp add: Let_def cont_byte_def div_mult2_eq comp_def)
  also have "map (\<lambda>i. unat v div 128 div 128 ^ i mod 128) (rev [0..<?l]) = digits 128 (unat v div 128)"
    by (rule digits_map [symmetric]) simp
  finally show ?thesis by (simp only: base128_def)
qed

lemma tag_octets:
  "CBS_ASN1_TAG_NUMBER_MASK = mask 29" "t AND CBS_ASN1_TAG_NUMBER_MASK \<ge> 0x1f \<longleftrightarrow> 31 \<le> tag_number t"
  "base128_octets (ucast (t AND CBS_ASN1_TAG_NUMBER_MASK)) = base128 (tag_number t)"
  "tag_number t < 31 \<Longrightarrow> (ucast (t AND CBS_ASN1_TAG_NUMBER_MASK) :: u8) = of_nat (tag_number t)"
proof -
  show "CBS_ASN1_TAG_NUMBER_MASK = mask 29" by (simp add: tag_masks)
  show "t AND CBS_ASN1_TAG_NUMBER_MASK \<ge> 0x1f \<longleftrightarrow> 31 \<le> tag_number t"
    by (simp add: word_le_nat_alt tag_number_def)
  have u: "take_bit 64 (tag_number t) = tag_number t"
    using tag_number_less [of t] by (simp add: take_bit_nat_eq_self)
  have "unat (ucast (t AND CBS_ASN1_TAG_NUMBER_MASK) :: u64) = tag_number t"
    unfolding unsigned_ucast_eq using u by (simp add: tag_number_def)
  then show "base128_octets (ucast (t AND CBS_ASN1_TAG_NUMBER_MASK)) = base128 (tag_number t)"
    by (simp only: base128_octets_spec)
  assume "tag_number t < 31"
  then show "(ucast (t AND CBS_ASN1_TAG_NUMBER_MASK) :: u8) = of_nat (tag_number t)"
    by (intro word_unat_eq_iff [THEN iffD2])
      (simp add: unsigned_ucast_eq take_bit_nat_eq_self unat_of_nat tag_number_def)
qed

lemma add_tag_appends:
  assumes "idle k s" "good s"
  shows "appends env {} (der_tag t) s
     (if t AND CBS_ASN1_TAG_NUMBER_MASK \<ge> 0x1f
      then and_then_opt (CBB_add_u8 (Suc n) env k (tag_bits t OR 0x1f) s)
             (add_base128_integer (Suc n) env k (ucast (t AND CBS_ASN1_TAG_NUMBER_MASK)))
      else CBB_add_u8 (Suc n) env k (tag_bits t OR ucast (t AND CBS_ASN1_TAG_NUMBER_MASK)) s)"
proof (cases "tag_number t < 31")
  case True
  then show ?thesis using add_u8_appends [OF assms] by (simp add: tag_octets der_tag_def del: tag_octets(1))
next
  case False
  have "appends env {} ([tag_bits t OR 0x1f] @ base128 (tag_number t)) s
      (and_then_opt (CBB_add_u8 (Suc n) env k (tag_bits t OR 0x1f) s)
         (add_base128_integer (Suc n) env k (ucast (t AND CBS_ASN1_TAG_NUMBER_MASK))))"
  proof (rule appends_then [OF assms(2) add_u8_appends [OF assms]])
    fix s' assume a: "after {} [tag_bits t OR 0x1f] s s'"
    show "appends env {} (base128 (tag_number t)) s'
        (add_base128_integer (Suc n) env k (ucast (t AND CBS_ASN1_TAG_NUMBER_MASK)) s')"
      using add_each_appends [of k s' "{}" env "base128 (tag_number t)" n] a assms
      by (simp add: add_base128_integer_def tag_octets after_good after_idle del: tag_octets(1))
  qed
  then show ?thesis using False by (simp add: tag_octets der_tag_def del: tag_octets(1))
qed

section \<open>Elements\<close>

text \<open>\<open>opened k j s0 pre s\<close>: \<open>j\<close> is the pending ASN.1 child of \<open>k\<close> in \<open>s\<close>, its length prefix starts
  behind \<open>pre\<close>; the other objects are as in \<open>s0\<close>.\<close>

definition opened :: "nat \<Rightarrow> nat \<Rightarrow> cbb_state \<Rightarrow> u8 list \<Rightarrow> cbb_state \<Rightarrow> bool" where
  "opened k j s0 pre s \<longleftrightarrow>
     good s \<and> cbbs s k = (cbbs s0 k)\<lparr>c_child := Some j\<rparr> \<and> idle j s \<and>
     c_pending_len_len (cbbs s j) = 1 \<and> c_pending_is_asn1 (cbbs s j) \<and>
     unat (c_offset (cbbs s j)) = length pre \<and> (\<forall>i. i \<noteq> k \<longrightarrow> i \<noteq> j \<longrightarrow> cbbs s i = cbbs s0 i)"

lemma add_asn1_cases:
  assumes "idle k s" "good s" "j \<noteq> k"
  obtains (ok) s' where "CBB_add_asn1 (Suc n) env k j t s = Some (True, s')"
      "opened k j s (content (base s) @ der_tag t) s'" "extended (der_tag t @ [0]) (base s) (base s')"
  | (full) s' where "CBB_add_asn1 (Suc n) env k j t s = Some (False, s')"
      "\<not> room env (base s) (length (der_tag t) + 1)"
proof -
  let ?tag = "if t AND CBS_ASN1_TAG_NUMBER_MASK \<ge> 0x1f
      then and_then_opt (CBB_add_u8 (Suc n) env k (tag_bits t OR 0x1f) s)
             (add_base128_integer (Suc n) env k (ucast (t AND CBS_ASN1_TAG_NUMBER_MASK)))
      else CBB_add_u8 (Suc n) env k (tag_bits t OR ucast (t AND CBS_ASN1_TAG_NUMBER_MASK)) s"
  have eq: "CBB_add_asn1 (Suc n) env k j t s = and_then_opt ?tag
      (\<lambda>s. and_then_opt (CBB_add_u8 (Suc n) env k 0 s) (\<lambda>s'. Some (True, start_child k j (blen (base s)) 1 True s')))"
    by (simp add: CBB_add_asn1_def flush_then_idle [OF assms(1,2)] tag_bits_def Let_def)
  obtain ok1 s1 where t1: "?tag = Some (ok1, s1)"
    and s1: "if ok1 then after {} (der_tag t) s s1 else \<not> room env (base s) (length (der_tag t))"
    using add_tag_appends [OF assms(1,2), of env t n] by (auto simp: appends_def split: option.splits)
  show thesis
  proof (cases ok1)
    case False
    then have "CBB_add_asn1 (Suc n) env k j t s = Some (False, s1)" by (simp only: eq t1 and_then_opt_simps)
    then show thesis using s1 False room_mono [of env "base s" "length (der_tag t) + 1" "length (der_tag t)"]
      by (intro full) auto
  next
    case True
    then have a1: "after {} (der_tag t) s s1" using s1 by simp
    have i1: "idle k s1" "good s1" using after_idle [OF a1, of k] after_good [OF a1] assms(1) by simp_all
    obtain ok2 s2 where t2: "CBB_add_u8 (Suc n) env k 0 s1 = Some (ok2, s2)"
      and s2: "if ok2 then after {} [0] s1 s2 else \<not> room env (base s1) (length [0 :: u8])"
      using add_u8_appends [OF i1, of env "{}" 0 n] by (auto simp: appends_def split: option.splits)
    show thesis
    proof (cases ok2)
      case False
      then have "CBB_add_asn1 (Suc n) env k j t s = Some (False, s2)"
        using True by (simp only: eq t1 t2 and_then_opt_simps)
      then show thesis using s2 False after_room [OF assms(2) a1, of env 1] by (intro full) auto
    next
      case ok2: True
      then have a2: "after {} [0] s1 s2" using s2 by simp
      have "CBB_add_asn1 (Suc n) env k j t s = Some (True, start_child k j (blen (base s1)) 1 True s2)"
        using True ok2 by (simp only: eq t1 t2 and_then_opt_simps)
      moreover have x: "extended (der_tag t @ [0]) (base s) (base s2)"
        using after_trans [OF a1 a2] by (simp add: after_def)
      moreover have "unat (blen (base s1)) = length (content (base s) @ der_tag t)"
        using extended_blen [of "base s" "der_tag t" "base s1"] a1 assms(2) by (simp add: after_def good_def)
      then have "opened k j s (content (base s) @ der_tag t) (start_child k j (blen (base s1)) 1 True s2)"
        using a1 a2 assms by (auto simp: opened_def start_child_def set_cbb_def CBB_zero_def idle_def after_def good_def Let_def)
      moreover have "base (start_child k j (blen (base s1)) 1 True s2) = base s2"
        by (simp add: start_child_def set_cbb_def Let_def)
      ultimately show thesis by (intro ok [of "start_child k j (blen (base s1)) 1 True s2"]) simp_all
    qed
  qed
qed

lemma asn1_len_len_spec:
  assumes "n \<le> 0xfffffffe"
  shows "asn1_len_len (of_nat n) = Some (of_nat (length (der_length n)), hd (der_length n))"
proof -
  have u: "unat (of_nat n :: u64) = n" using assms by simp
  consider "n \<le> 0x7f" | "0x7f < n" "n \<le> 0xff" | "0xff < n" "n \<le> 0xffff" | "0xffff < n" "n \<le> 0xffffff"
    | "0xffffff < n" by linarith
  then show ?thesis
  proof cases
    case 1
    have "(ucast (of_nat n :: u64) :: u8) = of_nat n"
      using 1 u by (intro word_unat_eq_iff [THEN iffD2]) (simp add: unsigned_ucast_eq take_bit_nat_eq_self unat_of_nat)
    then show ?thesis using 1 u assms by (simp add: asn1_len_len_def der_length_def word_less_nat_alt)
  next
    case 2
    then have "length (be_bytes n) \<le> 1" "\<not> length (be_bytes n) \<le> 0"
      unfolding length_be_bytes by simp_all
    then have "length (be_bytes n) = 1" by linarith
    then show ?thesis using 2 u assms by (simp add: asn1_len_len_def der_length_def word_less_nat_alt or.commute)
  next
    case 3
    then have "length (be_bytes n) = 2"
      using length_be_bytes [of n 2] length_be_bytes [of n 1] by (simp add: not_le)
    then show ?thesis using 3 u assms by (simp add: asn1_len_len_def der_length_def word_less_nat_alt or.commute)
  next
    case 4
    then have "length (be_bytes n) = 3"
      using length_be_bytes [of n 3] length_be_bytes [of n 2] by (simp add: not_le)
    then show ?thesis using 4 u assms by (simp add: asn1_len_len_def der_length_def word_less_nat_alt or.commute)
  next
    case 5
    then have "length (be_bytes n) = 4"
      using length_be_bytes [of n 4] length_be_bytes [of n 3] assms by (simp add: not_le)
    then show ?thesis using 5 u assms by (simp add: asn1_len_len_def der_length_def word_less_nat_alt or.commute)
  qed
qed

lemma rev_word_to_bytes_be:
  assumes "n < 2 ^ 64" shows "rev (word_to_bytes (length (be_bytes n)) (of_nat n :: u64)) = be_bytes n"
proof -
  have l: "length (be_bytes n) \<le> 8" using assms by (simp add: length_be_bytes)
  then have "unat (be_value (be_bytes n)) = n" by (simp add: unat_be_value map_unat_be_bytes)
  then have "be_value (be_bytes n) = of_nat n" by (metis of_nat_unat ucast_id)
  then have "bytes_to_word (rev (be_bytes n)) = (of_nat n :: u64)" using bytes_to_word_rev [of "be_bytes n" 0] by simp
  then have "word_to_bytes (length (be_bytes n)) (of_nat n :: u64) = rev (be_bytes n)"
    using word_to_bytes_to_word [of "rev (be_bytes n)" "length (be_bytes n)", where 'a = 64] l by simp
  then show ?thesis by simp
qed

lemma store_at_split:
  "buf b = xs @ ys @ zs \<Longrightarrow> unat i = length xs \<Longrightarrow> length bs = length ys \<Longrightarrow>
   store_at i bs b = Some (b\<lparr>buf := xs @ bs @ zs\<rparr>)"
  by (simp add: store_at_def)

lemma store_be_split:
  "buf b = xs @ ys @ zs \<Longrightarrow> unat i = length xs \<Longrightarrow> length (buf b) < 2 ^ 64 \<Longrightarrow>
   store_be (length ys) i v b = Some (drop_bit (8 * length ys) v, b\<lparr>buf := xs @ rev (word_to_bytes (length ys) v) @ zs\<rparr>)"
  by (subst store_be_spec) simp_all

lemma drop_bit_be: "n < 256 ^ k \<Longrightarrow> n < 2 ^ 64 \<Longrightarrow> drop_bit (8 * k) (of_nat n :: u64) = 0"
proof -
  assume "n < 256 ^ k" "n < 2 ^ 64"
  then have "unat (drop_bit (8 * k) (of_nat n :: u64)) = 0"
    by (simp add: unat_drop_bit power_mult)
  then show ?thesis by (simp only: unat_eq_0)
qed

text \<open>Writing the length prefix of a pending element: the contents move back by the extra length
  octets, and the prefix is filled in.\<close>

lemma flush_asn1_cases:
  assumes wf: "good s" and c: "content (base s) = pre @ [z] @ bs" and len: "length bs \<le> 0xfffffffe"
    and off: "unat (c_offset (cbbs s j)) = length pre" and jk: "j \<noteq> k"
  obtains (ok) b' where "flush_asn1 env k j (c_offset (cbbs s j) + 1) (of_nat (length bs)) s =
        Some (True, s\<lparr>base := b', cbbs := (cbbs s)
           (j := (cbbs s j)\<lparr>c_offset := c_offset (cbbs s j) + 1,
                           c_pending_len_len := of_nat (length (der_length (length bs)) - 1), c_base := False\<rparr>,
            k := (cbbs s k)\<lparr>c_child := None\<rparr>)\<rparr>)"
      "wf_buf b'" "content b' = pre @ der_length (length bs) @ bs" "error b' = error (base s)"
      "can_resize b' = can_resize (base s)" "unat (cap (base s)) \<le> unat (cap b')"
  | (full) s' where "flush_asn1 env k j (c_offset (cbbs s j) + 1) (of_nat (length bs)) s = Some (False, s')"
      "\<not> room env (base s) (length (der_length (length bs)) - 1)"
proof -
  let ?L = "length bs"
  let ?c = "cbbs s j"
  have w: "wf_buf (base s)" using wf by (simp add: good_def)
  have u: "unat (of_nat ?L :: u64) = ?L" using len by simp
  define R where "R = drop (unat (blen (base s))) (buf (base s))"
  have buf: "buf (base s) = pre @ [z] @ bs @ R"
    using c append_take_drop_id [of "unat (blen (base s))" "buf (base s)"] by (simp add: content_def R_def)
  have blen: "unat (blen (base s)) = length pre + 1 + ?L" using length_content [OF w] c by simp
  let ?done = "\<lambda>b'. s\<lparr>base := b', cbbs := (cbbs s)
     (j := ?c\<lparr>c_offset := c_offset ?c + 1, c_pending_len_len := of_nat (length (der_length ?L) - 1), c_base := False\<rparr>,
      k := (cbbs s k)\<lparr>c_child := None\<rparr>)\<rparr>"
  show thesis
  proof (cases "?L < 128")
    case True
    then have d: "der_length ?L = [of_nat ?L]" by (simp add: der_length_def)
    have "store_at (c_offset ?c) [of_nat ?L] (base s) = Some ((base s)\<lparr>buf := pre @ [of_nat ?L] @ bs @ R\<rparr>)"
      using store_at_split [OF buf] off by simp
    then have "flush_asn1 env k j (c_offset ?c + 1) (of_nat ?L) s =
        Some (True, ?done ((base s)\<lparr>buf := pre @ [of_nat ?L] @ bs @ R\<rparr>))"
      using jk by (simp add: flush_asn1_def asn1_len_len_spec [OF len] d move_contents_def write_prefix_def
          set_cbb_def Let_def)
    then show thesis
      using w buf blen by (intro ok [of "(base s)\<lparr>buf := pre @ [of_nat ?L] @ bs @ R\<rparr>"])
        (simp_all add: wf_buf_def content_def d)
  next
    case False
    let ?m = "length (be_bytes ?L)"
    have m: "?m \<le> 4" "0 < ?m" using be_bytes_long [of ?L] False len by simp_all
    have d: "der_length ?L = hd (der_length ?L) # be_bytes ?L" "length (der_length ?L) = Suc ?m"
      using False by (simp_all add: der_length_def)
    have um: "unat (of_nat ?m :: u8) = ?m" "unat (of_nat ?m :: u64) = ?m"
      using m by (simp_all add: unat_of_nat)
    have extra: "(ucast (of_nat ?m :: u8) :: u64) = of_nat ?m"
      using um by (intro word_unat_eq_iff [THEN iffD2]) simp
    define ll :: u8 where "ll = of_nat (length (der_length ?L))"
    have ne: "ll \<noteq> 1" and ll1: "ll - 1 = of_nat ?m" using um(1) m(2) by (auto simp: ll_def d(2))
    have al: "asn1_len_len (of_nat ?L) = Some (ll, hd (der_length ?L))"
      unfolding ll_def by (rule asn1_len_len_spec [OF len])
    show thesis
    proof (cases rule: add_cases [OF w, of env "of_nat ?m", case_names ok full])
      case full
      then have "flush_asn1 env k j (c_offset ?c + 1) (of_nat ?L) s =
          Some (False, cbb_set_error (s\<lparr>base := (base s)\<lparr>error := True\<rparr>\<rparr>))"
        using ne by (simp add: flush_asn1_def al move_contents_def extra ll1 flush_err_def Let_def)
      then show thesis using full um d(2) by (intro that(2)) simp_all
    next
      case a: (ok b1)
      have cap: "unat (blen b1) \<le> length (buf b1)" using a(3) by (simp add: wf_buf_def)
      define Y where "Y = take (?L + ?m) (drop (length pre + 1) (buf b1))"
      define R1 where "R1 = drop (unat (blen b1)) (buf b1)"
      have b1: "unat (blen b1) = length pre + 1 + (?L + ?m)" using a(2) um(2) blen by simp
      have lY: "length Y = ?L + ?m" using cap b1 by (simp add: Y_def)
      have pz: "take (length pre + 1) (buf b1) = pre @ [z]" and tY: "take ?L Y = bs"
      proof -
        have t: "take (length pre + 1 + ?L) (buf b1) = pre @ [z] @ bs" using a(4) c blen by simp
        show "take (length pre + 1) (buf b1) = pre @ [z]"
          using arg_cong [OF t, of "take (length pre + 1)"] by simp
        show "take ?L Y = bs"
          using arg_cong [OF t, of "drop (length pre + 1)"] by (simp add: Y_def drop_take)
      qed
      have "buf b1 = (pre @ [z]) @ Y @ R1"
        using pz b1 append_take_drop_id [of "length pre + 1" "buf b1"]
          append_take_drop_id [of "?L + ?m" "drop (length pre + 1) (buf b1)"]
        by (simp add: Y_def R1_def add.commute add.left_commute)
      then have buf1: "buf b1 = (pre @ [z] @ take ?m Y) @ drop ?m Y @ R1"
        using append_take_drop_id [of ?m Y] by (metis append_assoc)
      have lt: "length (buf b1) < 2 ^ 64" using a(3) by (simp add: wf_buf_def)
      then have "length pre + 1 + ?m < 2 ^ 64" "length pre + 1 < 2 ^ 64" using cap b1 by simp_all
      then have un: "unat (c_offset ?c + 1) = length pre + 1" "unat (c_offset ?c + 1 + of_nat ?m) = length pre + 1 + ?m"
        using off um by (simp_all add: unat_word_ariths)
      have "take ?L (drop (unat (c_offset ?c + 1)) (buf b1)) = bs"
        using tY un(1) by (simp add: Y_def min.absorb1)
      moreover have "store_at (c_offset ?c + 1 + of_nat ?m) bs b1 =
          Some (b1\<lparr>buf := (pre @ [z] @ take ?m Y) @ bs @ R1\<rparr>)"
        using lY m un by (intro store_at_split [OF buf1]) simp_all
      ultimately have mv: "move_contents env ll (c_offset ?c + 1) (of_nat ?L) (base s) =
          Some (True, b1\<lparr>buf := (pre @ [z] @ take ?m Y) @ bs @ R1\<rparr>)"
        using ne a(1) u by (simp add: move_contents_def extra ll1 Let_def)
      let ?h = "hd (der_length ?L)"
      let ?b2 = "b1\<lparr>buf := pre @ [?h] @ take ?m Y @ bs @ R1\<rparr>"
      have st: "store_at (c_offset ?c) [?h] (b1\<lparr>buf := (pre @ [z] @ take ?m Y) @ bs @ R1\<rparr>) = Some ?b2"
        using store_at_split [of "b1\<lparr>buf := (pre @ [z] @ take ?m Y) @ bs @ R1\<rparr>" pre "[z]" "take ?m Y @ bs @ R1"
            "c_offset ?c" "[?h]"] off by simp
      let ?b3 = "b1\<lparr>buf := pre @ der_length ?L @ bs @ R1\<rparr>"
      have "store_be (length (take ?m Y)) (c_offset ?c + 1) (of_nat ?L) ?b2 =
          Some (drop_bit (8 * length (take ?m Y)) (of_nat ?L),
            ?b2\<lparr>buf := (pre @ [?h]) @ rev (word_to_bytes (length (take ?m Y)) (of_nat ?L :: u64)) @ bs @ R1\<rparr>)"
        using un(1) lt buf1 lY by (intro store_be_split) simp_all
      moreover have "drop_bit (8 * ?m) (of_nat ?L :: u64) = 0"
        using length_be_bytes [of ?L ?m] len by (intro drop_bit_be) simp_all
      moreover have "rev (word_to_bytes ?m (of_nat ?L :: u64)) = be_bytes ?L"
        using len by (intro rev_word_to_bytes_be) simp
      ultimately have sb: "store_be ?m (c_offset ?c + 1) (of_nat ?L) ?b2 = Some (0, ?b3)"
        using lY d(1) by (simp add: min.absorb2)
      have "flush_asn1 env k j (c_offset ?c + 1) (of_nat ?L) s = Some (True, ?done ?b3)"
        using jk ne sb um(1)
        by (simp add: flush_asn1_def al mv st [simplified] write_prefix_def set_cbb_def Let_def d(2) ll1)
      moreover have "wf_buf ?b3" "content ?b3 = pre @ der_length ?L @ bs"
        using a(3) buf1 b1 lY d(2) by (simp_all add: wf_buf_def content_def)
      ultimately show thesis using a by (intro ok [of ?b3]) simp_all
    qed
  qed
qed

lemma length_der_length: "0 < length (der_length n)"
  by (simp add: der_length_def)

lemma good_blen: "good s \<Longrightarrow> unat (blen (base s)) = length (content (base s))"
  by (simp add: good_def)

lemma finish_child_eq:
  assumes g: "good s" and off: "unat (c_offset (cbbs s j)) = length pre"
    and c: "content (base s) = pre @ zs @ bs" "length zs = unat (c_pending_len_len (cbbs s j))"
  defines "start \<equiv> c_offset (cbbs s j) + ucast (c_pending_len_len (cbbs s j))"
  shows "finish_child env k j start s =
    (if c_pending_is_asn1 (cbbs s j) then flush_asn1 env k j start (of_nat (length bs)) s
     else write_prefix k j (of_nat (length bs)) s)"
proof -
  have blen: "unat (blen (base s)) = length pre + length zs + length bs" using good_blen [OF g] c by simp
  have lt: "unat (blen (base s)) < 2 ^ 64" by simp
  have start: "unat start = length pre + length zs"
    using off blen lt c(2) by (simp add: start_def unat_word_ariths)
  have le: "start \<le> blen (base s)" using start blen by (simp add: word_le_nat_alt)
  have "\<not> start < c_offset (cbbs s j)" using start off by (simp add: word_less_nat_alt)
  moreover have "\<not> blen (base s) < start" using le by (simp add: not_less)
  moreover have "unat (blen (base s) - start) = length bs" unfolding unat_sub [OF le] start blen by simp
  then have "blen (base s) - start = of_nat (length bs)" by (metis of_nat_unat ucast_id)
  ultimately show ?thesis by (simp add: finish_child_def Let_def)
qed

lemma flush_pending:
  assumes "c_base (cbbs s k)" "\<not> error (base s)" "c_child (cbbs s k) = Some j" "c_pending_len_len (cbbs s j) \<noteq> 0"
  shows "CBB_flush (Suc n) env k s =
    (case CBB_flush n env j s of
       None \<Rightarrow> None
     | Some (False, s) \<Rightarrow> flush_err s
     | Some (True, s') \<Rightarrow>
         finish_child env k j (c_offset (cbbs s j) + ucast (c_pending_len_len (cbbs s j))) s')"
  using assms by (simp add: Let_def)

lemma flush_opened:
  assumes "idle k s0" and o: "opened k j s0 pre s" and c: "content (base s) = pre @ [z] @ bs"
    and len: "length bs \<le> 0xfffffffe" and jk: "j \<noteq> k"
  shows "CBB_flush (Suc (Suc n)) env k s =
     flush_asn1 env k j (c_offset (cbbs s j) + 1) (of_nat (length bs)) s"
proof -
  have g: "good s" "idle j s" using o by (simp_all add: opened_def)
  have l: "c_pending_len_len (cbbs s j) = 1" "unat (c_offset (cbbs s j)) = length pre" using o by (simp_all add: opened_def)
  have "length [z] = unat (c_pending_len_len (cbbs s j))" using l(1) by simp
  from finish_child_eq [OF g(1) l(2) c this, of env k] show ?thesis
    using o assms(1) g(1) flush_idle [OF g(2,1), of n env] l(1)
    by (simp add: flush_pending opened_def idle_def good_def del: CBB_flush.simps)
qed

text \<open>An element: open it, write its contents through the child, flush the parent.\<close>

lemma element_appends:
  assumes k: "idle k s" "good s" and jk: "j \<noteq> k" and J: "k \<notin> J" "j \<notin> J" and len: "length bs \<le> 0xfffffffe"
    and body: "\<And>s. idle j s \<Longrightarrow> good s \<Longrightarrow> appends env J bs s (f s)"
  shows "appends env (insert j J) (der_element t bs) s
     (and_then_opt (CBB_add_asn1 (Suc (Suc n)) env k j t s)
        (\<lambda>s. and_then_opt (f s) (CBB_flush (Suc (Suc n)) env k)))"
proof (cases rule: add_asn1_cases [OF k jk, of "Suc n" env t, case_names ok full])
  case (full s')
  have "length (der_tag t) + 1 \<le> length (der_element t bs)"
    using length_der_length [of "length bs"] unfolding der_element_def length_append by linarith
  then show ?thesis using full room_mono [of env "base s" "length (der_element t bs)" "length (der_tag t) + 1"]
    by (auto simp: appends_def)
next
  case o: (ok s1)
  have w: "wf_buf (base s)" using k(2) by (simp add: good_def)
  have i1: "idle j s1" "good s1" using o(2) by (simp_all add: opened_def)
  note R = room_extended [OF w, of _ _ env]
  obtain ok2 s2 where f: "f s1 = Some (ok2, s2)"
    and s2: "if ok2 then after J bs s1 s2 else \<not> room env (base s1) (length bs)"
    using body [OF i1] by (auto simp: appends_def split: option.splits)
  let ?dl = "length (der_length (length bs))"
  have total: "length (der_element t bs) = length (der_tag t @ [0 :: u8]) + length bs + (?dl - 1)"
    using length_der_length [of "length bs"] by (simp add: der_element_def)
  show ?thesis
  proof (cases ok2)
    case False
    have "\<not> room env (base s) (length (der_tag t @ [0 :: u8]) + length bs)"
      using R [OF o(3), of "length bs"] s2 False by auto
    then have "\<not> room env (base s) (length (der_element t bs))"
      using room_mono [of env "base s" "length (der_element t bs)"] total by auto
    then show ?thesis using f False o(1) by (simp add: appends_def)
  next
    case True
    then have a: "after J bs s1 s2" using s2 by simp
    have x2: "extended ((der_tag t @ [0]) @ bs) (base s) (base s2)"
      using a by (intro extended_trans [OF o(3)]) (simp add: after_def)

    have cb: "cbbs s2 k = (cbbs s k)\<lparr>c_child := Some j\<rparr>" "cbbs s2 j = cbbs s1 j"
      "\<And>i. i \<notin> insert j J \<Longrightarrow> i \<noteq> k \<Longrightarrow> cbbs s2 i = cbbs s i"
      using a o(2) J by (auto simp: after_def opened_def)
    let ?s0 = "s\<lparr>cbbs := \<lambda>i. if i = k then cbbs s k else cbbs s2 i\<rparr>"
    have op: "opened k j ?s0 (content (base s) @ der_tag t) s2"
      using cb o(2) after_good [OF a] by (simp add: opened_def idle_def)
    have c: "content (base s2) = (content (base s) @ der_tag t) @ [0] @ bs"
      using x2 by (simp add: extended_def)
    have fl: "CBB_flush (Suc (Suc n)) env k s2 =
        flush_asn1 env k j (c_offset (cbbs s2 j) + 1) (of_nat (length bs)) s2"
      using k(1) by (intro flush_opened [OF _ op c len jk]) (simp add: idle_def)
    have off: "unat (c_offset (cbbs s2 j)) = length (content (base s) @ der_tag t)"
      using op by (simp add: opened_def)
    show ?thesis
    proof (cases rule: flush_asn1_cases [OF after_good [OF a] c len off jk, of env, case_names ok full])
      case (full s3)
      have "\<not> room env (base s) (length ((der_tag t @ [0]) @ bs) + (?dl - 1))"
        using R [OF x2, of "?dl - 1"] full(2) by auto
      then show ?thesis using full(1) o(1) f True fl total by (simp add: appends_def)
    next
      case (ok b')
      have e: "extended (der_element t bs) (base s) b'"
        using ok x2 by (simp add: extended_def der_element_def)
      have "\<not> error b'" using ok(4) after_good [OF a] by (simp add: good_def)
      moreover have "(cbbs s2 k)\<lparr>c_child := None\<rparr> = cbbs s k" using cb(1) k(1) by (simp add: idle_def)
      ultimately show ?thesis using ok e o(1) f True fl cb jk
        by (auto simp: appends_def after_def good_def)
    qed
  qed
qed

section \<open>Integers\<close>

lemma uint64_octets_started: "uint64_octets True bs = bs"
  by (induction bs) simp_all

lemma uint64_octets_spec:
  "uint64_octets False bs = der_uint (octets_value bs)"
proof (induction bs)
  case Nil
  then show ?case by (simp add: octets_value_def der_uint_def be_bytes_def)
next
  case (Cons b bs)
  show ?case
  proof (cases "b = 0")
    case True
    then show ?thesis using Cons by (simp add: octets_value_Cons)
  next
    case False
    then have "be_bytes (octets_value (b # bs)) = b # bs"
      unfolding octets_value_def by (intro be_bytes_of) simp_all
    then show ?thesis using False by (simp add: uint64_octets_started der_uint_def byte_high_bit)
  qed
qed

lemma big_endian_octets:
  "map (\<lambda>i. ucast (drop_bit (8 * (7 - i)) (v :: u64))) [0..<8] = (rev (word_to_bytes 8 v) :: u8 list)"
  by (rule nth_equalityI) (simp_all add: rev_nth nth_word_to_bytes)

lemma octets_value_word: "octets_value (rev (word_to_bytes 8 v)) = unat (v :: u64)"
proof -
  have "be_value (rev (word_to_bytes 8 v)) = v"
    using bytes_to_word_rev [of "rev (word_to_bytes 8 v)" 0] bytes_to_word_to_bytes [of 8 v] by simp
  then show ?thesis using unat_be_value [of "rev (word_to_bytes 8 v)"] by (simp add: octets_value_def)
qed

lemma length_der_uint_short: "length (der_uint (unat (v :: u64))) \<le> 9"
proof -
  have "length (be_bytes (unat v)) \<le> 8" by (simp add: length_be_bytes)
  then show ?thesis by (simp add: der_uint_def)
qed

lemma length_der_int_short: "length (der_int (sint (v :: u64))) \<le> 9"
proof (cases "0 \<le> sint v")
  case True
  then show ?thesis using length_der_uint_short [of v] by (simp add: der_int_def sint_small(2))
next
  case False
  then show ?thesis using length_der_uint_short [of "NOT v"] sint_small(2) [of "NOT v"]
    by (simp add: der_int_def sint_not)
qed

lemma uint64_element:
  assumes "idle k s" "good s" "j \<noteq> k"
  shows "appends env {j} (der_element CBS_ASN1_INTEGER (der_uint (unat v))) s
     (CBB_add_asn1_uint64 (Suc (Suc n)) env k j v s)"
proof -
  have "uint64_octets False (map (\<lambda>i. ucast (drop_bit (8 * (7 - i)) v)) [0..<8]) = der_uint (unat v)"
    by (simp only: big_endian_octets uint64_octets_spec octets_value_word)
  then show ?thesis
    using element_appends [OF assms, of "{}" "der_uint (unat v)" env
        "add_each (Suc (Suc n)) env j (der_uint (unat v))" CBS_ASN1_INTEGER n]
      add_each_appends [of j _ "{}" env "der_uint (unat v)" "Suc n"] length_der_uint_short [of v]
    by (simp only: CBB_add_asn1_uint64_def) simp
qed

lemma rev_take: "k \<le> length bs \<Longrightarrow> map (\<lambda>i. bs ! i) (rev [0..<k]) = rev (take k bs)"
  by (simp add: map_nth take_map [symmetric] flip: rev_map) (rule nth_equalityI; simp)

lemma skip_sign_spec:
  fixes bs :: "u8 list"
  shows "start < length bs \<Longrightarrow> 128 \<le> unat (bs ! start) \<Longrightarrow>
    map (\<lambda>i. bs ! i) (rev [0..<Suc (skip_sign bs start)]) =
    map NOT (uint64_octets False (map NOT (rev (take (Suc start) bs))))"
proof (induction start)
  case 0
  then show ?case
    by (simp add: take_Suc_conv_app_nth byte_high_bit not_u8 comp_def)
next
  case (Suc i)
  let ?c = "bs ! Suc i" and ?r = "rev (take (Suc i) bs)"
  have r: "rev (take (Suc (Suc i)) bs) = ?c # ?r" "?r = bs ! i # rev (take i bs)"
    using Suc.prems by (simp_all add: take_Suc_conv_app_nth)
  show ?case
  proof (cases "?c = 0xff \<and> 128 \<le> unat (bs ! i)")
    case True
    then show ?thesis using Suc r(1) by (simp add: byte_high_bit not_u8 del: upt_Suc)
  next
    case False
    then have "map (\<lambda>i. bs ! i) (rev [0..<Suc (skip_sign bs (Suc i))]) = ?c # ?r"
      using rev_take [of "Suc (Suc i)" bs] Suc.prems r(1) by (auto simp: byte_high_bit)
    moreover have "map NOT (uint64_octets False (map NOT (?c # ?r))) = ?c # ?r"
      using False Suc.prems r(2) by (auto simp: byte_high_bit not_u8 uint64_octets_started comp_def)
    ultimately show ?thesis by (simp only: r(1))
  qed
qed

lemma add_int64_octets:
  assumes "sint (v :: u64) < 0"
  shows "map (\<lambda>i. word_to_bytes 8 v ! i) (rev [0..<Suc (skip_sign (word_to_bytes 8 v) 7)]) = der_int (sint v)"
proof -
  have "bit v 63" using assms bit_last_iff [of v] by simp
  then have "bit (word_to_bytes 8 v ! 7) 7" by (simp add: nth_word_to_bytes bit_simps)
  then have "128 \<le> unat (word_to_bytes 8 v ! 7)"
    using and_exp_eq_0_iff_not_bit [of "word_to_bytes 8 v ! 7" 7] by (simp flip: byte_high_bit)
  then have "map (\<lambda>i. word_to_bytes 8 v ! i) (rev [0..<Suc (skip_sign (word_to_bytes 8 v) 7)]) =
      map NOT (uint64_octets False (map NOT (rev (word_to_bytes 8 v))))"
    using skip_sign_spec [of 7 "word_to_bytes 8 v"] by simp
  also have "map NOT (rev (word_to_bytes 8 v)) = rev (word_to_bytes 8 (NOT v))"
    by (rule nth_equalityI) (auto simp: rev_nth nth_word_to_bytes bit_eq_iff bit_simps)
  also have "uint64_octets False (rev (word_to_bytes 8 (NOT v))) = der_uint (unat (NOT v))"
    by (simp add: uint64_octets_spec octets_value_word)
  also have "unat (NOT v) = nat (- sint v - 1)"
    using sint_small(2) [of "NOT v"] assms by (simp add: sint_not)
  finally show ?thesis using assms by (simp add: der_int_def)
qed

lemma int64_element:
  assumes "idle k s" "good s" "j \<noteq> k"
  shows "appends env {j} (der_element CBS_ASN1_INTEGER (der_int (sint v))) s
     (CBB_add_asn1_int64 (Suc (Suc n)) env k j v s)"
proof (cases "0 \<le> sint v")
  case True
  then show ?thesis using uint64_element [OF assms, of env v n]
    by (simp add: CBB_add_asn1_int64_def der_int_def sint_small(2))
next
  case False
  then show ?thesis
    using element_appends [OF assms, of "{}" "der_int (sint v)" env
        "add_each (Suc (Suc n)) env j (der_int (sint v))" CBS_ASN1_INTEGER n] length_der_int_short [of v]
      add_each_appends [of j _ "{}" env "der_int (sint v)" "Suc n"] add_int64_octets [of v]
    by (simp only: CBB_add_asn1_int64_def Let_def) simp
qed

lemma octet_string_element:
  assumes "idle k s" "good s" "j \<noteq> k" "length bs \<le> 0xfffffffe"
  shows "appends env {j} (der_element CBS_ASN1_OCTETSTRING bs) s
     (CBB_add_asn1_octet_string (Suc (Suc n)) env k j bs s)"
  using element_appends [OF assms(1-3), of "{}" bs env "CBB_add_bytes (Suc (Suc n)) env j bs" CBS_ASN1_OCTETSTRING n]
    add_bytes_appends [of j _ bs env "{}" "Suc n"] assms(3,4)
  by (simp only: CBB_add_asn1_octet_string_def) simp

lemma bool_element:
  assumes "idle k s" "good s" "j \<noteq> k"
  shows "appends env {j} (der_element CBS_ASN1_BOOLEAN [if b then 0xff else 0]) s
     (CBB_add_asn1_bool (Suc (Suc n)) env k j b s)"
  using element_appends [OF assms, of "{}" "[if b then 0xff else 0]" env
      "CBB_add_u8 (Suc (Suc n)) env j (if b then 0xff else 0)" CBS_ASN1_BOOLEAN n]
    add_u8_appends [of j _ env "{}" "if b then 0xff else 0" "Suc n"] assms(3)
  by (simp only: CBB_add_asn1_bool_def) simp

text \<open>Writing values: on any object without pending children and a healthy buffer, the writers of
  unsigned and signed 64-bit integers, octet strings and booleans always return, never store outside the
  buffer, and append exactly the DER encoding of the value, leaving every object but their own child as
  it was; they fail only when the buffer has no room for that encoding and cannot grow.\<close>

theorem add_values_append:
  assumes "idle k s" "good s" "j \<noteq> k" "length bs \<le> 0xfffffffe"
  shows "appends env {j} (der_element CBS_ASN1_INTEGER (der_uint (unat v))) s
       (CBB_add_asn1_uint64 (Suc (Suc n)) env k j v s) \<and>
     appends env {j} (der_element CBS_ASN1_INTEGER (der_int (sint v))) s
       (CBB_add_asn1_int64 (Suc (Suc n)) env k j v s) \<and>
     appends env {j} (der_element CBS_ASN1_OCTETSTRING bs) s
       (CBB_add_asn1_octet_string (Suc (Suc n)) env k j bs s) \<and>
     appends env {j} (der_element CBS_ASN1_BOOLEAN [if b then 0xff else 0]) s
       (CBB_add_asn1_bool (Suc (Suc n)) env k j b s)"
  using uint64_element [OF assms(1-3)] int64_element [OF assms(1-3)] octet_string_element [OF assms]
    bool_element [OF assms(1-3)] by blast

definition example_cbb_env :: cbb_env where
  "example_cbb_env = \<lparr>alloc_ok = \<lambda>_. False, block_ok = True, junk = 0\<rparr>"

definition example_cbb :: cbb_state where
  "example_cbb = snd (CBB_init_fixed example_cbb_env 0 (replicate 16 0)
     \<lparr>base = undefined, cbbs = \<lambda>_. CBB_zero\<rparr>)"

lemma example_cbb_ready: "idle 0 example_cbb" "good example_cbb"
  by (simp_all add: example_cbb_def example_cbb_env_def CBB_init_fixed_def cbb_init_def set_cbb_def CBB_zero_def idle_def good_def wf_buf_def)

theorem add_values_append_witness:
  "appends example_cbb_env {1} (der_element CBS_ASN1_INTEGER (der_uint (unat (255 :: u64)))) example_cbb
     (CBB_add_asn1_uint64 2 example_cbb_env 0 1 255 example_cbb) \<and>
   appends example_cbb_env {1} (der_element CBS_ASN1_INTEGER (der_int (sint (255 :: u64)))) example_cbb
     (CBB_add_asn1_int64 2 example_cbb_env 0 1 255 example_cbb) \<and>
   appends example_cbb_env {1} (der_element CBS_ASN1_OCTETSTRING [1, 2]) example_cbb
     (CBB_add_asn1_octet_string 2 example_cbb_env 0 1 [1, 2] example_cbb) \<and>
   appends example_cbb_env {1} (der_element CBS_ASN1_BOOLEAN [if True then 0xff else 0]) example_cbb
     (CBB_add_asn1_bool 2 example_cbb_env 0 1 True example_cbb)"
  using add_values_append [OF example_cbb_ready, of 1 "[1, 2]" example_cbb_env 255 0 True]
  by (simp add: numeral_2_eq_2)

section \<open>Nested elements\<close>

text \<open>What a client writes: elements with given contents, and elements made of elements, each written
  through a child object of its parent as the C callers do.\<close>

datatype der_tree = Prim u32 "u8 list" | Node u32 "der_tree list"

fun tree_bytes :: "der_tree \<Rightarrow> u8 list" where
  "tree_bytes (Prim t bs) = der_element t bs"
| "tree_bytes (Node t ts) = der_element t (concat (map tree_bytes ts))"

fun tree_fits :: "der_tree \<Rightarrow> bool" where
  "tree_fits (Prim t bs) = (length bs \<le> 0xfffffffe)"
| "tree_fits (Node t ts) = (length (concat (map tree_bytes ts)) \<le> 0xfffffffe \<and> list_all tree_fits ts)"

fun write_tree :: "cbb_env \<Rightarrow> nat \<Rightarrow> der_tree \<Rightarrow> cbb_state \<Rightarrow> (bool \<times> cbb_state) option" where
  "write_tree env k (Prim t bs) s =
     and_then_opt (CBB_add_asn1 2 env k (Suc k) t s)
       (\<lambda>s. and_then_opt (CBB_add_bytes 2 env (Suc k) bs s) (CBB_flush 2 env k))"
| "write_tree env k (Node t ts) s =
     and_then_opt (CBB_add_asn1 2 env k (Suc k) t s)
       (\<lambda>s. and_then_opt (loopM (write_tree env (Suc k)) ts s) (CBB_flush 2 env k))"

lemma loop_appends:
  assumes "\<And>x s. x \<in> set xs \<Longrightarrow> idle k s \<Longrightarrow> good s \<Longrightarrow> appends env J (g x) s (f x s)" "k \<notin> J"
  shows "idle k s \<Longrightarrow> good s \<Longrightarrow> appends env J (concat (map g xs)) s (loopM f xs s)"
  using assms(1)
proof (induction xs arbitrary: s)
  case Nil
  then show ?case by (simp add: appends_def after_refl)
next
  case (Cons x xs)
  have "appends env J (g x @ concat (map g xs)) s (and_then_opt (f x s) (loopM f xs))"
  proof (rule appends_then [OF Cons.prems(2)])
    show "appends env J (g x) s (f x s)" using Cons.prems by simp
    fix s' assume "after J (g x) s s'"
    then show "appends env J (concat (map g xs)) s' (loopM f xs s')"
      using Cons.prems after_good after_idle assms(2) by (intro Cons.IH) (blast, blast, simp)
  qed
  then show ?case by simp
qed

text \<open>C22. The writer implements its abstract specification, the DER encoding of a tree of elements:
  writing a tree of any shape and depth through nested child objects always returns and appends exactly
  the encoding of the tree, each length in its shortest form although it is filled in only when the
  element is complete; it fails only when there is no room for the encoding.\<close>

theorem write_tree_refines:
  assumes "idle k s" "good s" "tree_fits t"
  shows "appends env {i. k < i} (tree_bytes t) s (write_tree env k t s)"
  using assms
proof (induction env k t s rule: write_tree.induct)
  case (1 env k t bs s)
  have J: "insert (Suc k) {i. Suc k < i} = {i. k < i}" by auto
  have "appends env (insert (Suc k) {i. Suc k < i}) (der_element t bs) s (write_tree env k (Prim t bs) s)"
    unfolding write_tree.simps numeral_2_eq_2
    using 1 by (intro element_appends add_bytes_appends) simp_all
  then show ?case by (simp add: J)
next
  case (2 env k t ts s)
  have J: "insert (Suc k) {i. Suc k < i} = {i. k < i}" by auto
  have "appends env (insert (Suc k) {i. Suc k < i}) (der_element t (concat (map tree_bytes ts))) s
      (write_tree env k (Node t ts) s)"
    unfolding write_tree.simps numeral_2_eq_2
    using 2 by (intro element_appends loop_appends) (simp_all add: list_all_iff)
  then show ?case by (simp add: J)
qed

theorem write_tree_refines_witness:
  "appends example_cbb_env {i. 0 < i} (tree_bytes (Node 0x20000010 [Prim 4 [7], Prim 5 []])) example_cbb
     (write_tree example_cbb_env 0 (Node 0x20000010 [Prim 4 [7], Prim 5 []]) example_cbb)"
  by (rule write_tree_refines [OF example_cbb_ready])
    (use length_der_tag(1) [of 4] length_der_tag(1) [of 5] in \<open>simp add: der_element_def der_length_def\<close>)

section \<open>Writing and reading back\<close>

text \<open>A whole session: initialise with a growing buffer, add one integer, take the bytes.\<close>

definition int64_session :: "cbb_env \<Rightarrow> u64 \<Rightarrow> u64 \<Rightarrow> cbb_state \<Rightarrow> (u8 list option \<times> cbb_state) option" where
  "int64_session env initial_capacity v s =
     (case CBB_init env 0 initial_capacity s of
        (False, s) \<Rightarrow> Some (None, s)
      | (True, s) \<Rightarrow>
          (case CBB_add_asn1_int64 2 env 0 1 v s of
             None \<Rightarrow> None
           | Some (False, s) \<Rightarrow> Some (None, s)
           | Some (True, s) \<Rightarrow> CBB_finish 2 env 0 True s))"

lemma init_ready:
  assumes "CBB_init env k initial_capacity s = (True, s')"
  shows "idle k s'" "good s'" "content (base s') = []" "can_resize (base s')" "blen (base s') = 0"
    "\<not> c_is_child (cbbs s' k)"
  using assms
  by (auto simp: CBB_init_def cbb_init_def set_cbb_def Let_def idle_def good_def wf_buf_def content_def CBB_zero_def split: if_splits)

lemma finish_idle:
  "idle k s \<Longrightarrow> good s \<Longrightarrow> \<not> c_is_child (cbbs s k) \<Longrightarrow>
   CBB_finish (Suc n) env k True s = Some (Some (content (base s)), CBB_cleanup k s)"
  by (simp add: CBB_finish_def flush_idle content_def del: CBB_flush.simps)

text \<open>C39. Integers survive the writer and the reader: with an allocator that grants every request, a
  session that initialises a \<^verbatim>\<open>CBB\<close> of any initial capacity, adds any signed 64-bit value with
  \<^verbatim>\<open>CBB_add_asn1_int64\<close> and finishes always hands out bytes, and
  \<^verbatim>\<open>CBS_get_asn1_int64\<close> reads the value back from them wherever they are in memory and
  whatever follows, standing exactly behind them.\<close>

theorem int64_session_roundtrip:
  assumes "\<forall>m. alloc_ok env m" "block_ok env"
  shows "\<exists>out s'. int64_session env initial_capacity v s = Some (Some out, s') \<and>
     (\<forall>m c rest. cbs_bytes m c = out @ rest \<longrightarrow>
        CBS_get_asn1_int64 m c = (Some v, cbs_adv (length out) c) \<and> cbs_bytes m (cbs_adv (length out) c) = rest)"
proof -
  let ?bs = "der_int (sint v)"
  let ?e = "der_element CBS_ASN1_INTEGER ?bs"
  obtain s1 where i: "CBB_init env 0 initial_capacity s = (True, s1)" using assms by (simp add: CBB_init_def cbb_init_def Let_def)
  note r = init_ready [OF i]
  have "room env (base s1) n" if "n < 2 ^ 64" for n
    using r assms that by (simp add: room_def)
  moreover have "length ?e < 2 ^ 64"
    using length_der_int_short [of v] length_der_tag(1) [of CBS_ASN1_INTEGER]
    by (simp add: der_element_def der_length_def)
  ultimately obtain s2 where a: "CBB_add_asn1_int64 2 env 0 1 v s1 = Some (True, s2)" "after {1} ?e s1 s2"
    using int64_element [OF r(1,2), of 1 env v 0]
    by (auto simp: appends_def numeral_2_eq_2 split: option.splits if_splits)
  have "content (base s2) = ?e" "idle 0 s2" "good s2" "\<not> c_is_child (cbbs s2 0)"
    using a(2) r by (auto simp: after_def extended_def idle_def)
  then have w: "int64_session env initial_capacity v s = Some (Some ?e, CBB_cleanup 0 s2)"
    using i a(1) finish_idle [of 0 s2 "Suc 0" env] by (simp add: int64_session_def numeral_2_eq_2)
  have "CBS_get_asn1_int64 m c = (Some v, cbs_adv (length ?e) c) \<and> cbs_bytes m (cbs_adv (length ?e) c) = rest"
    if b: "cbs_bytes m c = ?e @ rest" for m c rest
  proof -
    have "length ?bs < 2 ^ 32" using length_der_int_short [of v] by simp
    from get_asn1_complete [OF b this] show ?thesis
      using skip_header [OF b] int64_of_iff [of ?bs v] by (simp add: get_int64_spec)
  qed
  then show ?thesis using w by blast
qed

theorem int64_session_roundtrip_witness:
  "\<exists>out s'. int64_session \<lparr>alloc_ok = \<lambda>_. True, block_ok = True, junk = 0\<rparr> 0 (- 129) example_cbb = Some (Some out, s') \<and>
     (\<forall>m c rest. cbs_bytes m c = out @ rest \<longrightarrow>
        CBS_get_asn1_int64 m c = (Some (- 129), cbs_adv (length out) c) \<and> cbs_bytes m (cbs_adv (length out) c) = rest)"
  by (rule int64_session_roundtrip) simp_all

section \<open>Length prefixes\<close>

text \<open>A fixed-size prefix is filled in when the parent is flushed; contents that do not fit the prefix
  are an error then.\<close>

lemma add_length_prefixed_cases:
  assumes "idle k s" "good s" "j \<noteq> k"
  obtains (ok) b where "cbb_add_length_prefixed (Suc n) env k j l s =
        Some (True, start_child k j (blen (base s)) l False (s\<lparr>base := b\<rparr>))"
      "extended (replicate (unat l) 0) (base s) b"
  | (full) s' where "cbb_add_length_prefixed (Suc n) env k j l s = Some (False, s')" "\<not> room env (base s) (unat l)"
proof -
  have w: "wf_buf (base s)" using assms(2) by (simp add: good_def)
  have l: "unat (ucast l :: u64) = length (replicate (unat l) (0 :: u8))" by simp
  show thesis
  proof (cases rule: append_cases [OF w l, of env, case_names ok full])
    case (ok b' b'')
    then show thesis
      by (intro that(1) [of b'']) (simp_all add: cbb_add_length_prefixed_def flush_then_idle [OF assms(1,2)] Let_def)
  next
    case full
    then show thesis
      by (intro that(2)) (simp_all add: cbb_add_length_prefixed_def flush_then_idle [OF assms(1,2)] Let_def)
  qed
qed

lemma write_prefix_eq:
  assumes jk: "j \<noteq> k" and g: "good s" and l: "unat (c_pending_len_len (cbbs s j)) = length zs"
    and off: "unat (c_offset (cbbs s j)) = length pre" and c: "content (base s) = pre @ zs @ bs"
  defines "b' \<equiv> (base s)\<lparr>buf := pre @ rev (word_to_bytes (length zs) (of_nat (length bs) :: u64)) @ bs @
                 drop (unat (blen (base s))) (buf (base s))\<rparr>"
  shows "write_prefix k j (of_nat (length bs)) s =
    (if length bs < 256 ^ length zs
     then Some (True, s\<lparr>base := b', cbbs := (cbbs s)(j := (cbbs s j)\<lparr>c_base := False\<rparr>,
                                               k := (cbbs s k)\<lparr>c_child := None\<rparr>)\<rparr>)
     else Some (False, cbb_set_error (s\<lparr>base := b'\<rparr>)))"
proof -
  have w: "wf_buf (base s)" using g by (simp add: good_def)
  have buf: "buf (base s) = pre @ zs @ bs @ drop (unat (blen (base s))) (buf (base s))"
    using c append_take_drop_id [of "unat (blen (base s))" "buf (base s)"] by (simp add: content_def)
  have cap: "length (buf (base s)) < 2 ^ 64" using w by (simp add: wf_buf_def)
  have st: "store_be (unat (c_pending_len_len (cbbs s j))) (c_offset (cbbs s j)) (of_nat (length bs)) (base s) =
      Some (drop_bit (8 * length zs) (of_nat (length bs)), b')"
    unfolding l using store_be_split [OF buf off cap, of "of_nat (length bs)"] by (simp add: b'_def)
  have "length bs \<le> unat (blen (base s))" using good_blen [OF g] c by simp
  then have "length bs < 2 ^ 64" using le_less_trans [OF _ u64_less] by simp
  then have "drop_bit (8 * length zs) (of_nat (length bs) :: u64) = 0 \<longleftrightarrow> length bs < 256 ^ length zs"
    by (simp add: div_eq_0_iff unat_drop_bit power_mult flip: unat_eq_0)
  then show ?thesis using st jk by (simp add: write_prefix_def Let_def flush_err_def set_cbb_def)
qed

end
