(* ===== verification/Qsort.thy ===== *)
theory Qsort
  imports Prelude "HOL-Library.Multiset"
begin

text \<open>
  The sort of the C library, \<^verbatim>\<open>qsort\<close>, an argument of the functions that use it and known by its
  contract, the locale \<open>sorter\<close>; insertion sort is one that keeps it.
\<close>

text \<open>\<^verbatim>\<open>qsort\<close> permutes its array and, given a comparison that orders the elements, sorts it.
  The comparison orders the elements by a key when its sign says how the keys compare.\<close>

definition orders :: "('a \<Rightarrow> 'a \<Rightarrow> int) \<Rightarrow> ('a \<Rightarrow> 'k::linorder) \<Rightarrow> 'a set \<Rightarrow> bool" where
  "orders cmp key A \<longleftrightarrow> (\<forall>a\<in>A. \<forall>b\<in>A. (cmp a b < 0 \<longleftrightarrow> key a < key b) \<and> (cmp a b = 0 \<longleftrightarrow> key a = key b))"

definition consistent :: "('a \<Rightarrow> 'a \<Rightarrow> int) \<Rightarrow> 'a set \<Rightarrow> bool" where
  "consistent cmp A \<longleftrightarrow> (\<forall>a\<in>A. \<forall>b\<in>A. cmp a b < 0 \<longleftrightarrow> 0 < cmp b a) \<and>
     (\<forall>a\<in>A. \<forall>b\<in>A. \<forall>c\<in>A. cmp a b \<le> 0 \<longrightarrow> cmp b c \<le> 0 \<longrightarrow> cmp a c \<le> 0)"

lemma consistent_subset: "consistent cmp A \<Longrightarrow> B \<subseteq> A \<Longrightarrow> consistent cmp B"
  unfolding consistent_def by blast

lemma orders_le: "orders cmp key A \<Longrightarrow> a \<in> A \<Longrightarrow> b \<in> A \<Longrightarrow> cmp a b \<le> 0 \<longleftrightarrow> key a \<le> key b"
  by (auto simp: orders_def le_less)

lemma orders_consistent: "orders cmp key A \<Longrightarrow> consistent cmp A"
  unfolding consistent_def
proof (intro conjI ballI impI)
  fix a b assume o: "orders cmp key A" and ab: "a \<in> A" "b \<in> A"
  then have "cmp a b < 0 \<longleftrightarrow> key a < key b" "cmp b a \<le> 0 \<longleftrightarrow> key b \<le> key a"
    by (simp_all add: orders_def orders_le)
  then show "cmp a b < 0 \<longleftrightarrow> 0 < cmp b a" by (simp only: not_le [symmetric])
qed (meson order_trans orders_le)

locale sorter =
  fixes qsort :: "('a \<Rightarrow> 'a \<Rightarrow> int) \<Rightarrow> 'a list \<Rightarrow> 'a list"
  assumes permutes: "consistent cmp (set xs) \<Longrightarrow> mset (qsort cmp xs) = mset xs"
    and sorts: "consistent cmp (set xs) \<Longrightarrow> sorted_wrt (\<lambda>a b. cmp a b \<le> 0) (qsort cmp xs)"
begin

lemma keys_sorted:
  assumes "orders cmp key (set xs)"
  shows "map key (qsort cmp xs) = sort (map key xs)"
proof (rule properties_for_sort [symmetric])
  note c = orders_consistent [OF assms]
  have "set (qsort cmp xs) = set xs" using permutes [OF c] by (metis set_mset_mset)
  then have "sorted_wrt (\<lambda>a b. key a \<le> key b) (qsort cmp xs)"
    using sorted_wrt_mono_rel [OF _ sorts [OF c], of "\<lambda>a b. key a \<le> key b"] orders_le [OF assms] by simp
  then show "sorted (map key (qsort cmp xs))" by (simp only: sorted_map)
  show "mset (map key (qsort cmp xs)) = mset (map key xs)" using permutes [OF c] by simp
qed

end

fun insert_by :: "('a \<Rightarrow> 'a \<Rightarrow> int) \<Rightarrow> 'a \<Rightarrow> 'a list \<Rightarrow> 'a list" where
  "insert_by cmp x [] = [x]"
| "insert_by cmp x (y # ys) = (if cmp x y \<le> 0 then x # y # ys else y # insert_by cmp x ys)"

definition insertion_sort :: "('a \<Rightarrow> 'a \<Rightarrow> int) \<Rightarrow> 'a list \<Rightarrow> 'a list" where
  "insertion_sort cmp xs = foldr (insert_by cmp) xs []"

lemma mset_insert_by [simp]: "mset (insert_by cmp x ys) = add_mset x (mset ys)"
  by (induction ys) auto

lemma mset_insertion_sort [simp]: "mset (insertion_sort cmp xs) = mset xs"
  by (induction xs) (simp_all add: insertion_sort_def)

lemma set_insert_by [simp]: "set (insert_by cmp x ys) = insert x (set ys)"
  by (induction ys) auto

lemma sorted_insert_by:
  assumes "consistent cmp A" "x \<in> A" "set ys \<subseteq> A" "sorted_wrt (\<lambda>a b. cmp a b \<le> 0) ys"
  shows "sorted_wrt (\<lambda>a b. cmp a b \<le> 0) (insert_by cmp x ys)"
  using assms(3,4)
proof (induction ys)
  case (Cons y ys)
  have anti: "cmp y x \<le> 0" if "\<not> cmp x y \<le> 0"
  proof -
    have "y \<in> A" using Cons.prems by simp
    then have "cmp y x < 0 \<longleftrightarrow> 0 < cmp x y" using assms(1,2) unfolding consistent_def by blast
    then show ?thesis using that by simp
  qed
  have "cmp x z \<le> 0" if "cmp x y \<le> 0" "z \<in> set ys" for z
  proof -
    have "cmp y z \<le> 0" "z \<in> A" "y \<in> A" using Cons.prems that by auto
    then show ?thesis using assms(1,2) that(1) unfolding consistent_def by blast
  qed
  then show ?case using Cons anti by simp
qed simp

lemma set_insertion_sort [simp]: "set (insertion_sort cmp xs) = set xs"
  by (metis mset_insertion_sort set_mset_mset)

lemma sorted_insertion_sort:
  "consistent cmp A \<Longrightarrow> set xs \<subseteq> A \<Longrightarrow> sorted_wrt (\<lambda>a b. cmp a b \<le> 0) (insertion_sort cmp xs)"
proof (induction xs)
  case (Cons x xs)
  then show ?case
    using sorted_insert_by [of cmp A x "insertion_sort cmp xs"] by (simp add: insertion_sort_def [of cmp "_ # _"])
      (simp add: insertion_sort_def)
qed (simp add: insertion_sort_def)

interpretation ins: sorter insertion_sort
  by unfold_locales (simp_all add: sorted_insertion_sort)

end
