(* ===== verification/Cbb_Set.thy ===== *)
theory Cbb_Set
  imports Cbb_Props Qsort "HOL-Library.List_Lexorder"
begin

text \<open>
  \<^verbatim>\<open>CBB_flush_asn1_set_of\<close> of \<^verbatim>\<open>crypto/bytestring/cbb.c\<close>, which puts the elements of
  a SET OF into DER order: it reads the written contents back with a \<^verbatim>\<open>CBS\<close>, sorts a copy of
  the elements with \<^verbatim>\<open>qsort\<close> and writes them again.  The sort of the C library is an argument,
  known by its contract (the locale \<open>sorter\<close> of \<open>Qsort\<close>).
\<close>

section \<open>The code\<close>

text \<open>The memory a buffer is, at the addresses its indices are.\<close>

definition buf_mem :: "u8 list \<Rightarrow> mem" where
  "buf_mem bs = (\<lambda>a. if unat a < length bs then bs ! unat a else 0)"

text \<open>\<^verbatim>\<open>memcmp\<close>: the difference of the first two bytes that differ.\<close>

fun OPENSSL_memcmp :: "mem \<Rightarrow> addr \<Rightarrow> addr \<Rightarrow> nat \<Rightarrow> int" where
  "OPENSSL_memcmp m a b 0 = 0"
| "OPENSSL_memcmp m a b (Suc n) =
     (if m a \<noteq> m b then int (unat (m a)) - int (unat (m b)) else OPENSSL_memcmp m (a + 1) (b + 1) n)"

definition compare_set_of_element :: "mem \<Rightarrow> cbs \<Rightarrow> cbs \<Rightarrow> int" where
  "compare_set_of_element m a b =
     (let a_len = cbs_len a; b_len = cbs_len b;
          min_len = (if a_len < b_len then a_len else b_len);
          ret = OPENSSL_memcmp m (cbs_data a) (cbs_data b) (unat min_len) in
      if ret \<noteq> 0 then ret
      else if a_len = b_len then 0
      else if a_len < b_len then -1 else 1)"

lemma any_element_shrinks:
  assumes "CBS_get_any_asn1_element m c = (Some e, c')"
  shows "unat (cbs_len c') < unat (cbs_len c)"
proof -
  obtain out t hl where e: "e = (out, t, hl)" by (cases e)
  obtain body rest where b: "cbs_bytes m c = der_element t body @ rest"
    and c': "c' = cbs_adv (length (der_element t body)) c"
    using element_sound [OF assms [unfolded CBS_get_any_asn1_element_def e]] by blast
  have "unat (cbs_len c) = length (der_element t body) + length rest" using arg_cong [OF b, of length] by simp
  moreover have "0 < length (der_element t body)" using length_der_tag [of t] by (simp add: der_element_def)
  ultimately show ?thesis using c' by (simp add: len_adv)
qed

function count_children :: "mem \<Rightarrow> cbs \<Rightarrow> nat option" where
  "count_children m c =
     (if cbs_len c = 0 then Some 0
      else case CBS_get_any_asn1_element m c of
          (None, _) \<Rightarrow> None
        | (Some _, c) \<Rightarrow> map_option Suc (count_children m c))"
  by pat_completeness auto
termination
  by (relation "measure (\<lambda>(m, c). unat (cbs_len c))") (auto dest: any_element_shrinks [OF sym])

declare count_children.simps [simp del]

fun parse_children :: "mem \<Rightarrow> nat \<Rightarrow> cbs \<Rightarrow> cbs list option" where
  "parse_children m 0 c = Some []"
| "parse_children m (Suc n) c =
     (case CBS_get_any_asn1_element m c of
        (None, _) \<Rightarrow> None
      | (Some (child, _, _), c) \<Rightarrow> map_option (Cons child) (parse_children m n c))"

definition sizeof_CBS :: nat where "sizeof_CBS = 16"

definition CBB_flush_asn1_set_of ::
  "nat \<Rightarrow> cbb_env \<Rightarrow> ((cbs \<Rightarrow> cbs \<Rightarrow> int) \<Rightarrow> cbs list \<Rightarrow> cbs list) \<Rightarrow> nat \<Rightarrow> cbb_state \<Rightarrow> (bool \<times> cbb_state) option" where
  "CBB_flush_asn1_set_of n env qsort k =
     flush_then n env k (\<lambda>s.
       let m = buf_mem (buf (base s)); start = CBB_data k s; buf_len = CBB_len k s in
       case count_children m (CBS_init start buf_len) of
         None \<Rightarrow> Some (False, s)
       | Some num_children \<Rightarrow>
           if num_children < 2 then Some (True, s)
           else if num_children > 0xffffffffffffffff div sizeof_CBS then Some (False, s)
           else if \<not> alloc_ok env buf_len \<or> \<not> alloc_ok env (of_nat (num_children * sizeof_CBS)) then Some (False, s)
           else
             let copy = buf_mem (read_bytes m start (unat buf_len)) in
             (case parse_children copy num_children (CBS_init 0 buf_len) of
                None \<Rightarrow> Some (False, s)
              | Some children \<Rightarrow>
                  loopM (\<lambda>c. CBB_add_bytes n env k (read_bytes copy (cbs_data c) (unat (cbs_len c))))
                    (qsort (compare_set_of_element copy) children)
                    (s\<lparr>base := (base s)\<lparr>blen := c_offset (cbbs s k) + ucast (c_pending_len_len (cbbs s k))\<rparr>\<rparr>)))"

section \<open>The comparison\<close>

lemma read_buf_mem:
  assumes "unat a + n \<le> length bs" "length bs < 2 ^ 64"
  shows "read_bytes (buf_mem bs) a n = take n (drop (unat a) bs)"
proof (rule nth_equalityI)
  fix i assume "i < length (read_bytes (buf_mem bs) a n)"
  then have "i < n" by simp
  moreover from this have "unat (a + of_nat i) = unat a + i" using assms by (simp add: unat_word_ariths)
  ultimately show "read_bytes (buf_mem bs) a n ! i = take n (drop (unat a) bs) ! i"
    using assms(1) by (simp add: buf_mem_def)
qed (use assms(1) in simp)

definition tie_break :: "int \<Rightarrow> nat \<Rightarrow> nat \<Rightarrow> int" where
  "tie_break ret a_len b_len =
     (if ret \<noteq> 0 then ret else if a_len = b_len then 0 else if a_len < b_len then -1 else 1)"

lemma memcmp_lexicographic:
  "(tie_break (OPENSSL_memcmp m a b (min k l)) k l < 0 \<longleftrightarrow> read_bytes m a k < read_bytes m b l) \<and>
   (tie_break (OPENSSL_memcmp m a b (min k l)) k l = 0 \<longleftrightarrow> read_bytes m a k = read_bytes m b l)"
proof (induction k arbitrary: a b l)
  case 0
  then show ?case by (cases l) (simp_all add: tie_break_def read_bytes_Suc)
next
  case (Suc k)
  show ?case
  proof (cases l)
    case 0
    then show ?thesis by (simp add: tie_break_def read_bytes_Suc)
  next
    case l: (Suc l')
    have "m a = m b \<Longrightarrow> tie_break (OPENSSL_memcmp m a b (min (Suc k) l)) (Suc k) l =
        tie_break (OPENSSL_memcmp m (a + 1) (b + 1) (min k l')) k l'"
      by (simp add: l tie_break_def)
    moreover have "tie_break (OPENSSL_memcmp m a b (min (Suc k) l)) (Suc k) l = uint (m a) - uint (m b)"
      if "m a \<noteq> m b" using that by (simp add: l tie_break_def word_uint_eq_iff)
    moreover have "m a \<noteq> m b \<Longrightarrow> uint (m a) \<noteq> uint (m b)" by (simp add: word_uint_eq_iff)
    ultimately show ?thesis using Suc.IH [of "a + 1" "b + 1" l']
      by (cases "m a = m b") (auto simp: l read_bytes_Suc word_less_def)
  qed
qed

lemma compare_orders: "orders (compare_set_of_element m) (cbs_bytes m) A"
proof -
  have "compare_set_of_element m a b =
      tie_break (OPENSSL_memcmp m (cbs_data a) (cbs_data b) (min (unat (cbs_len a)) (unat (cbs_len b))))
        (unat (cbs_len a)) (unat (cbs_len b))" for a b
    by (simp add: compare_set_of_element_def tie_break_def Let_def word_less_nat_alt word_unat_eq_iff min_def
        split: if_splits)
  then show ?thesis
    using memcmp_lexicographic by (simp add: orders_def cbs_bytes_def)
qed

section \<open>The children\<close>

definition der_value :: "u8 list \<Rightarrow> bool" where
  "der_value e \<longleftrightarrow> (\<exists>t body. e = der_element t body \<and> length body < 2 ^ 32)"

lemma any_element_complete:
  assumes "der_value e" "cbs_bytes m c = e @ rest"
  shows "\<exists>t hl. CBS_get_any_asn1_element m c = (Some (cbs_front (length e) c, t, hl), cbs_adv (length e) c)"
  using assms element_complete unfolding der_value_def CBS_get_any_asn1_element_def by blast

lemma any_element_sound:
  assumes "CBS_get_any_asn1_element m c = (Some x, c')"
  shows "\<exists>e rest. der_value e \<and> cbs_bytes m c = e @ rest \<and> c' = cbs_adv (length e) c"
proof -
  obtain out t hl where x: "x = (out, t, hl)" by (cases x)
  show ?thesis
    using element_sound [OF assms [unfolded CBS_get_any_asn1_element_def x]] unfolding der_value_def by blast
qed

lemma bytes_rest:
  assumes "cbs_bytes m c = e @ rest"
  shows "cbs_bytes m (cbs_adv (length e) c) = rest" "cbs_bytes m (cbs_front (length e) c) = e"
proof -
  have "unat (cbs_len c) = length e + length rest" using arg_cong [OF assms, of length] by simp
  then show "cbs_bytes m (cbs_adv (length e) c) = rest" "cbs_bytes m (cbs_front (length e) c) = e"
    using assms by (simp_all add: bytes_adv bytes_front)
qed

lemma der_value_not_Nil: "der_value e \<Longrightarrow> e \<noteq> []"
  using length_der_tag by (auto simp: der_value_def der_element_def)

lemma bytes_empty: "cbs_bytes m c = [] \<longleftrightarrow> cbs_len c = 0"
  by (simp only: length_0_conv [symmetric] length_cbs_bytes unat_eq_0)

lemma count_complete:
  "list_all der_value es \<Longrightarrow> cbs_bytes m c = concat es \<Longrightarrow> count_children m c = Some (length es)"
proof (induction es arbitrary: c)
  case Nil
  then show ?case using bytes_empty by (subst count_children.simps) simp
next
  case (Cons e es)
  then have b: "cbs_bytes m c = e @ concat es" and e: "der_value e" by simp_all
  then have "cbs_len c \<noteq> 0" using bytes_empty [of m c] der_value_not_Nil by auto
  moreover have "count_children m (cbs_adv (length e) c) = Some (length es)"
    using Cons bytes_rest(1) [OF b] by simp
  ultimately show ?case using any_element_complete [OF e b] by (subst count_children.simps) auto
qed

lemma count_sound:
  "count_children m c = Some n \<Longrightarrow> \<exists>es. list_all der_value es \<and> cbs_bytes m c = concat es"
proof (induction m c arbitrary: n rule: count_children.induct)
  case (1 m c)
  show ?case
  proof (cases "cbs_len c = 0")
    case True
    then show ?thesis using bytes_empty [of m c] by (intro exI [of _ "[]"]) simp
  next
    case False
    then obtain x c' k where g: "CBS_get_any_asn1_element m c = (Some x, c')" and k: "count_children m c' = Some k"
      using 1(2) by (subst (asm) count_children.simps) (auto split: prod.splits option.splits)
    obtain e rest where e: "der_value e" "cbs_bytes m c = e @ rest" "c' = cbs_adv (length e) c"
      using any_element_sound [OF g] by blast
    obtain es where "list_all der_value es" "cbs_bytes m c' = concat es"
      using 1(1) [OF False g [symmetric] refl k] by blast
    then show ?thesis using e bytes_rest(1) [OF e(2)] by (intro exI [of _ "e # es"]) simp
  qed
qed

lemma parse_complete:
  "list_all der_value es \<Longrightarrow> cbs_bytes m c = concat es \<Longrightarrow>
   \<exists>cs. parse_children m (length es) c = Some cs \<and> map (cbs_bytes m) cs = es"
proof (induction es arbitrary: c)
  case (Cons e es)
  then have b: "cbs_bytes m c = e @ concat es" and e: "der_value e" by simp_all
  then obtain cs where "parse_children m (length es) (cbs_adv (length e) c) = Some cs" "map (cbs_bytes m) cs = es"
    using Cons bytes_rest(1) [OF b] by auto
  then show ?case using any_element_complete [OF e b] bytes_rest(2) [OF b]
    by (intro exI [of _ "cbs_front (length e) c # cs"]) auto
qed simp

section \<open>Sorting a set\<close>

text \<open>What \<open>k\<close> holds: the bytes behind its length prefix.\<close>

definition child_bytes :: "nat \<Rightarrow> cbb_state \<Rightarrow> u8 list" where
  "child_bytes k s = drop (unat (CBB_data k s)) (content (base s))"

lemma write_back:
  assumes "idle k s" "good s" "unat (CBB_data k s) \<le> unat (blen (base s))"
    and "length (concat (map (cbs_bytes m) cs)) = length (child_bytes k s)"
  shows "\<exists>s'. loopM (\<lambda>c. CBB_add_bytes (Suc n) env k (read_bytes m (cbs_data c) (unat (cbs_len c)))) cs
       (s\<lparr>base := (base s)\<lparr>blen := CBB_data k s\<rparr>\<rparr>) = Some (True, s') \<and>
     content (base s') = take (unat (CBB_data k s)) (content (base s)) @ concat (map (cbs_bytes m) cs) \<and>
     cbbs s' = cbbs s \<and> good s'"
proof -
  let ?s = "s\<lparr>base := (base s)\<lparr>blen := CBB_data k s\<rparr>\<rparr>" and ?bs = "concat (map (cbs_bytes m) cs)"
  let ?r = "loopM (\<lambda>c. CBB_add_bytes (Suc n) env k (read_bytes m (cbs_data c) (unat (cbs_len c)))) cs ?s"
  have w: "wf_buf (base s)" using assms(2) by (simp add: good_def)
  have i: "idle k ?s" "good ?s" using assms(1-3) by (auto simp: idle_def good_def wf_buf_def)
  have "length ?bs = unat (blen (base s)) - unat (CBB_data k s)"
    using assms(4) length_content [OF w] by (simp only: child_bytes_def length_drop)
  then have room: "room env (base ?s) (length ?bs)"
    using assms(3) w le_less_trans [OF _ u64_less [of "cap (base s)"]] by (simp add: room_def wf_buf_def)
  have "appends env {} ?bs ?s ?r"
    using i by (intro loop_appends) (auto simp: cbs_bytes_def intro: add_bytes_appends)
  then obtain s' where "?r = Some (True, s')" "after {} ?bs ?s s'"
    using room by (auto simp: appends_def split: option.splits if_splits)
  moreover have "content (base ?s) = take (unat (CBB_data k s)) (content (base s))"
    using assms(3) by (simp add: content_def min.absorb1)
  ultimately show ?thesis by (intro exI [of _ s']) (auto simp: after_def extended_def)
qed

lemma set_of_views:
  assumes "good s" "unat (CBB_data k s) \<le> unat (blen (base s))"
  defines "m \<equiv> buf_mem (buf (base s))"
  shows "cbs_bytes m (CBS_init (CBB_data k s) (CBB_len k s)) = child_bytes k s"
    and "read_bytes m (CBB_data k s) (unat (CBB_len k s)) = child_bytes k s"
    and "cbs_bytes (buf_mem (child_bytes k s)) (CBS_init 0 (CBB_len k s)) = child_bytes k s"
proof -
  let ?body = "child_bytes k s"
  have w: "wf_buf (base s)" using assms(1) by (simp add: good_def)
  have len: "CBB_len k s = blen (base s) - CBB_data k s" by (simp add: CBB_len_def CBB_data_def)
  have l: "unat (CBB_len k s) = length ?body"
    using assms(2) w by (simp add: len unat_sub word_le_nat_alt child_bytes_def)
  have "length (buf (base s)) < 2 ^ 64" "unat (CBB_data k s) + length ?body \<le> length (buf (base s))"
    using w assms(2) by (simp_all add: wf_buf_def child_bytes_def content_def)
  from read_buf_mem [OF this(2,1)] show v: "read_bytes m (CBB_data k s) (unat (CBB_len k s)) = ?body"
    using w by (simp add: m_def l child_bytes_def) (simp add: content_def drop_take wf_buf_def)
  then show "cbs_bytes m (CBS_init (CBB_data k s) (CBB_len k s)) = ?body" by (simp add: cbs_bytes_def CBS_init_def)
  have "length ?body < 2 ^ 64" using l u64_less [of "CBB_len k s"] by simp
  then show "cbs_bytes (buf_mem ?body) (CBS_init 0 (CBB_len k s)) = ?body"
    using read_buf_mem [of 0 "length ?body" ?body] by (simp add: cbs_bytes_def CBS_init_def l)
qed

lemma sort_and_write:
  assumes "sorter qsort" "idle k s" "good s" "unat (CBB_data k s) \<le> unat (blen (base s))"
    and es: "list_all der_value es" "child_bytes k s = concat es"
  defines "copy \<equiv> buf_mem (child_bytes k s)"
  shows "\<exists>cs s'. parse_children copy (length es) (CBS_init 0 (CBB_len k s)) = Some cs \<and>
    loopM (\<lambda>c. CBB_add_bytes (Suc n) env k (read_bytes copy (cbs_data c) (unat (cbs_len c))))
      (qsort (compare_set_of_element copy) cs) (s\<lparr>base := (base s)\<lparr>blen := CBB_data k s\<rparr>\<rparr>) = Some (True, s') \<and>
    content (base s') = take (unat (CBB_data k s)) (content (base s)) @ concat (sort es) \<and>
    cbbs s' = cbbs s \<and> good s'"
proof -
  obtain cs where cs: "parse_children copy (length es) (CBS_init 0 (CBB_len k s)) = Some cs"
      "map (cbs_bytes copy) cs = es"
    using parse_complete [OF es(1)] set_of_views(3) [OF assms(3,4)] es(2) unfolding copy_def by metis
  have keys: "map (cbs_bytes copy) (qsort (compare_set_of_element copy) cs) = sort es"
    using sorter.keys_sorted [OF assms(1) compare_orders] cs(2) by metis
  have "length (concat (sort es)) = length (child_bytes k s)"
    unfolding es(2) length_concat by (metis mset_map mset_sort sum_mset_sum_list)
  then show ?thesis
    using write_back [OF assms(2-4), of copy "qsort (compare_set_of_element copy) cs" n env] cs(1)
    by (simp add: keys)
qed

text \<open>C40. \<^verbatim>\<open>CBB_flush_asn1_set_of\<close> puts a SET OF into DER order.  For any \<^verbatim>\<open>qsort\<close>
  that keeps its contract: once the object is flushed, contents that are a sequence of DER elements are
  replaced by the same elements in ascending lexicographic order of their encodings, in the same place
  and with everything in front of them untouched; fewer than two elements are left alone, and the call
  fails, changing nothing, when the copies cannot be allocated or the contents are not such a
  sequence.\<close>

theorem set_of_sorted:
  assumes "sorter qsort" "CBB_flush n env k s0 = Some (True, s)" "idle k s" "good s"
    and "unat (CBB_data k s) \<le> unat (blen (base s))"
  shows "(\<forall>es. list_all der_value es \<and> child_bytes k s = concat es \<longrightarrow>
      (if length es < 2 then CBB_flush_asn1_set_of n env qsort k s0 = Some (True, s)
       else if length es \<le> 0xffffffffffffffff div 16 \<and> alloc_ok env (CBB_len k s) \<and>
               alloc_ok env (of_nat (length es * 16))
       then \<exists>s'. CBB_flush_asn1_set_of n env qsort k s0 = Some (True, s') \<and>
              content (base s') = take (unat (CBB_data k s)) (content (base s)) @ concat (sort es) \<and>
              cbbs s' = cbbs s \<and> good s'
       else CBB_flush_asn1_set_of n env qsort k s0 = Some (False, s))) \<and>
    ((\<nexists>es. list_all der_value es \<and> child_bytes k s = concat es) \<longrightarrow>
      CBB_flush_asn1_set_of n env qsort k s0 = Some (False, s))"
proof -
  let ?r = "CBB_flush_asn1_set_of n env qsort k s0" and ?body = "child_bytes k s"
  let ?m = "buf_mem (buf (base s))" and ?c = "CBS_init (CBB_data k s) (CBB_len k s)"
  let ?copy = "buf_mem ?body" and ?d = "CBS_init 0 (CBB_len k s)"
  obtain n' where n: "n = Suc n'" using assms(2) by (cases n) simp_all
  note v = set_of_views [OF assms(4,5)]
  have r: "?r = (case count_children ?m ?c of
         None \<Rightarrow> Some (False, s)
       | Some num_children \<Rightarrow>
           if num_children < 2 then Some (True, s)
           else if num_children > 0xffffffffffffffff div 16 then Some (False, s)
           else if \<not> alloc_ok env (CBB_len k s) \<or> \<not> alloc_ok env (of_nat (num_children * 16)) then Some (False, s)
           else
             (case parse_children ?copy num_children ?d of
                None \<Rightarrow> Some (False, s)
              | Some children \<Rightarrow>
                  loopM (\<lambda>c. CBB_add_bytes n env k (read_bytes ?copy (cbs_data c) (unat (cbs_len c))))
                    (qsort (compare_set_of_element ?copy) children)
                    (s\<lparr>base := (base s)\<lparr>blen := CBB_data k s\<rparr>\<rparr>)))"
    unfolding CBB_flush_asn1_set_of_def flush_then_def Let_def sizeof_CBS_def CBB_data_def [symmetric]
      assms(2) and_then_opt_simps v(2) by (rule refl)
  show ?thesis
  proof (intro conjI allI impI)
    fix es assume es: "list_all der_value es \<and> ?body = concat es"
    then have "count_children ?m ?c = Some (length es)" using v(1) by (intro count_complete) simp_all
    then show "if length es < 2 then ?r = Some (True, s)
       else if length es \<le> 0xffffffffffffffff div 16 \<and> alloc_ok env (CBB_len k s) \<and>
               alloc_ok env (of_nat (length es * 16))
       then \<exists>s'. ?r = Some (True, s') \<and>
              content (base s') = take (unat (CBB_data k s)) (content (base s)) @ concat (sort es) \<and>
              cbbs s' = cbbs s \<and> good s'
       else ?r = Some (False, s)"
      unfolding r using sort_and_write [OF assms(1,3-5), of es n' env] es by (auto simp: n)
  next
    assume "\<nexists>es. list_all der_value es \<and> ?body = concat es"
    then have "count_children ?m ?c = None" using count_sound [of ?m ?c] v(1) by (cases "count_children ?m ?c") auto
    then show "?r = Some (False, s)" unfolding r by simp
  qed
qed

definition example_set :: cbb_state where
  "example_set = example_cbb\<lparr>base := \<lparr>buf = [2, 1, 5, 2, 1, 3], blen = 6, cap = 6, can_resize = False, error = False\<rparr>\<rparr>"

lemma der_tag_2: "der_tag 2 = [2]"
  by code_simp

theorem set_of_sorted_witness:
  "\<exists>s'. CBB_flush_asn1_set_of 1 \<lparr>alloc_ok = \<lambda>_. True, block_ok = True, junk = 0\<rparr> insertion_sort 0 example_set =
       Some (True, s') \<and> content (base s') = [2, 1, 3, 2, 1, 5]"
proof -
  let ?env = "\<lparr>alloc_ok = \<lambda>_. True, block_ok = True, junk = 0\<rparr>"
  have i: "idle 0 example_set" "good example_set" "CBB_data 0 example_set = 0"
    using example_cbb_ready by (simp_all add: example_set_def idle_def good_def wf_buf_def CBB_data_def
        example_cbb_def example_cbb_env_def CBB_init_fixed_def cbb_init_def set_cbb_def CBB_zero_def)
  have f: "CBB_flush 1 ?env 0 example_set = Some (True, example_set)"
    using flush_idle [OF i(1,2), of 0 ?env] by simp
  have "der_value [2, 1, 5]" "der_value [2, 1, 3]"
    unfolding der_value_def by (rule exI [of _ 2], rule exI [of _ "[5]"], simp add: der_element_def der_length_def der_tag_2)
      (rule exI [of _ 2], rule exI [of _ "[3]"], simp add: der_element_def der_length_def der_tag_2)
  moreover have "content (base example_set) = [2, 1, 5, 2, 1, 3]" by (simp add: content_def example_set_def)
  moreover from this have "child_bytes 0 example_set = concat [[2, 1, 5], [2, 1, 3]]"
    by (simp add: child_bytes_def i(3))
  ultimately show ?thesis
    using set_of_sorted [OF ins.sorter_axioms f i(1,2), THEN conjunct1, rule_format, of "[[2, 1, 5], [2, 1, 3]]"]
    by (auto simp: i(3))
qed

end
