(* ===== verification/Cbb_Chain.thy ===== *)
theory Cbb_Chain
  imports Cbb_Props
begin

text \<open>
  The writer as a client sees it: a chain of objects, each the pending child of the one before, into
  any of which bytes may be written at any time; what is pending below the one written to is closed
  first.  The abstract state is a stack of frames, each with its kind and the contents so far, and the
  abstract operations work on the frames alone.  The theory shows that the code implements them, for
  every sequence of operations (a step relation), and what follows for a whole session.
\<close>

section \<open>The abstract writer\<close>

text \<open>\<open>Asn1\<close>: a DER length, for which one byte is reserved; \<open>Fixed l\<close>: a big-endian length of
  \<open>l\<close> bytes.  The root is the frame \<open>Fixed 0\<close>, which has no length.\<close>

datatype frame_kind = Asn1 | Fixed u8

type_synonym frame = "frame_kind \<times> u8 list"

fun placeholder :: "frame_kind \<Rightarrow> u8 list" where
  "placeholder Asn1 = [0]"
| "placeholder (Fixed l) = replicate (unat l) 0"

fun render :: "frame list \<Rightarrow> u8 list" where
  "render [] = []"
| "render ((kd, bs) # fs) = placeholder kd @ bs @ render fs"

text \<open>A frame is closed by putting its length in front of its contents, if it fits.\<close>

fun close_frame :: "frame_kind \<Rightarrow> u8 list \<Rightarrow> u8 list option" where
  "close_frame Asn1 bs = (if length bs \<le> 0xfffffffe then Some (der_length (length bs) @ bs) else None)"
| "close_frame (Fixed l) bs =
     (if length bs < 256 ^ unat l then Some (rev (word_to_bytes (unat l) (of_nat (length bs) :: u64)) @ bs)
      else None)"

fun collapse :: "frame list \<Rightarrow> u8 list option" where
  "collapse [] = Some []"
| "collapse ((kd, bs) # fs) =
     (case collapse fs of None \<Rightarrow> None | Some ys \<Rightarrow> close_frame kd (bs @ ys))"

text \<open>Closing what is below frame \<open>k\<close>.\<close>

fun settle :: "nat \<Rightarrow> frame list \<Rightarrow> frame list option" where
  "settle k [] = None"
| "settle 0 ((kd, bs) # fs) = map_option (\<lambda>ys. [(kd, bs @ ys)]) (collapse fs)"
| "settle (Suc k) (f # fs) = map_option (Cons f) (settle k fs)"

definition add_last :: "u8 list \<Rightarrow> frame list \<Rightarrow> frame list" where
  "add_last bs fs = butlast fs @ [(fst (last fs), snd (last fs) @ bs)]"

text \<open>A client's operation on the object at depth \<open>k\<close>; a new child is the object at depth \<open>k + 1\<close>.\<close>

datatype cbb_op = Bytes nat "u8 list" | Element nat u32 | Prefixed nat u8 | Flush nat | Discard nat

fun op_depth :: "cbb_op \<Rightarrow> nat" where
  "op_depth (Bytes k bs) = k"
| "op_depth (Element k t) = k"
| "op_depth (Prefixed k l) = k"
| "op_depth (Flush k) = k"
| "op_depth (Discard k) = k"

fun op_ok :: "cbb_op \<Rightarrow> bool" where
  "op_ok (Bytes k bs) = (length bs < 2 ^ 64)"
| "op_ok (Prefixed k l) = (l \<noteq> 0)"
| "op_ok _ = True"

fun abstract_op :: "cbb_op \<Rightarrow> frame list \<Rightarrow> frame list option" where
  "abstract_op (Bytes k bs) fs = map_option (add_last bs) (settle k fs)"
| "abstract_op (Element k t) fs = map_option (\<lambda>fs. add_last (der_tag t) fs @ [(Asn1, [])]) (settle k fs)"
| "abstract_op (Prefixed k l) fs = map_option (\<lambda>fs. fs @ [(Fixed l, [])]) (settle k fs)"
| "abstract_op (Flush k) fs = settle k fs"
| "abstract_op (Discard k) fs = Some (take (Suc k) fs)"

fun run_op :: "nat \<Rightarrow> cbb_env \<Rightarrow> cbb_op \<Rightarrow> cbb_state \<Rightarrow> (bool \<times> cbb_state) option" where
  "run_op n env (Bytes k bs) s = CBB_add_bytes n env k bs s"
| "run_op n env (Element k t) s = CBB_add_asn1 n env k (Suc k) t s"
| "run_op n env (Prefixed k l) s = cbb_add_length_prefixed n env k (Suc k) l s"
| "run_op n env (Flush k) s = CBB_flush n env k s"
| "run_op n env (Discard k) s = Some (True, CBB_discard_child k s)"

section \<open>The chain of objects\<close>

text \<open>The object of a frame of kind \<open>kd\<close> whose length starts at \<open>off\<close>.\<close>

definition object_ok :: "cbb \<Rightarrow> frame_kind \<Rightarrow> nat \<Rightarrow> bool" where
  "object_ok c kd off \<longleftrightarrow> c_base c \<and> unat (c_offset c) = off \<and>
     unat (c_pending_len_len c) = length (placeholder kd) \<and> c_pending_is_asn1 c = (kd = Asn1)"

fun linked :: "nat \<Rightarrow> nat \<Rightarrow> frame list \<Rightarrow> (nat \<Rightarrow> cbb) \<Rightarrow> bool" where
  "linked k off [] h = True"
| "linked k off ((kd, bs) # fs) h \<longleftrightarrow> object_ok (h k) kd off \<and>
     c_child (h k) = (if fs = [] then None else Some (Suc k)) \<and>
     list_all (\<lambda>f. fst f \<noteq> Fixed 0) fs \<and>
     linked (Suc k) (off + length (placeholder kd) + length bs) fs h"

definition chain :: "frame list \<Rightarrow> cbb_state \<Rightarrow> bool" where
  "chain fs s \<longleftrightarrow> good s \<and> fs \<noteq> [] \<and> fst (hd fs) = Fixed 0 \<and> content (base s) = render fs \<and>
     linked 0 0 fs (cbbs s) \<and> \<not> c_is_child (cbbs s 0)"

lemma length_placeholder: "kd \<noteq> Fixed 0 \<Longrightarrow> 0 < length (placeholder kd)"
  by (cases kd) (auto simp: unat_gt_0)

lemma close_frame_grows: "close_frame kd bs = Some ys \<Longrightarrow> length (placeholder kd) + length bs \<le> length ys"
  using length_der_length [of "length bs"] by (cases kd) (auto simp: Suc_le_eq split: if_splits)

lemma collapse_grows: "collapse fs = Some ys \<Longrightarrow> length (render fs) \<le> length ys"
  by (induction fs arbitrary: ys) (auto split: option.splits dest!: close_frame_grows)

section \<open>Closing a child\<close>

text \<open>The shared buffer became \<open>out\<close>, \<open>k\<close> lost its child, the objects above \<open>k\<close> are untouched.\<close>

definition becomes :: "nat \<Rightarrow> u8 list \<Rightarrow> cbb_state \<Rightarrow> cbb_state \<Rightarrow> bool" where
  "becomes k out s s' \<longleftrightarrow> good s' \<and> content (base s') = out \<and> can_resize (base s') = can_resize (base s) \<and>
     unat (cap (base s)) \<le> unat (cap (base s')) \<and> cbbs s' k = (cbbs s k)\<lparr>c_child := None\<rparr> \<and>
     (\<forall>i < k. cbbs s' i = cbbs s i)"

definition flushes :: "cbb_env \<Rightarrow> nat \<Rightarrow> u8 list \<Rightarrow> cbb_state \<Rightarrow> (bool \<times> cbb_state) option \<Rightarrow> bool" where
  "flushes env k out s r \<longleftrightarrow>
     (case r of None \<Rightarrow> False
      | Some (ok, s') \<Rightarrow>
          if ok then becomes k out s s' else \<not> room env (base s) (length out - length (content (base s))))"

lemma room_later:
  assumes "good s" "good s'" "can_resize (base s') = can_resize (base s)"
    "unat (cap (base s)) \<le> unat (cap (base s'))"
    and "length (content (base s)) \<le> length (content (base s'))" "length (content (base s')) \<le> n"
    and "room env (base s) (n - length (content (base s)))"
  shows "room env (base s') (n - length (content (base s')))"
  using assms(3-7) good_blen [OF assms(1)] good_blen [OF assms(2)] by (auto simp: room_def)

lemma flush_asn1_long:
  assumes "0xfffffffe < length bs" "length bs < 2 ^ 64"
  shows "\<exists>s'. flush_asn1 env k j start (of_nat (length bs)) s = Some (False, s')"
proof -
  have "unat (of_nat (length bs) :: u64) = length bs" using assms(2) by simp
  then have "asn1_len_len (of_nat (length bs)) = None"
    using assms(1) by (simp add: asn1_len_len_def word_less_nat_alt)
  then show ?thesis by (simp add: flush_asn1_def flush_err_def)
qed

lemma close_child:
  assumes g: "good s" and jk: "k < j" and o: "object_ok (cbbs s j) kd (length pre)"
    and c: "content (base s) = pre @ placeholder kd @ bs"
  shows "case close_frame kd bs of
      None \<Rightarrow> \<exists>s'. finish_child env k j (c_offset (cbbs s j) + ucast (c_pending_len_len (cbbs s j))) s = Some (False, s')
    | Some ys \<Rightarrow> flushes env k (pre @ ys) s
        (finish_child env k j (c_offset (cbbs s j) + ucast (c_pending_len_len (cbbs s j))) s)"
proof -
  have off: "unat (c_offset (cbbs s j)) = length pre" "length (placeholder kd) = unat (c_pending_len_len (cbbs s j))"
    "c_pending_is_asn1 (cbbs s j) = (kd = Asn1)"
    using o by (simp_all add: object_ok_def)
  note fin = finish_child_eq [OF g off(1) c off(2), of env k]
  have lb: "length bs < 2 ^ 64" using good_blen [OF g] c u64_less [of "blen (base s)"] by simp
  show ?thesis
  proof (cases kd)
    case Asn1
    then have l1: "ucast (c_pending_len_len (cbbs s j)) = (1 :: u64)" using off(2)
      by (intro word_unat_eq_iff [THEN iffD2]) simp
    show ?thesis
    proof (cases "length bs \<le> 0xfffffffe")
      case False
      then show ?thesis using flush_asn1_long [of bs env k j _ s] lb fin off(3) Asn1 by (simp add: not_le)
    next
      case True
      have c': "content (base s) = pre @ [0] @ bs" using c Asn1 by simp
      have eq: "finish_child env k j (c_offset (cbbs s j) + ucast (c_pending_len_len (cbbs s j))) s =
          flush_asn1 env k j (c_offset (cbbs s j) + 1) (of_nat (length bs)) s"
        using fin off(3) Asn1 l1 by simp
      have "j \<noteq> k" using jk by simp
      then show ?thesis
      proof (cases rule: flush_asn1_cases [OF g c' True off(1), of k env, case_names _ ok full])
        case (ok b')
        then show ?thesis unfolding eq using True Asn1 jk g
          by (simp add: flushes_def becomes_def good_def)
      next
        case (full s')
        then show ?thesis unfolding eq using True Asn1 c' by (simp add: flushes_def)
      qed simp
    qed
  next
    case (Fixed l)
    have "finish_child env k j (c_offset (cbbs s j) + ucast (c_pending_len_len (cbbs s j))) s =
        write_prefix k j (of_nat (length bs)) s" using fin off(3) Fixed by simp
    moreover have "j \<noteq> k" using jk by simp
    note w = write_prefix_eq [OF this g off(2) [symmetric] off(1) c]
    have w2: "wf_buf (base s)" using g by (simp add: good_def)
    ultimately show ?thesis
      using w good_blen [OF g] c Fixed g jk
      by (auto simp: flushes_def becomes_def good_def wf_buf_def) (simp_all add: content_def)
  qed
qed

lemma no_child_same: "c_child c = None \<Longrightarrow> c\<lparr>c_child := None\<rparr> = c"
  by simp

text \<open>Flushing an object closes everything below it, from the innermost child outwards.\<close>

lemma flush_chain:
  assumes "good s" "linked k (length pre) ((kd, bs) # fs) (cbbs s)"
    and "content (base s) = pre @ render ((kd, bs) # fs)" "length fs < n"
  shows "case collapse fs of
      None \<Rightarrow> \<exists>s'. CBB_flush n env k s = Some (False, s')
    | Some ys \<Rightarrow> flushes env k (pre @ placeholder kd @ bs @ ys) s (CBB_flush n env k s)"
  using assms
proof (induction fs arbitrary: k kd bs pre n s)
  case Nil
  then obtain m where "n = Suc m" by (cases n) auto
  then show ?case using Nil flush_idle [of k s m env]
    by (simp add: idle_def object_ok_def flushes_def becomes_def no_child_same del: CBB_flush.simps)
next
  case (Cons f fs)
  obtain kd' bs' where f: "f = (kd', bs')" by (cases f)
  obtain m where n: "n = Suc m" "length fs < m" using Cons.prems(4) by (cases n) auto
  let ?pre = "pre @ placeholder kd @ bs"
  have l: "linked (Suc k) (length ?pre) ((kd', bs') # fs) (cbbs s)" and kd': "kd' \<noteq> Fixed 0"
    and k: "c_base (cbbs s k)" "c_child (cbbs s k) = Some (Suc k)"
    using Cons.prems(2) by (auto simp: f object_ok_def add.assoc)
  have c: "content (base s) = ?pre @ render ((kd', bs') # fs)" using Cons.prems(3) by (simp add: f)
  have o: "object_ok (cbbs s (Suc k)) kd' (length ?pre)" using l by simp
  have "0 < unat (c_pending_len_len (cbbs s (Suc k)))"
    using o length_placeholder [OF kd'] by (simp add: object_ok_def)
  then have nz: "c_pending_len_len (cbbs s (Suc k)) \<noteq> 0" by (simp add: unat_gt_0)
  have ne: "\<not> error (base s)" using Cons.prems(1) by (simp add: good_def)
  note IH = Cons.IH [OF Cons.prems(1) l c n(2)]
  note step = flush_pending [OF k(1) ne k(2) nz, of m env]
  show ?case
  proof (cases "collapse fs")
    case None
    then obtain s' where "CBB_flush m env (Suc k) s = Some (False, s')" using IH by auto
    then show ?thesis using None step by (simp add: f n(1) flush_err_def)
  next
    case (Some ys)
    then have fl: "flushes env (Suc k) (?pre @ placeholder kd' @ bs' @ ys) s (CBB_flush m env (Suc k) s)" using IH by simp
    then obtain ok s1 where r: "CBB_flush m env (Suc k) s = Some (ok, s1)" by (auto simp: flushes_def split: option.splits)
    have grows: "close_frame kd' (bs' @ ys) = Some zs \<Longrightarrow> length (content (base s)) \<le> length ?pre + length zs \<and>
        length (?pre @ placeholder kd' @ bs' @ ys) \<le> length ?pre + length zs" for zs
      using close_frame_grows [of kd' "bs' @ ys" zs] collapse_grows [OF Some] c by simp
    show ?thesis
    proof (cases ok)
      case False
      then have full: "\<not> room env (base s) (length (?pre @ placeholder kd' @ bs' @ ys) - length (content (base s)))"
        using fl r by (simp add: flushes_def)
      then have "\<not> room env (base s) (length (?pre @ zs) - length (content (base s)))"
        if "close_frame kd' (bs' @ ys) = Some zs" for zs
        using grows [OF that] room_mono [of env "base s"] by (metis diff_le_mono length_append)
      then show ?thesis using step r False Some
        by (auto simp: f n(1) flush_err_def flushes_def split: option.splits)
    next
      case True
      then have b: "becomes (Suc k) (?pre @ placeholder kd' @ bs' @ ys) s s1" using fl r by (simp add: flushes_def)
      have o1: "object_ok (cbbs s1 (Suc k)) kd' (length ?pre)" and g1: "good s1"
        and c1: "content (base s1) = ?pre @ placeholder kd' @ (bs' @ ys)"
        and same: "c_offset (cbbs s1 (Suc k)) = c_offset (cbbs s (Suc k))"
          "c_pending_len_len (cbbs s1 (Suc k)) = c_pending_len_len (cbbs s (Suc k))"
        using b o by (simp_all add: becomes_def object_ok_def)
      have fin: "CBB_flush n env k s =
          finish_child env k (Suc k) (c_offset (cbbs s1 (Suc k)) + ucast (c_pending_len_len (cbbs s1 (Suc k)))) s1"
        using step r True by (simp add: n(1) same)
      note close = close_child [OF g1 lessI o1 c1, of env, folded fin]
      show ?thesis
      proof (cases "close_frame kd' (bs' @ ys)")
        case None
        then show ?thesis using close Some by (simp add: f)
      next
        case z: (Some zs)
        have later: "room env (base s1) (length (?pre @ zs) - length (content (base s1)))"
          if "room env (base s) (length (?pre @ zs) - length (content (base s)))"
          using b grows [OF z] that c1 c collapse_grows [OF Some]
          by (intro room_later [OF Cons.prems(1) g1]) (simp_all add: becomes_def)
        have "flushes env k (?pre @ zs) s1 (CBB_flush n env k s)" using close z by simp
        then have "flushes env k (?pre @ zs) s (CBB_flush n env k s)"
          using b later by (auto simp: flushes_def becomes_def split: option.splits)
        then show ?thesis using Some z by (simp add: f)
      qed
    qed
  qed
qed

section \<open>The operations\<close>

lemma render_append [simp]: "render (fs @ gs) = render fs @ render gs"
  by (induction fs rule: render.induct) auto

lemma render_add_last: "fs \<noteq> [] \<Longrightarrow> render (add_last bs fs) = render fs @ bs"
  by (cases fs rule: rev_cases) (auto simp: add_last_def)

lemma settle_eq:
  "k < length fs \<Longrightarrow>
   settle k fs = map_option (\<lambda>ys. take k fs @ [(fst (fs ! k), snd (fs ! k) @ ys)]) (collapse (drop (Suc k) fs))"
  by (induction k fs rule: settle.induct) (auto simp: option.map_comp comp_def)

lemma linked_drop:
  "linked j off fs h \<Longrightarrow> i < length fs \<Longrightarrow> linked (j + i) (off + length (render (take i fs))) (drop i fs) h"
proof (induction j off fs h arbitrary: i rule: linked.induct)
  case (2 k off kd bs fs h)
  then show ?case by (cases i) (auto simp: add.assoc)
qed simp

lemma linked_cut:
  "linked j off fs h \<Longrightarrow> k < length fs \<Longrightarrow> \<forall>i < k. h' (j + i) = h (j + i) \<Longrightarrow>
   h' (j + k) = (h (j + k))\<lparr>c_child := None\<rparr> \<Longrightarrow> linked j off (take k fs @ [(fst (fs ! k), bs)]) h'"
proof (induction j off fs h arbitrary: k rule: linked.induct)
  case (2 j off kd bs' fs h)
  show ?case
  proof (cases k)
    case 0
    then show ?thesis using 2 by (simp add: object_ok_def)
  next
    case (Suc i)
    have "\<forall>a < i. h' (Suc j + a) = h (Suc j + a)" using "2.prems"(3) Suc by (metis Suc_less_eq add_Suc_shift)
    moreover have "h' (Suc j + i) = (h (Suc j + i))\<lparr>c_child := None\<rparr>" using "2.prems"(4) Suc by simp
    ultimately have "linked (Suc j) (off + length (placeholder kd) + length bs') (take i fs @ [(fst (fs ! i), bs)]) h'"
      using "2.prems" Suc by (intro "2.IH") simp_all
    moreover have "h' j = h j" using "2.prems"(3) Suc by (metis add.right_neutral zero_less_Suc)
    moreover have "list_all (\<lambda>f. fst f \<noteq> Fixed 0) (take i fs)" "fst (fs ! i) \<noteq> Fixed 0"
      using "2.prems"(1,2) Suc by (auto simp: list_all_iff dest: in_set_takeD)
    moreover have "fs \<noteq> []" using "2.prems"(2) Suc by auto
    ultimately show ?thesis using "2.prems"(1) Suc by simp
  qed
qed simp

lemma linked_add_last: "linked j off fs h \<Longrightarrow> fs \<noteq> [] \<Longrightarrow> linked j off (add_last bs fs) h"
proof (induction j off fs h rule: linked.induct)
  case (2 k off kd bs' fs h)
  show ?case
  proof (cases "fs = []")
    case True
    then show ?thesis using 2 by (simp add: add_last_def)
  next
    case False
    have "list_all (\<lambda>f. fst f \<noteq> Fixed 0) (add_last bs fs)"
      using 2(2) False by (auto simp: add_last_def list_all_iff dest: in_set_butlastD)
    moreover have "add_last bs ((kd, bs') # fs) = (kd, bs') # add_last bs fs" "add_last bs fs \<noteq> []"
      using False by (simp_all add: add_last_def)
    ultimately show ?thesis using 2 False by simp
  qed
qed simp

lemma linked_push:
  "linked j off fs h \<Longrightarrow> fs \<noteq> [] \<Longrightarrow> kd \<noteq> Fixed 0 \<Longrightarrow>
   \<forall>i. Suc i < length fs \<longrightarrow> h' (j + i) = h (j + i) \<Longrightarrow>
   h' (j + length fs - 1) = (h (j + length fs - 1))\<lparr>c_child := Some (j + length fs)\<rparr> \<Longrightarrow>
   object_ok (h' (j + length fs)) kd (off + length (render fs)) \<Longrightarrow> c_child (h' (j + length fs)) = None \<Longrightarrow>
   linked j off (fs @ [(kd, [])]) h'"
proof (induction j off fs h rule: linked.induct)
  case (2 j off kd' bs' fs h)
  show ?case
  proof (cases "fs = []")
    case True
    then show ?thesis using 2 by (simp add: object_ok_def add.assoc)
  next
    case False
    have "h' j = h j" using "2.prems"(4) False by (metis add.right_neutral length_Cons length_greater_0_conv Suc_less_eq)
    moreover have "\<forall>i. Suc i < length fs \<longrightarrow> h' (Suc j + i) = h (Suc j + i)"
      using "2.prems"(4) by (metis Suc_less_eq add_Suc_shift length_Cons)
    then have "linked (Suc j) (off + length (placeholder kd') + length bs') (fs @ [(kd, [])]) h'"
      using "2.prems" False by (intro "2.IH") (simp_all add: add.assoc)
    ultimately show ?thesis using "2.prems" False by simp
  qed
qed simp

text \<open>\<open>implements env a s r\<close>: the code's result \<open>r\<close> from \<open>s\<close> is the abstract result \<open>a\<close>; it may
  also fail for want of room.\<close>

definition implements :: "cbb_env \<Rightarrow> frame list option \<Rightarrow> cbb_state \<Rightarrow> (bool \<times> cbb_state) option \<Rightarrow> bool" where
  "implements env a s r \<longleftrightarrow>
     (case r of None \<Rightarrow> False
      | Some (ok, s') \<Rightarrow>
          (case a of None \<Rightarrow> \<not> ok
           | Some fs \<Rightarrow>
               if ok then chain fs s' \<and> can_resize (base s') = can_resize (base s) \<and>
                 unat (cap (base s)) \<le> unat (cap (base s'))
               else \<not> room env (base s) (length (render fs) - length (content (base s)))))"

lemma chain_part:
  assumes "chain fs s" "k < length fs"
  shows "linked k (length (render (take k fs))) (fs ! k # drop (Suc k) fs) (cbbs s)"
    and "content (base s) = render (take k fs) @ render (fs ! k # drop (Suc k) fs)"
proof -
  have d: "drop k fs = fs ! k # drop (Suc k) fs" using assms(2) by (simp add: Cons_nth_drop_Suc)
  show "linked k (length (render (take k fs))) (fs ! k # drop (Suc k) fs) (cbbs s)"
    using linked_drop [of 0 0 fs "cbbs s" k] assms by (simp add: chain_def d)
  show "content (base s) = render (take k fs) @ render (fs ! k # drop (Suc k) fs)"
    using assms(1) append_take_drop_id [of k fs] unfolding chain_def d by (metis render_append)
qed

lemma hd_cut: "k < length fs \<Longrightarrow> fst (hd (take k fs @ [(fst (fs ! k), bs)])) = fst (hd fs)"
  by (cases k; cases fs) auto

lemma becomes_root: "becomes k out s s' \<Longrightarrow> c_is_child (cbbs s' 0) = c_is_child (cbbs s 0)"
  by (cases k) (auto simp: becomes_def)

lemma flush_implements:
  assumes "chain fs s" "k < length fs" "length fs \<le> n"
  shows "implements env (settle k fs) s (CBB_flush n env k s)"
proof -
  obtain kd bs where f: "fs ! k = (kd, bs)" by (cases "fs ! k")
  have g: "good s" using assms(1) by (simp add: chain_def)
  have n: "length (drop (Suc k) fs) < n" using assms(2,3) by simp
  note fl = flush_chain [OF g chain_part [OF assms(1,2), unfolded f] n, of env]
  show ?thesis
  proof (cases "collapse (drop (Suc k) fs)")
    case None
    then show ?thesis using fl settle_eq [OF assms(2)] by (auto simp: implements_def)
  next
    case (Some ys)
    let ?fs = "take k fs @ [(kd, bs @ ys)]"
    have out: "render ?fs = render (take k fs) @ placeholder kd @ bs @ ys" by simp
    have fl: "flushes env k (render ?fs) s (CBB_flush n env k s)" using fl Some unfolding out by simp
    have "chain ?fs s'" if "becomes k (render ?fs) s s'" for s'
      using that becomes_root [OF that] assms(1) linked_cut [of 0 0 fs "cbbs s" k "cbbs s'" "bs @ ys"] hd_cut [OF assms(2), of "bs @ ys"] assms(2)
      unfolding chain_def becomes_def by (simp add: f)
    then show ?thesis using fl settle_eq [OF assms(2)] Some f
      by (auto simp: implements_def flushes_def becomes_def split: option.splits)
  qed
qed

lemma linked_last:
  "linked j off fs h \<Longrightarrow> fs \<noteq> [] \<Longrightarrow> c_base (h (j + length fs - 1)) \<and> c_child (h (j + length fs - 1)) = None"
proof (induction j off fs h rule: linked.induct)
  case (2 j off kd bs fs h)
  then show ?case by (cases "fs = []") (auto simp: object_ok_def)
qed simp

lemma chain_last_idle: "chain fs s \<Longrightarrow> idle (length fs - 1) s"
  using linked_last [of 0 0 fs "cbbs s"] by (simp add: chain_def idle_def)

lemma settle_length: "settle k fs = Some fs' \<Longrightarrow> length fs' = Suc k"
  by (induction k fs arbitrary: fs' rule: settle.induct) auto

lemma settle_grows: "settle k fs = Some fs' \<Longrightarrow> length (render fs) \<le> length (render fs')"
  by (induction k fs arbitrary: fs' rule: settle.induct) (auto dest!: collapse_grows)

text \<open>An operation first settles the object it writes to, then works on the innermost frame.\<close>

lemma flush_then_implements:
  assumes c: "chain fs s" "k < length fs" "length fs \<le> Suc n"
    and f: "\<And>fs' s'. chain fs' s' \<Longrightarrow> length fs' = Suc k \<Longrightarrow> implements env (Some (g fs')) s' (f s')"
    and grows: "\<And>fs'. fs' \<noteq> [] \<Longrightarrow> length (render fs') \<le> length (render (g fs'))"
  shows "implements env (map_option g (settle k fs)) s (flush_then (Suc n) env k f s)"
proof -
  note fl = flush_implements [OF c, of env]
  then obtain ok s1 where r: "CBB_flush (Suc n) env k s = Some (ok, s1)" by (auto simp: implements_def split: option.splits)
  show ?thesis
  proof (cases "settle k fs")
    case None
    then show ?thesis using fl r by (simp add: implements_def flush_then_def)
  next
    case (Some fs1)
    have ne: "fs1 \<noteq> []" using settle_length [OF Some] by auto
    show ?thesis
    proof (cases ok)
      case False
      then show ?thesis using fl r Some room_mono grows [OF ne] 
        by (auto simp: implements_def flush_then_def diff_le_mono)
    next
      case True
      then have ch: "chain fs1 s1" and cap: "can_resize (base s1) = can_resize (base s)"
          "unat (cap (base s)) \<le> unat (cap (base s1))"
        using fl r Some by (simp_all add: implements_def)
      have gs: "good s" "good s1" "content (base s) = render fs" "content (base s1) = render fs1"
        using c(1) ch by (simp_all add: chain_def)
      have later: "room env (base s1) (length (render (g fs1)) - length (content (base s1)))"
        if "room env (base s) (length (render (g fs1)) - length (content (base s)))"
        using room_later [OF gs(1,2) cap _ _ that] settle_grows [OF Some] grows [OF ne] gs by simp
      have "implements env (Some (g fs1)) s1 (f s1)" using ch settle_length [OF Some] by (rule f)
      then show ?thesis using r True Some later cap
        by (auto simp: implements_def flush_then_def split: option.splits if_splits)
    qed
  qed
qed

lemma hd_add_last: "fs \<noteq> [] \<Longrightarrow> fst (hd (add_last bs fs)) = fst (hd fs) \<and> add_last bs fs \<noteq> [] \<and>
    length (add_last bs fs) = length fs"
  by (cases fs rule: rev_cases) (auto simp: add_last_def hd_append)

lemma bytes_on_last:
  assumes "chain fs s" "length fs = Suc k" "length bs < 2 ^ 64"
  shows "implements env (Some (add_last bs fs)) s (CBB_add_bytes (Suc n) env k bs s)"
proof -
  have i: "idle k s" "good s" "fs \<noteq> []" using chain_last_idle [OF assms(1)] assms by (auto simp: chain_def)
  have l: "length (render (add_last bs fs)) - length (content (base s)) = length bs"
    using assms(1) i(3) by (simp add: chain_def render_add_last)
  have "chain (add_last bs fs) s'" if "after {} bs s s'" for s'
  proof -
    have "cbbs s' = cbbs s" using that by (auto simp: after_def)
    then show ?thesis using that assms(1) i(3) linked_add_last [of 0 0 fs "cbbs s" bs] hd_add_last [OF i(3), of bs]
      by (simp add: chain_def after_def extended_def render_add_last)
  qed
  then show ?thesis using add_bytes_appends [OF i(1,2) assms(3), of env "{}" n] l
    by (auto simp: implements_def appends_def after_def extended_def split: option.splits if_splits)
qed

lemma chain_push:
  assumes "linked 0 0 fs h" "\<not> c_is_child (h 0)" "fst (hd fs) = Fixed 0" "length fs = Suc k" "kd \<noteq> Fixed 0" "good s'"
    and "content (base s') = render fs @ placeholder kd"
    and "cbbs s' k = (h k)\<lparr>c_child := Some (Suc k)\<rparr>" "\<forall>i. i \<noteq> k \<longrightarrow> i \<noteq> Suc k \<longrightarrow> cbbs s' i = h i"
    and "object_ok (cbbs s' (Suc k)) kd (length (render fs))" "c_child (cbbs s' (Suc k)) = None"
  shows "chain (fs @ [(kd, [])]) s'"
proof -
  have ne: "fs \<noteq> []" using assms(4) by auto
  then have "linked 0 0 (fs @ [(kd, [])]) (cbbs s')"
    using assms by (intro linked_push [of 0 0 fs h]) simp_all
  moreover have "\<not> c_is_child (cbbs s' 0)" using assms(2,8,9) by (cases k) auto
  ultimately show ?thesis using assms ne by (simp add: chain_def)
qed

lemma prefixed_on_last:
  assumes "chain fs s" "length fs = Suc k" "l \<noteq> 0"
  shows "implements env (Some (fs @ [(Fixed l, [])])) s (cbb_add_length_prefixed (Suc n) env k (Suc k) l s)"
proof -
  have i: "idle k s" "good s" "fs \<noteq> []" using chain_last_idle [OF assms(1)] assms by (auto simp: chain_def)
  have l: "length (render (fs @ [(Fixed l, [])])) - length (content (base s)) = unat l"
    using assms(1) by (simp add: chain_def)
  have "Suc k \<noteq> k" by simp
  then show ?thesis
  proof (cases rule: add_length_prefixed_cases [OF i(1,2), of "Suc k" n env l, case_names _ ok full])
    case (ok b)
    let ?s = "start_child k (Suc k) (blen (base s)) l False (s\<lparr>base := b\<rparr>)"
    have "chain (fs @ [(Fixed l, [])]) ?s"
      using assms ok(2) i(2) good_blen [OF i(2)]
      by (intro chain_push [of fs "cbbs s" k])
        (auto simp: chain_def start_child_def set_cbb_def CBB_zero_def good_def extended_def object_ok_def Let_def)
    moreover have "base ?s = b" by (simp add: start_child_def set_cbb_def Let_def)
    ultimately show ?thesis using ok by (simp add: implements_def extended_def)
  next
    case (full s')
    then show ?thesis using l by (simp add: implements_def)
  qed simp
qed

lemma element_on_last:
  assumes "chain fs s" "length fs = Suc k"
  shows "implements env (Some (add_last (der_tag t) fs @ [(Asn1, [])])) s (CBB_add_asn1 (Suc n) env k (Suc k) t s)"
proof -
  have i: "idle k s" "good s" "fs \<noteq> []" using chain_last_idle [OF assms(1)] assms by (auto simp: chain_def)
  have l: "length (render (add_last (der_tag t) fs @ [(Asn1, [])])) - length (content (base s)) = length (der_tag t) + 1"
    using assms(1) i(3) by (simp add: chain_def render_add_last)
  have "Suc k \<noteq> k" by simp
  then show ?thesis
  proof (cases rule: add_asn1_cases [OF i(1,2), of "Suc k" n env t, case_names _ ok full])
    case (ok s')
    have "linked 0 0 (add_last (der_tag t) fs) (cbbs s)"
      using assms(1) i(3) by (intro linked_add_last) (simp_all add: chain_def)
    then have "chain (add_last (der_tag t) fs @ [(Asn1, [])]) s'"
      using ok(2,3) assms hd_add_last [OF i(3), of "der_tag t"] render_add_last [OF i(3), of "der_tag t"]
      by (intro chain_push) (auto simp: chain_def opened_def extended_def object_ok_def idle_def)
    then show ?thesis using ok by (simp add: implements_def extended_def)
  next
    case (full s')
    then show ?thesis using l by (simp add: implements_def)
  qed simp
qed

lemma discard_on:
  assumes "chain fs s" "k < length fs"
  shows "chain (take (Suc k) fs) (CBB_discard_child k s)"
    and "can_resize (base (CBB_discard_child k s)) = can_resize (base s)"
    and "cap (base (CBB_discard_child k s)) = cap (base s)"
proof -
  note part = chain_part(1) [OF assms]
  have child: "c_child (cbbs s k) = (if drop (Suc k) fs = [] then None else Some (Suc k))"
    using part by (cases "fs ! k") simp
  have "chain (take (Suc k) fs) (CBB_discard_child k s) \<and>
    can_resize (base (CBB_discard_child k s)) = can_resize (base s) \<and>
    cap (base (CBB_discard_child k s)) = cap (base s)"
  proof (cases "drop (Suc k) fs = []")
    case True
    then show ?thesis using child assms(1) by (simp add: CBB_discard_child_def)
  next
    case False
    then have k: "Suc k < length fs" by simp
    let ?t = "CBB_discard_child k s"
    have off: "unat (c_offset (cbbs s (Suc k))) = length (render (take (Suc k) fs))"
      using chain_part(1) [OF assms(1) k] by (cases "fs ! Suc k") (simp add: object_ok_def)
    have t: "base ?t = (base s)\<lparr>blen := c_offset (cbbs s (Suc k))\<rparr>"
      "cbbs ?t = (cbbs s)(Suc k := (cbbs s (Suc k))\<lparr>c_base := False\<rparr>, k := (cbbs s k)\<lparr>c_child := None\<rparr>)"
      using child False by (simp_all add: CBB_discard_child_def set_cbb_def Let_def)
    have cut: "take k fs @ [(fst (fs ! k), snd (fs ! k))] = take (Suc k) fs"
      using assms(2) by (simp add: take_Suc_conv_app_nth)
    have "linked 0 0 (take (Suc k) fs) (cbbs ?t)"
      using linked_cut [of 0 0 fs "cbbs s" k "cbbs ?t" "snd (fs ! k)"] assms cut by (simp add: chain_def t(2))
    moreover have c: "content (base s) = render (take (Suc k) fs) @ render (drop (Suc k) fs)"
      using assms(1) append_take_drop_id [of "Suc k" fs] unfolding chain_def by (metis render_append)
    moreover have g: "good s" "wf_buf (base s)" using assms(1) by (simp_all add: chain_def good_def)
    then have "unat (c_offset (cbbs s (Suc k))) \<le> unat (blen (base s))" using off c good_blen [OF g(1)] by simp
    then have "good ?t" "content (base ?t) = take (unat (c_offset (cbbs s (Suc k)))) (content (base s))"
      using g by (simp_all add: t(1) good_def wf_buf_def content_def min.absorb1)
    moreover have "fst (hd (take (Suc k) fs)) = fst (hd fs)" "take (Suc k) fs \<noteq> []" using assms(2) by (cases fs; simp)+
    moreover have "c_is_child (cbbs ?t 0) = c_is_child (cbbs s 0)" by (simp add: t(2))
    ultimately show ?thesis using assms(1) off by (simp add: chain_def t(1))
  qed
  then show "chain (take (Suc k) fs) (CBB_discard_child k s)"
    "can_resize (base (CBB_discard_child k s)) = can_resize (base s)"
    "cap (base (CBB_discard_child k s)) = cap (base s)" by simp_all
qed

lemma settled_op:
  assumes op: "f = flush_then (Suc n) env k f'"
    and c: "chain fs s" "k < length fs" "length fs \<le> Suc n"
    and settled: "\<And>fs' s'. chain fs' s' \<Longrightarrow> length fs' = Suc k \<Longrightarrow> implements env (Some (g fs')) s' (f s')"
    and grows: "\<And>fs'. fs' \<noteq> [] \<Longrightarrow> length (render fs') \<le> length (render (g fs'))"
  shows "implements env (map_option g (settle k fs)) s (f s)"
  unfolding op
proof (rule flush_then_implements [OF c _ grows])
  fix fs' s' assume ch: "chain fs' s'" "length fs' = Suc k"
  then have "idle k s'" "good s'" using chain_last_idle [OF ch(1)] by (simp_all add: chain_def)
  then have "f s' = f' s'" by (simp add: op flush_then_idle)
  then show "implements env (Some (g fs')) s' (f' s')" using settled [OF ch] by simp
qed

lemma chain_step:
  assumes "chain fs s" "op_depth op < length fs" "op_ok op" "length fs \<le> Suc n"
  shows "implements env (abstract_op op fs) s (run_op (Suc n) env op s)"
proof (cases op)
  case (Bytes k bs)
  then show ?thesis using assms
    by (auto simp: render_add_last intro!: settled_op [OF CBB_add_bytes_def] bytes_on_last)
next
  case (Element k t)
  then show ?thesis using assms
    by (auto simp: render_add_last intro!: settled_op [OF CBB_add_asn1_def] element_on_last)
next
  case (Prefixed k l)
  then show ?thesis using assms
    by (auto intro!: settled_op [OF cbb_add_length_prefixed_def] prefixed_on_last)
next
  case (Flush k)
  then show ?thesis using flush_implements [OF assms(1) _ assms(4), of k env] assms(2) by simp
next
  case (Discard k)
  then show ?thesis using discard_on [OF assms(1), of k] assms(2) by (simp add: implements_def)
qed

section \<open>Growing\<close>

text \<open>The capacity changes only when the buffer can be resized and the allocator grants the new capacity.\<close>

definition grown :: "cbb_env \<Rightarrow> cbb_buffer \<Rightarrow> cbb_buffer \<Rightarrow> bool" where
  "grown env b b' \<longleftrightarrow> can_resize b' = can_resize b \<and> (cap b' = cap b \<or> can_resize b \<and> alloc_ok env (cap b'))"

definition grows :: "cbb_env \<Rightarrow> cbb_state \<Rightarrow> (bool \<times> cbb_state) option \<Rightarrow> bool" where
  "grows env s r \<longleftrightarrow> (\<forall>ok s'. r = Some (ok, s') \<longrightarrow> grown env (base s) (base s'))"

lemma grown_refl [simp]: "grown env b b"
  by (simp add: grown_def)

lemma grown_trans: "grown env a b \<Longrightarrow> grown env b c \<Longrightarrow> grown env a c"
  by (auto simp: grown_def)

lemma grown_fields [simp]:
  "grown env b (c\<lparr>error := e\<rparr>) = grown env b c" "grown env b (c\<lparr>blen := l\<rparr>) = grown env b c"
  by (simp_all add: grown_def)

lemma reserve_grown: "cbb_buffer_reserve env n b = (ok, b') \<Longrightarrow> grown env b b'"
  by (auto simp: cbb_buffer_reserve_def grown_def Let_def split: if_splits)

lemma buffer_add_grown: "cbb_buffer_add env n b = (ok, b') \<Longrightarrow> grown env b b'"
  using reserve_grown [of env n b] by (auto simp: cbb_buffer_add_def split: prod.splits bool.splits)

lemma store_at_grown: "store_at i bs b = Some b' \<Longrightarrow> grown env b b'"
  by (auto simp: store_at_def grown_def split: if_splits)

lemma store_be_grown: "store_be n i v b = Some (v', b') \<Longrightarrow> grown env b b'"
proof (induction n i v b rule: store_be.induct)
  case (2 n i v b)
  then show ?case by (auto split: option.splits intro: grown_trans [OF store_at_grown])
qed simp

lemma buffer_add_u_grown: "cbb_buffer_add_u env v n b = Some (ok, b') \<Longrightarrow> grown env b b'"
  by (auto simp: cbb_buffer_add_u_def split: if_splits prod.splits bool.splits option.splits
      dest!: buffer_add_grown store_be_grown [where env = env] intro: grown_trans)

lemma move_contents_grown: "move_contents env l cs len b = Some (ok, b') \<Longrightarrow> grown env b b'"
  by (auto simp: move_contents_def Let_def split: if_splits prod.splits bool.splits
      dest!: buffer_add_grown store_at_grown [where env = env] intro: grown_trans)

lemma base_set_cbb [simp]: "base (set_cbb k c s) = base s"
  by (simp add: set_cbb_def)

lemma grown_set_error [simp]: "grown env b (base (cbb_set_error s)) = grown env b (base s)"
  by (simp add: cbb_set_error_def)

lemma grows_Some: "grows env s (Some (ok, s')) \<longleftrightarrow> grown env (base s) (base s')"
  by (simp add: grows_def)

lemma grows_and_then:
  assumes "grows env s r" "\<And>s'. grows env s' (f s')"
  shows "grows env s (and_then_opt r f)"
proof (cases r)
  case None
  then show ?thesis by (simp add: grows_def and_then_opt_def)
next
  case (Some p)
  obtain ok t where p: "p = (ok, t)" by (cases p)
  have st: "grown env (base s) (base t)" using assms(1) Some p by (simp add: grows_Some)
  show ?thesis
  proof (cases ok)
    case True
    then show ?thesis using assms(2) [of t] st Some p
      by (auto simp: grows_def and_then_opt_def intro: grown_trans)
  next
    case False
    then show ?thesis using st Some p by (simp add: grows_def and_then_opt_def)
  qed
qed

lemma grows_from: "grown env (base s) (base t) \<Longrightarrow> grows env t r \<Longrightarrow> grows env s r"
  by (auto simp: grows_def intro: grown_trans)

lemma write_prefix_grows: "grows env s (write_prefix k j len s)"
  by (auto simp: grows_def write_prefix_def flush_err_def Let_def split: option.splits if_splits
      dest!: store_be_grown [where env = env])

lemma flush_asn1_grows: "grows env s (flush_asn1 env k j cs len s)"
proof -
  have w: "grown env (base s) (base s')"
    if "grown env (base s) b" "write_prefix k j l (set_cbb j c (s\<lparr>base := b\<rparr>)) = Some (ok, s')" for b l c ok s'
    using that write_prefix_grows [of env "set_cbb j c (s\<lparr>base := b\<rparr>)" k j l] by (auto simp: grows_def intro: grown_trans)
  show ?thesis
    by (auto simp: grows_def flush_asn1_def flush_err_def Let_def split: option.splits prod.splits bool.splits
        dest!: move_contents_grown store_at_grown [where env = env] intro: grown_trans w)
qed

lemma flush_grows: "grows env s (CBB_flush n env k s)"
proof (induction n arbitrary: k s)
  case (Suc n)
  have fin: "grows env s (finish_child env k j cs s)" for j cs s
    using flush_asn1_grows write_prefix_grows by (auto simp: finish_child_def flush_err_def Let_def grows_Some)
  show ?case
  proof (cases "\<not> c_base (cbbs s k) \<or> error (base s)")
    case True
    then show ?thesis by (simp add: grows_def)
  next
    case False
    show ?thesis
    proof (cases "c_child (cbbs s k)")
      case None
      then show ?thesis using False by (simp add: grows_def)
    next
      case (Some j)
      have "grows env s (case CBB_flush n env j s of None \<Rightarrow> None | Some (False, s) \<Rightarrow> flush_err s
          | Some (True, s) \<Rightarrow> finish_child env k j cs s)" for cs
        using Suc [of s j] grows_from [OF _ fin]
        by (auto simp: grows_Some flush_err_def grows_def split: option.splits prod.splits bool.splits)
      then show ?thesis using False Some by (auto simp: Let_def grows_Some)
    qed
  qed
qed (simp add: grows_def)

lemma flush_then_grows: "(\<And>s. grows env s (f s)) \<Longrightarrow> grows env s (flush_then n env k f s)"
  unfolding flush_then_def by (rule grows_and_then [OF flush_grows])

lemma on_base_grows: "(\<And>ok b'. f (base s) = Some (ok, b') \<Longrightarrow> grown env (base s) b') \<Longrightarrow> grows env s (on_base f s)"
  by (auto simp: grows_def on_base_def)

lemma add_u8_grows: "grows env s (CBB_add_u8 n env k v s)"
  unfolding CBB_add_u8_def cbb_add_u_def by (intro flush_then_grows on_base_grows) (rule buffer_add_u_grown)

lemma add_each_grows: "grows env s (add_each n env k bs s)"
proof (induction bs arbitrary: s)
  case (Cons b bs)
  then show ?case using grows_and_then [OF add_u8_grows, of _ "add_each n env k bs"] by (simp add: add_each_def)
qed (simp add: add_each_def grows_def)

lemma start_child_base [simp]: "base (start_child k j offset l a s) = base s"
  by (simp add: start_child_def Let_def)

lemma add_bytes_grows: "grows env s (CBB_add_bytes n env k bs s)"
  unfolding CBB_add_bytes_def
  by (intro flush_then_grows on_base_grows)
    (auto split: prod.splits bool.splits dest!: buffer_add_grown store_at_grown [where env = env] intro: grown_trans)

lemma add_length_prefixed_grows: "grows env s (cbb_add_length_prefixed n env k j l s)"
  unfolding cbb_add_length_prefixed_def
  by (intro flush_then_grows)
    (auto simp: grows_def Let_def split: prod.splits bool.splits dest!: buffer_add_grown store_at_grown [where env = env] intro: grown_trans)

lemma add_asn1_grows: "grows env s (CBB_add_asn1 n env k j tag s)"
  unfolding CBB_add_asn1_def add_base128_integer_def Let_def
  by (intro flush_then_grows grows_and_then) (auto simp: grows_Some intro: grows_and_then add_u8_grows add_each_grows)

lemma run_op_grows: "grows env s (run_op n env op s)"
proof (cases op)
  case (Discard k)
  then show ?thesis by (simp add: grows_Some CBB_discard_child_def Let_def split: option.splits)
qed (simp_all add: add_bytes_grows add_asn1_grows add_length_prefixed_grows flush_grows)

section \<open>One operation\<close>

text \<open>C19. The writer refines the stack of frames.  From a state in which the objects form the chain of
  the frames \<open>fs\<close>, any operation on any object of the chain (adding bytes, opening an element or a
  length-prefixed block, flushing, discarding a child) returns.  When it succeeds, the new state is the
  chain of the frames the abstract operation gives: whatever was pending below the object was closed
  first, from the inside out, with its length in place.  When the abstract operation fails, because a length does not
  fit its prefix, the code fails.  Otherwise a fixed buffer makes it fail exactly when the new contents exceed the
  capacity; a growable buffer whose allocator grants everything exactly when they reach \<open>2 ^ 64\<close> bytes; and a growable buffer in
  general only when a request can be refused or they reach \<open>2 ^ 64\<close> bytes.  In every case the capacity changes only if the
  buffer can be resized and the allocator granted the new capacity.\<close>

theorem chain_refines:
  assumes "chain fs s" "op_depth op < length fs" "op_ok op" "length fs \<le> Suc n"
  shows "\<exists>ok s'. run_op (Suc n) env op s = Some (ok, s') \<and>
    (case abstract_op op fs of
       None \<Rightarrow> \<not> ok
     | Some fs' \<Rightarrow>
         (if ok then chain fs' s' \<and> unat (cap (base s)) \<le> unat (cap (base s'))
          else \<not> room env (base s) (length (render fs') - length (content (base s)))) \<and>
         (\<not> can_resize (base s) \<longrightarrow> (ok \<longleftrightarrow> length (render fs') \<le> unat (cap (base s)))) \<and>
         (can_resize (base s) \<and> (\<forall>m. alloc_ok env m) \<longrightarrow> (ok \<longleftrightarrow> length (render fs') < 2 ^ 64))) \<and>
    can_resize (base s') = can_resize (base s) \<and>
    (cap (base s') \<noteq> cap (base s) \<longrightarrow> can_resize (base s) \<and> alloc_ok env (cap (base s')))"
proof -
  note imp = chain_step [OF assms, of env]
  then obtain ok s' where r: "run_op (Suc n) env op s = Some (ok, s')" by (auto simp: implements_def split: option.splits)
  have g: "can_resize (base s') = can_resize (base s)"
    "cap (base s') \<noteq> cap (base s) \<longrightarrow> can_resize (base s) \<and> alloc_ok env (cap (base s'))"
    using run_op_grows [of env s "Suc n" op] r by (auto simp: grows_def grown_def)
  have exact: "(\<not> can_resize (base s) \<longrightarrow> (ok \<longleftrightarrow> length (render fs') \<le> unat (cap (base s)))) \<and>
      (can_resize (base s) \<and> (\<forall>m. alloc_ok env m) \<longrightarrow> (ok \<longleftrightarrow> length (render fs') < 2 ^ 64))"
    if a: "abstract_op op fs = Some fs'" for fs'
  proof -
    have gs: "good s" "wf_buf (base s)" using assms(1) by (simp_all add: chain_def good_def)
    have bl: "unat (blen (base s)) = length (content (base s))" "unat (blen (base s)) \<le> unat (cap (base s))"
      using gs by (simp_all add: wf_buf_def)
    have small: "unat (cap (base s)) < 2 ^ 64" "unat (blen (base s)) < 2 ^ 64" by simp_all
    have fits: "length (render fs') = unat (blen (base s'))" "unat (blen (base s')) \<le> unat (cap (base s'))" if ok
    proof -
      have "chain fs' s'" using imp r a that by (simp add: implements_def)
      then have "wf_buf (base s')" "content (base s') = render fs'" by (simp_all add: chain_def good_def)
      then show "length (render fs') = unat (blen (base s'))" "unat (blen (base s')) \<le> unat (cap (base s'))"
        using length_content [of "base s'"] by (simp_all add: wf_buf_def)
    qed
    have full: "\<not> room env (base s) (length (render fs') - length (content (base s)))" if "\<not> ok"
      using imp r a that by (simp add: implements_def)
    have grow_to: "length (content (base s)) + (length (render fs') - length (content (base s))) =
        max (length (content (base s))) (length (render fs'))" by simp
    show ?thesis
    proof (intro conjI impI)
      assume fixed: "\<not> can_resize (base s)"
      then have same: "cap (base s') = cap (base s)" using g(2) by blast
      have ok if "length (render fs') \<le> unat (cap (base s))"
      proof (rule ccontr)
        assume "\<not> ok"
        then have "\<not> (max (length (content (base s))) (length (render fs')) < 2 ^ 64 \<and>
            max (length (content (base s))) (length (render fs')) \<le> unat (cap (base s)))"
          using full bl(1) unfolding room_def grow_to [symmetric] by simp
        moreover have "max (length (content (base s))) (length (render fs')) \<le> unat (cap (base s))" using bl that by simp
        ultimately show False using small(1) by (meson le_less_trans)
      qed
      then show "ok \<longleftrightarrow> length (render fs') \<le> unat (cap (base s))" using fits same by auto
    next
      assume grow: "can_resize (base s) \<and> (\<forall>m. alloc_ok env m)"
      have "length (render fs') < 2 ^ 64" if ok using fits(1) [OF that] by simp
      moreover have ok if short: "length (render fs') < 2 ^ 64"
      proof (rule ccontr)
        assume "\<not> ok"
        then have "\<not> max (length (content (base s))) (length (render fs')) < 2 ^ 64"
          using full grow bl(1) unfolding room_def grow_to [symmetric] by simp
        then show False using short small(2) bl(1) by simp
      qed
      ultimately show "ok \<longleftrightarrow> length (render fs') < 2 ^ 64" by blast
    qed
  qed
  show ?thesis
  proof (intro exI conjI)
    show "case abstract_op op fs of
       None \<Rightarrow> \<not> ok
     | Some fs' \<Rightarrow>
         (if ok then chain fs' s' \<and> unat (cap (base s)) \<le> unat (cap (base s'))
          else \<not> room env (base s) (length (render fs') - length (content (base s)))) \<and>
         (\<not> can_resize (base s) \<longrightarrow> (ok \<longleftrightarrow> length (render fs') \<le> unat (cap (base s)))) \<and>
         (can_resize (base s) \<and> (\<forall>m. alloc_ok env m) \<longrightarrow> (ok \<longleftrightarrow> length (render fs') < 2 ^ 64))"
    proof (cases "abstract_op op fs")
      case (Some fs')
      then show ?thesis using imp r exact [OF Some] by (simp add: implements_def)
    qed (use imp r in \<open>simp add: implements_def\<close>)
  qed (use r g in simp_all)
qed

lemma example_chain: "chain [(Fixed 0, [])] example_cbb"
  using example_cbb_ready
  by (simp add: chain_def idle_def object_ok_def example_cbb_def example_cbb_env_def CBB_init_fixed_def cbb_init_def
      set_cbb_def CBB_zero_def content_def)

text \<open>An element fits in the fixed buffer, and bytes longer than the buffer do not.\<close>

theorem chain_refines_witness:
  "(\<exists>s'. run_op (Suc 0) example_cbb_env (Element 0 2) example_cbb = Some (True, s')) \<and>
   (\<exists>s'. run_op (Suc 0) example_cbb_env (Bytes 0 (replicate 17 0)) example_cbb = Some (False, s'))"
proof -
  note refines = chain_refines [OF example_chain, where n = 0 and env = example_cbb_env]
  have fixed: "\<not> can_resize (base example_cbb)" "unat (cap (base example_cbb)) = 16" by code_simp+
  have "map_option (\<lambda>fs. length (render fs) \<le> 16) (abstract_op (Element 0 2) [(Fixed 0, [])]) = Some True"
    "map_option (\<lambda>fs. length (render fs) \<le> 16) (abstract_op (Bytes 0 (replicate 17 0)) [(Fixed 0, [])]) = Some False"
    by code_simp+
  then obtain fs gs where a: "abstract_op (Element 0 2) [(Fixed 0, [])] = Some fs" "length (render fs) \<le> 16"
    and b: "abstract_op (Bytes 0 (replicate 17 0)) [(Fixed 0, [])] = Some gs" "\<not> length (render gs) \<le> 16"
    by (auto simp del: abstract_op.simps)
  show ?thesis using refines [of "Element 0 2"] refines [of "Bytes 0 (replicate 17 0)"] fixed a b by auto
qed

section \<open>Sessions\<close>

text \<open>The objects a client may use: the root and whatever is pending.\<close>

inductive live :: "cbb_state \<Rightarrow> nat \<Rightarrow> bool" for s where
  root: "live s 0"
| child: "live s k \<Longrightarrow> c_child (cbbs s k) = Some j \<Longrightarrow> live s j"

text \<open>A session starts with one of the initialisers and goes on with operations on live objects, as
  long as they succeed; \<open>n\<close> bounds the depth.\<close>

inductive session :: "nat \<Rightarrow> cbb_env \<Rightarrow> cbb_state \<Rightarrow> bool" for n env where
  init: "CBB_init env 0 initial_capacity s = (True, s') \<Longrightarrow> session n env s'"
| init_fixed: "CBB_init_fixed env 0 b s = (True, s') \<Longrightarrow> length b < 2 ^ 64 \<Longrightarrow> session n env s'"
| step: "session n env s \<Longrightarrow> live s (op_depth op) \<Longrightarrow> op_depth op < n \<Longrightarrow> op_ok op \<Longrightarrow>
    run_op (Suc n) env op s = Some (True, s') \<Longrightarrow> session n env s'"

inductive_cases session_cases: "session n env s"
inductive_simps live_root: "live s 0"

lemma chain_child:
  assumes "chain fs s" "k < length fs"
  shows "c_child (cbbs s k) = (if Suc k < length fs then Some (Suc k) else None)"
  using chain_part(1) [OF assms] by (cases "fs ! k") (simp add: not_less Suc_le_eq)

lemma live_chain: "chain fs s \<Longrightarrow> live s k \<longleftrightarrow> k < length fs"
proof
  assume c: "chain fs s"
  show "live s k \<Longrightarrow> k < length fs"
    by (induction rule: live.induct) (use c in \<open>auto simp: chain_child [OF c] chain_def split: if_splits\<close>)
  show "k < length fs \<Longrightarrow> live s k"
  proof (induction k)
    case (Suc k)
    then show ?case using live.child [of s k "Suc k"] chain_child [OF c, of k] by simp
  qed (rule live.root)
qed

lemma init_chain: "CBB_init env 0 initial_capacity s = (True, s') \<Longrightarrow> chain [(Fixed 0, [])] s' \<and> can_resize (base s')"
  using init_ready [of env 0 initial_capacity s s']
  by (auto simp: chain_def idle_def object_ok_def CBB_init_def cbb_init_def set_cbb_def CBB_zero_def Let_def split: if_splits)

lemma init_fixed_chain:
  "CBB_init_fixed env 0 b s = (True, s') \<Longrightarrow> length b < 2 ^ 64 \<Longrightarrow> chain [(Fixed 0, [])] s'"
  by (auto simp: chain_def good_def wf_buf_def content_def object_ok_def CBB_init_fixed_def cbb_init_def set_cbb_def
      CBB_zero_def split: if_splits)

lemma op_length:
  assumes "abstract_op op fs = Some fs'" "op_depth op < length fs"
  shows "length fs' \<le> Suc (Suc (op_depth op))"
  using assms by (cases op) (auto dest: settle_length simp: add_last_def)

lemma session_chain: "session n env s \<Longrightarrow> 0 < n \<Longrightarrow> \<exists>fs. chain fs s \<and> length fs \<le> Suc n"
proof (induction rule: session.induct)
  case (init initial_capacity s s')
  then show ?case using init_chain by (intro exI [of _ "[(Fixed 0, [])]"]) auto
next
  case (init_fixed b s s')
  then show ?case using init_fixed_chain by (intro exI [of _ "[(Fixed 0, [])]"]) auto
next
  case (step s op s')
  then obtain fs where fs: "chain fs s" "length fs \<le> Suc n" by auto
  have d: "op_depth op < length fs" using step(2) live_chain [OF fs(1)] by simp
  obtain fs' where "abstract_op op fs = Some fs'" "chain fs' s'"
    using chain_step [OF fs(1) d step(4) fs(2), of env] step(5) by (auto simp: implements_def split: option.splits)
  then show ?case using op_length [OF _ d] step(3) by (intro exI [of _ fs']) force
qed

lemma linked_kinds: "linked j off fs h \<Longrightarrow> list_all (\<lambda>f. fst f \<noteq> Fixed 0) (tl fs)"
  by (cases fs) auto

lemma pending_nonzero:
  assumes "chain fs s" "Suc k < length fs"
  shows "c_pending_len_len (cbbs s (Suc k)) \<noteq> 0"
proof -
  obtain kd bs where f: "fs ! Suc k = (kd, bs)" by (cases "fs ! Suc k")
  have "tl fs ! k \<in> set (tl fs)" using assms(2) by (intro nth_mem) simp
  then have "kd \<noteq> Fixed 0" using linked_kinds [of 0 0 fs "cbbs s"] assms f
    by (auto simp: chain_def list_all_iff nth_tl)
  moreover have "object_ok (cbbs s (Suc k)) kd (length (render (take (Suc k) fs)))"
    using chain_part(1) [OF assms] f by simp
  ultimately show ?thesis using length_placeholder [of kd] by (auto simp: object_ok_def)
qed

lemma object_window:
  assumes "chain fs s" "k < length fs"
  shows "c_base (cbbs s k)" "unat (CBB_data k s) = length (render (take k fs)) + length (placeholder (fst (fs ! k)))"
    "unat (c_offset (cbbs s k)) = length (render (take k fs))"
proof -
  obtain kd bs where f: "fs ! k = (kd, bs)" by (cases "fs ! k")
  have o: "object_ok (cbbs s k) kd (length (render (take k fs)))" using chain_part(1) [OF assms] f by simp
  then show "c_base (cbbs s k)" "unat (c_offset (cbbs s k)) = length (render (take k fs))" by (simp_all add: object_ok_def)
  have "length (render (take k fs)) + length (placeholder kd) \<le> length (content (base s))"
    using chain_part(2) [OF assms] f by simp
  also have "\<dots> < 2 ^ 64" using assms(1) good_blen [of s] u64_less [of "blen (base s)"] by (simp add: chain_def)
  finally have "length (render (take k fs)) + length (placeholder kd) < 2 ^ 64" .
  then show "unat (CBB_data k s) = length (render (take k fs)) + length (placeholder (fst (fs ! k)))"
    using o f by (simp add: CBB_data_def object_ok_def unat_word_ariths)
qed

text \<open>C20. Every reachable state of the writer is well formed.  After any session of initialising and
  any sequence of successful operations on live objects: the buffer is not in error and as long as its
  capacity says, no more than that is in use, and every live object is attached to the buffer with its
  contents inside it.  The pending child of the object at depth \<open>k\<close> is the one at depth \<open>k + 1\<close>, and
  its length prefix lies within the contents of its parent, so the windows of the objects are nested.
  (The assertions of \<^verbatim>\<open>CBB_data\<close> and \<^verbatim>\<open>CBB_len\<close> hold for every live object without a
  child.)\<close>

theorem session_well_formed:
  assumes "session n env s" "0 < n"
  shows "\<not> error (base s) \<and> length (buf (base s)) = unat (cap (base s)) \<and> blen (base s) \<le> cap (base s) \<and>
    (\<forall>k. live s k \<longrightarrow> c_base (cbbs s k) \<and> c_offset (cbbs s k) \<le> CBB_data k s \<and> CBB_data k s \<le> blen (base s) \<and>
       (\<forall>j. c_child (cbbs s k) = Some j \<longrightarrow> j = Suc k \<and> live s j \<and> c_pending_len_len (cbbs s j) \<noteq> 0 \<and>
          CBB_data k s \<le> c_offset (cbbs s j)))"
proof -
  obtain fs where c: "chain fs s" using session_chain [OF assms] by blast
  have w: "\<not> error (base s)" "length (buf (base s)) = unat (cap (base s))" "blen (base s) \<le> cap (base s)"
    using c by (simp_all add: chain_def good_def wf_buf_def word_le_nat_alt)
  have obj: "c_base (cbbs s k) \<and> c_offset (cbbs s k) \<le> CBB_data k s \<and> CBB_data k s \<le> blen (base s) \<and>
       (\<forall>j. c_child (cbbs s k) = Some j \<longrightarrow> j = Suc k \<and> live s j \<and> c_pending_len_len (cbbs s j) \<noteq> 0 \<and>
          CBB_data k s \<le> c_offset (cbbs s j))" if "live s k" for k
  proof -
    have k: "k < length fs" using that live_chain [OF c] by simp
    note win = object_window [OF c k]
    have "unat (CBB_data k s) \<le> unat (blen (base s))"
      using win(2) chain_part(2) [OF c k] good_blen [of s] c by (cases "fs ! k") (simp add: chain_def)
    moreover have "j = Suc k \<and> live s j \<and> c_pending_len_len (cbbs s j) \<noteq> 0 \<and> CBB_data k s \<le> c_offset (cbbs s j)"
      if "c_child (cbbs s k) = Some j" for j
    proof -
      have j: "j = Suc k" "j < length fs" using that chain_child [OF c k] by (auto split: if_splits)
      have "unat (CBB_data k s) \<le> unat (c_offset (cbbs s j))"
        using win(2) object_window(3) [OF c j(2)] k j(1) by (cases "fs ! k") (simp add: take_Suc_conv_app_nth)
      moreover have "c_pending_len_len (cbbs s j) \<noteq> 0" using pending_nonzero [OF c] j by simp
      ultimately show ?thesis using j live_chain [OF c] by (simp add: word_le_nat_alt)
    qed
    ultimately show ?thesis using win by (simp add: word_le_nat_alt)
  qed
  show ?thesis using w obj by blast
qed

theorem session_well_formed_witness:
  "\<not> error (base example_cbb) \<and> length (buf (base example_cbb)) = unat (cap (base example_cbb)) \<and>
   c_base (cbbs example_cbb 0) \<and> CBB_data 0 example_cbb \<le> blen (base example_cbb)"
proof -
  have "CBB_init_fixed example_cbb_env 0 (replicate 16 0) \<lparr>base = undefined, cbbs = \<lambda>_. CBB_zero\<rparr> = (True, example_cbb)"
    by (simp add: example_cbb_def CBB_init_fixed_def cbb_init_def example_cbb_env_def)
  then have "session 1 example_cbb_env example_cbb" by (rule session.init_fixed) simp
  from session_well_formed [OF this] show ?thesis using live.root by simp
qed

text \<open>A whole session as one program.\<close>

definition run_session ::
  "nat \<Rightarrow> cbb_env \<Rightarrow> u64 \<Rightarrow> cbb_op list \<Rightarrow> cbb_state \<Rightarrow> (u8 list option \<times> cbb_state) option" where
  "run_session n env initial_capacity ops s =
     (case CBB_init env 0 initial_capacity s of
        (False, s) \<Rightarrow> Some (None, s)
      | (True, s) \<Rightarrow>
          (case loopM (run_op n env) ops s of
             None \<Rightarrow> None
           | Some (False, s) \<Rightarrow> Some (None, s)
           | Some (True, s) \<Rightarrow> CBB_finish n env 0 True s))"

text \<open>The abstract session: every operation addresses a live object, no length overflows its prefix,
  and the bytes fit in memory.\<close>

fun abstract_run :: "cbb_op list \<Rightarrow> frame list \<Rightarrow> frame list option" where
  "abstract_run [] fs = Some fs"
| "abstract_run (op # ops) fs =
     (if op_depth op < length fs \<and> op_ok op then
        case abstract_op op fs of
          None \<Rightarrow> None
        | Some fs \<Rightarrow> if length (render fs) < 2 ^ 64 then abstract_run ops fs else None
      else None)"

lemma always_room:
  "good s \<Longrightarrow> can_resize (base s) \<Longrightarrow> \<forall>m. alloc_ok env m \<Longrightarrow> n < 2 ^ 64 \<Longrightarrow>
   room env (base s) (n - length (content (base s)))"
  using good_blen [of s] u64_less [of "blen (base s)"] by (cases "n \<le> length (content (base s))") (auto simp: room_def)

lemma run_ops:
  assumes "\<forall>m. alloc_ok env m"
  shows "chain fs s \<Longrightarrow> can_resize (base s) \<Longrightarrow> length fs \<le> Suc n \<Longrightarrow> abstract_run ops fs = Some fs' \<Longrightarrow>
    \<forall>op \<in> set ops. op_depth op < n \<Longrightarrow>
    \<exists>s'. loopM (run_op (Suc n) env) ops s = Some (True, s') \<and> chain fs' s' \<and> can_resize (base s') \<and> length fs' \<le> Suc n"
proof (induction ops arbitrary: fs s)
  case (Cons op ops)
  obtain fs1 where d: "op_depth op < length fs" "op_ok op" "abstract_op op fs = Some fs1"
    "length (render fs1) < 2 ^ 64" "abstract_run ops fs1 = Some fs'"
    using Cons.prems(4) by (auto split: if_splits option.splits)
  have "room env (base s) (length (render fs1) - length (content (base s)))"
    using always_room [OF _ Cons.prems(2) assms d(4)] Cons.prems(1) by (simp add: chain_def)
  then obtain s1 where r: "run_op (Suc n) env op s = Some (True, s1)" "chain fs1 s1" "can_resize (base s1)"
    using chain_step [OF Cons.prems(1) d(1,2) Cons.prems(3), of env] d(3) Cons.prems(2)
    by (auto simp: implements_def split: option.splits if_splits)
  have "length fs1 \<le> Suc n" using op_length [OF d(3,1)] Cons.prems(5) by simp
  from Cons.IH [OF r(2,3) this d(5)] Cons.prems(5) r(1) show ?case by simp
qed simp

text \<open>C21. Sessions come to an end with their output.  With an allocator that grants every request,
  initialising a \<^verbatim>\<open>CBB\<close> of any capacity, running any list of operations that makes sense for the
  stack of frames, and finishing, always succeeds, and hands out the frames' rendering with everything
  closed, whatever was still open and however the buffer had to move and grow on the way.\<close>

theorem session_output:
  assumes "\<forall>m. alloc_ok env m" "block_ok env" "\<forall>op \<in> set ops. op_depth op < n" "0 < n"
    and "abstract_run (ops @ [Flush 0]) [(Fixed 0, [])] = Some [(kd, out)]"
  shows "\<exists>s'. run_session (Suc n) env initial_capacity ops s = Some (Some out, s')"
proof -
  obtain s0 where i: "CBB_init env 0 initial_capacity s = (True, s0)"
    using assms(1,2) by (simp add: CBB_init_def cbb_init_def Let_def)
  note c0 = init_chain [OF i]
  have append: "abstract_run (xs @ ys) fs = (case abstract_run xs fs of None \<Rightarrow> None | Some fs \<Rightarrow> abstract_run ys fs)"
    for xs ys fs by (induction xs arbitrary: fs) (auto split: option.splits)
  obtain fs where fs: "abstract_run ops [(Fixed 0, [])] = Some fs" "abstract_run [Flush 0] fs = Some [(kd, out)]"
    using assms(5) by (auto simp: append split: option.splits)
  obtain s1 where r: "loopM (run_op (Suc n) env) ops s0 = Some (True, s1)" "chain fs s1" "can_resize (base s1)"
      "length fs \<le> Suc n"
    using run_ops [OF assms(1) _ _ _ fs(1) assms(3), of s0] c0 by auto
  obtain s2 where f: "CBB_flush (Suc n) env 0 s1 = Some (True, s2)" "chain [(kd, out)] s2"
    using run_ops [OF assms(1) r(2,3,4) fs(2)] assms(4) by (auto simp: and_then_opt_eq_Some)
  have "\<not> c_is_child (cbbs s1 0)" "kd = Fixed 0" "content (base s2) = out"
    using r(2) f(2) by (auto simp: chain_def)
  then show ?thesis using i r(1) f(1) by (simp add: run_session_def CBB_finish_def content_def)
qed

theorem session_output_witness:
  "\<exists>s'. run_session (Suc 3) \<lparr>alloc_ok = \<lambda>_. True, block_ok = True, junk = 0\<rparr> 0
      [Prefixed 0 1, Prefixed (Suc 0) 2, Bytes (Suc (Suc 0)) [7], Bytes 0 [9]] example_cbb = Some (Some [3, 0, 1, 7, 9], s')"
proof -
  let ?ops = "[Prefixed 0 1, Prefixed (Suc 0) 2, Bytes (Suc (Suc 0)) [7], Bytes 0 [9]]"
  have "abstract_run (?ops @ [Flush 0]) [(Fixed 0, [])] = Some [(Fixed 0, [3, 0, 1, 7, 9])]"
    by (simp add: add_last_def word_to_bytes_def upt_rec)
  then show ?thesis by (rule session_output [where n = 3 and kd = "Fixed 0", rotated 4]) simp_all
qed

end
