(* ===== verification/Unicode.thy ===== *)
theory Unicode
  imports Cbb_Props Cbs_Props
begin

text \<open>
  Characters in byte strings, \<^verbatim>\<open>crypto/bytestring/unicode.c\<close>: reading and writing one code
  point as UTF-8, Latin-1, UCS-2 and UTF-32.  The reference is the encoding of the Unicode standard over the
  naturals; the readers are shown to accept exactly its values and the writers to append them.
\<close>

section \<open>The code\<close>

definition is_valid_code_point :: "u32 \<Rightarrow> bool" where
  "is_valid_code_point v =
     (\<not> (v > 0x10ffff \<or>
         v AND 0xfffe = 0xfffe \<or> (v \<ge> 0xfdd0 \<and> v \<le> 0xfdef) \<or>
         (v \<ge> 0xd800 \<and> v \<le> 0xdfff)))"

definition BOTTOM_BITS :: "nat \<Rightarrow> u8" where
  "BOTTOM_BITS n = ucast ((push_bit n 1 :: u32) - 1)"

definition TOP_BITS :: "nat \<Rightarrow> u8" where
  "TOP_BITS n = NOT (BOTTOM_BITS (8 - n))"

text \<open>The loop over the \<open>n\<close> continuation bytes that are left.\<close>

fun utf8_rest :: "nat \<Rightarrow> u32 \<Rightarrow> u32 getter" where
  "utf8_rest 0 v m c = (Some v, c)"
| "utf8_rest (Suc n) v m c =
     bind_io (CBS_get_u8 m c)
       (\<lambda>b c. if b AND TOP_BITS 2 \<noteq> TOP_BITS 1 then (None, c)
              else utf8_rest n (push_bit 6 v OR ucast (b AND BOTTOM_BITS 6)) m c)"

definition cbs_get_utf8 :: "u32 getter" where
  "cbs_get_utf8 m c =
     bind_io (CBS_get_u8 m c)
       (\<lambda>b c.
          let multi = (\<lambda>v len lower_bound.
                bind_io (utf8_rest len v m c)
                  (\<lambda>v c. if \<not> is_valid_code_point v \<or> v < lower_bound then (None, c) else (Some v, c))) in
          if b \<le> 0x7f then (Some (ucast b), c)
          else if b AND TOP_BITS 3 = TOP_BITS 2 then multi (ucast (b AND BOTTOM_BITS 5)) 1 0x80
          else if b AND TOP_BITS 4 = TOP_BITS 3 then multi (ucast (b AND BOTTOM_BITS 4)) 2 0x800
          else if b AND TOP_BITS 5 = TOP_BITS 4 then multi (ucast (b AND BOTTOM_BITS 3)) 3 0x10000
          else (None, c))"

definition cbs_get_latin1 :: "u32 getter" where
  "cbs_get_latin1 m c = bind_io (CBS_get_u8 m c) (\<lambda>b c. (Some (ucast b), c))"

definition cbs_get_ucs2_be :: "u32 getter" where
  "cbs_get_ucs2_be m c =
     bind_io (CBS_get_u16 m c)
       (\<lambda>v c. if \<not> is_valid_code_point (ucast v) then (None, c) else (Some (ucast v), c))"

definition cbs_get_utf32_be :: "u32 getter" where
  "cbs_get_utf32_be m c =
     bind_io (CBS_get_u32 m c) (\<lambda>v c. if is_valid_code_point v then (Some v, c) else (None, c))"

definition cbb_get_utf8_len :: "u32 \<Rightarrow> u64" where
  "cbb_get_utf8_len u = (if u \<le> 0x7f then 1 else if u \<le> 0x7ff then 2 else if u \<le> 0xffff then 3 else 4)"

definition cbb_add_utf8 :: "nat \<Rightarrow> cbb_env \<Rightarrow> nat \<Rightarrow> u32 \<Rightarrow> cbb_state \<Rightarrow> (bool \<times> cbb_state) option" where
  "cbb_add_utf8 n env k u s =
     (let bottom = ucast (BOTTOM_BITS 6) :: u32;
          low = (\<lambda>x. ucast (ucast (TOP_BITS 1) OR (x AND bottom))) in
      if \<not> is_valid_code_point u then Some (False, s)
      else if u \<le> 0x7f then CBB_add_u8 n env k (ucast u) s
      else if u \<le> 0x7ff then
        add_each n env k [ucast (ucast (TOP_BITS 2) OR drop_bit 6 u), low u] s
      else if u \<le> 0xffff then
        add_each n env k [ucast (ucast (TOP_BITS 3) OR drop_bit 12 u), low (drop_bit 6 u), low u] s
      else if u \<le> 0x10ffff then
        add_each n env k
          [ucast (ucast (TOP_BITS 4) OR drop_bit 18 u), low (drop_bit 12 u), low (drop_bit 6 u), low u] s
      else Some (False, s))"

definition cbb_add_latin1 :: "nat \<Rightarrow> cbb_env \<Rightarrow> nat \<Rightarrow> u32 \<Rightarrow> cbb_state \<Rightarrow> (bool \<times> cbb_state) option" where
  "cbb_add_latin1 n env k u s = (if u \<le> 0xff then CBB_add_u8 n env k (ucast u) s else Some (False, s))"

definition cbb_add_ucs2_be :: "nat \<Rightarrow> cbb_env \<Rightarrow> nat \<Rightarrow> u32 \<Rightarrow> cbb_state \<Rightarrow> (bool \<times> cbb_state) option" where
  "cbb_add_ucs2_be n env k u s =
     (if u \<le> 0xffff \<and> is_valid_code_point u then CBB_add_u16 n env k (ucast u) s else Some (False, s))"

definition cbb_add_utf32_be :: "nat \<Rightarrow> cbb_env \<Rightarrow> nat \<Rightarrow> u32 \<Rightarrow> cbb_state \<Rightarrow> (bool \<times> cbb_state) option" where
  "cbb_add_utf32_be n env k u s =
     (if is_valid_code_point u then CBB_add_u32 n env k u s else Some (False, s))"

section \<open>The encoding\<close>

text \<open>The code points the Unicode standard allows in text, and their encoding in UTF-8: \<open>n\<close> groups of six
  bits behind a leading byte.\<close>

definition code_point :: "nat \<Rightarrow> bool" where
  "code_point u \<longleftrightarrow> u \<le> 0x10ffff \<and> u mod 0x10000 < 0xfffe \<and>
     \<not> (0xfdd0 \<le> u \<and> u \<le> 0xfdef) \<and> \<not> (0xd800 \<le> u \<and> u \<le> 0xdfff)"

definition conts :: "nat \<Rightarrow> nat \<Rightarrow> nat list" where
  "conts n u = map (\<lambda>i. 0x80 + u div 64 ^ i mod 64) (rev [0..<n])"

definition utf8_nat :: "nat \<Rightarrow> nat list" where
  "utf8_nat u =
     (if u < 0x80 then [u]
      else if u < 0x800 then (0xc0 + u div 64) # conts 1 u
      else if u < 0x10000 then (0xe0 + u div 64 ^ 2) # conts 2 u
      else (0xf0 + u div 64 ^ 3) # conts 3 u)"

definition utf8 :: "nat \<Rightarrow> u8 list" where
  "utf8 u = map of_nat (utf8_nat u)"

section \<open>Bytes\<close>

lemma bits_masks: "n \<le> 8 \<Longrightarrow> BOTTOM_BITS n = mask n" "TOP_BITS n = NOT (mask (8 - n))"
proof -
  have m: "BOTTOM_BITS n = mask n" if "n \<le> 8" for n
    using that unfolding BOTTOM_BITS_def by (rule_tac bit_word_eqI) (auto simp: mask_eq_exp_minus_1 [symmetric] bit_simps)
  show "n \<le> 8 \<Longrightarrow> BOTTOM_BITS n = mask n" by (rule m)
  show "TOP_BITS n = NOT (mask (8 - n))" by (simp add: TOP_BITS_def m)
qed

lemma unat_top: "unat (b AND NOT (mask k)) = unat (b :: 'a::len word) div 2 ^ k * 2 ^ k"
proof -
  have "b AND NOT (mask k) = push_bit k (drop_bit k b)"
    by (rule bit_word_eqI) (auto simp: bit_simps)
  moreover have "unat b div 2 ^ k * 2 ^ k < 2 ^ LENGTH('a)"
    using unsigned_less [of b] le_less_trans [OF div_times_less_eq_dividend] by blast
  moreover have "push_bit k (drop_bit k b) = of_nat (unat (drop_bit k b) * 2 ^ k)"
    by (simp add: push_bit_eq_mult)
  ultimately show ?thesis by (simp only: unat_of_nat unat_drop_bit) simp
qed

lemma lead_bytes:
  "b AND TOP_BITS 3 = TOP_BITS 2 \<longleftrightarrow> 0xc0 \<le> unat b \<and> unat b < 0xe0"
  "b AND TOP_BITS 4 = TOP_BITS 3 \<longleftrightarrow> 0xe0 \<le> unat b \<and> unat b < 0xf0"
  "b AND TOP_BITS 5 = TOP_BITS 4 \<longleftrightarrow> 0xf0 \<le> unat b \<and> unat b < 0xf8"
  "b AND TOP_BITS 2 = TOP_BITS (Suc 0) \<longleftrightarrow> 0x80 \<le> unat b \<and> unat b < 0xc0"
proof -
  have *: "NOT (mask 7) = (0x80 :: u8)" "NOT (mask 6) = (0xc0 :: u8)" "NOT (mask 5) = (0xe0 :: u8)" "NOT (mask 4) = (0xf0 :: u8)" "NOT (mask 3) = (0xf8 :: u8)"
    by (simp_all add: mask_eq_exp_minus_1)
  have top: "TOP_BITS (Suc 0) = 0x80" "TOP_BITS 2 = 0xc0" "TOP_BITS 3 = 0xe0" "TOP_BITS 4 = 0xf0" "TOP_BITS 5 = 0xf8"
    by (simp_all add: bits_masks(2) flip: *)
  have "unat (b AND 0xe0) = unat b div 32 * 32" "unat (b AND 0xf0) = unat b div 16 * 16"
    "unat (b AND 0xf8) = unat b div 8 * 8" "unat (b AND 0xc0) = unat b div 64 * 64"
    using unat_top [of b 5] unat_top [of b 4] unat_top [of b 3] unat_top [of b 6] unfolding * by simp_all
  then show "b AND TOP_BITS 3 = TOP_BITS 2 \<longleftrightarrow> 0xc0 \<le> unat b \<and> unat b < 0xe0"
    "b AND TOP_BITS 4 = TOP_BITS 3 \<longleftrightarrow> 0xe0 \<le> unat b \<and> unat b < 0xf0"
    "b AND TOP_BITS 5 = TOP_BITS 4 \<longleftrightarrow> 0xf0 \<le> unat b \<and> unat b < 0xf8"
    "b AND TOP_BITS 2 = TOP_BITS (Suc 0) \<longleftrightarrow> 0x80 \<le> unat b \<and> unat b < 0xc0"
    by (auto simp: top word_unat_eq_iff)
qed

lemma low_bits:
  "unat (b AND BOTTOM_BITS 6) = unat b mod 64" "unat (b AND BOTTOM_BITS 5) = unat b mod 32"
  "unat (b AND BOTTOM_BITS 4) = unat b mod 16" "unat (b AND BOTTOM_BITS 3) = unat b mod 8"
  by (simp_all add: bits_masks(1) unat_and_mask)

section \<open>Code points\<close>

lemma valid_spec: "is_valid_code_point v \<longleftrightarrow> code_point (unat v)"
proof -
  have "v AND 0xfffe = (v AND mask 16) AND NOT (mask 1)"
    by (simp add: mask_eq_exp_minus_1 and.assoc)
  then have "unat (v AND 0xfffe) = unat v mod 65536 div 2 * 2"
    using unat_top [of "v AND mask 16" 1] by (simp add: unat_and_mask)
  then show ?thesis
    by (auto simp: is_valid_code_point_def code_point_def word_le_nat_alt word_less_nat_alt word_unat_eq_iff)
qed

lemma nth_conts: "conts (Suc n) u = (0x80 + u div 64 ^ n mod 64) # conts n u"
  by (simp add: conts_def)

lemma length_conts [simp]: "length (conts n u) = n"
  by (simp add: conts_def)

lemma mod_minus:
  assumes "k * q \<le> (b :: nat)" "b < k * Suc q" shows "b mod k = b - k * q"
proof -
  have "b div k = q" using assms by (simp add: div_nat_eqI mult.commute)
  then show ?thesis using minus_mult_div_eq_mod [of b k] by simp
qed

lemma cont_split:
  assumes "0x80 \<le> (b :: nat)" "b < 0xc0"
  shows "x = v * 64 + b mod 64 \<longleftrightarrow> b = 0x80 + x mod 64 \<and> x div 64 = v"
proof -
  have "x = v * 64 + d \<longleftrightarrow> d = x mod 64 \<and> x div 64 = v" if "d < 64" for d
    using that by auto
  from this [of "b mod 64"] show ?thesis using mod_minus [of 64 2 b] assms by auto
qed

lemmas lead_minus = mod_minus [of 32 6, simplified] mod_minus [of 16 14, simplified] mod_minus [of 8 30, simplified]

text \<open>What the loop accepts.\<close>

lemma rest_iff:
  "Suc (unat v) * 64 ^ n \<le> 2 ^ 32 \<Longrightarrow>
   (\<exists>c'. utf8_rest n v m c = (Some w, c')) \<longleftrightarrow>
     n \<le> unat (cbs_len c) \<and> map unat (take n (cbs_bytes m c)) = conts n (unat w) \<and> unat w div 64 ^ n = unat v"
proof (induction n arbitrary: v c)
  case 0
  then show ?case by (auto simp: conts_def word_unat_eq_iff)
next
  case (Suc n)
  show ?case
  proof (cases "cbs_bytes m c")
    case Nil
    then show ?thesis using length_cbs_bytes [of m c] by (simp add: get_u8_spec del: length_cbs_bytes)
  next
    case (Cons b bs)
    let ?v = "push_bit 6 v OR ucast (b AND BOTTOM_BITS 6)"
    have len: "0 < unat (cbs_len c)" using Cons length_cbs_bytes [of m c] by (simp del: length_cbs_bytes)
    have adv: "cbs_bytes m (cbs_adv 1 c) = bs" "unat (cbs_len (cbs_adv 1 c)) = unat (cbs_len c) - 1"
      using bytes_adv [of 1 c m] len_adv [of 1 c] len Cons by simp_all
    have "Suc (unat v * 64 + unat b mod 64) \<le> Suc (unat v) * 64" by (simp add: Suc_le_eq)
    then have "Suc (unat v * 64 + unat b mod 64) * 64 ^ n \<le> Suc (unat v) * 64 * 64 ^ n"
      by (rule mult_right_mono) simp
    also have "Suc (unat v) * 64 * 64 ^ n \<le> 2 ^ 32" using Suc.prems by (simp only: power_Suc mult.assoc)
    finally have bound: "Suc (unat v * 64 + unat b mod 64) * 64 ^ n \<le> 2 ^ 32" .
    moreover have "Suc (unat v * 64 + unat b mod 64) * 1 \<le> Suc (unat v * 64 + unat b mod 64) * 64 ^ n"
      by (rule mult_left_mono) simp_all
    ultimately have "Suc (unat v * 64 + unat b mod 64) \<le> 2 ^ 32" by (simp only: mult_1_right order_trans)
    then have v: "unat ?v = unat v * 64 + unat b mod 64"
      using push_bit_or_digit [of "ucast (b AND BOTTOM_BITS 6) :: u32" 6 v] by (simp add: low_bits)
    note IH = Suc.IH [of ?v "cbs_adv 1 c", unfolded v, OF bound]
    show ?thesis
    proof (cases "0x80 \<le> unat b \<and> unat b < 0xc0")
      case True
      then have "(\<exists>c'. utf8_rest (Suc n) v m c = (Some w, c')) \<longleftrightarrow> (\<exists>c'. utf8_rest n ?v m (cbs_adv 1 c) = (Some w, c'))"
        by (simp add: get_u8_spec Cons lead_bytes)
      moreover have "unat w div 64 ^ n = unat v * 64 + unat b mod 64 \<longleftrightarrow>
          unat b = 0x80 + unat w div 64 ^ n mod 64 \<and> unat w div 64 ^ Suc n = unat v"
        using cont_split [of "unat b" "unat w div 64 ^ n" "unat v"] True by (simp only: power_Suc2 div_mult2_eq)
      moreover have "map unat (take (Suc n) (cbs_bytes m c)) = conts (Suc n) (unat w) \<longleftrightarrow>
          unat b = 0x80 + unat w div 64 ^ n mod 64 \<and> map unat (take n bs) = conts n (unat w)"
        by (simp add: Cons nth_conts)
      moreover have "Suc n \<le> unat (cbs_len c) \<longleftrightarrow> n \<le> unat (cbs_len (cbs_adv 1 c))" using len adv(2) by linarith
      ultimately show ?thesis using IH unfolding adv(1) by blast
    next
      case False
      then show ?thesis
        using Cons mod_less_divisor [of 64 "unat w div 64 ^ n"]
        by (auto simp: get_u8_spec lead_bytes nth_conts)
    qed
  qed
qed

lemma rest_reader: "utf8_rest n v m c = (Some w, c') \<Longrightarrow> c' = cbs_adv n c"
  by (induction n v m c rule: utf8_rest.induct)
    (auto simp: get_u8_spec bind_io_eq_Some split: list.splits if_splits)

section \<open>The reader\<close>

lemma utf8_nat_not_Nil: "utf8_nat x \<noteq> []"
  by (simp add: utf8_nat_def)

text \<open>One of the three classes of leading bytes: \<open>k\<close> of them from \<open>lead\<close> on, with \<open>n\<close> bytes to follow.\<close>

lemma multi_iff:
  fixes v :: u32
  assumes b: "cbs_bytes m c = b # bs" "lead \<le> unat b" "unat b - lead < k" and k: "k * 64 ^ n \<le> 2 ^ 32"
    and l: "unat l = unat b - lead"
    and x: "lower \<le> unat v \<and> unat v div 64 ^ n < k \<Longrightarrow> utf8_nat (unat v) = (lead + unat v div 64 ^ n) # conts n (unat v)"
      "\<not> (lower \<le> unat v \<and> unat v div 64 ^ n < k) \<Longrightarrow> hd (utf8_nat (unat v)) \<noteq> unat b"
  shows "(\<exists>c'. utf8_rest n l m (cbs_adv 1 c) = (Some v, c')) \<and> lower \<le> unat v \<longleftrightarrow>
    take (length (utf8_nat (unat v))) (map unat (b # bs)) = utf8_nat (unat v)"
proof -
  have len: "0 < unat (cbs_len c)" using b(1) length_cbs_bytes [of m c] by (simp del: length_cbs_bytes)
  have adv: "cbs_bytes m (cbs_adv 1 c) = bs" using bytes_adv [of 1 c m] len b(1) by simp
  have bs: "unat (cbs_len (cbs_adv 1 c)) = length bs" using adv by (metis length_cbs_bytes)
  have "Suc (unat l) * 64 ^ n \<le> k * 64 ^ n"
    by (rule mult_right_mono) (use b(3) l in auto)
  then have "(\<exists>c'. utf8_rest n l m (cbs_adv 1 c) = (Some v, c')) \<longleftrightarrow>
      n \<le> length bs \<and> map unat (take n bs) = conts n (unat v) \<and> unat v div 64 ^ n = unat b - lead"
    using rest_iff [of l n m "cbs_adv 1 c" v, OF order_trans [OF _ k]] unfolding adv bs l by blast
  moreover have "n \<le> length bs" if "map unat (take n bs) = conts n (unat v)"
    using that by (metis length_conts length_map length_take min.absorb_iff2)
  ultimately have iff: "(\<exists>c'. utf8_rest n l m (cbs_adv 1 c) = (Some v, c')) \<longleftrightarrow>
      map unat (take n bs) = conts n (unat v) \<and> unat v div 64 ^ n = unat b - lead" by blast
  show ?thesis
  proof (cases "lower \<le> unat v \<and> unat v div 64 ^ n < k")
    case True
    then show ?thesis unfolding iff x(1) [OF True] using b(2) by (auto simp: take_map)
  next
    case False
    then have "\<not> (\<exists>c'. utf8_rest n l m (cbs_adv 1 c) = (Some v, c')) \<or> \<not> lower \<le> unat v" using b(3) unfolding iff by auto
    then show ?thesis using x(2) [OF False] utf8_nat_not_Nil [of "unat v"] by (cases "utf8_nat (unat v)") auto
  qed
qed

lemma get_utf8_iff:
  "(\<exists>c'. cbs_get_utf8 m c = (Some v, c')) \<longleftrightarrow>
     code_point (unat v) \<and> take (length (utf8_nat (unat v))) (map unat (cbs_bytes m c)) = utf8_nat (unat v)"
proof (cases "cbs_bytes m c")
  case Nil
  then show ?thesis by (simp add: cbs_get_utf8_def get_u8_spec utf8_nat_not_Nil [THEN not_sym])
next
  case (Cons b bs)
  have multi: "(\<exists>c'. bind_io (utf8_rest n l m (cbs_adv 1 c))
        (\<lambda>v c. if \<not> is_valid_code_point v \<or> v < lower then (None, c) else (Some v, c)) = (Some v, c')) \<longleftrightarrow>
      code_point (unat v) \<and> (\<exists>c'. utf8_rest n l m (cbs_adv 1 c) = (Some v, c')) \<and> unat lower \<le> unat v" for n l lower
    by (auto simp: bind_io_eq_Some valid_spec word_less_nat_alt not_less)
  let ?x = "unat v"
  have hd: "hd (utf8_nat ?x) =
      (if ?x < 0x80 then ?x else if ?x < 0x800 then 0xc0 + ?x div 64
       else if ?x < 0x10000 then 0xe0 + ?x div 64 ^ 2 else 0xf0 + ?x div 64 ^ 3)"
    by (simp add: utf8_nat_def)
  have front: "hd (utf8_nat ?x) = unat b"
    if "take (length (utf8_nat ?x)) (map unat (cbs_bytes m c)) = utf8_nat ?x"
    using that utf8_nat_not_Nil [of ?x] Cons by (cases "utf8_nat ?x") auto
  consider "unat b < 0x80" | "0x80 \<le> unat b" "unat b < 0xc0" | "0xc0 \<le> unat b" "unat b < 0xe0"
    | "0xe0 \<le> unat b" "unat b < 0xf0" | "0xf0 \<le> unat b" "unat b < 0xf8" | "0xf8 \<le> unat b" by linarith
  then show ?thesis
  proof cases
    case 1
    have "(\<exists>c'. cbs_get_utf8 m c = (Some v, c')) \<longleftrightarrow> ?x = unat b"
      using 1 by (auto simp: cbs_get_utf8_def get_u8_spec Cons word_le_nat_alt word_unat_eq_iff)
    then show ?thesis using 1 front by (auto simp: hd code_point_def utf8_nat_def Cons split: if_splits)
  next
    case 3
    have "(\<exists>c'. utf8_rest 1 (ucast (b AND BOTTOM_BITS 5)) m (cbs_adv 1 c) = (Some v, c')) \<and> 0x80 \<le> unat v \<longleftrightarrow>
      take (length (utf8_nat (unat v))) (map unat (b # bs)) = utf8_nat (unat v)"
      by (rule multi_iff [OF Cons 3(1), of 32]) (use 3 in \<open>auto simp: low_bits utf8_nat_def lead_minus\<close>)
    then show ?thesis
      using 3 multi [where n = 1 and l = "ucast (b AND BOTTOM_BITS 5)" and lower = "0x80"]
      by (simp add: cbs_get_utf8_def get_u8_spec Cons lead_bytes word_le_nat_alt)
  next
    case 4
    have "(\<exists>c'. utf8_rest 2 (ucast (b AND BOTTOM_BITS 4)) m (cbs_adv 1 c) = (Some v, c')) \<and> 0x800 \<le> unat v \<longleftrightarrow>
      take (length (utf8_nat (unat v))) (map unat (b # bs)) = utf8_nat (unat v)"
      by (rule multi_iff [OF Cons 4(1), of 16]) (use 4 in \<open>auto simp: low_bits utf8_nat_def lead_minus\<close>)
    then show ?thesis
      using 4 multi [where n = 2 and l = "ucast (b AND BOTTOM_BITS 4)" and lower = "0x800"]
      by (simp add: cbs_get_utf8_def get_u8_spec Cons lead_bytes word_le_nat_alt)
  next
    case 5
    have "(\<exists>c'. utf8_rest 3 (ucast (b AND BOTTOM_BITS 3)) m (cbs_adv 1 c) = (Some v, c')) \<and> 0x10000 \<le> unat v \<longleftrightarrow>
      take (length (utf8_nat (unat v))) (map unat (b # bs)) = utf8_nat (unat v)"
      by (rule multi_iff [OF Cons 5(1), of 8]) (use 5 in \<open>auto simp: low_bits utf8_nat_def lead_minus\<close>)
    then show ?thesis
      using 5 multi [where n = 3 and l = "ucast (b AND BOTTOM_BITS 3)" and lower = "0x10000"]
      by (simp add: cbs_get_utf8_def get_u8_spec Cons lead_bytes word_le_nat_alt)
  next
    case 2
    then have "\<nexists>c'. cbs_get_utf8 m c = (Some v, c')"
      by (simp add: cbs_get_utf8_def get_u8_spec Cons lead_bytes word_le_nat_alt)
    then show ?thesis using 2 front by (auto simp: hd split: if_splits)
  next
    case 6
    then have "\<nexists>c'. cbs_get_utf8 m c = (Some v, c')"
      by (simp add: cbs_get_utf8_def get_u8_spec Cons lead_bytes word_le_nat_alt)
    then show ?thesis using 6 front by (auto simp: hd code_point_def split: if_splits)
  qed
qed

lemma utf8_nat_less: "code_point u \<Longrightarrow> list_all (\<lambda>d. d < 256) (utf8_nat u)"
  by (auto simp: utf8_nat_def conts_def code_point_def list_all_iff)

lemma take_utf8:
  assumes "code_point u"
  shows "take (length (utf8_nat u)) (map unat (bs :: u8 list)) = utf8_nat u \<longleftrightarrow> (\<exists>rest. bs = utf8 u @ rest)"
proof -
  have eq: "map unat (utf8 u) = utf8_nat u" unfolding utf8_def by (rule map_unat_of_nat [OF utf8_nat_less [OF assms]])
  have "take (length (utf8_nat u)) (map unat bs) = utf8_nat u \<longleftrightarrow> take (length (utf8 u)) bs = utf8 u"
    unfolding eq [symmetric] length_map take_map by (rule inj_map_eq_map) (rule injI, erule u8_eqI)
  then show ?thesis by (metis append_eq_conv_conj append_take_drop_id)
qed

lemma get_utf8_reader:
  assumes g: "cbs_get_utf8 m c = (Some v, c')" shows "c' = cbs_adv (length (utf8 (unat v))) c"
proof (cases "cbs_bytes m c")
  case Nil
  then show ?thesis using g by (simp add: cbs_get_utf8_def get_u8_spec)
next
  case (Cons b bs)
  have "take (length (utf8_nat (unat v))) (map unat (cbs_bytes m c)) = utf8_nat (unat v)"
    using g get_utf8_iff [of m c v] by blast
  then have "hd (utf8_nat (unat v)) = unat b"
    using Cons utf8_nat_not_Nil [of "unat v"] by (cases "utf8_nat (unat v)") auto
  then have "length (utf8 (unat v)) =
      (if unat b < 0x80 then 1 else if unat b < 0xe0 then Suc 1 else if unat b < 0xf0 then Suc (Suc 1) else 4)"
    by (auto simp: utf8_def utf8_nat_def split: if_splits)
  then show ?thesis
    using g by (auto simp: cbs_get_utf8_def get_u8_spec Cons bind_io_eq_Some lead_bytes word_le_nat_alt
      dest!: rest_reader split: if_splits simp del: utf8_rest.simps)
qed

lemma utf8_len: "unat (cbb_get_utf8_len u) = length (utf8 (unat u))"
  by (auto simp: cbb_get_utf8_len_def utf8_def utf8_nat_def word_le_nat_alt)

section \<open>The writers\<close>

lemma add_each_single: "add_each n env k [b] s = CBB_add_u8 n env k b s"
  by (cases "CBB_add_u8 n env k b s") (auto simp: add_each_def and_then_opt_def split: bool.splits)

lemma lead_or:
  assumes "unat (y :: u32) < 2 ^ k" "Suc q * 2 ^ k \<le> 256"
  shows "ucast (of_nat (q * 2 ^ k) OR y) = (of_nat (q * 2 ^ k + unat y) :: u8)"
proof -
  have q: "q * 2 ^ k + unat y < 256" using assms by simp
  then have "push_bit k (of_nat q) = (of_nat (q * 2 ^ k) :: u32)" by (simp add: push_bit_eq_mult)
  moreover have "q * 1 \<le> q * 2 ^ k" by (rule mult_le_mono2) simp
  then have "unat (of_nat q :: u32) = q" using q by (intro unat_of_nat_u32) linarith
  ultimately have "unat (of_nat (q * 2 ^ k) OR y :: u32) = q * 2 ^ k + unat y"
    using push_bit_or_digit [of y k "of_nat q"] assms(1) q by simp
  then show ?thesis using q by (intro u8_eqI) (simp only: unat_ucast_u8 unat_of_nat_u8 mod_less)
qed

lemma add_utf8_bytes:
  assumes "code_point (unat u)"
  shows "cbb_add_utf8 n env k u s = add_each n env k (utf8 (unat u)) s"
proof -
  have bot: "ucast (BOTTOM_BITS 6) = (mask 6 :: u32)" "ucast (TOP_BITS 1) = (of_nat (2 * 2 ^ 6) :: u32)"
    "ucast (TOP_BITS 2) = (of_nat (6 * 2 ^ 5) :: u32)" "ucast (TOP_BITS 3) = (of_nat (14 * 2 ^ 4) :: u32)"
    "ucast (TOP_BITS 4) = (of_nat (30 * 2 ^ 3) :: u32)"
    by (simp_all add: bits_masks mask_eq_exp_minus_1)
  have low: "ucast (of_nat (2 * 2 ^ 6) OR (x AND mask 6)) = (of_nat (0x80 + unat x mod 64) :: u8)" for x :: u32
    using lead_or [of "x AND mask 6" 6 2] by (simp add: unat_and_mask)
  let ?x = "unat u"
  show ?thesis
  proof -
    consider "?x < 0x80" | "0x80 \<le> ?x" "?x < 0x800" | "0x800 \<le> ?x" "?x < 0x10000" | "0x10000 \<le> ?x" "?x \<le> 0x10ffff"
      using assms unfolding code_point_def by linarith
    then show ?thesis
    proof cases
      case 1
      then show ?thesis using assms
        by (simp add: cbb_add_utf8_def valid_spec word_le_nat_alt utf8_def utf8_nat_def add_each_single)
    next
      case 2
      have "ucast (of_nat (6 * 2 ^ 5) OR drop_bit 6 u) = (of_nat (6 * 2 ^ 5 + ?x div 64) :: u8)"
        using lead_or [of "drop_bit 6 u" 5 6] 2 by (simp only: unat_drop_bit) simp
      then show ?thesis using 2 assms unfolding cbb_add_utf8_def Let_def bot low
        by (simp add: valid_spec word_le_nat_alt utf8_def utf8_nat_def conts_def)
    next
      case 3
      have "ucast (of_nat (14 * 2 ^ 4) OR drop_bit 12 u) = (of_nat (14 * 2 ^ 4 + ?x div 64 ^ 2) :: u8)"
        using lead_or [of "drop_bit 12 u" 4 14] 3 by (simp only: unat_drop_bit) simp
      then show ?thesis using 3 assms unfolding cbb_add_utf8_def Let_def bot low
        by (simp add: valid_spec word_le_nat_alt utf8_def utf8_nat_def conts_def upt_rec unat_drop_bit)
    next
      case 4
      have "ucast (of_nat (30 * 2 ^ 3) OR drop_bit 18 u) = (of_nat (30 * 2 ^ 3 + ?x div 64 ^ 3) :: u8)"
        using lead_or [of "drop_bit 18 u" 3 30] 4 by (simp only: unat_drop_bit) simp
      then show ?thesis using 4 assms unfolding cbb_add_utf8_def Let_def bot low
        by (simp add: valid_spec word_le_nat_alt utf8_def utf8_nat_def conts_def upt_rec unat_drop_bit)
    qed
  qed
qed

section \<open>The theorems\<close>

text \<open>C26. UTF-8 in \<^verbatim>\<open>unicode.c\<close>: \<^verbatim>\<open>cbs_get_utf8\<close> returns a code point if and only if the input
  starts with the shortest UTF-8 encoding of a code point that the Unicode standard allows, and takes exactly those
  bytes (no over-long form, surrogate, noncharacter or value above 0x10ffff is accepted); \<^verbatim>\<open>cbb_add_utf8\<close>
  appends those bytes, or fails without writing for any other value; \<^verbatim>\<open>cbb_get_utf8_len\<close> is their
  number.\<close>

theorem utf8_exact:
  assumes "idle k s" "good s"
  shows "(cbs_get_utf8 m c = (Some v, c') \<longleftrightarrow>
       code_point (unat v) \<and> (\<exists>rest. cbs_bytes m c = utf8 (unat v) @ rest) \<and>
       c' = cbs_adv (length (utf8 (unat v))) c) \<and>
    (if code_point (unat v) then appends env {} (utf8 (unat v)) s (cbb_add_utf8 (Suc n) env k v s)
     else cbb_add_utf8 (Suc n) env k v s = Some (False, s)) \<and>
    unat (cbb_get_utf8_len v) = length (utf8 (unat v))"
proof (intro conjI)
  have "(\<exists>c'. cbs_get_utf8 m c = (Some v, c')) \<longleftrightarrow> code_point (unat v) \<and> (\<exists>rest. cbs_bytes m c = utf8 (unat v) @ rest)"
    unfolding get_utf8_iff by (rule conj_cong [OF refl take_utf8])
  then show "cbs_get_utf8 m c = (Some v, c') \<longleftrightarrow>
       code_point (unat v) \<and> (\<exists>rest. cbs_bytes m c = utf8 (unat v) @ rest) \<and>
       c' = cbs_adv (length (utf8 (unat v))) c"
    using get_utf8_reader by blast
  show "if code_point (unat v) then appends env {} (utf8 (unat v)) s (cbb_add_utf8 (Suc n) env k v s)
     else cbb_add_utf8 (Suc n) env k v s = Some (False, s)"
    using assms by (simp add: add_utf8_bytes add_each_appends) (simp add: cbb_add_utf8_def valid_spec)
  show "unat (cbb_get_utf8_len v) = length (utf8 (unat v))" by (rule utf8_len)
qed

theorem utf8_exact_witness:
  "cbs_get_utf8 (\<lambda>a. if a = 0 then 0xc3 else 0xa9) (CBS_init 0 2) = (Some 0xe9, cbs_adv 2 (CBS_init 0 2)) \<and>
   appends example_cbb_env {} [0xc3, 0xa9] example_cbb (cbb_add_utf8 (Suc 0) example_cbb_env 0 0xe9 example_cbb) \<and>
   cbb_add_utf8 (Suc 0) example_cbb_env 0 0xd800 example_cbb = Some (False, example_cbb)"
proof -
  have "code_point (unat (0xe9 :: u32))" "\<not> code_point (unat (0xd800 :: u32))" "utf8 (unat (0xe9 :: u32)) = [0xc3, 0xa9]"
    "cbs_bytes (\<lambda>a. if a = 0 then 0xc3 else 0xa9) (CBS_init 0 2) = [0xc3, 0xa9] @ []"
    by (simp_all add: code_point_def utf8_def utf8_nat_def conts_def cbs_bytes_def CBS_init_def read_bytes_def upt_rec)
  with utf8_exact [OF example_cbb_ready, where env = example_cbb_env and n = 0
      and m = "\<lambda>a. if a = 0 then 0xc3 else 0xa9" and c = "CBS_init 0 2" and v = "0xe9" and c' = "cbs_adv 2 (CBS_init 0 2)"]
    utf8_exact [OF example_cbb_ready, where env = example_cbb_env and n = 0 and v = "0xd800"]
  show ?thesis by (auto simp: numeral_2_eq_2)
qed

text \<open>The encodings of a fixed width.\<close>

lemma take_prefix: "length ys = k \<Longrightarrow> (k \<le> length xs \<and> take k xs = ys) \<longleftrightarrow> (\<exists>rest. xs = ys @ rest)"
  by (metis append_eq_conv_conj append_take_drop_id length_append le_add1)

lemma be_prefix:
  fixes w :: "'a::len word"
  assumes k: "LENGTH('a) = 8 * k" "k \<le> 8"
  shows "k \<le> length xs \<and> ucast (be_value (take k xs)) = w \<longleftrightarrow> (\<exists>rest. xs = rev (word_to_bytes k w) @ rest)"
proof -
  have "ucast (be_value bs) = w \<longleftrightarrow> bs = rev (word_to_bytes k w)" if "length bs = k" for bs
  proof -
    have "ucast (be_value bs) = (bytes_to_word (rev bs) :: 'a word)" using k by (intro ucast_be_value) simp
    moreover have "bytes_to_word (rev bs) = w \<longleftrightarrow> rev bs = word_to_bytes k w"
      using word_to_bytes_to_word [of "rev bs" k, where 'a = 'a] bytes_to_word_to_bytes [of k w] k that by auto
    ultimately show ?thesis by (metis rev_rev_ident)
  qed
  from this [of "take k xs"] show ?thesis using take_prefix [of "rev (word_to_bytes k w)" k xs] by auto
qed

lemma u16_reader:
  "CBS_get_u16 m c = (Some w, c') \<longleftrightarrow> (\<exists>rest. cbs_bytes m c = rev (word_to_bytes 2 w) @ rest) \<and> c' = cbs_adv 2 c"
  using be_prefix [of 2 "cbs_bytes m c" w] by (auto simp: CBS_get_u16_def get_u_spec)

lemma u32_reader:
  "CBS_get_u32 m c = (Some w, c') \<longleftrightarrow> (\<exists>rest. cbs_bytes m c = rev (word_to_bytes 4 w) @ rest) \<and> c' = cbs_adv 4 c"
  using be_prefix [of 4 "cbs_bytes m c" w] by (auto simp: CBS_get_u32_def get_u_spec)

lemma narrow_bytes: "8 * k \<le> LENGTH('b) \<Longrightarrow> word_to_bytes k (ucast (v :: 'a::len word) :: 'b::len word) = word_to_bytes k v"
  by (rule nth_equalityI) (auto simp: nth_word_to_bytes bit_simps intro!: bit_word_eqI)

lemma narrow_words: "word_to_bytes 2 (ucast (w :: u16) :: u32) = word_to_bytes 2 w"
  by (rule nth_equalityI) (auto simp: nth_word_to_bytes bit_simps intro!: bit_word_eqI dest: bit_imp_le_length)

lemma ucast_small_16: "unat (v :: u32) < 0x10000 \<Longrightarrow> ucast (ucast v :: u16) = v"
  by (rule word_unat_eq_iff [THEN iffD2]) (simp add: unsigned_ucast_eq unsigned_take_bit_eq take_bit_nat_eq_self)

lemma ucast_small_8: "unat (v :: u32) < 0x100 \<Longrightarrow> ucast (ucast v :: u8) = v"
  by (rule word_unat_eq_iff [THEN iffD2]) (simp add: unat_ucast_u8)

lemma ucast_back: "(ucast (ucast (b :: u8) :: u32) :: u8) = b"
  by (rule bit_word_eqI) (auto simp: bit_simps)

lemma fixed_width_readers:
  "cbs_get_latin1 m c = (Some v, c') \<longleftrightarrow>
     unat v < 0x100 \<and> (\<exists>rest. cbs_bytes m c = rev (word_to_bytes 1 v) @ rest) \<and> c' = cbs_adv 1 c"
  "cbs_get_ucs2_be m c = (Some v, c') \<longleftrightarrow> code_point (unat v) \<and>
     unat v < 0x10000 \<and> (\<exists>rest. cbs_bytes m c = rev (word_to_bytes 2 v) @ rest) \<and> c' = cbs_adv 2 c"
  "cbs_get_utf32_be m c = (Some v, c') \<longleftrightarrow> code_point (unat v) \<and>
     (\<exists>rest. cbs_bytes m c = rev (word_to_bytes 4 v) @ rest) \<and> c' = cbs_adv 4 c"
proof -
  show "cbs_get_latin1 m c = (Some v, c') \<longleftrightarrow>
     unat v < 0x100 \<and> (\<exists>rest. cbs_bytes m c = rev (word_to_bytes 1 v) @ rest) \<and> c' = cbs_adv 1 c"
    using ucast_small_8 [of v]
    by (auto simp: cbs_get_latin1_def get_u8_spec word_to_bytes_1 ucast_back split: list.splits)
  have "cbs_get_ucs2_be m c = (Some v, c') \<longleftrightarrow>
     (\<exists>w. v = ucast w \<and> code_point (unat v) \<and> CBS_get_u16 m c = (Some w, c'))"
    by (cases "CBS_get_u16 m c"; cases "fst (CBS_get_u16 m c)") (auto simp: cbs_get_ucs2_be_def valid_spec)
  also have "\<dots> \<longleftrightarrow> code_point (unat v) \<and>
     unat v < 0x10000 \<and> (\<exists>rest. cbs_bytes m c = rev (word_to_bytes 2 v) @ rest) \<and> c' = cbs_adv 2 c"
  proof
    assume "\<exists>w. v = ucast w \<and> code_point (unat v) \<and> CBS_get_u16 m c = (Some w, c')"
    then obtain w where w: "v = ucast w" "code_point (unat v)" "CBS_get_u16 m c = (Some w, c')" by blast
    have "unat (ucast w :: u32) < 0x10000"
      using unsigned_less [of w, where 'a = nat] by (simp add: unsigned_ucast_eq take_bit_nat_eq_self)
    then show "code_point (unat v) \<and>
       unat v < 0x10000 \<and> (\<exists>rest. cbs_bytes m c = rev (word_to_bytes 2 v) @ rest) \<and> c' = cbs_adv 2 c"
      using w by (simp add: u16_reader narrow_words)
  next
    assume v: "code_point (unat v) \<and>
       unat v < 0x10000 \<and> (\<exists>rest. cbs_bytes m c = rev (word_to_bytes 2 v) @ rest) \<and> c' = cbs_adv 2 c"
    then show "\<exists>w. v = ucast w \<and> code_point (unat v) \<and> CBS_get_u16 m c = (Some w, c')"
      using ucast_small_16 [of v] by (intro exI [of _ "ucast v"]) (simp add: u16_reader narrow_bytes)
  qed
  finally show "cbs_get_ucs2_be m c = (Some v, c') \<longleftrightarrow> code_point (unat v) \<and>
     unat v < 0x10000 \<and> (\<exists>rest. cbs_bytes m c = rev (word_to_bytes 2 v) @ rest) \<and> c' = cbs_adv 2 c" .
  show "cbs_get_utf32_be m c = (Some v, c') \<longleftrightarrow> code_point (unat v) \<and>
     (\<exists>rest. cbs_bytes m c = rev (word_to_bytes 4 v) @ rest) \<and> c' = cbs_adv 4 c"
    using u32_reader [of m c v c'] by (auto simp: cbs_get_utf32_be_def bind_io_eq_Some valid_spec)
qed

lemma fixed_width_writers:
  assumes "idle k s" "good s"
  shows "if unat v < 0x100 then appends env {} (rev (word_to_bytes 1 v)) s (cbb_add_latin1 (Suc n) env k v s)
     else cbb_add_latin1 (Suc n) env k v s = Some (False, s)"
    and "if code_point (unat v) \<and> unat v < 0x10000
     then appends env {} (rev (word_to_bytes 2 v)) s (cbb_add_ucs2_be (Suc n) env k v s)
     else cbb_add_ucs2_be (Suc n) env k v s = Some (False, s)"
    and "if code_point (unat v) then appends env {} (rev (word_to_bytes 4 v)) s (cbb_add_utf32_be (Suc n) env k v s)
     else cbb_add_utf32_be (Suc n) env k v s = Some (False, s)"
proof -
  have zero: "drop_bit (8 * j) (ucast w :: u64) = 0" if "LENGTH('a) = 8 * j" for w :: "'a::len word" and j
    using that by (intro bit_word_eqI) (auto simp: bit_simps dest: bit_imp_le_length)
  show "if unat v < 0x100 then appends env {} (rev (word_to_bytes 1 v)) s (cbb_add_latin1 (Suc n) env k v s)
     else cbb_add_latin1 (Suc n) env k v s = Some (False, s)"
    using add_u8_appends [OF assms, of env "{}" "ucast v" n] by (simp add: cbb_add_latin1_def word_le_nat_alt word_to_bytes_1)
  show "if code_point (unat v) \<and> unat v < 0x10000
     then appends env {} (rev (word_to_bytes 2 v)) s (cbb_add_ucs2_be (Suc n) env k v s)
     else cbb_add_ucs2_be (Suc n) env k v s = Some (False, s)"
    using add_u_appends [OF assms, of 2 "ucast (ucast v :: u16)" env "{}" n] zero [of 2 "ucast v :: u16"]
    by (simp add: cbb_add_ucs2_be_def CBB_add_u16_def valid_spec word_le_nat_alt narrow_bytes)
  show "if code_point (unat v) then appends env {} (rev (word_to_bytes 4 v)) s (cbb_add_utf32_be (Suc n) env k v s)
     else cbb_add_utf32_be (Suc n) env k v s = Some (False, s)"
    using add_u_appends [OF assms, of 4 "ucast v" env "{}" n] zero [of 4 v]
    by (simp add: cbb_add_utf32_be_def CBB_add_u32_def valid_spec narrow_bytes)
qed

end
