(* ===== verification/Oid.thy ===== *)
theory Oid
  imports Cbb_Props
begin

text \<open>
  Object identifiers as text: \<^verbatim>\<open>CBS_asn1_oid_to_text\<close> of \<^verbatim>\<open>crypto/bytestring/cbs.c\<close>, and what
  it and \<^verbatim>\<open>CBB_add_asn1_oid_from_text\<close> (in \<open>Cbb\<close>) promise: the text is the components in
  decimal between dots, the bytes are the components in base 128, the first two of them in one number,
  and each function accepts exactly what the other can produce.
\<close>

section \<open>The code\<close>

text \<open>What \<^verbatim>\<open>BIO_snprintf\<close> prints for \<^verbatim>\<open>PRIu64\<close>; the array has room for
  \<^verbatim>\<open>DECIMAL_SIZE(uint64_t)\<close> characters and the NUL.\<close>

definition decimal :: "nat \<Rightarrow> u8 list" where
  "decimal v = (if v = 0 then [0x30] else map (\<lambda>d. of_nat (0x30 + d)) (digits 10 v))"

definition DECIMAL_SIZE :: "nat \<Rightarrow> nat" where
  "DECIMAL_SIZE bytes = (bytes * 8 + 2) div 3 + 1"

definition add_decimal :: "nat \<Rightarrow> cbb_env \<Rightarrow> nat \<Rightarrow> u64 \<Rightarrow> cbb_state \<Rightarrow> (bool \<times> cbb_state) option" where
  "add_decimal n env k v = CBB_add_bytes n env k (take (DECIMAL_SIZE 8) (decimal (unat v)))"

text \<open>The loop over the remaining components, a dot in front of each.\<close>

lemma base128_loop_shrinks: "base128_loop v m c = (Some w, c') \<Longrightarrow> unat (cbs_len c') < unat (cbs_len c)"
proof (induction v m c rule: base128_loop.induct)
  case (1 v m c)
  show ?case
  proof (cases "CBS_get_u8 m c")
    case (Pair a c1)
    then show ?thesis
      using 1 CBS_get_u8_shrinks [of m c]
      by (cases a) (fastforce simp: base128_loop.simps [of v m c] Let_def split: if_splits)+
  qed
qed

function oid_text_loop :: "nat \<Rightarrow> cbb_env \<Rightarrow> nat \<Rightarrow> mem \<Rightarrow> cbs \<Rightarrow> cbb_state \<Rightarrow> (bool \<times> cbb_state) option" where
  "oid_text_loop n env k m c s =
     (if cbs_len c = 0 then Some (True, s)
      else case parse_base128_integer m c of
          (None, _) \<Rightarrow> Some (False, s)
        | (Some v, c) \<Rightarrow>
            and_then_opt (CBB_add_u8 n env k 0x2e s) (\<lambda>s.
              and_then_opt (add_decimal n env k v s) (oid_text_loop n env k m c)))"
  by pat_completeness auto
termination
  by (relation "measure (\<lambda>(n, env, k, m, c, s). unat (cbs_len c))")
    (auto simp: parse_base128_integer_def dest: base128_loop_shrinks [OF sym])

declare oid_text_loop.simps [simp del]

text \<open>The first number is \<open>40 * value1 + value2\<close>.\<close>

definition oid_text_first :: "nat \<Rightarrow> cbb_env \<Rightarrow> nat \<Rightarrow> u64 \<Rightarrow> cbb_state \<Rightarrow> (bool \<times> cbb_state) option" where
  "oid_text_first n env k v s =
     (if v \<ge> 80
      then and_then_opt (CBB_add_bytes n env k [0x32, 0x2e] s) (add_decimal n env k (v - 80))
      else and_then_opt (add_decimal n env k (v div 40) s) (\<lambda>s.
        and_then_opt (CBB_add_u8 n env k 0x2e s) (add_decimal n env k (v mod 40))))"

text \<open>The string returned, with its NUL, or \<open>None\<close> for \<^verbatim>\<open>NULL\<close>; \<open>k\<close> is the address of the
  local \<^verbatim>\<open>CBB\<close>.\<close>

definition CBS_asn1_oid_to_text ::
  "nat \<Rightarrow> cbb_env \<Rightarrow> nat \<Rightarrow> mem \<Rightarrow> cbs \<Rightarrow> cbb_state \<Rightarrow> (u8 list option \<times> cbb_state) option" where
  "CBS_asn1_oid_to_text n env k m c s =
     (case CBB_init env k 32 s of
        (False, s) \<Rightarrow> Some (None, CBB_cleanup k s)
      | (True, s) \<Rightarrow>
          (case parse_base128_integer m c of
             (None, _) \<Rightarrow> Some (None, CBB_cleanup k s)
           | (Some v, c) \<Rightarrow>
               (case and_then_opt (oid_text_first n env k v s) (\<lambda>s.
                       and_then_opt (oid_text_loop n env k m c s) (CBB_add_u8 n env k 0)) of
                  None \<Rightarrow> None
                | Some (False, s) \<Rightarrow> Some (None, CBB_cleanup k s)
                | Some (True, s) \<Rightarrow>
                    (case CBB_finish n env k True s of
                       None \<Rightarrow> None
                     | Some (None, s) \<Rightarrow> Some (None, CBB_cleanup k s)
                     | Some (Some txt, s) \<Rightarrow> Some (Some txt, s)))))"

section \<open>Dotted decimal\<close>

fun dotted :: "nat list \<Rightarrow> u8 list" where
  "dotted [] = []"
| "dotted [v] = decimal v"
| "dotted (v # w # vs) = decimal v @ 0x2e # dotted (w # vs)"

text \<open>What may follow a component.\<close>

definition dot_rest :: "u8 list \<Rightarrow> u8 list" where
  "dot_rest rest = (if rest = [] then [] else 0x2e # rest)"

definition shift_in :: "nat \<Rightarrow> nat list \<Rightarrow> nat" where
  "shift_in v ds = foldl (\<lambda>a d. a * 10 + d) v ds"

lemma shift_in_ge: "v \<le> shift_in v ds"
proof (induction ds arbitrary: v)
  case (Cons d ds)
  then have "v * 10 + d \<le> shift_in v (d # ds)" by (simp add: shift_in_def)
  then show ?case by linarith
qed (simp add: shift_in_def)

text \<open>The overflow checks of the loop.\<close>

lemma digit_fits:
  assumes d: "d < 10"
  shows "\<not> ((v :: u64) > 0xffffffffffffffff div 10 \<or> v * 10 > 0xffffffffffffffff - of_nat d) \<longleftrightarrow>
     unat v * 10 + d < 2 ^ 64"
proof -
  have max: "unat (0xffffffffffffffff div 10 :: u64) = 1844674407370955161" by (simp add: unat_div)
  have "unat (0xffffffffffffffff - of_nat d :: u64) = 18446744073709551615 - d"
    using d by (subst unat_sub) (simp_all add: word_le_nat_alt)
  moreover have "unat (v * 10) = unat v * 10" if "unat v \<le> 1844674407370955161"
    using that by (simp add: unat_word_ariths)
  ultimately show ?thesis using d by (auto simp: word_less_nat_alt max not_less)
qed

lemma digit_push:
  "unat (v :: u64) * 10 + d < 2 ^ 64 \<Longrightarrow> unat (v * 10 + of_nat d) = unat v * 10 + d"
  by (simp add: unat_word_ariths mod_add_right_eq)

lemma digit_char: "d < 10 \<Longrightarrow> ucast (of_nat (0x30 + d) - 0x30 :: u8) = (of_nat d :: u64)"
  by (rule word_unat_eq_iff [THEN iffD2]) (simp add: unat_of_nat_u8)

lemma dotted_step:
  assumes "d < 10" "u = of_nat (0x30 + d)"
  shows "dotted_loop seen v (u # rest) =
    (if seen \<and> v = 0 \<or> 2 ^ 64 \<le> unat v * 10 + d then (None, rest)
     else dotted_loop True (v * 10 + of_nat d) rest)"
proof -
  have u: "unat u = 0x30 + d" unfolding assms(2) using assms(1) by (subst unat_of_nat_u8) simp_all
  then have "u \<noteq> 0x2e" "\<not> u < 0x30" "\<not> u > 0x39" using assms(1) by (auto simp: word_less_nat_alt)
  moreover note digit_fits [OF assms(1), of v] digit_char [OF assms(1), folded assms(2)]
  ultimately show ?thesis by auto
qed

lemma dotted_complete:
  "list_all (\<lambda>d. d < 10) ds \<Longrightarrow> shift_in (unat v) ds < 2 ^ 64 \<Longrightarrow> (ds = [] \<longrightarrow> seen) \<Longrightarrow>
   (ds \<noteq> [] \<longrightarrow> \<not> (seen \<and> v = 0)) \<Longrightarrow> (1 < length ds \<longrightarrow> v = 0 \<longrightarrow> hd ds \<noteq> 0) \<Longrightarrow>
   dotted_loop seen v (map (\<lambda>d. of_nat (0x30 + d)) ds @ dot_rest rest) = (Some (of_nat (shift_in (unat v) ds)), rest)"
proof (induction ds arbitrary: seen v)
  case Nil
  then show ?case by (auto simp: dot_rest_def shift_in_def)
next
  case (Cons d ds)
  have sh: "shift_in (unat v) (d # ds) = shift_in (unat v * 10 + d) ds" by (simp add: shift_in_def)
  then have fit: "unat v * 10 + d < 2 ^ 64" using Cons.prems(2) shift_in_ge [of "unat v * 10 + d" ds] by linarith
  have d: "d < 10" using Cons.prems(1) by simp
  note u = digit_push [OF fit]
  have nz: "v * 10 + of_nat d \<noteq> 0" if "ds \<noteq> []"
  proof -
    have "unat v * 10 + d \<noteq> 0"
      using that Cons.prems(5) by (auto simp: unat_eq_0)
    then show ?thesis using u by (metis unat_0)
  qed
  have "dotted_loop True (v * 10 + of_nat d) (map (\<lambda>d. of_nat (0x30 + d)) ds @ dot_rest rest) =
      (Some (of_nat (shift_in (unat (v * 10 + of_nat d)) ds)), rest)"
  proof (rule Cons.IH)
    show "list_all (\<lambda>d. d < 10) ds" using Cons.prems(1) by simp
    show "shift_in (unat (v * 10 + of_nat d)) ds < 2 ^ 64" using Cons.prems(2) by (simp only: u sh)
    show "ds \<noteq> [] \<longrightarrow> \<not> (True \<and> v * 10 + of_nat d = 0)" using nz by simp
    show "1 < length ds \<longrightarrow> v * 10 + of_nat d = 0 \<longrightarrow> hd ds \<noteq> 0" using nz by (cases ds) simp_all
  qed simp
  moreover have "\<not> (seen \<and> v = 0 \<or> 2 ^ 64 \<le> unat v * 10 + d)" using fit Cons.prems(4) by auto
  ultimately show ?case
    using dotted_step [OF d refl, of seen v "map (\<lambda>d. of_nat (0x30 + d)) ds @ dot_rest rest"] sh u
    by (simp del: dotted_loop.simps)
qed

lemma dotted_sound:
  "dotted_loop seen v cs = (Some w, rest) \<Longrightarrow>
   \<exists>ds. list_all (\<lambda>d. d < 10) ds \<and> cs = map (\<lambda>d. of_nat (0x30 + d)) ds @ dot_rest rest \<and>
     unat w = shift_in (unat v) ds \<and> (ds = [] \<longrightarrow> seen) \<and> (ds \<noteq> [] \<longrightarrow> \<not> (seen \<and> v = 0)) \<and>
     (1 < length ds \<longrightarrow> v = 0 \<longrightarrow> hd ds \<noteq> 0)"
proof (induction cs arbitrary: seen v)
  case Nil
  then show ?case by (intro exI [of _ "[]"]) (auto simp: dot_rest_def shift_in_def split: if_splits)
next
  case (Cons u cs)
  show ?case
  proof (cases "u = 0x2e \<and> cs \<noteq> []")
    case True
    then show ?thesis using Cons.prems by (intro exI [of _ "[]"]) (auto simp: dot_rest_def shift_in_def split: if_splits)
  next
    case False
    then have "\<not> (u < 0x30 \<or> u > 0x39)" using Cons.prems by (auto split: if_splits)
    then have r: "0x30 \<le> unat u" "unat u \<le> 0x39" by (auto simp: word_less_nat_alt)
    define d where "d = unat u - 0x30"
    have d: "d < 10" using r by (simp add: d_def)
    have u: "u = of_nat (0x30 + d)" using r unfolding d_def by (metis le_add_diff_inverse of_nat_unat ucast_id)
    from Cons.prems have step: "\<not> (seen \<and> v = 0)" "unat v * 10 + d < 2 ^ 64"
      "dotted_loop True (v * 10 + of_nat d) cs = (Some w, rest)"
      unfolding dotted_step [OF d u] by (auto split: if_splits)
    from Cons.IH [OF step(3)] obtain ds where ds: "list_all (\<lambda>d. d < 10) ds"
      "cs = map (\<lambda>d. of_nat (0x30 + d)) ds @ dot_rest rest" "unat w = shift_in (unat (v * 10 + of_nat d)) ds"
      "ds \<noteq> [] \<longrightarrow> v * 10 + of_nat d \<noteq> 0" by blast
    then show ?thesis
      using step d digit_push [OF step(2)]
      by (intro exI [of _ "d # ds"]) (auto simp: shift_in_def u intro: gr0I)
  qed
qed

lemma undigits_shift: "undigits 10 ds = shift_in 0 ds"
  by (simp add: undigits_def shift_in_def)

lemma parse_dotted_complete:
  assumes "v < 2 ^ 64"
  shows "parse_dotted_decimal (decimal v @ dot_rest rest) = (Some (of_nat v), rest)"
proof -
  define ds where "ds = (if v = 0 then [0] else digits 10 v)"
  have "list_all (\<lambda>d. d < 10) ds" "ds \<noteq> []" "1 < length ds \<longrightarrow> hd ds \<noteq> 0" "shift_in 0 ds = v"
    using digits_less [of 10 v] hd_digits [of 10 v] undigits_digits [of 10 v]
    by (auto simp: ds_def undigits_shift) (simp add: shift_in_def)
  moreover have "decimal v = map (\<lambda>d. of_nat (0x30 + d)) ds" by (simp add: decimal_def ds_def)
  ultimately show ?thesis
    using dotted_complete [of ds 0 False rest] assms by (simp add: parse_dotted_decimal_def)
qed

lemma parse_dotted_sound:
  assumes "parse_dotted_decimal cs = (Some w, rest)"
  shows "cs = decimal (unat w) @ dot_rest rest"
proof -
  obtain ds where ds: "list_all (\<lambda>d. d < 10) ds" "cs = map (\<lambda>d. of_nat (0x30 + d)) ds @ dot_rest rest"
    "unat w = shift_in 0 ds" "ds \<noteq> []" "1 < length ds \<longrightarrow> hd ds \<noteq> 0"
    using dotted_sound [OF assms [unfolded parse_dotted_decimal_def]] by auto
  have "decimal (shift_in 0 ds) = map (\<lambda>d. of_nat (0x30 + d)) ds"
  proof (cases "ds = [0]")
    case True
    then show ?thesis by (simp add: shift_in_def decimal_def)
  next
    case False
    then have "hd ds \<noteq> 0" using ds(4,5) by (cases ds; cases "tl ds") auto
    moreover from this have "0 < shift_in 0 ds" using undigits_pos [of ds 10] ds(4) by (simp add: undigits_shift)
    ultimately show ?thesis using digits_undigits [of 10 ds] ds(1) by (simp add: decimal_def undigits_shift)
  qed
  then show ?thesis using ds(2,3) by simp
qed

section \<open>Components\<close>

text \<open>The components of an identifier and its contents octets.\<close>

definition oid_ok :: "nat \<Rightarrow> nat \<Rightarrow> nat list \<Rightarrow> bool" where
  "oid_ok a b vs \<longleftrightarrow> a \<le> 2 \<and> (a < 2 \<longrightarrow> b < 40) \<and> b + 80 < 2 ^ 64 \<and> list_all (\<lambda>v. v < 2 ^ 64) vs"

definition oid_octets :: "nat \<Rightarrow> nat \<Rightarrow> nat list \<Rightarrow> u8 list" where
  "oid_octets a b vs = base128 (40 * a + b) @ concat (map base128 vs)"

lemma decimal_not_Nil: "decimal v \<noteq> []"
  by (simp add: decimal_def)

lemma dotted_eq_Nil [simp]: "dotted vs = [] \<longleftrightarrow> vs = []"
  by (cases vs rule: dotted.cases) (simp_all add: decimal_not_Nil)

lemma dotted_Cons: "dotted (v # vs) = decimal v @ dot_rest (dotted vs)"
  by (cases vs) (simp_all add: dot_rest_def)

lemma base128_appends:
  "idle k s \<Longrightarrow> good s \<Longrightarrow> appends env {} (base128 (unat v)) s (add_base128_integer (Suc n) env k v s)"
  unfolding add_base128_integer_def base128_octets_spec by (rule add_each_appends) simp_all

lemma components_complete:
  "idle k s \<Longrightarrow> good s \<Longrightarrow> list_all (\<lambda>v. v < 2 ^ 64) vs \<Longrightarrow>
   appends env {} (concat (map base128 vs)) s (oid_components (Suc n) env k (dotted vs) s)"
proof (induction vs arbitrary: s)
  case Nil
  then show ?case by (simp add: oid_components.simps appends_def after_refl)
next
  case (Cons v vs)
  have "oid_components (Suc n) env k (dotted (v # vs)) s =
      and_then_opt (add_base128_integer (Suc n) env k (of_nat v) s) (oid_components (Suc n) env k (dotted vs))"
    using Cons.prems(3) parse_dotted_complete [of v "dotted vs"]
    by (subst oid_components.simps) (simp add: dotted_Cons decimal_not_Nil del: dotted.simps)
  moreover have "unat (of_nat v :: u64) = v" using Cons.prems(3) by simp
  moreover have "appends env {} (concat (map base128 vs)) s' (oid_components (Suc n) env k (dotted vs) s')"
    if "after {} (base128 v) s s'" for s'
    using that Cons by (intro Cons.IH) (simp_all add: after_idle after_good)
  ultimately show ?case
    using appends_then [OF Cons.prems(2) base128_appends [OF Cons.prems(1,2), of env "of_nat v" n]] by simp
qed

lemma components_sound:
  "oid_components n env k cs s = Some (True, s') \<Longrightarrow> \<exists>vs. list_all (\<lambda>v. v < 2 ^ 64) vs \<and> cs = dotted vs"
proof (induction n env k cs s arbitrary: s' rule: oid_components.induct)
  case (1 n env k cs s)
  show ?case
  proof (cases "cs = []")
    case True
    then show ?thesis by (intro exI [of _ "[]"]) simp
  next
    case False
    with "1.prems" obtain a rest s1 where a: "parse_dotted_decimal cs = (Some a, rest)"
      "oid_components n env k rest s1 = Some (True, s')"
      by (subst (asm) oid_components.simps) (auto simp: and_then_opt_eq_Some split: prod.splits option.splits)
    then obtain vs where "list_all (\<lambda>v. v < 2 ^ 64) vs" "rest = dotted vs"
      using "1.IH" [OF False a(1) [symmetric] refl] by blast
    then show ?thesis using parse_dotted_sound [OF a(1)]
      by (intro exI [of _ "unat a # vs"]) (simp add: dotted_Cons del: dotted.simps)
  qed
qed

lemma components_total:
  "idle k s \<Longrightarrow> good s \<Longrightarrow> oid_components (Suc n) env k cs s \<noteq> None"
proof (induction "Suc n" env k cs s rule: oid_components.induct)
  case (1 env k cs s)
  have a: "appends env {} (base128 (unat v)) s (add_base128_integer (Suc n) env k v s)" for v
    by (rule base128_appends [OF 1(2,3)])
  show ?case
  proof (cases "cs = [] \<or> fst (parse_dotted_decimal cs) = None")
    case True
    then show ?thesis by (subst oid_components.simps) (auto split: prod.splits option.splits)
  next
    case False
    then obtain v rest where p: "cs \<noteq> []" "parse_dotted_decimal cs = (Some v, rest)"
      by (cases "parse_dotted_decimal cs") auto
    obtain ok s1 where s1: "add_base128_integer (Suc n) env k v s = Some (ok, s1)" "ok \<longrightarrow> after {} (base128 (unat v)) s s1"
      using a [of v] by (auto simp: appends_def split: option.splits if_splits)
    have "oid_components (Suc n) env k rest s1 \<noteq> None" if ok
      using 1(1) [OF p(1) p(2) [symmetric] refl, of s1] s1(2) that 1(2,3) by (simp add: after_idle after_good)
    then show ?thesis using p s1(1) by (subst oid_components.simps) (cases ok; simp)
  qed
qed

section \<open>From text\<close>

text \<open>The range check on the first two components.\<close>

definition oid_pair_ok :: "u64 \<Rightarrow> u64 \<Rightarrow> bool" where
  "oid_pair_ok a b \<longleftrightarrow> \<not> (a > 2 \<or> (a < 2 \<and> b > 39) \<or> b > 0xffffffffffffffff - 80)"

lemma oid_pair_spec:
  "oid_pair_ok a b \<longleftrightarrow> unat a \<le> 2 \<and> (unat a < 2 \<longrightarrow> unat b < 40) \<and> unat b + 80 < 2 ^ 64"
  by (auto simp: oid_pair_ok_def word_less_nat_alt)

lemma oid_pair_value: "oid_pair_ok a b \<Longrightarrow> unat (40 * a + b) = 40 * unat a + unat b"
  by (simp add: oid_pair_spec unat_word_ariths)

lemma from_text_unfold:
  assumes "idle k s" "good s"
  shows "CBB_add_asn1_oid_from_text (Suc n) env k cs s =
    (case parse_dotted_decimal cs of
       (None, _) \<Rightarrow> Some (False, s)
     | (Some a, cs) \<Rightarrow>
         (case parse_dotted_decimal cs of
            (None, _) \<Rightarrow> Some (False, s)
          | (Some b, cs) \<Rightarrow>
              if \<not> oid_pair_ok a b then Some (False, s)
              else and_then_opt (add_base128_integer (Suc n) env k (40 * a + b) s) (oid_components (Suc n) env k cs)))"
  unfolding CBB_add_asn1_oid_from_text_def flush_then_idle [OF assms] oid_pair_ok_def not_not by (rule refl)

lemma pair_components:
  assumes "idle k s" "good s" "list_all (\<lambda>v. v < 2 ^ 64) vs" "oid_pair_ok a b"
  shows "appends env {} (oid_octets (unat a) (unat b) vs) s
     (and_then_opt (add_base128_integer (Suc n) env k (40 * a + b) s) (oid_components (Suc n) env k (dotted vs)))"
  unfolding oid_octets_def
  using base128_appends [OF assms(1,2), of env "40 * a + b" n] components_complete [OF _ _ assms(3)] assms(1,2)
  by (intro appends_then) (simp_all add: oid_pair_value [OF assms(4)] after_idle after_good)

text \<open>C24. \<^verbatim>\<open>CBB_add_asn1_oid_from_text\<close> accepts exactly the dotted decimal forms of object
  identifiers: two components, the first at most 2, the second below 40 unless the first is 2, then any number of
  components, all written without leading zeros and within 64 bits.  For these it appends the first two
  components in one number and the others, each in the shortest base 128 form; for every other text it
  returns failure.\<close>

theorem oid_from_text_exact:
  assumes "idle k s" "good s"
  shows "(oid_ok a b vs \<longrightarrow>
      appends env {} (oid_octets a b vs) s (CBB_add_asn1_oid_from_text (Suc n) env k (dotted (a # b # vs)) s)) \<and>
    ((\<nexists>a b vs. oid_ok a b vs \<and> cs = dotted (a # b # vs)) \<longrightarrow>
      (\<exists>s'. CBB_add_asn1_oid_from_text (Suc n) env k cs s = Some (False, s')))"
proof (intro conjI impI)
  assume ok: "oid_ok a b vs"
  then have u: "unat (of_nat a :: u64) = a" "unat (of_nat b :: u64) = b" by (simp_all add: oid_ok_def)
  have lt: "a < 2 ^ 64" "b < 2 ^ 64" using ok by (simp_all add: oid_ok_def)
  have pair: "oid_pair_ok (of_nat a) (of_nat b)" using ok u by (simp add: oid_pair_spec oid_ok_def)
  have "parse_dotted_decimal (dotted (a # b # vs)) = (Some (of_nat a), dotted (b # vs))"
    "parse_dotted_decimal (dotted (b # vs)) = (Some (of_nat b), dotted vs)"
    unfolding dotted_Cons [of a "b # vs"] dotted_Cons [of b vs]
    using lt by (simp_all only: parse_dotted_complete)
  then show "appends env {} (oid_octets a b vs) s (CBB_add_asn1_oid_from_text (Suc n) env k (dotted (a # b # vs)) s)"
    using pair_components [OF assms _ pair, of vs env n] ok pair
    by (simp add: from_text_unfold [OF assms] u oid_ok_def del: dotted.simps)
next
  assume no: "\<nexists>a b vs. oid_ok a b vs \<and> cs = dotted (a # b # vs)"
  show "\<exists>s'. CBB_add_asn1_oid_from_text (Suc n) env k cs s = Some (False, s')"
  proof (cases "\<exists>a b r1 r2. parse_dotted_decimal cs = (Some a, r1) \<and> parse_dotted_decimal r1 = (Some b, r2) \<and> oid_pair_ok a b")
    case False
    then show ?thesis by (auto simp: from_text_unfold [OF assms] split: prod.splits option.splits)
  next
    case True
    then obtain a b r1 r2 where p: "parse_dotted_decimal cs = (Some a, r1)" "parse_dotted_decimal r1 = (Some b, r2)"
      "oid_pair_ok a b" by blast
    let ?r = "and_then_opt (add_base128_integer (Suc n) env k (40 * a + b) s) (oid_components (Suc n) env k r2)"
    have r: "CBB_add_asn1_oid_from_text (Suc n) env k cs s = ?r" using p by (simp add: from_text_unfold [OF assms])
    obtain ok s1 where s1: "add_base128_integer (Suc n) env k (40 * a + b) s = Some (ok, s1)"
      "ok \<longrightarrow> after {} (base128 (unat (40 * a + b))) s s1"
      using base128_appends [OF assms, of env "40 * a + b" n] by (auto simp: appends_def split: option.splits if_splits)
    then have "ok \<longrightarrow> oid_components (Suc n) env k r2 s1 \<noteq> None"
      using components_total [of k s1] assms(1) by (auto simp: after_idle after_good)
    then obtain ok' s' where res: "?r = Some (ok', s')" using s1(1) by (cases ok) auto
    have "\<not> ok'"
    proof
      assume ok'
      then have "oid_components (Suc n) env k r2 s1 = Some (True, s')" using res s1(1) by (cases ok) auto
      then obtain vs where vs: "list_all (\<lambda>v. v < 2 ^ 64) vs" "r2 = dotted vs" using components_sound by blast
      then have "cs = dotted (unat a # unat b # vs)"
        using parse_dotted_sound [OF p(1)] parse_dotted_sound [OF p(2)] by (simp add: dotted_Cons del: dotted.simps)
      then show False using no vs(1) p(3) by (auto simp: oid_ok_def oid_pair_spec)
    qed
    then show ?thesis using r res by simp
  qed
qed

theorem oid_from_text_exact_witness:
  "appends example_cbb_env {} [0x2a, 0x86, 0x48] example_cbb
     (CBB_add_asn1_oid_from_text (Suc 0) example_cbb_env 0 [0x31, 0x2e, 0x32, 0x2e, 0x38, 0x34, 0x30] example_cbb) \<and>
   (\<exists>s'. CBB_add_asn1_oid_from_text (Suc 0) example_cbb_env 0 [0x31] example_cbb = Some (False, s'))"
proof
  note w = oid_from_text_exact [OF example_cbb_ready, of 1 2 "[840]" example_cbb_env 0 "[0x31]"]
  have "oid_ok 1 2 [840]" "dotted [1, 2, 840] = [0x31, 0x2e, 0x32, 0x2e, 0x38, 0x34, 0x30]"
    "oid_octets 1 2 [840] = [0x2a, 0x86, 0x48]"
    by (simp_all add: oid_ok_def decimal_def digits.simps oid_octets_def base128_def cont_byte_def)
  with w show "appends example_cbb_env {} [0x2a, 0x86, 0x48] example_cbb
     (CBB_add_asn1_oid_from_text (Suc 0) example_cbb_env 0 [0x31, 0x2e, 0x32, 0x2e, 0x38, 0x34, 0x30] example_cbb)" by simp
  have "[0x31] \<noteq> dotted (a # b # vs)" for a b vs
  proof
    assume "[0x31] = dotted (a # b # vs)"
    from arg_cong [OF this, of length] decimal_not_Nil [of a] show False by (cases "decimal a") auto
  qed
  with w show "\<exists>s'. CBB_add_asn1_oid_from_text (Suc 0) example_cbb_env 0 [0x31] example_cbb = Some (False, s')" by blast
qed

section \<open>To text\<close>

lemma length_decimal: "v < 2 ^ 64 \<Longrightarrow> length (decimal v) \<le> DECIMAL_SIZE 8"
  using length_digits_le [of 10 v 20] by (simp add: decimal_def DECIMAL_SIZE_def)

lemma decimal_appends:
  assumes "idle k s" "good s"
  shows "appends env {} (decimal (unat v)) s (add_decimal (Suc n) env k v s)"
proof -
  have l: "length (decimal (unat v)) \<le> DECIMAL_SIZE 8" by (rule length_decimal) simp
  moreover from l have "length (decimal (unat v)) < 2 ^ 64" by (simp add: DECIMAL_SIZE_def)
  ultimately show ?thesis using add_bytes_appends [OF assms, of "decimal (unat v)" env "{}" n] by (simp add: add_decimal_def)
qed

text \<open>A dot and a component.\<close>

lemma component_appends:
  assumes "idle k s" "good s"
  shows "appends env {} (0x2e # decimal (unat v)) s
    (and_then_opt (CBB_add_u8 (Suc n) env k 0x2e s) (add_decimal (Suc n) env k v))"
  using appends_then [OF assms(2) add_u8_appends [OF assms, of env "{}" "0x2e" n], of "decimal (unat v)"
      "add_decimal (Suc n) env k v"] decimal_appends [of k _ env v n] assms
  by (simp add: after_idle after_good)

lemma first_appends:
  assumes i: "idle k s" "good s" and ok: "oid_ok a b vs" and v: "unat v = 40 * a + b"
  shows "appends env {} (decimal a @ 0x2e # decimal b) s (oid_text_first (Suc n) env k v s)"
proof (cases "80 \<le> unat v")
  case True
  then have "a = 2" "unat (v - 80) = b" using ok v by (auto simp: oid_ok_def unat_sub word_le_nat_alt)
  moreover have "decimal 2 = [0x32]" by (simp add: decimal_def digits.simps)
  ultimately show ?thesis
    using True add_bytes_appends [OF i, of "[0x32, 0x2e]" env "{}" n] decimal_appends [of k _ env "v - 80" n] i
      appends_then [of s env "{}" "[0x32, 0x2e]" "CBB_add_bytes (Suc n) env k [0x32, 0x2e] s" "decimal b"
         "add_decimal (Suc n) env k (v - 80)"]
    by (simp add: oid_text_first_def word_le_nat_alt after_idle after_good)
next
  case False
  then have "unat v div 40 = a" "unat v mod 40 = b" using ok v by (auto simp: oid_ok_def)
  then have ab: "unat (v div 40) = a" "unat (v mod 40) = b" by (simp_all add: unat_div unat_mod)
  show ?thesis
    using False i ab decimal_appends [OF i, of env "v div 40" n] component_appends [of k _ env "v mod 40" n]
      appends_then [of s env "{}" "decimal a" "add_decimal (Suc n) env k (v div 40) s" "0x2e # decimal b"
        "\<lambda>s. and_then_opt (CBB_add_u8 (Suc n) env k 0x2e s) (add_decimal (Suc n) env k (v mod 40))"]
    by (simp add: oid_text_first_def word_le_nat_alt after_idle after_good)
qed

lemma dot_rest_dotted: "dot_rest (dotted vs) = concat (map (\<lambda>v. 0x2e # decimal v) vs)"
proof (induction vs)
  case (Cons v vs)
  then show ?case by (simp add: dotted_Cons del: dotted.simps) (simp add: dot_rest_def decimal_not_Nil)
qed (simp add: dot_rest_def)

lemma and_then_opt_assoc: "and_then_opt r (\<lambda>s. and_then_opt (f s) g) = and_then_opt (and_then_opt r f) g"
  by (cases r) (auto simp: and_then_opt_def split: bool.splits)

lemma text_loop_step:
  assumes "cbs_len c \<noteq> 0" "parse_base128_integer m c = (Some v, c')"
  shows "oid_text_loop n env k m c s =
    and_then_opt (and_then_opt (CBB_add_u8 n env k 0x2e s) (add_decimal n env k v)) (oid_text_loop n env k m c')"
  using assms by (subst oid_text_loop.simps) (simp add: and_then_opt_assoc)

lemma text_loop_complete:
  "idle k s \<Longrightarrow> good s \<Longrightarrow> list_all (\<lambda>v. v < 2 ^ 64) vs \<Longrightarrow> cbs_bytes m c = concat (map base128 vs) \<Longrightarrow>
   appends env {} (dot_rest (dotted vs)) s (oid_text_loop (Suc n) env k m c s)"
proof (induction vs arbitrary: s c)
  case Nil
  then have "unat (cbs_len c) = 0" by (metis length_cbs_bytes concat.simps(1) list.map(1) list.size(3))
  then show ?case using Nil by (simp add: oid_text_loop.simps unat_eq_0 appends_def after_refl dot_rest_def)
next
  case (Cons v vs)
  have b: "cbs_bytes m c = base128 v @ concat (map base128 vs)" using Cons.prems(4) by simp
  have v: "v < 2 ^ 64" "unat (of_nat v :: u64) = v" using Cons.prems(3) by simp_all
  note p = parse_base128_complete [OF b v(1)]
  have l: "length (base128 v) \<le> unat (cbs_len c)" using length_cbs_bytes [of m c] b by (simp del: length_cbs_bytes)
  moreover have "0 < length (base128 v)" by (simp add: length_base128)
  ultimately have ne: "cbs_len c \<noteq> 0" by (metis le_zero_eq neq0_conv unat_0)
  have "cbs_bytes m (cbs_adv (length (base128 v)) c) = concat (map base128 vs)" using bytes_adv [OF l] b by simp
  then have "appends env {} (dot_rest (dotted vs)) s' (oid_text_loop (Suc n) env k m (cbs_adv (length (base128 v)) c) s')"
    if "after {} (0x2e # decimal v) s s'" for s'
    using that Cons by (intro Cons.IH) (simp_all add: after_idle after_good)
  then show ?case
    using appends_then [OF Cons.prems(2) component_appends [OF Cons.prems(1,2), of env "of_nat v" n], unfolded v(2)]
    unfolding text_loop_step [OF ne p] dot_rest_dotted by simp
qed

lemma text_loop_sound:
  "oid_text_loop n env k m c s = Some (True, s') \<Longrightarrow>
   \<exists>vs. list_all (\<lambda>v. v < 2 ^ 64) vs \<and> cbs_bytes m c = concat (map base128 vs)"
proof (induction n env k m c s arbitrary: s' rule: oid_text_loop.induct)
  case (1 n env k m c s)
  show ?case
  proof (cases "cbs_len c = 0")
    case True
    then show ?thesis by (intro exI [of _ "[]"]) (simp add: cbs_bytes_def)
  next
    case False
    with "1.prems" obtain v c' s2 where p: "parse_base128_integer m c = (Some v, c')"
      "oid_text_loop n env k m c' s2 = Some (True, s')"
      by (subst (asm) oid_text_loop.simps) (auto simp: and_then_opt_eq_Some split: prod.splits option.splits)
    obtain rest where b: "cbs_bytes m c = base128 (unat v) @ rest" "c' = cbs_adv (length (base128 (unat v))) c"
      using parse_base128_sound [OF p(1)] by blast
    have "length (base128 (unat v)) \<le> unat (cbs_len c)" using length_cbs_bytes [of m c] b(1) by (simp del: length_cbs_bytes)
    then have "cbs_bytes m c' = rest" using bytes_adv b by simp
    moreover obtain vs where "list_all (\<lambda>v. v < 2 ^ 64) vs" "cbs_bytes m c' = concat (map base128 vs)"
      using "1.IH" [OF False p(1) [symmetric] refl p(2)] by blast
    ultimately show ?thesis using b(1) by (intro exI [of _ "unat v # vs"]) simp
  qed
qed

lemma text_loop_total:
  "idle k s \<Longrightarrow> good s \<Longrightarrow> oid_text_loop (Suc n) env k m c s \<noteq> None"
proof (induction "Suc n" env k m c s rule: oid_text_loop.induct)
  case (1 env k m c s)
  show ?case
  proof (cases "cbs_len c = 0 \<or> fst (parse_base128_integer m c) = None")
    case True
    then show ?thesis by (subst oid_text_loop.simps) (auto split: prod.splits option.splits)
  next
    case False
    then obtain v c' where p: "cbs_len c \<noteq> 0" "parse_base128_integer m c = (Some v, c')"
      by (cases "parse_base128_integer m c") auto
    obtain ok s1 where s1: "and_then_opt (CBB_add_u8 (Suc n) env k 0x2e s) (add_decimal (Suc n) env k v) = Some (ok, s1)"
      "ok \<longrightarrow> after {} (0x2e # decimal (unat v)) s s1"
      using component_appends [OF 1(2,3), of env v n] by (auto simp: appends_def split: option.splits if_splits)
    have "oid_text_loop (Suc n) env k m c' s1 \<noteq> None" if ok
      using 1(1) [OF p(1) p(2) [symmetric] refl, of s1] s1(2) that 1(2,3) by (simp add: after_idle after_good)
    then show ?thesis unfolding text_loop_step [OF p] s1(1) by (cases ok) simp_all
  qed
qed

text \<open>The text without its NUL, written behind what the buffer holds.\<close>

definition oid_body :: "nat \<Rightarrow> cbb_env \<Rightarrow> nat \<Rightarrow> mem \<Rightarrow> u64 \<Rightarrow> cbs \<Rightarrow> cbb_state \<Rightarrow> (bool \<times> cbb_state) option" where
  "oid_body n env k m v c s =
     and_then_opt (oid_text_first n env k v s) (\<lambda>s.
       and_then_opt (oid_text_loop n env k m c s) (CBB_add_u8 n env k 0))"

lemma oid_body_appends:
  assumes "idle k s" "good s" "oid_ok a b vs" "unat v = 40 * a + b" "cbs_bytes m c = concat (map base128 vs)"
  shows "appends env {} (dotted (a # b # vs) @ [0]) s (oid_body (Suc n) env k m v c s)"
proof -
  have "appends env {} (dot_rest (dotted vs) @ [0]) s'
      (and_then_opt (oid_text_loop (Suc n) env k m c s') (CBB_add_u8 (Suc n) env k 0))" if "idle k s'" "good s'" for s'
    using that assms(3,5) by (intro appends_then text_loop_complete add_u8_appends) (simp_all add: oid_ok_def after_idle after_good)
  moreover have "dotted (a # b # vs) @ [0] = (decimal a @ 0x2e # decimal b) @ dot_rest (dotted vs) @ [0]"
    by (simp add: dotted_Cons [of b] dot_rest_def decimal_not_Nil)
  ultimately show ?thesis
    unfolding oid_body_def using appends_then [OF assms(2) first_appends [OF assms(1-4), of env n]] assms(1,2)
    by (simp add: after_idle after_good)
qed

lemma oid_split:
  assumes "v < 2 ^ 64" "list_all (\<lambda>v. v < 2 ^ 64) vs"
  obtains a b where "oid_ok a b vs" "v = 40 * a + b"
proof (cases "80 \<le> v")
  case True
  then show ?thesis using assms by (intro that [of 2 "v - 80"]) (simp_all add: oid_ok_def)
next
  case False
  then show ?thesis using assms div_mult_mod_eq [of v 40] by (intro that [of "v div 40" "v mod 40"]) (auto simp: oid_ok_def)
qed

lemma appends_result:
  assumes "appends env {} bs s r" "idle k s"
  shows "\<exists>ok s'. r = Some (ok, s') \<and> (ok \<longrightarrow> idle k s' \<and> good s')"
proof (cases r)
  case (Some p)
  then show ?thesis using assms by (cases p) (simp add: appends_def after_idle after_good split: if_splits)
qed (use assms in \<open>simp add: appends_def\<close>)

lemma oid_body_fails:
  assumes "idle k s" "good s" "\<nexists>vs. list_all (\<lambda>v. v < 2 ^ 64) vs \<and> cbs_bytes m c = concat (map base128 vs)"
  shows "\<exists>s'. oid_body (Suc n) env k m v c s = Some (False, s')"
proof -
  obtain a b where ab: "oid_ok a b []" "unat v = 40 * a + b" using oid_split [of "unat v" "[]"] by auto
  obtain ok s1 where s1: "oid_text_first (Suc n) env k v s = Some (ok, s1)" "ok \<longrightarrow> idle k s1 \<and> good s1"
    using appends_result [OF first_appends [OF assms(1,2) ab, of env n] assms(1)] by blast
  show ?thesis
  proof (cases ok)
    case True
    then obtain ok' s2 where "oid_text_loop (Suc n) env k m c s1 = Some (ok', s2)"
      using text_loop_total [of k s1] s1(2) by fastforce
    moreover from this have "\<not> ok'" using text_loop_sound [of "Suc n" env k m c s1 s2] assms(3) by auto
    ultimately show ?thesis using s1(1) True by (simp add: oid_body_def)
  qed (simp add: oid_body_def s1(1))
qed

lemma to_text_unfold:
  assumes "CBB_init env k 32 s = (True, s1)"
  shows "CBS_asn1_oid_to_text n env k m c s =
    (case parse_base128_integer m c of
       (None, _) \<Rightarrow> Some (None, CBB_cleanup k s1)
     | (Some v, c) \<Rightarrow>
         (case oid_body n env k m v c s1 of
            None \<Rightarrow> None
          | Some (False, s) \<Rightarrow> Some (None, CBB_cleanup k s)
          | Some (True, s) \<Rightarrow>
              (case CBB_finish n env k True s of
                 None \<Rightarrow> None
               | Some (None, s) \<Rightarrow> Some (None, CBB_cleanup k s)
               | Some (Some txt, s) \<Rightarrow> Some (Some txt, s))))"
  unfolding CBS_asn1_oid_to_text_def oid_body_def assms prod.case bool.case by (rule refl)

text \<open>C25. \<^verbatim>\<open>CBS_asn1_oid_to_text\<close> inverts \<^verbatim>\<open>CBB_add_asn1_oid_from_text\<close>: with an
  allocator that grants every request, the contents octets of an identifier give its dotted decimal
  form and a NUL, and a reader over anything else (an empty or truncated number, a leading zero group, more than 64
  bits) gives \<^verbatim>\<open>NULL\<close>.\<close>

theorem oid_to_text_exact:
  assumes alloc: "\<forall>m. alloc_ok env m" "block_ok env"
  shows "(oid_ok a b vs \<and> cbs_bytes m c = oid_octets a b vs \<and> length (dotted (a # b # vs)) + 1 < 2 ^ 64 \<longrightarrow>
      (\<exists>s'. CBS_asn1_oid_to_text (Suc n) env k m c s = Some (Some (dotted (a # b # vs) @ [0]), s'))) \<and>
    ((\<nexists>a b vs. oid_ok a b vs \<and> cbs_bytes m c = oid_octets a b vs) \<longrightarrow>
      (\<exists>s'. CBS_asn1_oid_to_text (Suc n) env k m c s = Some (None, s')))"
proof -
  obtain s1 where i: "CBB_init env k 32 s = (True, s1)" using alloc by (simp add: CBB_init_def cbb_init_def Let_def)
  note r = init_ready [OF i] and unfold = to_text_unfold [OF i, of "Suc n" m c]
  have adv: "cbs_bytes m (cbs_adv (length (base128 v)) c) = rest" if "cbs_bytes m c = base128 v @ rest" for v rest
    using that bytes_adv [of "length (base128 v)" c m] length_cbs_bytes [of m c] by (simp del: length_cbs_bytes)
  show ?thesis
  proof (intro conjI impI)
    assume "oid_ok a b vs \<and> cbs_bytes m c = oid_octets a b vs \<and> length (dotted (a # b # vs)) + 1 < 2 ^ 64"
    then have ok: "oid_ok a b vs" and b: "cbs_bytes m c = base128 (40 * a + b) @ concat (map base128 vs)"
      and len: "length (dotted (a # b # vs)) + 1 < 2 ^ 64" by (simp_all add: oid_octets_def)
    have v: "40 * a + b < 2 ^ 64" "unat (of_nat (40 * a + b) :: u64) = 40 * a + b"
      using ok by (auto simp: oid_ok_def simp del: of_nat_add of_nat_mult)
    have "room env (base s1) (length (dotted (a # b # vs) @ [0]))"
      using r(4,5) alloc len by (simp add: room_def del: dotted.simps)
    then obtain s2 where s2: "oid_body (Suc n) env k m (of_nat (40 * a + b)) (cbs_adv (length (base128 (40 * a + b))) c) s1 = Some (True, s2)"
      "after {} (dotted (a # b # vs) @ [0]) s1 s2"
      using oid_body_appends [OF r(1,2) ok v(2) adv [OF b], of env n]
      by (auto simp: appends_def simp del: dotted.simps of_nat_add of_nat_mult split: option.splits if_splits)
    have "content (base s2) = dotted (a # b # vs) @ [0]" "idle k s2" "good s2" "\<not> c_is_child (cbbs s2 k)"
      using s2(2) r by (auto simp: after_def extended_def idle_def simp del: dotted.simps)
    then show "\<exists>s'. CBS_asn1_oid_to_text (Suc n) env k m c s = Some (Some (dotted (a # b # vs) @ [0]), s')"
      using s2(1) finish_idle [of k s2 n env]
      by (simp add: unfold parse_base128_complete [OF b v(1)] del: dotted.simps of_nat_add of_nat_mult)
  next
    assume no: "\<nexists>a b vs. oid_ok a b vs \<and> cbs_bytes m c = oid_octets a b vs"
    show "\<exists>s'. CBS_asn1_oid_to_text (Suc n) env k m c s = Some (None, s')"
    proof (cases "parse_base128_integer m c")
      case (Pair p c')
      show ?thesis
      proof (cases p)
        case None
        then show ?thesis by (simp add: unfold Pair)
      next
        case (Some v)
        obtain rest where b: "cbs_bytes m c = base128 (unat v) @ rest" "c' = cbs_adv (length (base128 (unat v))) c"
          using parse_base128_sound [OF Pair [unfolded Some]] by blast
        have "\<nexists>vs. list_all (\<lambda>v. v < 2 ^ 64) vs \<and> rest = concat (map base128 vs)"
        proof
          assume "\<exists>vs. list_all (\<lambda>v. v < 2 ^ 64) vs \<and> rest = concat (map base128 vs)"
          then obtain vs where vs: "list_all (\<lambda>v. v < 2 ^ 64) vs" "rest = concat (map base128 vs)" by blast
          from oid_split [OF _ vs(1), of "unat v"] obtain a b where "oid_ok a b vs" "unat v = 40 * a + b" by auto
          then show False using no b(1) vs(2) by (auto simp: oid_octets_def)
        qed
        then obtain s' where "oid_body (Suc n) env k m v c' s1 = Some (False, s')"
          using oid_body_fails [OF r(1,2), of m c' n env v] adv [OF b(1)] b(2) by auto
        then show ?thesis by (simp add: unfold Pair Some)
      qed
    qed
  qed
qed

theorem oid_to_text_exact_witness:
  "\<exists>s'. CBS_asn1_oid_to_text 1 \<lparr>alloc_ok = \<lambda>_. True, block_ok = True, junk = 0\<rparr> 0 (\<lambda>_. 0x55) (CBS_init 0 1) example_cbb =
     Some (Some [0x32, 0x2e, 0x35, 0], s')"
proof -
  have "oid_ok 2 5 []" "cbs_bytes (\<lambda>_. 0x55) (CBS_init 0 1) = oid_octets 2 5 []" "decimal 2 = [0x32]" "decimal 5 = [0x35]"
    by (simp_all add: oid_ok_def oid_octets_def base128_def cbs_bytes_def CBS_init_def read_bytes_Suc decimal_def digits.simps)
  with oid_to_text_exact [of "\<lparr>alloc_ok = \<lambda>_. True, block_ok = True, junk = 0\<rparr>" 2 5 "[]" "\<lambda>_. 0x55" "CBS_init 0 1" 0 0 example_cbb]
  show ?thesis by simp
qed

end
