(* ===== verification/Ber.thy ===== *)
theory Ber
  imports Cbb_Props Cbs_Props
begin

text \<open>
  \<^verbatim>\<open>crypto/bytestring/ber.c\<close>: turning BER with indefinite lengths and constructed strings into DER.
  A first walk looks for such elements; if it finds one, a second reads the input with a \<^verbatim>\<open>CBS\<close> and
  writes it again with a \<^verbatim>\<open>CBB\<close>.  The second walk is shown to write the DER form of every
  well-formed input; the first one is shown to miss elements that a later sibling hides.
\<close>

section \<open>The code\<close>

definition kMaxDepth :: nat where "kMaxDepth = 2048"

definition string_numbers :: "u32 list" where
  "string_numbers = [3, 4, 0xc, 0x12, 0x13, 0x14, 0x15, 0x16, 0x19, 0x1a, 0x1b, 0x1c, 0x1e]"

definition is_string_type :: "u32 \<Rightarrow> bool" where
  "is_string_type tag = (tag AND NOT CBS_ASN1_CONSTRUCTED \<in> set string_numbers)"

text \<open>\<^verbatim>\<open>CBS_len(&contents) == hdr_len && hdr_len > 0 && data[hdr_len - 1] == 0x80\<close>\<close>

definition is_indefinite :: "mem \<Rightarrow> cbs \<Rightarrow> u64 \<Rightarrow> bool" where
  "is_indefinite m contents hdr_len =
     (cbs_len contents = hdr_len \<and> hdr_len > 0 \<and> m (cbs_data contents + (hdr_len - 1)) = 0x80)"

text \<open>The element getter with BER's indefinite lengths allowed: the element is then its header.\<close>

lemma ber_step:
  assumes t: "parse_asn1_tag m c = (Some t, h)"
  shows "cbs_get_any_asn1_element True m c =
     (if t AND CBS_ASN1_CONSTRUCTED \<noteq> 0 \<and> (\<exists>rest. cbs_bytes m h = 0x80 # rest)
      then element_result c t (length (der_tag t) + 1) 0 else cbs_get_any_asn1_element False m c)"
proof (cases "cbs_bytes m h")
  case Nil
  then show ?thesis by (simp add: cbs_get_any_asn1_element_def t get_u8_spec)
next
  case (Cons b octets)
  obtain rest where bytes: "cbs_bytes m c = der_tag t @ rest" and h: "h = cbs_adv (length (der_tag t)) c"
    using parse_tag_sound [OF t] by blast
  have tl: "length (der_tag t) \<le> unat (cbs_len c)" using arg_cong [OF bytes, of length] by simp
  have "rest = b # octets" using bytes h tl Cons by (simp add: bytes_adv)
  then have len: "unat (cbs_len c) = length (der_tag t) + Suc (length octets)"
    using arg_cong [OF bytes, of length] by simp
  let ?hl = "cbs_len c - cbs_len (cbs_adv 1 h)"
  have "unat (cbs_len (cbs_adv 1 h)) = length octets" using len by (simp add: h len_adv)
  then have hl: "unat ?hl = (length (der_tag t) + 1) + 0"
    using len unat_sub [of "cbs_len (cbs_adv 1 h)" "cbs_len c"] by (simp add: word_le_nat_alt)
  have b80: "b AND 0x80 \<noteq> 0 \<and> (ucast (b AND 0x7f) :: u64) = 0 \<longleftrightarrow> b = 0x80"
  proof -
    have "(ucast (b AND 0x7f) :: u64) = 0 \<longleftrightarrow> unat b mod 128 = 0"
      by (simp add: word_unat_eq_iff unat_and_7F)
    moreover have "b = 0x80 \<longleftrightarrow> unat b = 128" by (simp add: word_unat_eq_iff)
    moreover have "128 \<le> unat b \<and> unat b mod 128 = 0 \<longleftrightarrow> unat b = 128" using u8_less [of b] by presburger
    ultimately show ?thesis by (simp only: byte_high_bit not_less)
  qed
  show ?thesis
  proof (cases "b = 0x80")
    case True
    then show ?thesis
      using Cons get_bytes_sum [OF hl] hl
      by (simp add: cbs_get_any_asn1_element_def t get_u8_spec Let_def)
  next
    case False
    then show ?thesis using Cons b80 by (auto simp: cbs_get_any_asn1_element_def t get_u8_spec Let_def)
  qed
qed

lemma ber_element_parts:
  assumes "cbs_get_any_asn1_element True m c = (Some (out, t, hl), c')"
  obtains k where "out = cbs_front k c" "c' = cbs_adv k c" "k \<le> unat (cbs_len c)" "0 < unat hl" "unat hl \<le> k"
proof -
  obtain u h where t: "parse_asn1_tag m c = (Some u, h)"
    using assms by (cases "parse_asn1_tag m c"; cases "fst (parse_asn1_tag m c)")
      (auto simp: cbs_get_any_asn1_element_def)
  have small: "length (der_tag u) + 1 < 2 ^ 64" using length_der_tag(1) [of u] by simp
  show thesis
  proof (cases "cbs_get_any_asn1_element True m c = cbs_get_any_asn1_element False m c")
    case True
    then obtain body rest where b: "cbs_bytes m c = der_element t body @ rest"
      "out = cbs_front (length (der_element t body)) c" "hl = of_nat (header_len t body)"
      "c' = cbs_adv (length (der_element t body)) c"
      using element_sound [of m c out t hl c'] assms by auto
    have l: "length (der_element t body) \<le> unat (cbs_len c)" using arg_cong [OF b(1), of length] by simp
    moreover have "unat (of_nat (header_len t body) :: u64) = header_len t body"
      using l by (intro unat_of_nat_le [of _ "cbs_len c"]) (simp add: length_der_element)
    ultimately show thesis using b length_der_tag(2) [of t]
      by (intro that [of "length (der_element t body)"]) (simp_all add: length_der_element header_len_def)
  next
    case False
    then have "element_result c u (length (der_tag u) + 1) 0 = (Some (out, t, hl), c')"
      using assms ber_step [OF t] by (simp split: if_splits)
    then have "out = cbs_front (length (der_tag u) + 1) c" "c' = cbs_adv (length (der_tag u) + 1) c"
      "length (der_tag u) + 1 \<le> unat (cbs_len c)" "hl = of_nat (length (der_tag u) + 1)"
      by (auto simp: element_result_def split: if_splits)
    then show thesis using unat_of_nat64 [OF small] by (intro that [of "length (der_tag u) + 1"]) simp_all
  qed
qed

lemma ber_element_shrinks:
  assumes "CBS_get_any_ber_asn1_element m c = (Some (out, t, hl), c')"
  shows "unat (cbs_len c') < unat (cbs_len c)" "CBS_skip hl out = (Some (), body) \<Longrightarrow> unat (cbs_len body) < unat (cbs_len c)"
proof -
  obtain k where k: "out = cbs_front k c" "c' = cbs_adv k c" "k \<le> unat (cbs_len c)" "0 < unat hl" "unat hl \<le> k"
    using assms by (auto simp: CBS_get_any_ber_asn1_element_def elim: ber_element_parts)
  then show "unat (cbs_len c') < unat (cbs_len c)" by (simp add: len_adv)
  have "unat (cbs_len (cbs_front k c)) = k" using k(3) unat_of_nat_le [of k "cbs_len c"] by (simp add: cbs_front_def)
  then show "unat (cbs_len body) < unat (cbs_len c)" if "CBS_skip hl out = (Some (), body)"
    using that k by (auto simp: skip_spec len_adv split: if_splits)
qed

text \<open>The walk; \<open>found\<close> is \<^verbatim>\<open>*ber_found\<close>, which every nested call sets anew.\<close>

function find_loop :: "nat \<Rightarrow> mem \<Rightarrow> bool \<Rightarrow> cbs \<Rightarrow> bool option" where
  "find_loop depth m found c =
     (if cbs_len c = 0 then Some found
      else case CBS_get_any_ber_asn1_element m c of
          (None, _) \<Rightarrow> None
        | (Some (contents, tag, hdr_len), c) \<Rightarrow>
            if is_indefinite m contents hdr_len then Some True
            else if tag AND CBS_ASN1_CONSTRUCTED \<noteq> 0 then
              if is_string_type tag then Some True
              else
                (case CBS_skip hdr_len contents of
                   (None, _) \<Rightarrow> None
                 | (Some _, contents) \<Rightarrow>
                     (case (if depth + 1 > kMaxDepth then None else find_loop (depth + 1) m False contents) of
                        None \<Rightarrow> None | Some found \<Rightarrow> find_loop depth m found c))
            else find_loop depth m found c)"
  by pat_completeness auto
termination
  by (relation "measure (\<lambda>(depth, m, found, c). unat (cbs_len c))") (auto dest: ber_element_shrinks(1) [OF sym] ber_element_shrinks(2) [OF sym sym])

declare find_loop.simps [simp del]

definition cbs_find_ber :: "nat \<Rightarrow> mem \<Rightarrow> cbs \<Rightarrow> bool option" where
  "cbs_find_ber depth m c = (if depth > kMaxDepth then None else find_loop depth m False c)"

definition is_eoc :: "mem \<Rightarrow> u64 \<Rightarrow> cbs \<Rightarrow> bool" where
  "is_eoc m hdr_len contents =
     (hdr_len = 2 \<and> cbs_len contents = 2 \<and> read_bytes m (cbs_data contents) 2 = [0, 0])"

text \<open>A writer call inside the conversion, whose state is the reader and the writer.\<close>

type_synonym conversion = "(bool \<times> (cbs \<times> cbb_state)) option"

definition writing :: "cbs \<Rightarrow> (bool \<times> cbb_state) option \<Rightarrow> conversion" where
  "writing c r = map_option (\<lambda>(ok, s). (ok, (c, s))) r"

text \<open>\<^verbatim>\<open>cbs_convert_ber\<close>: the first argument bounds the recursion, \<open>n\<close> is that of the writer.  The
  output object is \<open>k\<close>, the local \<^verbatim>\<open>out_contents_storage\<close> is \<open>Suc k\<close>.\<close>

fun cbs_convert_ber ::
  "nat \<Rightarrow> nat \<Rightarrow> cbb_env \<Rightarrow> mem \<Rightarrow> u32 \<Rightarrow> bool \<Rightarrow> nat \<Rightarrow> nat \<Rightarrow> cbs \<Rightarrow> cbb_state \<Rightarrow> conversion" where
  "cbs_convert_ber 0 n env m string_tag looking_for_eoc depth k c s = None"
| "cbs_convert_ber (Suc f) n env m string_tag looking_for_eoc depth k c s =
     (if depth > kMaxDepth then Some (False, (c, s))
      else if cbs_len c = 0 then Some (\<not> looking_for_eoc, (c, s))
      else case CBS_get_any_ber_asn1_element m c of
          (None, c) \<Rightarrow> Some (False, (c, s))
        | (Some (contents, tag, hdr_len), c) \<Rightarrow>
            if is_eoc m hdr_len contents then Some (looking_for_eoc, (c, s))
            else if string_tag \<noteq> 0 \<and> tag AND NOT CBS_ASN1_CONSTRUCTED \<noteq> string_tag then Some (False, (c, s))
            else
              let constructed_string = tag AND CBS_ASN1_CONSTRUCTED \<noteq> 0 \<and> is_string_type tag;
                  out_tag = (if constructed_string then tag AND NOT CBS_ASN1_CONSTRUCTED else tag);
                  child_string_tag = (if string_tag = 0 \<and> constructed_string then out_tag else string_tag);
                  out_contents = (if string_tag \<noteq> 0 then k else Suc k) in
              and_then_opt
                (and_then_opt
                  (if string_tag \<noteq> 0 then Some (True, (c, s)) else writing c (CBB_add_asn1 n env k (Suc k) out_tag s))
                  (\<lambda>(c, s).
                    and_then_opt
                      (if is_indefinite m contents hdr_len
                       then cbs_convert_ber f n env m child_string_tag True (depth + 1) out_contents c s
                       else case CBS_skip hdr_len contents of
                           (None, _) \<Rightarrow> Some (False, (c, s))
                         | (Some _, contents) \<Rightarrow>
                             if tag AND CBS_ASN1_CONSTRUCTED \<noteq> 0
                             then writing c (map_option (\<lambda>(ok, (_, s)). (ok, s))
                               (cbs_convert_ber f n env m child_string_tag False (depth + 1) out_contents contents s))
                             else writing c (CBB_add_bytes n env out_contents (cbs_bytes m contents) s))
                      (\<lambda>(c, s). writing c (CBB_flush n env k s))))
                (\<lambda>(c, s). cbs_convert_ber f n env m string_tag looking_for_eoc depth k c s))"

text \<open>Where \<^verbatim>\<open>out\<close> points after a conversion: into the input, or to the new storage.\<close>

datatype ber_out = In_Place cbs | Converted "u8 list"

definition out_bytes :: "mem \<Rightarrow> ber_out \<Rightarrow> u8 list" where
  "out_bytes m out = (case out of In_Place c \<Rightarrow> cbs_bytes m c | Converted bs \<Rightarrow> bs)"

definition CBS_asn1_ber_to_der ::
  "nat \<Rightarrow> nat \<Rightarrow> cbb_env \<Rightarrow> nat \<Rightarrow> mem \<Rightarrow> cbs \<Rightarrow> cbb_state \<Rightarrow> (ber_out option \<times> cbs \<times> cbb_state) option" where
  "CBS_asn1_ber_to_der f n env k m c s =
     (case cbs_find_ber 0 m c of
        None \<Rightarrow> Some (None, c, s)
      | Some False \<Rightarrow>
          (case CBS_get_any_asn1_element m c of
             (None, c) \<Rightarrow> Some (None, c, s)
           | (Some (out, _, _), c) \<Rightarrow> Some (Some (In_Place out), c, s))
      | Some True \<Rightarrow>
          (case CBB_init env k (cbs_len c) s of
             (False, s) \<Rightarrow> Some (None, c, CBB_cleanup k s)
           | (True, s) \<Rightarrow>
               (case cbs_convert_ber f n env m 0 False 0 k c s of
                  None \<Rightarrow> None
                | Some (False, (c, s)) \<Rightarrow> Some (None, c, CBB_cleanup k s)
                | Some (True, (c, s)) \<Rightarrow>
                    (case CBB_finish n env k True s of
                       None \<Rightarrow> None
                     | Some (None, s) \<Rightarrow> Some (None, c, CBB_cleanup k s)
                     | Some (Some bs, s) \<Rightarrow> Some (Some (Converted bs), c, s)))))"

text \<open>The loop of \<^verbatim>\<open>CBS_get_asn1_implicit_string\<close> over the fragments.\<close>

lemma get_asn1_shrinks: "CBS_get_asn1 t m c = (Some out, c') \<Longrightarrow> unat (cbs_len c') < unat (cbs_len c)"
  using length_der_tag(2) [of t]
  by (cases rule: get_asn1_cases [of m c t]) (auto simp: len_adv der_element_def dest: arg_cong [of _ _ length])

function implicit_loop :: "nat \<Rightarrow> cbb_env \<Rightarrow> nat \<Rightarrow> mem \<Rightarrow> u32 \<Rightarrow> cbs \<Rightarrow> cbb_state \<Rightarrow> (bool \<times> cbb_state) option" where
  "implicit_loop n env k m inner_tag child s =
     (if cbs_len child = 0 then Some (True, s)
      else case CBS_get_asn1 inner_tag m child of
          (None, _) \<Rightarrow> Some (False, s)
        | (Some chunk, child) \<Rightarrow>
            and_then_opt (CBB_add_bytes n env k (cbs_bytes m chunk) s) (implicit_loop n env k m inner_tag child))"
  by pat_completeness auto
termination
  by (relation "measure (\<lambda>(n, env, k, m, t, child, s). unat (cbs_len child))") (auto dest: get_asn1_shrinks [OF sym])

declare implicit_loop.simps [simp del]

definition CBS_get_asn1_implicit_string ::
  "nat \<Rightarrow> cbb_env \<Rightarrow> nat \<Rightarrow> mem \<Rightarrow> u32 \<Rightarrow> u32 \<Rightarrow> cbs \<Rightarrow> cbb_state \<Rightarrow> (ber_out option \<times> cbs \<times> cbb_state) option" where
  "CBS_get_asn1_implicit_string n env k m outer_tag inner_tag c s =
     (if CBS_peek_asn1_tag outer_tag m c
      then (case CBS_get_asn1 outer_tag m c of (out, c) \<Rightarrow> Some (map_option In_Place out, c, s))
      else
        (case CBB_init env k (cbs_len c) s of
           (False, s) \<Rightarrow> Some (None, c, CBB_cleanup k s)
         | (True, s) \<Rightarrow>
             (case CBS_get_asn1 (outer_tag OR CBS_ASN1_CONSTRUCTED) m c of
                (None, c) \<Rightarrow> Some (None, c, CBB_cleanup k s)
              | (Some child, c) \<Rightarrow>
                  (case implicit_loop n env k m inner_tag child s of
                     None \<Rightarrow> None
                   | Some (False, s) \<Rightarrow> Some (None, c, CBB_cleanup k s)
                   | Some (True, s) \<Rightarrow>
                       (case CBB_finish n env k True s of
                          None \<Rightarrow> None
                        | Some (None, s) \<Rightarrow> Some (None, c, CBB_cleanup k s)
                        | Some (Some bs, s) \<Rightarrow> Some (Some (Converted bs), c, s))))))"

section \<open>BER as trees\<close>

datatype ber = Primitive u32 "u8 list" | Definite u32 "ber list" | Indefinite u32 "ber list"

fun ber_bytes :: "ber \<Rightarrow> u8 list" where
  "ber_bytes (Primitive t bs) = der_element t bs"
| "ber_bytes (Definite t ts) = der_element t (concat (map ber_bytes ts))"
| "ber_bytes (Indefinite t ts) = der_tag t @ 0x80 # concat (map ber_bytes ts) @ [0, 0]"

text \<open>What the elements stand for: a constructed string is the primitive string of its fragments.\<close>

definition string_tag :: "u32 \<Rightarrow> u32" where
  "string_tag t = t AND NOT CBS_ASN1_CONSTRUCTED"

fun string_of :: "ber \<Rightarrow> u8 list" where
  "string_of (Primitive t bs) = bs"
| "string_of (Definite t ts) = concat (map string_of ts)"
| "string_of (Indefinite t ts) = concat (map string_of ts)"

fun der_of :: "ber \<Rightarrow> u8 list" where
  "der_of (Primitive t bs) = der_element t bs"
| "der_of (Definite t ts) =
     (if is_string_type t then der_element (string_tag t) (concat (map string_of ts))
      else der_element t (concat (map der_of ts)))"
| "der_of (Indefinite t ts) =
     (if is_string_type t then der_element (string_tag t) (concat (map string_of ts))
      else der_element t (concat (map der_of ts)))"

text \<open>What is written for an element inside a constructed string with tag \<open>st\<close> (0 for outside).\<close>

definition converted :: "u32 \<Rightarrow> ber \<Rightarrow> u8 list" where
  "converted st b = (if st = 0 then der_of b else string_of b)"

definition inner_tag :: "u32 \<Rightarrow> u32 \<Rightarrow> u32" where
  "inner_tag st t = (if st = 0 \<and> is_string_type t then string_tag t else st)"

text \<open>Well-formed at \<open>d\<close> levels above the limit: constructed bits match, fragments match their string, no
  end-of-contents element of its own, lengths that fit.\<close>

fun ber_ok :: "u32 \<Rightarrow> nat \<Rightarrow> ber \<Rightarrow> bool" where
  "ber_ok st d (Primitive t bs) \<longleftrightarrow> t AND CBS_ASN1_CONSTRUCTED = 0 \<and> (st \<noteq> 0 \<longrightarrow> string_tag t = st) \<and>
     \<not> (t = 0 \<and> bs = []) \<and> length bs \<le> 0xfffffffe"
| "ber_ok st d (Definite t ts) \<longleftrightarrow> t AND CBS_ASN1_CONSTRUCTED \<noteq> 0 \<and> (st \<noteq> 0 \<longrightarrow> string_tag t = st) \<and> 0 < d \<and>
     length (concat (map ber_bytes ts)) < 2 ^ 32 \<and> length (concat (map (converted (inner_tag st t)) ts)) \<le> 0xfffffffe \<and>
     list_all (ber_ok (inner_tag st t) (d - 1)) ts"
| "ber_ok st d (Indefinite t ts) \<longleftrightarrow> t AND CBS_ASN1_CONSTRUCTED \<noteq> 0 \<and> (st \<noteq> 0 \<longrightarrow> string_tag t = st) \<and> 0 < d \<and>
     length (concat (map (converted (inner_tag st t)) ts)) \<le> 0xfffffffe \<and>
     list_all (ber_ok (inner_tag st t) (d - 1)) ts"

section \<open>Reading one element\<close>

lemma hd_der_length: "n < 2 ^ 32 \<Longrightarrow> hd (der_length n) \<noteq> 0x80"
proof -
  assume "n < 2 ^ 32"
  then have l: "length (be_bytes n) \<le> 4" by (simp add: length_be_bytes)
  show ?thesis
  proof (cases "n < 128")
    case True
    then have "unat (hd (der_length n)) = n" by (simp add: der_length_def unat_of_nat_u8)
    then show ?thesis using True by auto
  next
    case False
    then have "0 < length (be_bytes n)" by (simp add: be_bytes_def)
    moreover have "unat (hd (der_length n)) = length (be_bytes n) + 128"
      using False l by (simp add: der_length_def unat_or_high)
    ultimately show ?thesis by auto
  qed
qed

lemma nth_cbs: "i < unat (cbs_len c) \<Longrightarrow> m (cbs_data c + of_nat i) = cbs_bytes m c ! i"
  by (simp add: cbs_bytes_def)

lemma read_element:
  assumes b: "cbs_bytes m c = der_element t body @ rest" "length body < 2 ^ 32"
  shows "CBS_get_any_ber_asn1_element m c =
    (Some (cbs_front (length (der_element t body)) c, t, of_nat (header_len t body)),
     cbs_adv (length (der_element t body)) c)"
proof -
  let ?h = "cbs_adv (length (der_tag t)) c"
  have t: "parse_asn1_tag m c = (Some t, ?h)"
    by (rule parse_tag_complete) (simp add: b(1) der_element_def)
  have "length (der_tag t) \<le> unat (cbs_len c)" using arg_cong [OF b(1), of length] by (simp add: der_element_def)
  then have "cbs_bytes m ?h = der_length (length body) @ body @ rest"
    using b(1) by (simp add: bytes_adv der_element_def)
  then have "\<nexists>rest. cbs_bytes m ?h = 0x80 # rest"
    using hd_der_length [OF b(2)] length_der_length [of "length body"] by (cases "der_length (length body)") auto
  then show ?thesis
    using element_complete [OF b] ber_step [OF t] by (simp add: CBS_get_any_ber_asn1_element_def)
qed

lemma read_indefinite:
  assumes b: "cbs_bytes m c = der_tag t @ 0x80 # rest" and t: "t AND CBS_ASN1_CONSTRUCTED \<noteq> 0"
  shows "CBS_get_any_ber_asn1_element m c =
    (Some (cbs_front (length (der_tag t) + 1) c, t, of_nat (length (der_tag t) + 1)), cbs_adv (length (der_tag t) + 1) c)"
proof -
  let ?h = "cbs_adv (length (der_tag t)) c"
  have p: "parse_asn1_tag m c = (Some t, ?h)" by (rule parse_tag_complete) (rule b)
  have l: "length (der_tag t) + 1 \<le> unat (cbs_len c)" using arg_cong [OF b, of length] by simp
  then have "cbs_bytes m ?h = 0x80 # rest" using b by (simp add: bytes_adv)
  then show ?thesis using ber_step [OF p] t l by (simp add: CBS_get_any_ber_asn1_element_def element_result_def)
qed

lemma front_len: "k \<le> unat (cbs_len c) \<Longrightarrow> unat (cbs_len (cbs_front k c)) = k"
  using unat_of_nat_le [of k "cbs_len c"] by (simp add: cbs_front_def)

lemma header_end:
  assumes "0 < k" "k \<le> unat (cbs_len c)"
  shows "is_indefinite m (cbs_front n c) (of_nat k) \<longleftrightarrow> (of_nat n = (of_nat k :: u64)) \<and> cbs_bytes m c ! (k - 1) = 0x80"
proof -
  have "unat (of_nat k :: u64) = k" by (rule unat_of_nat_le [OF assms(2)])
  then have "(of_nat k :: u64) > 0" using assms(1) by (simp add: word_less_nat_alt)
  moreover have "(of_nat k - 1 :: u64) = of_nat (k - 1)" using assms(1) by (simp add: of_nat_diff)
  moreover have "m (cbs_data c + of_nat (k - 1)) = cbs_bytes m c ! (k - 1)" using assms by (intro nth_cbs) simp
  ultimately show ?thesis by (simp add: is_indefinite_def cbs_front_def del: of_nat_diff)
qed

lemma indefinite_is:
  assumes "cbs_bytes m c = der_tag t @ 0x80 # rest"
  shows "is_indefinite m (cbs_front (length (der_tag t) + 1) c) (of_nat (length (der_tag t) + 1))"
proof -
  have "length (der_tag t) + 1 \<le> unat (cbs_len c)" using arg_cong [OF assms, of length] by simp
  then show ?thesis by (subst header_end) (simp_all add: assms nth_append)
qed

lemma of_nat_eq_le: "a \<le> unat (x :: u64) \<Longrightarrow> b \<le> unat x \<Longrightarrow> (of_nat a :: u64) = of_nat b \<longleftrightarrow> a = b"
  by (metis unat_of_nat_le)

lemma element_not_indefinite:
  assumes b: "cbs_bytes m c = der_element t body @ rest"
  shows "\<not> is_indefinite m (cbs_front (length (der_element t body)) c) (of_nat (header_len t body))"
proof -
  have l: "length (der_element t body) \<le> unat (cbs_len c)" using arg_cong [OF b, of length] by simp
  then have h: "0 < header_len t body" "header_len t body \<le> unat (cbs_len c)"
    using length_der_tag(2) [of t] by (simp_all add: length_der_element header_len_def)
  show ?thesis
  proof (cases "body = []")
    case True
    then have "cbs_bytes m c ! (header_len t body - 1) = 0"
      by (simp add: b der_element_def der_length_def header_len_def nth_append)
    then show ?thesis by (simp add: header_end [OF h])
  next
    case False
    then show ?thesis using of_nat_eq_le [OF l h(2)] by (simp add: header_end [OF h] length_der_element)
  qed
qed

lemma der_tag_zero: "der_tag t = [0] \<longleftrightarrow> t = 0"
proof
  assume d: "der_tag t = [0]"
  then have n: "tag_number t < 31" "tag_bits t OR of_nat (tag_number t) = 0"
    by (auto simp: der_tag_def base128_def split: if_splits)
  then have "tag_bits t = 0" "(of_nat (tag_number t) :: u8) = 0" using tag_byte_join [of "tag_number t" t] by simp_all
  moreover from this have "tag_number t = 0" using n(1) unat_of_nat_u8 [of "tag_number t"] by simp
  ultimately show "t = 0" using make_tag_of [of t] by (simp add: make_tag_def)
qed (simp add: der_tag_def tag_number_def tag_bits_def)

lemma front_eoc:
  assumes "n \<le> unat (cbs_len c)" "k \<le> unat (cbs_len c)"
  shows "is_eoc m (of_nat k) (cbs_front n c) \<longleftrightarrow> k = 2 \<and> n = 2 \<and> take n (cbs_bytes m c) = [0, 0]"
proof -
  have "(of_nat j :: u64) = 2 \<longleftrightarrow> j = 2" if "j \<le> unat (cbs_len c)" for j
    using that unat_of_nat_le [OF that] by (auto simp: word_unat_eq_iff)
  moreover have "read_bytes m (cbs_data c) 2 = take 2 (cbs_bytes m c)" if "2 \<le> unat (cbs_len c)"
    using that by (simp add: cbs_bytes_def read_bytes_take)
  ultimately show ?thesis using assms by (auto simp: is_eoc_def cbs_front_def)
qed

lemma element_eoc:
  assumes b: "cbs_bytes m c = der_element t body @ rest"
  shows "is_eoc m (of_nat (header_len t body)) (cbs_front (length (der_element t body)) c) \<longleftrightarrow> t = 0 \<and> body = []"
proof -
  have l: "length (der_element t body) \<le> unat (cbs_len c)" using arg_cong [OF b, of length] by simp
  then have h: "header_len t body \<le> unat (cbs_len c)" by (simp add: length_der_element)
  have "header_len t body = 2 \<and> length (der_element t body) = 2 \<and> der_element t body = [0, 0] \<longleftrightarrow> t = 0 \<and> body = []"
    using der_tag_zero [of t] by (cases body) (auto simp: length_der_element der_element_def der_length_def header_len_def)
  then show ?thesis unfolding front_eoc [OF l h] by (simp add: b)
qed

lemma indefinite_not_eoc:
  assumes b: "cbs_bytes m c = der_tag t @ 0x80 # rest"
  shows "\<not> is_eoc m (of_nat (length (der_tag t) + 1)) (cbs_front (length (der_tag t) + 1) c)"
proof -
  have l: "length (der_tag t) + 1 \<le> unat (cbs_len c)" using arg_cong [OF b, of length] by simp
  have "\<not> (length (der_tag t) + 1 = 2 \<and> take (length (der_tag t) + 1) (cbs_bytes m c) = [0, 0])" by (auto simp: b)
  then show ?thesis unfolding front_eoc [OF l l] by blast
qed

section \<open>Conversion\<close>

text \<open>A conversion appends \<open>bs\<close>, and leaves the reader \<open>c'\<close> when it succeeds.\<close>

definition written :: "conversion \<Rightarrow> (bool \<times> cbb_state) option" where
  "written r = map_option (\<lambda>(ok, (c, s)). (ok, s)) r"

definition delivers :: "cbb_env \<Rightarrow> nat set \<Rightarrow> u8 list \<Rightarrow> cbs \<Rightarrow> cbb_state \<Rightarrow> conversion \<Rightarrow> bool" where
  "delivers env J bs c' s r \<longleftrightarrow> appends env J bs s (written r) \<and> (\<forall>c1 s1. r = Some (True, (c1, s1)) \<longrightarrow> c1 = c')"

lemma written_writing [simp]: "written (writing c r) = r"
  by (cases r) (auto simp: written_def writing_def)

lemma writing_Some [simp]: "writing c (Some (ok, s)) = Some (ok, (c, s))" "writing c None = None"
  by (simp_all add: writing_def)

lemma delivers_writing: "appends env J bs s r \<Longrightarrow> delivers env J bs c s (writing c r)"
  by (auto simp: delivers_def) (auto simp: writing_def)

lemma writing_written: "delivers env J bs c' s r \<Longrightarrow> delivers env J bs c s (writing c (map_option (\<lambda>(ok, (_, s)). (ok, s)) r))"
  by (rule delivers_writing) (simp add: delivers_def written_def)

lemma delivers_done: "good s \<Longrightarrow> delivers env J [] c s (Some (True, (c, s)))"
  by (simp add: delivers_def written_def appends_def after_refl)

lemma and_then_opt_cases:
  "and_then_opt r f = (case r of None \<Rightarrow> None | Some (ok, s) \<Rightarrow> if ok then f s else Some (False, s))"
  by (auto simp: and_then_opt_def split: option.splits bool.splits)

lemma written_then:
  assumes "\<And>c1 s1. r = Some (True, (c1, s1)) \<Longrightarrow> c1 = c'"
  shows "written (and_then_opt r (\<lambda>(c, s). g c s)) = and_then_opt (written r) (\<lambda>s. written (g c' s))"
proof (cases r)
  case (Some p)
  then show ?thesis using assms by (cases p) (auto simp: written_def and_then_opt_cases)
qed (simp add: written_def and_then_opt_cases)

lemma delivers_then:
  assumes "good s" "delivers env J xs c1 s r" "\<And>s'. after J xs s s' \<Longrightarrow> delivers env J ys c2 s' (g c1 s')"
  shows "delivers env J (xs @ ys) c2 s (and_then_opt r (\<lambda>(c, s). g c s))"
proof -
  have reader: "\<And>c' s'. r = Some (True, (c', s')) \<Longrightarrow> c' = c1" using assms(2) by (auto simp: delivers_def)
  have "appends env J (xs @ ys) s (and_then_opt (written r) (\<lambda>s. written (g c1 s)))"
    using assms by (intro appends_then) (auto simp: delivers_def)
  moreover have "c' = c2" if eq: "and_then_opt r (\<lambda>(c, s). g c s) = Some (True, (c', s'))" for c' s'
  proof -
    obtain c0 s1 where r: "r = Some (True, (c0, s1))" "g c0 s1 = Some (True, (c', s'))"
      using eq by (cases r) (auto simp: and_then_opt_cases split: if_splits)
    then have s1: "r = Some (True, (c1, s1))" "g c1 s1 = Some (True, (c', s'))" using reader [OF r(1)] by simp_all
    then have "after J xs s s1" using assms(2) by (simp add: delivers_def appends_def written_def)
    from assms(3) [OF this] show ?thesis using s1(2) by (auto simp: delivers_def)
  qed
  moreover have "written (and_then_opt r (\<lambda>(c, s). g c s)) = and_then_opt (written r) (\<lambda>s. written (g c1 s))"
    by (rule written_then [OF reader])
  ultimately show ?thesis unfolding delivers_def by metis
qed

text \<open>An element whose contents are a conversion.\<close>

lemma delivers_element:
  assumes k: "idle k s" "good s" and len: "length bs \<le> 0xfffffffe"
    and body: "\<And>s. idle (Suc k) s \<Longrightarrow> good s \<Longrightarrow> delivers env {i. Suc k < i} bs c' s (f c s)"
  shows "delivers env {i. k < i} (der_element t bs) c' s
     (and_then_opt (writing c (CBB_add_asn1 (Suc (Suc n)) env k (Suc k) t s))
        (\<lambda>(c, s). and_then_opt (f c s) (\<lambda>(c, s). writing c (CBB_flush (Suc (Suc n)) env k s))))"
    (is "delivers _ _ _ _ _ ?r")
proof -
  have J: "insert (Suc k) {i. Suc k < i} = {i. k < i}" by auto
  let ?open = "CBB_add_asn1 (Suc (Suc n)) env k (Suc k) t s"
  have opened: "idle (Suc k) s1 \<and> good s1" if "?open = Some (True, s1)" for s1
    using that by (cases rule: add_asn1_cases [OF k, of "Suc k" "Suc n" env t, case_names ok full])
      (auto simp: opened_def)
  have w: "written ?r = and_then_opt ?open (\<lambda>s. and_then_opt (written (f c s)) (CBB_flush (Suc (Suc n)) env k))"
  proof (cases ?open)
    case (Some p)
    then obtain ok s1 where p: "?open = Some (ok, s1)" by (cases p) auto
    show ?thesis
    proof (cases ok)
      case True
      then have "\<And>c1 s2. f c s1 = Some (True, (c1, s2)) \<Longrightarrow> c1 = c'"
        using body opened [of s1] p by (auto simp: delivers_def)
      from written_then [of "f c s1" c' "\<lambda>c s. writing c (CBB_flush (Suc (Suc n)) env k s)", OF this]
      show ?thesis using p True by (simp del: CBB_flush.simps)
    qed (simp add: p written_def)
  qed (simp add: written_def and_then_opt_cases)
  have "appends env {i. k < i} (der_element t bs) s (written ?r)"
    unfolding w J [symmetric] using body
    by (intro element_appends k len) (auto simp: delivers_def)
  moreover have "c1 = c'" if r: "?r = Some (True, (c1, s1))" for c1 s1
  proof -
    obtain s2 s3 where "?open = Some (True, s2)" "f c s2 = Some (True, (c1, s3))"
      using r by (auto simp: and_then_opt_cases writing_def split: option.splits if_splits prod.splits)
    then show ?thesis using body opened by (auto simp: delivers_def)
  qed
  ultimately show ?thesis by (simp add: delivers_def)
qed

text \<open>A fragment of a string, written without an element of its own.\<close>

lemma delivers_fragment:
  assumes k: "idle k s" "good s" and body: "delivers env {i. k < i} bs c' s (f c s)"
  shows "delivers env {i. k < i} bs c' s
     (and_then_opt (Some (True, (c, s)))
        (\<lambda>(c, s). and_then_opt (f c s) (\<lambda>(c, s). writing c (CBB_flush (Suc (Suc n)) env k s))))"
proof -
  have "delivers env {i. k < i} [] c' s' (writing c' (CBB_flush (Suc (Suc n)) env k s'))"
    if "after {i. k < i} bs s s'" for s'
    using that k(1) flush_idle [of k s' "Suc n" env] by (intro delivers_writing)
      (simp add: after_idle after_good appends_def after_refl del: CBB_flush.simps)
  from delivers_then [OF k(2) body, of "[]" c' "\<lambda>c s. writing c (CBB_flush (Suc (Suc n)) env k s)", OF this]
  show ?thesis by (simp del: CBB_flush.simps)
qed

text \<open>One round of the conversion, taken apart.\<close>

definition convert_contents ::
  "nat \<Rightarrow> nat \<Rightarrow> cbb_env \<Rightarrow> mem \<Rightarrow> u32 \<Rightarrow> nat \<Rightarrow> nat \<Rightarrow> cbs \<Rightarrow> u64 \<Rightarrow> u32 \<Rightarrow> cbs \<Rightarrow> cbb_state \<Rightarrow> conversion" where
  "convert_contents f n env m child_tag depth j contents hl tag c s =
     (if is_indefinite m contents hl then cbs_convert_ber f n env m child_tag True (depth + 1) j c s
      else case CBS_skip hl contents of
          (None, _) \<Rightarrow> Some (False, (c, s))
        | (Some _, contents) \<Rightarrow>
            if tag AND CBS_ASN1_CONSTRUCTED \<noteq> 0
            then writing c (map_option (\<lambda>(ok, (_, s)). (ok, s))
              (cbs_convert_ber f n env m child_tag False (depth + 1) j contents s))
            else writing c (CBB_add_bytes n env j (cbs_bytes m contents) s))"

definition convert_element ::
  "nat \<Rightarrow> nat \<Rightarrow> cbb_env \<Rightarrow> mem \<Rightarrow> u32 \<Rightarrow> nat \<Rightarrow> nat \<Rightarrow> cbs \<Rightarrow> u64 \<Rightarrow> u32 \<Rightarrow> cbs \<Rightarrow> cbb_state \<Rightarrow> conversion" where
  "convert_element f n env m st depth k contents hl tag c s =
     (let cs = tag AND CBS_ASN1_CONSTRUCTED \<noteq> 0 \<and> is_string_type tag;
          out_tag = (if cs then string_tag tag else tag);
          child_tag = (if st = 0 \<and> cs then out_tag else st) in
      and_then_opt
        (if st \<noteq> 0 then Some (True, (c, s)) else writing c (CBB_add_asn1 n env k (Suc k) out_tag s))
        (\<lambda>(c, s). and_then_opt
          (convert_contents f n env m child_tag depth (if st \<noteq> 0 then k else Suc k) contents hl tag c s)
          (\<lambda>(c, s). writing c (CBB_flush n env k s))))"

lemma convert_round:
  assumes "depth \<le> kMaxDepth" "cbs_len c \<noteq> 0" "CBS_get_any_ber_asn1_element m c = (Some (contents, tag, hl), c1)"
    and "\<not> is_eoc m hl contents" "st \<noteq> 0 \<longrightarrow> string_tag tag = st"
  shows "cbs_convert_ber (Suc f) n env m st eoc depth k c s =
     and_then_opt (convert_element f n env m st depth k contents hl tag c1 s)
       (\<lambda>(c, s). cbs_convert_ber f n env m st eoc depth k c s)"
proof -
  have "\<not> (st \<noteq> 0 \<and> tag AND NOT CBS_ASN1_CONSTRUCTED \<noteq> st)" using assms(5) by (auto simp: string_tag_def)
  then show ?thesis
    unfolding convert_element_def convert_contents_def string_tag_def Let_def
    using assms(1-4) by (simp only: cbs_convert_ber.simps Let_def not_le [symmetric] not_True_eq_False if_False
        prod.case option.case refl simp_thms split: if_split)
qed

text \<open>What the conversion of a forest delivers, for calls that may nest below \<open>f\<close>.\<close>

definition convert_spec :: "nat \<Rightarrow> nat \<Rightarrow> cbb_env \<Rightarrow> mem \<Rightarrow> bool" where
  "convert_spec f n env m \<longleftrightarrow>
     (\<forall>ts tail st eoc dp k c s. unat (cbs_len c) < f \<longrightarrow> dp \<le> kMaxDepth \<longrightarrow> list_all (ber_ok st (kMaxDepth - dp)) ts \<longrightarrow>
        idle k s \<longrightarrow> good s \<longrightarrow> cbs_bytes m c = concat (map ber_bytes ts) @ tail \<longrightarrow>
        (if eoc then \<exists>rest. tail = 0 # 0 # rest else tail = []) \<longrightarrow>
        delivers env {i. k < i} (concat (map (converted st) ts))
          (cbs_adv (length (concat (map ber_bytes ts)) + (if eoc then 2 else 0)) c) s
          (cbs_convert_ber f n env m st eoc dp k c s))"

fun ber_tag :: "ber \<Rightarrow> u32" where
  "ber_tag (Primitive t _) = t" | "ber_tag (Definite t _) = t" | "ber_tag (Indefinite t _) = t"

fun payload :: "u32 \<Rightarrow> ber \<Rightarrow> u8 list" where
  "payload st (Primitive t bs) = bs"
| "payload st (Definite t ts) = concat (map (converted (inner_tag st t)) ts)"
| "payload st (Indefinite t ts) = concat (map (converted (inner_tag st t)) ts)"

lemma string_number_nonzero: "is_string_type t \<Longrightarrow> string_tag t \<noteq> 0"
  by (auto simp: is_string_type_def string_tag_def string_numbers_def)

lemma inner_tag_eq:
  "t AND CBS_ASN1_CONSTRUCTED \<noteq> 0 \<Longrightarrow>
   (if st = 0 \<and> t AND CBS_ASN1_CONSTRUCTED \<noteq> 0 \<and> is_string_type t then string_tag t else st) = inner_tag st t"
  by (simp add: inner_tag_def)

lemma convert_specD:
  assumes "convert_spec f n env m" "unat (cbs_len c) < f" "dp \<le> kMaxDepth" "list_all (ber_ok st (kMaxDepth - dp)) ts"
    "idle k s" "good s" "cbs_bytes m c = concat (map ber_bytes ts) @ tail"
    "if eoc then \<exists>rest. tail = 0 # 0 # rest else tail = []"
  shows "delivers env {i. k < i} (concat (map (converted st) ts))
     (cbs_adv (length (concat (map ber_bytes ts)) + (if eoc then 2 else 0)) c) s
     (cbs_convert_ber f n env m st eoc dp k c s)"
  using assms unfolding convert_spec_def by blast

text \<open>Parsing an element of the forest, and converting its contents.\<close>

lemma contents_delivers:
  assumes spec: "convert_spec f (Suc (Suc n)) env m" and b: "cbs_bytes m c = ber_bytes b @ rest"
    and f: "unat (cbs_len c) < Suc f" and dp: "dp \<le> kMaxDepth" and ok: "ber_ok st (kMaxDepth - dp) b"
  obtains contents hl c1 where
    "CBS_get_any_ber_asn1_element m c = (Some (contents, ber_tag b, hl), c1)" "\<not> is_eoc m hl contents"
    "\<And>j s. idle j s \<Longrightarrow> good s \<Longrightarrow>
       delivers env {i. j < i} (payload st b) (cbs_adv (length (ber_bytes b)) c) s
         (convert_contents f (Suc (Suc n)) env m
            (if st = 0 \<and> ber_tag b AND CBS_ASN1_CONSTRUCTED \<noteq> 0 \<and> is_string_type (ber_tag b) then string_tag (ber_tag b) else st)
            dp j contents hl (ber_tag b) c1 s)"
proof (cases b)
  case (Primitive t bs)
  then have e: "cbs_bytes m c = der_element t bs @ rest" "length bs < 2 ^ 32" "\<not> (t = 0 \<and> bs = [])"
    "t AND CBS_ASN1_CONSTRUCTED = 0" "length bs < 2 ^ 64" using b ok by auto
  note p = read_element [OF e(1,2)] element_not_indefinite [OF e(1)] element_eoc [OF e(1)] skip_header [OF e(1)]
  show thesis
  proof (rule that)
    show "CBS_get_any_ber_asn1_element m c = (Some (cbs_front (length (der_element t bs)) c, ber_tag b, of_nat (header_len t bs)),
        cbs_adv (length (der_element t bs)) c)" using p by (simp add: Primitive)
    show "\<not> is_eoc m (of_nat (header_len t bs)) (cbs_front (length (der_element t bs)) c)" using p e by simp
    fix j s assume "idle j s" "good s"
    then show "delivers env {i. j < i} (payload st b) (cbs_adv (length (ber_bytes b)) c) s
       (convert_contents f (Suc (Suc n)) env m
          (if st = 0 \<and> ber_tag b AND CBS_ASN1_CONSTRUCTED \<noteq> 0 \<and> is_string_type (ber_tag b) then string_tag (ber_tag b) else st)
          dp j (cbs_front (length (der_element t bs)) c) (of_nat (header_len t bs)) (ber_tag b) (cbs_adv (length (der_element t bs)) c) s)"
      using p e add_bytes_appends [of j s bs env "{i. j < i}" "Suc n"]
      by (simp add: Primitive convert_contents_def delivers_writing)
  qed
next
  case (Definite t ts)
  let ?body = "concat (map ber_bytes ts)"
  from ok have o: "t AND CBS_ASN1_CONSTRUCTED \<noteq> 0" "0 < kMaxDepth - dp" "length ?body < 2 ^ 32"
    "list_all (ber_ok (inner_tag st t) (kMaxDepth - (dp + 1))) ts" by (simp_all add: Definite)
  have e: "cbs_bytes m c = der_element t ?body @ rest" using b by (simp add: Definite)
  note p = read_element [OF e o(3)] element_not_indefinite [OF e] element_eoc [OF e] skip_header [OF e]
  show thesis
  proof (rule that)
    show "CBS_get_any_ber_asn1_element m c = (Some (cbs_front (length (der_element t ?body)) c, ber_tag b, of_nat (header_len t ?body)),
        cbs_adv (length (der_element t ?body)) c)" using p by (simp add: Definite)
    show "\<not> is_eoc m (of_nat (header_len t ?body)) (cbs_front (length (der_element t ?body)) c)" using p(3) o(1) by auto
    fix j s assume j: "idle j s" "good s"
    have "length ?body < length (der_element t ?body)" using length_der_tag(2) [of t] by (simp add: der_element_def)
    moreover have "length (der_element t ?body) \<le> unat (cbs_len c)" using arg_cong [OF e, of length] by simp
    moreover have "unat (cbs_len (cbs_body t ?body c)) = length ?body" using arg_cong [OF p(5), of length] by simp
    ultimately have "unat (cbs_len (cbs_body t ?body c)) < f" using f by linarith
    from writing_written [OF convert_specD [OF spec this _ o(4) j, of "[]" False],
        of "cbs_adv (length (der_element t ?body)) c"] o(2) p(5)
    show "delivers env {i. j < i} (payload st b) (cbs_adv (length (ber_bytes b)) c) s
       (convert_contents f (Suc (Suc n)) env m
          (if st = 0 \<and> ber_tag b AND CBS_ASN1_CONSTRUCTED \<noteq> 0 \<and> is_string_type (ber_tag b) then string_tag (ber_tag b) else st)
          dp j (cbs_front (length (der_element t ?body)) c) (of_nat (header_len t ?body)) (ber_tag b) (cbs_adv (length (der_element t ?body)) c) s)"
      using p(2,4) o(1) by (auto simp: Definite convert_contents_def inner_tag_def)
  qed
next
  case (Indefinite t ts)
  let ?body = "concat (map ber_bytes ts)" and ?h = "length (der_tag t) + 1"
  from ok have o: "t AND CBS_ASN1_CONSTRUCTED \<noteq> 0" "0 < kMaxDepth - dp"
    "list_all (ber_ok (inner_tag st t) (kMaxDepth - (dp + 1))) ts" by (simp_all add: Indefinite)
  have e: "cbs_bytes m c = der_tag t @ 0x80 # ?body @ 0 # 0 # rest" using b by (simp add: Indefinite)
  note p = read_indefinite [OF e o(1)] indefinite_is [OF e] indefinite_not_eoc [OF e]
  have h: "?h \<le> unat (cbs_len c)" using arg_cong [OF e, of length] by simp
  then have inner: "cbs_bytes m (cbs_adv ?h c) = ?body @ 0 # 0 # rest" using e by (simp add: bytes_adv)
  show thesis
  proof (rule that)
    show "CBS_get_any_ber_asn1_element m c = (Some (cbs_front ?h c, ber_tag b, of_nat ?h), cbs_adv ?h c)"
      using p(1) by (simp add: Indefinite)
    show "\<not> is_eoc m (of_nat ?h) (cbs_front ?h c)" using p(3) .
    fix j s assume j: "idle j s" "good s"
    have "unat (cbs_len (cbs_adv ?h c)) < f" using h f by (simp add: len_adv)
    from convert_specD [OF spec this _ o(3) j inner, of True] o(2) p(2)
    show "delivers env {i. j < i} (payload st b) (cbs_adv (length (ber_bytes b)) c) s
       (convert_contents f (Suc (Suc n)) env m
          (if st = 0 \<and> ber_tag b AND CBS_ASN1_CONSTRUCTED \<noteq> 0 \<and> is_string_type (ber_tag b) then string_tag (ber_tag b) else st)
          dp j (cbs_front ?h c) (of_nat ?h) (ber_tag b) (cbs_adv ?h c) s)"
      using o(1) by (auto simp: Indefinite convert_contents_def inner_tag_def add.commute add.left_commute)
  qed
qed

lemma converted_payload:
  "ber_ok st d b \<Longrightarrow> converted st b =
     (if st \<noteq> 0 then payload st b
      else der_element
        (if ber_tag b AND CBS_ASN1_CONSTRUCTED \<noteq> 0 \<and> is_string_type (ber_tag b) then string_tag (ber_tag b) else ber_tag b)
        (payload st b))"
proof -
  have "concat (map (converted st) ts) = concat (map string_of ts)" if "st \<noteq> 0" for st ts
    using that by (simp add: converted_def [abs_def])
  moreover have "concat (map (converted 0) ts) = concat (map der_of ts)" for ts
    by (simp add: converted_def [abs_def])
  ultimately show "ber_ok st d b \<Longrightarrow> ?thesis"
    unfolding converted_def [of st b] using string_number_nonzero by (cases b) (auto simp: inner_tag_def)
qed

lemma element_delivers:
  assumes spec: "convert_spec f (Suc (Suc n)) env m" and b: "cbs_bytes m c = ber_bytes b @ rest"
    and f: "unat (cbs_len c) < Suc f" and dp: "dp \<le> kMaxDepth" and ok: "ber_ok st (kMaxDepth - dp) b"
  obtains contents hl c1 where
    "CBS_get_any_ber_asn1_element m c = (Some (contents, ber_tag b, hl), c1)" "\<not> is_eoc m hl contents"
    "\<And>k s. idle k s \<Longrightarrow> good s \<Longrightarrow>
       delivers env {i. k < i} (converted st b) (cbs_adv (length (ber_bytes b)) c) s
         (convert_element f (Suc (Suc n)) env m st dp k contents hl (ber_tag b) c1 s)"
proof (rule contents_delivers [OF assms])
  fix contents hl c1
  let ?ct = "if st = 0 \<and> ber_tag b AND CBS_ASN1_CONSTRUCTED \<noteq> 0 \<and> is_string_type (ber_tag b) then string_tag (ber_tag b) else st"
  assume p: "CBS_get_any_ber_asn1_element m c = (Some (contents, ber_tag b, hl), c1)" "\<not> is_eoc m hl contents"
    and contents: "\<And>j s. idle j s \<Longrightarrow> good s \<Longrightarrow>
       delivers env {i. j < i} (payload st b) (cbs_adv (length (ber_bytes b)) c) s
         (convert_contents f (Suc (Suc n)) env m ?ct dp j contents hl (ber_tag b) c1 s)"
  have short: "length (payload st b) \<le> 0xfffffffe" using ok by (cases b) auto
  show thesis
  proof (rule that [OF p])
    fix k s assume k: "idle k s" "good s"
    show "delivers env {i. k < i} (converted st b) (cbs_adv (length (ber_bytes b)) c) s
       (convert_element f (Suc (Suc n)) env m st dp k contents hl (ber_tag b) c1 s)"
    proof (cases "st = 0")
      case True
      let ?ot = "if ber_tag b AND CBS_ASN1_CONSTRUCTED \<noteq> 0 \<and> is_string_type (ber_tag b) then string_tag (ber_tag b) else ber_tag b"
      have "delivers env {i. k < i} (der_element ?ot (payload st b)) (cbs_adv (length (ber_bytes b)) c) s
         (and_then_opt (writing c1 (CBB_add_asn1 (Suc (Suc n)) env k (Suc k) ?ot s))
           (\<lambda>(c, s). and_then_opt (convert_contents f (Suc (Suc n)) env m ?ct dp (Suc k) contents hl (ber_tag b) c s)
             (\<lambda>(c, s). writing c (CBB_flush (Suc (Suc n)) env k s))))"
        by (rule delivers_element [OF k short]) (rule contents)
      then show ?thesis
        unfolding convert_element_def Let_def converted_payload [OF ok] by (simp only: True simp_thms if_True if_False cong: if_cong)
    next
      case False
      have "delivers env {i. k < i} (payload st b) (cbs_adv (length (ber_bytes b)) c) s
         (and_then_opt (Some (True, (c1, s)))
           (\<lambda>(c, s). and_then_opt (convert_contents f (Suc (Suc n)) env m ?ct dp k contents hl (ber_tag b) c s)
             (\<lambda>(c, s). writing c (CBB_flush (Suc (Suc n)) env k s))))"
        by (rule delivers_fragment [OF k]) (rule contents [OF k])
      then show ?thesis
        using False by (simp add: convert_element_def Let_def converted_payload [OF ok] del: CBB_flush.simps)
    qed
  qed
qed

lemma convert_delivers: "convert_spec f (Suc (Suc n)) env m"
proof (induction f)
  case 0
  then show ?case by (simp add: convert_spec_def)
next
  case (Suc f)
  show ?case
    unfolding convert_spec_def
  proof (intro allI impI)
    fix ts tail st eoc dp k c s
    assume f: "unat (cbs_len c) < Suc f" and dp: "dp \<le> kMaxDepth" and ok: "list_all (ber_ok st (kMaxDepth - dp)) ts"
      and k: "idle k s" "good s" and b: "cbs_bytes m c = concat (map ber_bytes ts) @ tail"
      and tail: "if eoc then \<exists>rest. tail = 0 # 0 # rest else tail = []"
    show "delivers env {i. k < i} (concat (map (converted st) ts))
          (cbs_adv (length (concat (map ber_bytes ts)) + (if eoc then 2 else 0)) c) s
          (cbs_convert_ber (Suc f) (Suc (Suc n)) env m st eoc dp k c s)"
    proof (cases ts)
      case Nil
      show ?thesis
      proof (cases eoc)
        case False
        then have "cbs_bytes m c = []" using b tail Nil by simp
        then have "cbs_len c = 0" by (metis length_cbs_bytes list.size(3) unat_eq_0)
        then show ?thesis using False Nil dp delivers_done [OF k(2)] by simp
      next
        case True
        then obtain rest where "cbs_bytes m c = der_element 0 [] @ rest"
          using b tail Nil der_tag_zero [of 0] by (auto simp: der_element_def der_length_def)
        moreover from this have "cbs_len c \<noteq> 0" using length_cbs_bytes [of m c] by (auto simp: der_element_def der_length_def)
        ultimately show ?thesis
          using read_element [of m c 0 "[]" rest] element_eoc [of m c 0 "[]" rest] delivers_done [OF k(2)] dp True Nil der_tag_zero [of 0]
          by (simp add: der_element_def der_length_def numeral_2_eq_2)
      qed
    next
      case (Cons t ts')
      let ?l = "length (ber_bytes t)"
      have bt: "cbs_bytes m c = ber_bytes t @ concat (map ber_bytes ts') @ tail" using b Cons by simp
      have okt: "ber_ok st (kMaxDepth - dp) t" using ok Cons by simp
      obtain contents hl c1 where p: "CBS_get_any_ber_asn1_element m c = (Some (contents, ber_tag t, hl), c1)"
        "\<not> is_eoc m hl contents" and
        "\<And>k s. idle k s \<Longrightarrow> good s \<Longrightarrow> delivers env {i. k < i} (converted st t) (cbs_adv ?l c) s
         (convert_element f (Suc (Suc n)) env m st dp k contents hl (ber_tag t) c1 s)"
        by (rule element_delivers [OF Suc bt f dp okt]) blast
      note e = this(3) [OF k]
      have "0 < ?l" using length_der_tag(2) by (cases t) (simp_all add: der_element_def)
      moreover have l: "?l \<le> unat (cbs_len c)" using arg_cong [OF bt, of length] by simp
      ultimately have ne: "cbs_len c \<noteq> 0" by auto
      have tag: "st \<noteq> 0 \<longrightarrow> string_tag (ber_tag t) = st" using ok Cons by (cases t) auto
      have rest: "cbs_bytes m (cbs_adv ?l c) = concat (map ber_bytes ts') @ tail" using bt l by (simp add: bytes_adv)
      have f': "unat (cbs_len (cbs_adv ?l c)) < f" unfolding len_adv [OF l] using l f \<open>0 < ?l\<close> by linarith
      have "delivers env {i. k < i} (concat (map (converted st) ts'))
          (cbs_adv (?l + (length (concat (map ber_bytes ts')) + (if eoc then 2 else 0))) c) s'
          (cbs_convert_ber f (Suc (Suc n)) env m st eoc dp k (cbs_adv ?l c) s')"
        if "after {i. k < i} (converted st t) s s'" for s'
        using convert_specD [OF Suc f' dp _ _ _ rest tail, of st k s'] ok Cons k that
        by (simp add: after_idle after_good)
      from delivers_then [OF k(2) e, of "concat (map (converted st) ts')" _
          "\<lambda>c s. cbs_convert_ber f (Suc (Suc n)) env m st eoc dp k c s", OF this]
      show ?thesis
        unfolding convert_round [OF dp ne p tag] by (simp add: Cons add.assoc)
    qed
  qed
qed

section \<open>The first walk\<close>

text \<open>Whether an element needs conversion, and what the walk reports: the flag of a nested call replaces the
  flag so far, so that a later constructed element hides what an earlier one contains.\<close>

fun has_ber :: "ber \<Rightarrow> bool" where
  "has_ber (Primitive t bs) = False"
| "has_ber (Definite t ts) = (is_string_type t \<or> list_ex has_ber ts)"
| "has_ber (Indefinite t ts) = True"

fun search :: "bool \<Rightarrow> ber list \<Rightarrow> bool" where
  "search found [] = found"
| "search found (Primitive t bs # ts) = search found ts"
| "search found (Definite t us # ts) = (is_string_type t \<or> search (search False us) ts)"
| "search found (Indefinite t us # ts) = True"

lemma search_sound: "search found ts \<Longrightarrow> found \<or> list_ex has_ber ts"
  by (induction found ts rule: search.induct) auto

lemma find_forest:
  "list_all (ber_ok 0 (kMaxDepth - dp)) ts \<Longrightarrow> dp \<le> kMaxDepth \<Longrightarrow> cbs_bytes m c = concat (map ber_bytes ts) \<Longrightarrow>
   find_loop dp m found c = Some (search found ts)"
proof (induction found ts arbitrary: dp c rule: search.induct)
  case (1 found)
  then have "cbs_len c = 0" by (metis concat.simps(1) length_cbs_bytes list.map(1) list.size(3) unat_eq_0)
  then show ?case by (simp add: find_loop.simps)
next
  case (2 found t bs ts)
  then have e: "cbs_bytes m c = der_element t bs @ concat (map ber_bytes ts)" "length bs < 2 ^ 32"
    "t AND CBS_ASN1_CONSTRUCTED = 0" by simp_all
  note p = read_element [OF e(1,2)] element_not_indefinite [OF e(1)] skip_header(3) [OF e(1)]
  have "cbs_len c \<noteq> 0" using p(1) by (auto simp: CBS_get_any_ber_asn1_element_def elim: ber_element_parts)
  then show ?case using p e(3) 2 by (subst find_loop.simps) simp
next
  case (3 found t us ts)
  let ?body = "concat (map ber_bytes us)"
  from 3 have e: "cbs_bytes m c = der_element t ?body @ concat (map ber_bytes ts)" "length ?body < 2 ^ 32"
    and o: "t AND CBS_ASN1_CONSTRUCTED \<noteq> 0" "dp + 1 \<le> kMaxDepth" by simp_all
  note p = read_element [OF e] element_not_indefinite [OF e(1)] skip_header [OF e(1)]
  have ne: "cbs_len c \<noteq> 0" using p(1) by (auto simp: CBS_get_any_ber_asn1_element_def elim: ber_element_parts)
  show ?case
  proof (cases "is_string_type t")
    case True
    then show ?thesis using p(1,2) o(1) ne by (subst find_loop.simps) simp
  next
    case False
    then have "list_all (ber_ok 0 (kMaxDepth - (dp + 1))) us" using 3 by (simp add: inner_tag_def)
    then have "find_loop (dp + 1) m False (cbs_body t ?body c) = Some (search False us)"
      using "3.IH"(1) [of "dp + 1"] False o(2) p(4) by simp
    then show ?thesis using p o ne False 3 by (subst find_loop.simps) simp
  qed
next
  case (4 found t us ts)
  then have e: "cbs_bytes m c = der_tag t @ 0x80 # concat (map ber_bytes us) @ 0 # 0 # concat (map ber_bytes ts)"
    and o: "t AND CBS_ASN1_CONSTRUCTED \<noteq> 0" by simp_all
  have "cbs_len c \<noteq> 0" using read_indefinite [OF e o] by (auto simp: CBS_get_any_ber_asn1_element_def elim: ber_element_parts)
  then show ?case using read_indefinite [OF e o] indefinite_is [OF e] by (subst find_loop.simps) simp
qed

section \<open>The theorems\<close>

lemma convert_forest:
  assumes alloc: "\<forall>m. alloc_ok env m" "block_ok env"
    and ok: "list_all (ber_ok 0 kMaxDepth) ts" and b: "cbs_bytes m c = concat (map ber_bytes ts)"
    and f: "unat (cbs_len c) < f" and len: "length (concat (map der_of ts)) < 2 ^ 64"
  shows "\<exists>s1 s2. CBB_init env k (cbs_len c) s = (True, s1) \<and>
     cbs_convert_ber f (Suc (Suc n)) env m 0 False 0 k c s1 = Some (True, (cbs_adv (unat (cbs_len c)) c, s2)) \<and>
     CBB_finish (Suc (Suc n)) env k True s2 = Some (Some (concat (map der_of ts)), CBB_cleanup k s2)"
proof -
  obtain s1 where i: "CBB_init env k (cbs_len c) s = (True, s1)" using alloc by (simp add: CBB_init_def cbb_init_def Let_def)
  note r = init_ready [OF i]
  have out: "concat (map (converted 0) ts) = concat (map der_of ts)" by (simp add: converted_def [abs_def])
  have "length (concat (map ber_bytes ts)) = unat (cbs_len c)" using b by (metis length_cbs_bytes)
  then have "delivers env {i. k < i} (concat (map der_of ts)) (cbs_adv (unat (cbs_len c)) c) s1
      (cbs_convert_ber f (Suc (Suc n)) env m 0 False 0 k c s1)"
    using convert_specD [OF convert_delivers [of f n env m] f, of 0 0 ts k s1 "[]" False] ok b r(1,2) out by simp
  moreover have "room env (base s1) (length (concat (map der_of ts)))" using r(4,5) alloc(1) len by (simp add: room_def)
  ultimately obtain s2 where s2: "cbs_convert_ber f (Suc (Suc n)) env m 0 False 0 k c s1 = Some (True, (cbs_adv (unat (cbs_len c)) c, s2))"
    "after {i. k < i} (concat (map der_of ts)) s1 s2"
    by (auto simp: delivers_def appends_def written_def split: option.splits if_splits prod.splits)
  then have "content (base s2) = concat (map der_of ts)" "idle k s2" "good s2" "\<not> c_is_child (cbbs s2 k)"
    using r by (auto simp: after_def extended_def idle_def)
  then show ?thesis using i s2(1) finish_idle [of k s2 "Suc n" env] by (intro exI conjI) simp_all
qed

text \<open>C23. \<^verbatim>\<open>CBS_asn1_ber_to_der\<close> on well-formed BER, one element or several (nested at most 2048 deep, lengths below
  \<open>2 ^ 32\<close>), with an allocator that grants every request and any bound above the input's length: if the first walk finds an
  element that needs conversion, the result is the DER form of the input, in which every indefinite length has become
  a definite one and every constructed string the primitive string of its fragments, and the reader is consumed;
  otherwise the result is the first element, in place.  So when there are several elements, the conversion takes all
  of them and advances over all, while the documentation in \<^verbatim>\<open>internal.h\<close> says that one element is read and
  \<^verbatim>\<open>in\<close> is advanced over that one; without a conversion the code does as documented.\<close>

theorem ber_to_der_converts:
  assumes "\<forall>m. alloc_ok env m" "block_ok env"
    and "list_all (ber_ok 0 kMaxDepth) (b # ts)" "cbs_bytes m c = concat (map ber_bytes (b # ts))"
    and "unat (cbs_len c) < f" "length (concat (map der_of (b # ts))) < 2 ^ 64"
  shows "\<exists>s'. CBS_asn1_ber_to_der f (Suc (Suc n)) env k m c s =
     (if search False (b # ts)
      then Some (Some (Converted (concat (map der_of (b # ts)))), cbs_adv (unat (cbs_len c)) c, s')
      else Some (Some (In_Place (cbs_front (length (ber_bytes b)) c)), cbs_adv (length (ber_bytes b)) c, s))"
proof -
  have find: "cbs_find_ber 0 m c = Some (search False (b # ts))"
    using find_forest [of 0 "b # ts" m c False] assms(3,4) by (simp add: cbs_find_ber_def)
  show ?thesis
  proof (cases "search False (b # ts)")
    case True
    from convert_forest [OF assms, of k s n] obtain s1 s2 where
      "CBB_init env k (cbs_len c) s = (True, s1)"
      "cbs_convert_ber f (Suc (Suc n)) env m 0 False 0 k c s1 = Some (True, (cbs_adv (unat (cbs_len c)) c, s2))"
      "CBB_finish (Suc (Suc n)) env k True s2 = Some (Some (concat (map der_of (b # ts))), CBB_cleanup k s2)" by blast
    then show ?thesis using find True unfolding CBS_asn1_ber_to_der_def by (auto simp del: concat.simps list.map)
  next
    case False
    obtain t body where b: "ber_bytes b = der_element t body" "length body < 2 ^ 32"
      using assms(3) False by (cases b) auto
    then have "CBS_get_any_asn1_element m c = (Some (cbs_front (length (ber_bytes b)) c, t, of_nat (header_len t body)), cbs_adv (length (ber_bytes b)) c)"
      using element_complete [of m c t body "concat (map ber_bytes ts)"] assms(4) by (simp add: CBS_get_any_asn1_element_def)
    then show ?thesis using find False by (simp add: CBS_asn1_ber_to_der_def)
  qed
qed

text \<open>The grants of every request.\<close>

definition rich_env :: cbb_env where
  "rich_env = \<lparr>alloc_ok = \<lambda>_. True, block_ok = True, junk = 0\<rparr>"

lemma rich_env_grants: "\<forall>m. alloc_ok rich_env m" "block_ok rich_env"
  by (simp_all add: rich_env_def)

text \<open>A constructed octet string of two fragments: 24 80 04 01 aa 04 01 bb 00 00.\<close>

definition ber_sample :: ber where
  "ber_sample = Indefinite 0x20000004 [Primitive 4 [0xaa], Primitive 4 [0xbb]]"

definition list_mem :: "u8 list \<Rightarrow> mem" where
  "list_mem bs a = (if unat a < length bs then bs ! unat a else 0)"

lemmas sample_defs = kMaxDepth_def inner_tag_def is_string_type_def string_numbers_def string_tag_def
  CBS_ASN1_CONSTRUCTED_def CBS_ASN1_TAG_SHIFT_def converted_def

lemma list_mem_bytes: "length bs < 2 ^ 64 \<Longrightarrow> cbs_bytes (list_mem bs) (CBS_init 0 (of_nat (length bs))) = bs"
  by (rule nth_equalityI) (simp_all add: cbs_bytes_def CBS_init_def list_mem_def)

theorem ber_to_der_converts_witness:
  "\<exists>s'. CBS_asn1_ber_to_der 11 (Suc (Suc 0)) rich_env 0 (list_mem [0x24, 0x80, 4, 1, 0xaa, 4, 1, 0xbb, 0, 0]) (CBS_init 0 10) example_cbb =
     Some (Some (Converted [4, 2, 0xaa, 0xbb]), cbs_adv 10 (CBS_init 0 10), s')"
proof -
  have b: "ber_bytes ber_sample = [0x24, 0x80, 4, 1, 0xaa, 4, 1, 0xbb, 0, 0]" by code_simp
  then have m: "cbs_bytes (list_mem [0x24, 0x80, 4, 1, 0xaa, 4, 1, 0xbb, 0, 0]) (CBS_init 0 10) = concat (map ber_bytes [ber_sample])"
    using list_mem_bytes [of "[0x24, 0x80, 4, 1, 0xaa, 4, 1, 0xbb, 0, 0]"] by simp
  have ok: "list_all (ber_ok 0 kMaxDepth) [ber_sample]" by (simp add: ber_sample_def sample_defs)
  have d: "der_of ber_sample = [4, 2, 0xaa, 0xbb]" and f: "search False [ber_sample]" by code_simp+
  have l: "unat (cbs_len (CBS_init 0 10)) < 11" "length (concat (map der_of [ber_sample])) < 2 ^ 64"
    by (simp_all add: CBS_init_def d)
  have "unat (cbs_len (CBS_init 0 10)) = 10" by (simp add: CBS_init_def)
  with ber_to_der_converts [OF rich_env_grants ok m l, of 0 0 example_cbb] show ?thesis by (simp add: f d)
qed

text \<open>What the first walk misses.\<close>

definition plain :: "ber \<Rightarrow> bool" where
  "plain b = (case b of Primitive _ _ \<Rightarrow> True | Definite t _ \<Rightarrow> \<not> is_string_type t | Indefinite _ _ \<Rightarrow> False)"

lemma search_last:
  "list_all plain us \<Longrightarrow> \<not> is_string_type t \<Longrightarrow> search found (us @ [Definite t vs]) = search False vs"
  by (induction found us rule: search.induct) (simp_all add: plain_def)

text \<open>C27. \<^verbatim>\<open>CBS_asn1_ber_to_der\<close> can return BER.  Every nested call of
  \<^verbatim>\<open>cbs_find_ber\<close> resets \<^verbatim>\<open>*ber_found\<close>, so when the last element of a constructed
  element is constructed and needs no conversion, whatever its earlier siblings contain goes unnoticed: the call
  succeeds and hands out the input as it is, indefinite lengths and constructed strings included.\<close>

theorem ber_missed:
  assumes "ber_ok 0 kMaxDepth (Definite t (us @ [Definite u vs]))" "\<not> is_string_type t" "\<not> is_string_type u"
    and "list_all plain us" "\<not> list_ex has_ber vs" "cbs_bytes m c = ber_bytes (Definite t (us @ [Definite u vs]))"
  shows "\<exists>out. CBS_asn1_ber_to_der f n env k m c s = Some (Some out, cbs_adv (unat (cbs_len c)) c, s) \<and>
     out_bytes m out = ber_bytes (Definite t (us @ [Definite u vs]))"
proof -
  let ?body = "concat (map ber_bytes (us @ [Definite u vs]))"
  have "search False [Definite t (us @ [Definite u vs])] = search False vs"
    using assms(2,3,4) by (simp add: search_last)
  moreover have "\<not> search False vs" using search_sound [of False vs] assms(5) by blast
  ultimately have "cbs_find_ber 0 m c = Some False"
    using find_forest [of 0 "[Definite t (us @ [Definite u vs])]" m c False] assms(1,6) by (simp add: cbs_find_ber_def)
  moreover have e: "cbs_bytes m c = der_element t ?body @ []" "length ?body < 2 ^ 32"
    using assms(1,6) by (simp_all del: map_append concat_append)
  moreover have "length (der_element t ?body) = unat (cbs_len c)" using arg_cong [OF e(1), of length] by simp
  ultimately show ?thesis
    using element_complete [OF e] bytes_front [of "unat (cbs_len c)" c m] assms(6)
    by (simp add: CBS_asn1_ber_to_der_def CBS_get_any_asn1_element_def out_bytes_def del: map_append concat_append ber_bytes.simps)
qed

text \<open>Bytes 30 08 30 04 30 80 00 00 30 00.\<close>

theorem ber_missed_witness:
  "(\<exists>out. CBS_asn1_ber_to_der 0 0 rich_env 0 (list_mem [0x30, 8, 0x30, 4, 0x30, 0x80, 0, 0, 0x30, 0]) (CBS_init 0 10) example_cbb =
       Some (Some out, cbs_adv (unat (cbs_len (CBS_init 0 10))) (CBS_init 0 10), example_cbb) \<and>
     out_bytes (list_mem [0x30, 8, 0x30, 4, 0x30, 0x80, 0, 0, 0x30, 0]) out =
       ber_bytes (Definite 0x20000010 ([Definite 0x20000010 [Indefinite 0x20000010 []]] @ [Definite 0x20000010 []]))) \<and>
   der_of (Definite 0x20000010 ([Definite 0x20000010 [Indefinite 0x20000010 []]] @ [Definite 0x20000010 []])) =
     [0x30, 6, 0x30, 2, 0x30, 0, 0x30, 0]"
proof (intro conjI ber_missed)
  have b: "ber_bytes (Definite 0x20000010 ([Definite 0x20000010 [Indefinite 0x20000010 []]] @ [Definite 0x20000010 []])) =
      [0x30, 8, 0x30, 4, 0x30, 0x80, 0, 0, 0x30, 0]"
    by code_simp
  show "cbs_bytes (list_mem [0x30, 8, 0x30, 4, 0x30, 0x80, 0, 0, 0x30, 0]) (CBS_init 0 10) =
      ber_bytes (Definite 0x20000010 ([Definite 0x20000010 [Indefinite 0x20000010 []]] @ [Definite 0x20000010 []]))"
    using list_mem_bytes [of "[0x30, 8, 0x30, 4, 0x30, 0x80, 0, 0, 0x30, 0]"] unfolding b by simp
  have "concat (map ber_bytes ([Definite 0x20000010 [Indefinite 0x20000010 []]] @ [Definite 0x20000010 []])) =
      [0x30, 4, 0x30, 0x80, 0, 0, 0x30, 0]"
    "concat (map der_of ([Definite 0x20000010 [Indefinite 0x20000010 []]] @ [Definite 0x20000010 []])) = [0x30, 2, 0x30, 0, 0x30, 0]"
    "ber_bytes (Indefinite 0x20000010 []) = [0x30, 0x80, 0, 0]" "der_element 0x20000010 [] = [0x30, 0]"
    by code_simp+
  then show "ber_ok 0 kMaxDepth (Definite 0x20000010 ([Definite 0x20000010 [Indefinite 0x20000010 []]] @ [Definite 0x20000010 []]))"
    by (simp add: sample_defs del: ber_bytes.simps(3))
  show "der_of (Definite 0x20000010 ([Definite 0x20000010 [Indefinite 0x20000010 []]] @ [Definite 0x20000010 []])) =
     [0x30, 6, 0x30, 2, 0x30, 0, 0x30, 0]" by code_simp
qed (simp_all add: sample_defs plain_def)

section \<open>Implicitly tagged strings\<close>

lemma implicit_complete:
  "idle k s \<Longrightarrow> good s \<Longrightarrow> list_all (\<lambda>bs. length bs < 2 ^ 32) chunks \<Longrightarrow>
   cbs_bytes m c = concat (map (der_element t) chunks) \<Longrightarrow>
   appends env {} (concat chunks) s (implicit_loop (Suc n) env k m t c s)"
proof (induction chunks arbitrary: c s)
  case Nil
  then have "cbs_len c = 0" by (metis concat.simps(1) length_cbs_bytes list.map(1) list.size(3) unat_eq_0)
  then show ?case using Nil by (simp add: implicit_loop.simps appends_def after_refl)
next
  case (Cons bs chunks)
  then have e: "cbs_bytes m c = der_element t bs @ concat (map (der_element t) chunks)" "length bs < 2 ^ 32" by simp_all
  have "cbs_len c \<noteq> 0" using arg_cong [OF e(1), of length] length_der_tag(2) [of t] by (auto simp: der_element_def)
  then have "implicit_loop (Suc n) env k m t c s = and_then_opt (CBB_add_bytes (Suc n) env k bs s)
      (implicit_loop (Suc n) env k m t (cbs_adv (length (der_element t bs)) c))"
    using get_asn1_complete [OF e] skip_header(2) [OF e(1)] by (subst implicit_loop.simps) simp
  moreover have "appends env {} (concat chunks) s' (implicit_loop (Suc n) env k m t (cbs_adv (length (der_element t bs)) c) s')"
    if "after {} bs s s'" for s'
    using that Cons skip_header(3) [OF e(1)] by (intro Cons.IH) (simp_all add: after_idle after_good)
  moreover have "appends env {} bs s (CBB_add_bytes (Suc n) env k bs s)"
    using add_bytes_appends [OF Cons.prems(1,2), of bs env "{}" n] e(2) by simp
  ultimately show ?case using appends_then [OF Cons.prems(2)] by simp
qed

lemma implicit_string_spec:
  assumes "\<forall>m. alloc_ok env m" "block_ok env" and outer: "outer AND CBS_ASN1_CONSTRUCTED = 0"
  shows "cbs_bytes m c = der_element outer bs @ rest \<Longrightarrow> length bs < 2 ^ 32 \<Longrightarrow>
      CBS_get_asn1_implicit_string n env k m outer inner c s =
        Some (Some (In_Place (cbs_body outer bs c)), cbs_adv (length (der_element outer bs)) c, s)"
    and "cbs_bytes m c = der_element (outer OR CBS_ASN1_CONSTRUCTED) (concat (map (der_element inner) chunks)) @ rest \<Longrightarrow>
      length (concat (map (der_element inner) chunks)) < 2 ^ 32 \<Longrightarrow>
      \<exists>s'. CBS_get_asn1_implicit_string (Suc n) env k m outer inner c s =
        Some (Some (Converted (concat chunks)),
          cbs_adv (length (der_element (outer OR CBS_ASN1_CONSTRUCTED) (concat (map (der_element inner) chunks)))) c, s')"
proof -
  assume b: "cbs_bytes m c = der_element outer bs @ rest" "length bs < 2 ^ 32"
  then have "CBS_peek_asn1_tag outer m c" unfolding peek_iff by (simp add: der_element_def)
  then show "CBS_get_asn1_implicit_string n env k m outer inner c s =
        Some (Some (In_Place (cbs_body outer bs c)), cbs_adv (length (der_element outer bs)) c, s)"
    using get_asn1_complete [OF b] by (simp add: CBS_get_asn1_implicit_string_def)
next
  let ?o = "outer OR CBS_ASN1_CONSTRUCTED" and ?body = "concat (map (der_element inner) chunks)"
  assume b: "cbs_bytes m c = der_element ?o ?body @ rest" and len: "length ?body < 2 ^ 32"
  have "(outer OR CBS_ASN1_CONSTRUCTED) AND CBS_ASN1_CONSTRUCTED \<noteq> outer AND CBS_ASN1_CONSTRUCTED"
    using outer by (simp add: bit.conj_disj_distrib2 CBS_ASN1_CONSTRUCTED_def CBS_ASN1_TAG_SHIFT_def)
  then have "?o \<noteq> outer" by metis
  moreover have "fst (parse_asn1_tag m c) = Some ?o"
    using parse_tag_complete [of m c ?o] b by (simp add: der_element_def)
  ultimately have peek: "\<not> CBS_peek_asn1_tag outer m c" by (simp add: CBS_peek_asn1_tag_def)
  obtain s1 where i: "CBB_init env k (cbs_len c) s = (True, s1)" using assms by (simp add: CBB_init_def cbb_init_def Let_def)
  note r = init_ready [OF i]
  have chunks: "list_all (\<lambda>bs. length bs < 2 ^ 32) chunks \<and> length (concat chunks) \<le> length ?body"
    using len by (induction chunks) (auto simp: der_element_def)
  then have "room env (base s1) (length (concat chunks))" using r(4,5) assms(1) len by (simp add: room_def)
  moreover have "appends env {} (concat chunks) s1 (implicit_loop (Suc n) env k m inner (cbs_body ?o ?body c) s1)"
    using chunks skip_header(2) [OF b] by (intro implicit_complete r) simp_all
  ultimately obtain s2 where s2: "implicit_loop (Suc n) env k m inner (cbs_body ?o ?body c) s1 = Some (True, s2)"
    "after {} (concat chunks) s1 s2" by (auto simp: appends_def split: option.splits if_splits)
  then have "content (base s2) = concat chunks" "idle k s2" "good s2" "\<not> c_is_child (cbbs s2 k)"
    using r by (auto simp: after_def extended_def idle_def)
  then show "\<exists>s'. CBS_get_asn1_implicit_string (Suc n) env k m outer inner c s =
      Some (Some (Converted (concat chunks)), cbs_adv (length (der_element ?o ?body)) c, s')"
    using s2(1) peek i get_asn1_complete [OF b len] finish_idle [of k s2 n env]
    by (simp add: CBS_get_asn1_implicit_string_def)
qed

end
