(* ===== verification/Openssl_Mem.thy ===== *)
theory Openssl_Mem
  imports C_Memory
begin

text \<open>
  BoringSSL's allocation functions, \<^verbatim>\<open>crypto/mem.c\<close>, over the C library's allocator of
  \<open>C_Memory\<close>: every block carries its size in eight bytes in front of the data, so that
  \<^verbatim>\<open>OPENSSL_free\<close> can wipe it and \<^verbatim>\<open>OPENSSL_realloc\<close> can copy it.  \<open>None\<close> is
  undefined behaviour: an access outside a live block, or a pointer that is not one of these blocks.
\<close>

section \<open>The code\<close>

definition OPENSSL_MALLOC_PREFIX :: u64 where "OPENSSL_MALLOC_PREFIX = 8"

definition c_malloc :: "placement \<Rightarrow> heap \<Rightarrow> u64 \<Rightarrow> (addr \<times> heap) option" where
  "c_malloc place h n = c_realloc place h 0 n"

text \<open>Accesses to the live block at \<open>b\<close>, from offset \<open>i\<close> on.\<close>

definition block_store :: "addr \<Rightarrow> nat \<Rightarrow> u8 list \<Rightarrow> heap \<Rightarrow> heap option" where
  "block_store b i bs h =
     (case h_blocks h b of
        None \<Rightarrow> None
      | Some k \<Rightarrow>
          if i + length bs \<le> unat k then Some (h\<lparr>h_mem := write_bytes (h_mem h) (b + of_nat i) bs\<rparr>) else None)"

definition block_load :: "addr \<Rightarrow> nat \<Rightarrow> nat \<Rightarrow> heap \<Rightarrow> u8 list option" where
  "block_load b i n h =
     (case h_blocks h b of
        None \<Rightarrow> None
      | Some k \<Rightarrow> if i + n \<le> unat k then Some (read_bytes (h_mem h) (b + of_nat i) n) else None)"

definition OPENSSL_malloc :: "placement \<Rightarrow> u64 \<Rightarrow> heap \<Rightarrow> (addr \<times> heap) option" where
  "OPENSSL_malloc place n h =
     do {
       (ptr, h) \<leftarrow> c_malloc place h (n + OPENSSL_MALLOC_PREFIX);
       if ptr = 0 then Some (0, h)
       else do {
         h \<leftarrow> block_store ptr 0 (word_to_bytes 8 n) h;
         Some (ptr + OPENSSL_MALLOC_PREFIX, h)
       }
     }"

definition OPENSSL_cleanse :: "addr \<Rightarrow> u64 \<Rightarrow> heap \<Rightarrow> heap option" where
  "OPENSSL_cleanse ptr len h = block_store ptr 0 (replicate (unat len) 0) h"

definition OPENSSL_free :: "addr \<Rightarrow> heap \<Rightarrow> heap option" where
  "OPENSSL_free orig_ptr h =
     (if orig_ptr = 0 then Some h
      else
        let ptr = orig_ptr - OPENSSL_MALLOC_PREFIX in
        do {
          hdr \<leftarrow> block_load ptr 0 8 h;
          h \<leftarrow> OPENSSL_cleanse ptr (bytes_to_word hdr + OPENSSL_MALLOC_PREFIX) h;
          c_free h ptr
        })"

definition OPENSSL_realloc :: "placement \<Rightarrow> addr \<Rightarrow> u64 \<Rightarrow> heap \<Rightarrow> (addr \<times> heap) option" where
  "OPENSSL_realloc place orig_ptr new_size h =
     (if orig_ptr = 0 then OPENSSL_malloc place new_size h
      else
        let ptr = orig_ptr - OPENSSL_MALLOC_PREFIX in
        do {
          hdr \<leftarrow> block_load ptr 0 8 h;
          let old_size = bytes_to_word hdr;
          (ret, h) \<leftarrow> OPENSSL_malloc place new_size h;
          if ret = 0 then Some (0, h)
          else do {
            let to_copy = (if old_size < new_size then old_size else new_size);
            bs \<leftarrow> block_load ptr 8 (unat to_copy) h;
            h \<leftarrow> block_store (ret - OPENSSL_MALLOC_PREFIX) 8 bs h;
            h \<leftarrow> OPENSSL_free orig_ptr h;
            Some (ret, h)
          }
        })"

definition OPENSSL_clear_free :: "addr \<Rightarrow> u64 \<Rightarrow> heap \<Rightarrow> heap option" where
  "OPENSSL_clear_free ptr unused h = OPENSSL_free ptr h"

subsection \<open>Strings\<close>

text \<open>\<^verbatim>\<open>strlen\<close>, counting from \<open>n\<close>; a string without a NUL has no length.\<close>

partial_function (option) c_strlen :: "mem \<Rightarrow> addr \<Rightarrow> u64 \<Rightarrow> u64 option" where
  "c_strlen m s n = (if m s = 0 then Some n else c_strlen m (s + 1) (n + 1))"

fun strnlen_loop :: "mem \<Rightarrow> addr \<Rightarrow> nat \<Rightarrow> u64 \<Rightarrow> u64" where
  "strnlen_loop m s 0 i = i"
| "strnlen_loop m s (Suc n) i = (if m (s + i) = 0 then i else strnlen_loop m s n (i + 1))"

definition OPENSSL_strnlen :: "mem \<Rightarrow> addr \<Rightarrow> u64 \<Rightarrow> u64" where
  "OPENSSL_strnlen m s len = strnlen_loop m s (unat len) 0"

text \<open>Copying constant data from anywhere in memory into a new block.\<close>

definition OPENSSL_strdup :: "placement \<Rightarrow> addr \<Rightarrow> heap \<Rightarrow> (addr \<times> heap) option" where
  "OPENSSL_strdup place s h =
     (if s = 0 then Some (0, h)
      else do {
        len \<leftarrow> c_strlen (h_mem h) s 0;
        (ret, h) \<leftarrow> OPENSSL_malloc place (len + 1) h;
        if ret = 0 then Some (0, h)
        else do {
          h \<leftarrow> block_store (ret - OPENSSL_MALLOC_PREFIX) 8 (read_bytes (h_mem h) s (unat (len + 1))) h;
          Some (ret, h)
        }
      })"

definition OPENSSL_strndup :: "placement \<Rightarrow> addr \<Rightarrow> u64 \<Rightarrow> heap \<Rightarrow> (addr \<times> heap) option" where
  "OPENSSL_strndup place str n h =
     (if str = 0 then Some (0, h)
      else
        let n = OPENSSL_strnlen (h_mem h) str n; alloc_size = n + 1 in
        if alloc_size < n then Some (0, h)
        else do {
          (ret, h) \<leftarrow> OPENSSL_malloc place alloc_size h;
          if ret = 0 then Some (0, h)
          else do {
            h \<leftarrow> block_store (ret - OPENSSL_MALLOC_PREFIX) 8 (read_bytes (h_mem h) str (unat n)) h;
            h \<leftarrow> block_store (ret - OPENSSL_MALLOC_PREFIX) (8 + unat n) [0] h;
            Some (ret, h)
          }
        })"

definition OPENSSL_memdup :: "placement \<Rightarrow> addr \<Rightarrow> u64 \<Rightarrow> heap \<Rightarrow> (addr \<times> heap) option" where
  "OPENSSL_memdup place data n h =
     (if n = 0 then Some (0, h)
      else do {
        (ret, h) \<leftarrow> OPENSSL_malloc place n h;
        if ret = 0 then Some (0, h)
        else do {
          h \<leftarrow> block_store (ret - OPENSSL_MALLOC_PREFIX) 8 (read_bytes (h_mem h) data (unat n)) h;
          Some (ret, h)
        }
      })"

definition OPENSSL_tolower :: "int \<Rightarrow> int" where
  "OPENSSL_tolower c = (if c \<ge> 0x41 \<and> c \<le> 0x5a then c + (0x61 - 0x41) else c)"

text \<open>One step of the comparisons, on the characters (signed on this platform): a result, or \<open>None\<close> to go on.\<close>

definition casecmp_step :: "u8 \<Rightarrow> u8 \<Rightarrow> int option" where
  "casecmp_step a b =
     (let aa = OPENSSL_tolower (sint a); bb = OPENSSL_tolower (sint b) in
      if aa < bb then Some (- 1) else if aa > bb then Some 1 else if aa = 0 then Some 0 else None)"

partial_function (option) strcasecmp_loop :: "mem \<Rightarrow> addr \<Rightarrow> addr \<Rightarrow> int option" where
  "strcasecmp_loop m a b =
     (case casecmp_step (m a) (m b) of
        Some r \<Rightarrow> Some r
      | None \<Rightarrow> strcasecmp_loop m (a + 1) (b + 1))"

definition OPENSSL_strcasecmp :: "mem \<Rightarrow> addr \<Rightarrow> addr \<Rightarrow> int option" where
  "OPENSSL_strcasecmp = strcasecmp_loop"

fun strncasecmp_loop :: "mem \<Rightarrow> addr \<Rightarrow> addr \<Rightarrow> nat \<Rightarrow> int" where
  "strncasecmp_loop m a b 0 = 0"
| "strncasecmp_loop m a b (Suc n) =
     (case casecmp_step (m a) (m b) of
        Some r \<Rightarrow> r
      | None \<Rightarrow> strncasecmp_loop m (a + 1) (b + 1) n)"

definition OPENSSL_strncasecmp :: "mem \<Rightarrow> addr \<Rightarrow> addr \<Rightarrow> u64 \<Rightarrow> int" where
  "OPENSSL_strncasecmp m a b n = strncasecmp_loop m a b (unat n)"

fun strlcpy_loop :: "nat \<Rightarrow> mem \<Rightarrow> addr \<Rightarrow> addr \<Rightarrow> u64 \<Rightarrow> mem \<times> addr \<times> addr \<times> nat \<times> u64" where
  "strlcpy_loop 0 m dst src l = (m, dst, src, 0, l)"
| "strlcpy_loop (Suc n) m dst src l =
     (if Suc n > 1 \<and> m src \<noteq> 0 then strlcpy_loop n (m(dst := m src)) (dst + 1) (src + 1) (l + 1)
      else (m, dst, src, Suc n, l))"

definition OPENSSL_strlcpy :: "mem \<Rightarrow> addr \<Rightarrow> addr \<Rightarrow> u64 \<Rightarrow> (u64 \<times> mem) option" where
  "OPENSSL_strlcpy m dst src dst_size =
     (case strlcpy_loop (unat dst_size) m dst src 0 of
        (m, dst, src, dst_size, l) \<Rightarrow>
          let m = (if dst_size \<noteq> 0 then m(dst := 0) else m) in
          map_option (\<lambda>k. (l + k, m)) (c_strlen m src 0))"

fun strlcat_loop :: "nat \<Rightarrow> mem \<Rightarrow> addr \<Rightarrow> u64 \<Rightarrow> addr \<times> nat \<times> u64" where
  "strlcat_loop 0 m dst l = (dst, 0, l)"
| "strlcat_loop (Suc n) m dst l = (if m dst \<noteq> 0 then strlcat_loop n m (dst + 1) (l + 1) else (dst, Suc n, l))"

definition OPENSSL_strlcat :: "mem \<Rightarrow> addr \<Rightarrow> addr \<Rightarrow> u64 \<Rightarrow> (u64 \<times> mem) option" where
  "OPENSSL_strlcat m dst src dst_size =
     (case strlcat_loop (unat dst_size) m dst 0 of
        (dst, dst_size, l) \<Rightarrow>
          map_option (\<lambda>(k, m). (l + k, m)) (OPENSSL_strlcpy m dst src (of_nat dst_size)))"

fun fnv_loop :: "u32 \<Rightarrow> u8 list \<Rightarrow> u32" where
  "fnv_loop h [] = h"
| "fnv_loop h (b # bs) = fnv_loop ((h XOR ucast b) * 16777619) bs"

definition OPENSSL_hash32 :: "mem \<Rightarrow> addr \<Rightarrow> u64 \<Rightarrow> u32" where
  "OPENSSL_hash32 m ptr len = fnv_loop 2166136261 (read_bytes m ptr (unat len))"

section \<open>The allocator\<close>

text \<open>Two ranges of addresses, given by start and length, that do not meet.\<close>

definition apart :: "addr \<Rightarrow> u64 \<Rightarrow> addr \<Rightarrow> u64 \<Rightarrow> bool" where
  "apart a n b k \<longleftrightarrow> unat a + unat n \<le> unat b \<or> unat b + unat k \<le> unat a"

definition fresh :: "(addr \<Rightarrow> u64 option) \<Rightarrow> addr \<Rightarrow> u64 \<Rightarrow> bool" where
  "fresh B q n \<longleftrightarrow> q \<noteq> 0 \<and> unat q + unat n < 2 ^ 64 \<and> B q = None \<and> (\<forall>b k. B b = Some k \<longrightarrow> apart q n b k)"

text \<open>The live blocks of a heap lie apart and do not wrap.\<close>

definition wf_heap :: "heap \<Rightarrow> bool" where
  "wf_heap h \<longleftrightarrow> (\<forall>b k. h_blocks h b = Some k \<longrightarrow> fresh ((h_blocks h)(b := None)) b k)"

text \<open>\<open>p\<close> points to \<open>n\<close> bytes handed out by \<^verbatim>\<open>OPENSSL_malloc\<close>.\<close>

definition owned :: "heap \<Rightarrow> addr \<Rightarrow> u64 \<Rightarrow> bool" where
  "owned h p n \<longleftrightarrow> p \<noteq> 0 \<and> unat n + 8 < 2 ^ 64 \<and> h_blocks h (p - 8) = Some (n + 8) \<and>
     bytes_to_word (read_bytes (h_mem h) (p - 8) 8) = n"

definition data_of :: "heap \<Rightarrow> addr \<Rightarrow> u64 \<Rightarrow> u8 list" where
  "data_of h p n = read_bytes (h_mem h) p (unat n)"

lemma apart_sym: "apart a n b k \<longleftrightarrow> apart b k a n"
  by (auto simp: apart_def)

lemma apart_addr:
  assumes "apart a n b k" "unat a + unat n < 2 ^ 64" "unat b + unat k < 2 ^ 64" "in_range a (unat n) x"
  shows "\<not> in_range b (unat k) x"
proof -
  have r: "in_range c (unat j) x \<longleftrightarrow> unat c \<le> unat x \<and> unat x < unat c + unat j" if "unat c + unat j < 2 ^ 64" for c j :: u64
  proof (cases "unat c \<le> unat x")
    case True
    then show ?thesis by (auto simp: in_range_def unat_sub word_le_nat_alt)
  next
    case False
    then have "unat (x - c) = 2 ^ 64 - (unat c - unat x)"
      using unat_sub_if' [of x c] by (simp add: word_le_nat_alt)
    then show ?thesis using False that by (simp add: in_range_def)
  qed
  show ?thesis using assms r by (auto simp: apart_def)
qed

text \<open>Every block but \<open>p\<close> is still there with its data.\<close>

definition others_kept :: "addr \<Rightarrow> heap \<Rightarrow> heap \<Rightarrow> bool" where
  "others_kept p h h' \<longleftrightarrow> (\<forall>r k. r \<noteq> p \<and> owned h r k \<longrightarrow> owned h' r k \<and> data_of h' r k = data_of h r k)"

lemma others_kept_trans: "others_kept p h h1 \<Longrightarrow> others_kept q h1 h2 \<Longrightarrow> q = p \<or> (\<forall>k. \<not> owned h q k) \<Longrightarrow> others_kept p h h2"
  by (fastforce simp: others_kept_def)

lemma unat_add8: "unat n + 8 < 2 ^ 64 \<Longrightarrow> unat (n + 8 :: u64) = unat n + 8"
  by (simp add: unat_word_ariths)

lemma owned_range:
  assumes "owned h p n" "wf_heap h"
  shows "unat (p - 8) + (unat n + 8) < 2 ^ 64" "p - 8 \<noteq> 0" "unat p = unat (p - 8) + 8"
proof -
  have f: "fresh ((h_blocks h)(p - 8 := None)) (p - 8) (n + 8)" and n: "unat n + 8 < 2 ^ 64"
    using assms by (simp_all add: owned_def wf_heap_def)
  then show r: "unat (p - 8) + (unat n + 8) < 2 ^ 64" "p - 8 \<noteq> 0" by (simp_all add: fresh_def unat_add8 del: fun_upd_apply)
  then show "unat p = unat (p - 8) + 8" using unat_add8 [of "p - 8"] by simp
qed

text \<open>A change inside one block leaves the others.\<close>

lemma change_inside:
  assumes "wf_heap h" "h_blocks h b = Some j" "only_in (in_range b (unat j)) (h_mem h) (h_mem h')"
    and "\<And>c. c \<noteq> b \<Longrightarrow> h_blocks h' c = h_blocks h c"
  shows "others_kept (b + 8) h h'"
  unfolding others_kept_def
proof (intro allI impI, elim conjE)
  fix r k assume r: "r \<noteq> b + 8" and o: "owned h r k"
  then have ne: "r - 8 \<noteq> b" by (auto simp: diff_eq_eq)
  note range = owned_range [OF o assms(1)]
  have "fresh ((h_blocks h)(b := None)) b j" using assms(1,2) by (simp add: wf_heap_def del: fun_upd_apply)
  moreover have n: "unat k + 8 < 2 ^ 64" "h_blocks h (r - 8) = Some (k + 8)" using o by (simp_all add: owned_def)
  ultimately have b: "unat b + unat j < 2 ^ 64" "apart b j (r - 8) (k + 8)" using ne by (auto simp: fresh_def)
  have "h_mem h' x = h_mem h x" if "in_range (r - 8) (unat k + 8) x" for x
    using apart_addr [of "r - 8" "k + 8" b j x] b that range(1) assms(3)
    by (simp add: apart_sym [of b] unat_add8 [OF n(1)] only_in_def)
  moreover have "in_range (r - 8) (unat k + 8) (r - 8 + of_nat i)" if "i < unat k + 8" for i
    using that range(1) by (simp add: in_range_def)
  ultimately have same: "h_mem h' (r - 8 + of_nat i) = h_mem h (r - 8 + of_nat i)" if "i < unat k + 8" for i
    using that by blast
  then have "read_bytes (h_mem h') (r - 8) 8 = read_bytes (h_mem h) (r - 8) 8"
    by (intro read_bytes_eqI) simp
  moreover have "read_bytes (h_mem h') r (unat k) = read_bytes (h_mem h) r (unat k)"
    using same [of "8 + _"] by (intro read_bytes_eqI) simp
  ultimately show "owned h' r k \<and> data_of h' r k = data_of h r k"
    using o ne assms(4) by (simp add: owned_def data_of_def)
qed

lemma wf_new:
  assumes "wf_heap h" "fresh (h_blocks h) q n" "h_blocks h' = (h_blocks h)(q := Some n)"
  shows "wf_heap h'"
  unfolding wf_heap_def assms(3)
proof (intro allI impI)
  fix b k assume b: "((h_blocks h)(q := Some n)) b = Some k"
  show "fresh ((h_blocks h)(q := Some n, b := None)) b k"
  proof (cases "b = q")
    case True
    then show ?thesis using b assms(2) by (simp add: fresh_def)
  next
    case False
    then have old: "h_blocks h b = Some k" using b by simp
    then have "fresh ((h_blocks h)(b := None)) b k" using assms(1) by (simp add: wf_heap_def del: fun_upd_apply)
    moreover have "apart b k q n" using assms(2) old apart_sym [of b k q n] by (simp add: fresh_def)
    ultimately show ?thesis using False by (simp add: fresh_def)
  qed
qed

lemma wf_release:
  assumes "wf_heap h" "h_blocks h' = (h_blocks h)(q := None)"
  shows "wf_heap h'"
  using assms by (auto simp: wf_heap_def fresh_def)

lemma wf_same: "wf_heap h \<Longrightarrow> h_blocks h' = h_blocks h \<Longrightarrow> wf_heap h'"
  by (simp add: wf_heap_def)

lemma block_store_eq:
  "h_blocks h b = Some k \<Longrightarrow> i + length bs \<le> unat k \<Longrightarrow>
   block_store b i bs h = Some (h\<lparr>h_mem := write_bytes (h_mem h) (b + of_nat i) bs\<rparr>)"
  by (simp add: block_store_def)

lemma block_load_eq:
  "h_blocks h b = Some k \<Longrightarrow> i + n \<le> unat k \<Longrightarrow> block_load b i n h = Some (read_bytes (h_mem h) (b + of_nat i) n)"
  by (simp add: block_load_def)

lemma write_inside:
  assumes "unat b + k < 2 ^ 64" "i + length bs \<le> k"
  shows "only_in (in_range b k) m (write_bytes m (b + of_nat i) bs)"
proof (rule only_in_mono [OF write_bytes_only_in])
  fix x assume x: "in_range (b + of_nat i) (length bs) x"
  have "x - b = (x - (b + of_nat i)) + of_nat i" by simp
  then have "unat (x - b) = unat ((x - (b + of_nat i)) + of_nat i)" by (rule arg_cong)
  moreover have "unat (x - (b + of_nat i)) + i < 2 ^ 64" "unat (of_nat i :: u64) = i" using x assms by (auto simp: in_range_def)
  ultimately have "unat (x - b) = unat (x - (b + of_nat i)) + i" using unat_word_ariths(1) [of "x - (b + of_nat i)" "of_nat i :: u64"] by simp
  then show "in_range b k x" using x assms(2) by (simp add: in_range_def)
qed

section \<open>Free\<close>

lemma free_wipes:
  assumes "owned h p n" "wf_heap h"
  obtains h' where "OPENSSL_free p h = Some h'" "wf_heap h'" "h_blocks h' = (h_blocks h)(p - 8 := None)"
    "read_bytes (h_mem h') (p - 8) (unat n + 8) = replicate (unat n + 8) 0"
    "only_in (in_range (p - 8) (unat n + 8)) (h_mem h) (h_mem h')"
proof
  let ?m = "write_bytes (h_mem h) (p - 8) (replicate (unat n + 8) 0)"
  let ?h = "h\<lparr>h_mem := ?m, h_blocks := (h_blocks h)(p - 8 := None)\<rparr>"
  note range = owned_range [OF assms]
  have n: "unat (n + 8) = unat n + 8" "h_blocks h (p - 8) = Some (n + 8)" "p \<noteq> 0"
    "bytes_to_word (read_bytes (h_mem h) (p - 8) 8) = n"
    using assms(1) by (simp_all add: owned_def unat_add8)
  then show "OPENSSL_free p h = Some ?h"
    using range(2) by (simp add: OPENSSL_free_def OPENSSL_MALLOC_PREFIX_def Let_def block_load_eq OPENSSL_cleanse_def
        block_store_eq c_free_def)
  show "wf_heap ?h" by (rule wf_release [OF assms(2)]) simp
  show "read_bytes (h_mem ?h) (p - 8) (unat n + 8) = replicate (unat n + 8) 0"
    using read_write_bytes_same [of "replicate (unat n + 8) (0 :: u8)" "h_mem h" "p - 8"] range(1) by simp
  show "only_in (in_range (p - 8) (unat n + 8)) (h_mem h) (h_mem ?h)"
    using write_bytes_only_in [of "p - 8" "replicate (unat n + 8) 0" "h_mem h"] by simp
qed simp

lemma free_keeps:
  assumes "owned h p n" "wf_heap h" "OPENSSL_free p h = Some h'"
  shows "others_kept p h h'"
proof -
  obtain h1 where h1: "OPENSSL_free p h = Some h1" "h_blocks h1 = (h_blocks h)(p - 8 := None)"
    "only_in (in_range (p - 8) (unat n + 8)) (h_mem h) (h_mem h1)"
    using free_wipes [OF assms(1,2)] by metis
  have "h_blocks h (p - 8) = Some (n + 8)" "unat (n + 8) = unat n + 8" using assms(1) by (simp_all add: owned_def unat_add8)
  with change_inside [OF assms(2), of "p - 8" "n + 8" h1] h1 assms(3) show ?thesis by simp
qed

section \<open>Filling a block\<close>

lemma read_beside:
  assumes "unat b + j + length bs < 2 ^ 64"
  shows "read_bytes (write_bytes m (b + of_nat j) bs) b j = read_bytes m b j"
proof (rule read_bytes_eqI)
  fix i assume i: "i < j"
  have "b + of_nat i - (b + of_nat j) = of_nat i - of_nat j" by simp
  moreover have "unat (of_nat i - of_nat j :: u64) = 2 ^ 64 + i - j"
    using i assms unat_sub_if' [of "of_nat i :: u64" "of_nat j"] by simp
  ultimately have "unat (b + of_nat i - (b + of_nat j)) = 2 ^ 64 + i - j" by simp
  moreover have "\<not> 2 ^ 64 + i - j < length bs" "length bs \<le> 2 ^ 64" using i assms by simp_all
  ultimately show "write_bytes m (b + of_nat j) bs (b + of_nat i) = m (b + of_nat i)"
    by (simp only: write_bytes_get if_False)
qed

lemma fill_block:
  assumes "owned h p n" "wf_heap h" "i + length bs \<le> unat n"
  obtains h' where "block_store (p - 8) (8 + i) bs h = Some h'" "owned h' p n" "wf_heap h'"
    "h_blocks h' = h_blocks h" "h_mem h' = write_bytes (h_mem h) (p + of_nat i) bs" "others_kept p h h'"
proof
  let ?h = "h\<lparr>h_mem := write_bytes (h_mem h) (p + of_nat i) bs\<rparr>"
  note range = owned_range [OF assms(1,2)]
  have n: "unat (n + 8) = unat n + 8" "h_blocks h (p - 8) = Some (n + 8)" "unat n + 8 < 2 ^ 64"
    using assms(1) by (simp_all add: owned_def unat_add8)
  then show "block_store (p - 8) (8 + i) bs h = Some ?h" using assms(3) by (simp add: block_store_eq)
  have "read_bytes (h_mem ?h) (p - 8) 8 = read_bytes (h_mem h) (p - 8) 8"
  proof -
    have "read_bytes (h_mem ?h) (p - 8) (8 + i) = read_bytes (h_mem h) (p - 8) (8 + i)"
      using read_beside [of "p - 8" "8 + i" bs "h_mem h"] range(1) assms(3) by simp
    then show ?thesis by (simp add: read_bytes_append)
  qed
  then show "owned ?h p n" using assms(1) by (simp add: owned_def)
  show "wf_heap ?h" by (rule wf_same [OF assms(2)]) simp
  show "others_kept p h ?h"
    using change_inside [OF assms(2) n(2), of ?h] write_inside [of "p - 8" "unat n + 8" "8 + i" bs "h_mem h"] range(1) assms(3)
    by (simp add: n(1))
qed simp_all

lemma take_read_bytes [simp]: "take j (read_bytes m a n) = read_bytes m a (min j n)"
  by (rule nth_equalityI) auto

lemma others_keptD: "others_kept p h h' \<Longrightarrow> r \<noteq> p \<Longrightarrow> owned h r k \<Longrightarrow> owned h' r k \<and> data_of h' r k = data_of h r k"
  by (simp add: others_kept_def)

lemma not_owned: "h_blocks h (p - 8) = None \<Longrightarrow> \<not> owned h p k"
  by (simp add: owned_def)

text \<open>Data anywhere in live blocks, which a new block does not touch.\<close>

definition held :: "heap \<Rightarrow> addr \<Rightarrow> nat \<Rightarrow> bool" where
  "held h a n \<longleftrightarrow> (\<forall>i<n. \<exists>b k. h_blocks h b = Some k \<and> in_range b (unat k) (a + of_nat i))"

lemma held_unchanged:
  assumes "wf_heap h" "held h a n" "fresh (h_blocks h) q k" "only_in (in_range q (unat k)) (h_mem h) m"
  shows "read_bytes m a n = read_bytes (h_mem h) a n"
proof (rule read_bytes_eqI)
  fix i assume "i < n"
  then obtain b j where b: "h_blocks h b = Some j" "in_range b (unat j) (a + of_nat i)" using assms(2) by (auto simp: held_def)
  then have "unat b + unat j < 2 ^ 64" using assms(1) by (simp add: wf_heap_def fresh_def)
  moreover have "apart q k b j" "unat q + unat k < 2 ^ 64" using assms(3) b(1) by (simp_all add: fresh_def)
  ultimately have "\<not> in_range q (unat k) (a + of_nat i)" using apart_addr [of b j q k] b(2) by (simp add: apart_sym)
  then show "m (a + of_nat i) = h_mem h (a + of_nat i)" using assms(4) by (simp add: only_in_def)
qed

section \<open>Strings\<close>

definition c_string :: "mem \<Rightarrow> addr \<Rightarrow> u8 list \<Rightarrow> bool" where
  "c_string m s bs \<longleftrightarrow> length bs < 2 ^ 64 \<and> read_bytes m s (length bs + 1) = bs @ [0] \<and> 0 \<notin> set bs"

lemma c_string_Nil [simp]: "c_string m s [] \<longleftrightarrow> m s = 0"
  by (simp add: c_string_def read_bytes_Suc)

lemma c_string_Cons: "c_string m s (b # bs) \<longleftrightarrow> length bs + 1 < 2 ^ 64 \<and> m s = b \<and> b \<noteq> 0 \<and> c_string m (s + 1) bs"
  by (auto simp: c_string_def read_bytes_Suc [of m s "Suc (length bs)"])

lemma c_string_cong:
  "(\<And>i. i \<le> length bs \<Longrightarrow> m' (s + of_nat i) = m (s + of_nat i)) \<Longrightarrow> c_string m' s bs \<longleftrightarrow> c_string m s bs"
  using read_bytes_eqI [of "length bs + 1" m' s m] by (simp add: c_string_def)

lemma strlen_string: "c_string m s bs \<Longrightarrow> c_strlen m s n = Some (n + of_nat (length bs))"
  by (induction bs arbitrary: s n) (simp_all add: c_strlen.simps c_string_Cons)

lemma strnlen_spec:
  "unat i + n < 2 ^ 64 \<Longrightarrow>
   strnlen_loop m s n i = i + of_nat (length (takeWhile (\<lambda>b. b \<noteq> 0) (read_bytes m (s + i) n)))"
proof (induction n arbitrary: i)
  case (Suc n)
  have "unat (i + 1) = unat i + 1" using Suc.prems by (simp add: unat_word_ariths)
  then show ?case using Suc by (simp add: read_bytes_Suc ac_simps)
qed simp

lemma strnlen_length: "OPENSSL_strnlen m s n = of_nat (length (takeWhile (\<lambda>b. b \<noteq> 0) (read_bytes m s (unat n))))"
  using strnlen_spec [of 0 "unat n" m s] by (simp add: OPENSSL_strnlen_def)

text \<open>The copy stops at the size of the destination, but the length returned is that of the source.\<close>

lemma strlcpy_string:
  assumes "c_string m src bs" "\<And>i. i \<le> length bs \<Longrightarrow> \<not> in_range dst n (src + of_nat i)" "n < 2 ^ 64"
  shows "\<exists>dst' src' n' l' k. strlcpy_loop n m dst src l = (write_bytes m dst (take (n - 1) bs), dst', src', n', l') \<and>
    (0 < n \<longleftrightarrow> 0 < n') \<and> dst' = dst + of_nat (min (n - 1) (length bs)) \<and>
    c_strlen ((if n' \<noteq> 0 then (write_bytes m dst (take (n - 1) bs))(dst' := 0) else write_bytes m dst (take (n - 1) bs)))
      src' 0 = Some k \<and> l' + k = l + of_nat (length bs)"
  using assms
proof (induction n m dst src l arbitrary: bs rule: strlcpy_loop.induct)
  case (1 m dst src l)
  then show ?case by (simp add: strlen_string)
next
  case (2 n m dst src l)
  show ?case
  proof (cases "0 < n \<and> m src \<noteq> 0")
    case False
    have "c_string (m(dst := 0)) src bs"
    proof (subst c_string_cong)
      show "(m(dst := 0)) (src + of_nat i) = m (src + of_nat i)" if "i \<le> length bs" for i
        using 2(3) [OF that] by (auto simp: in_range_def)
    qed (rule 2(2))
    from strlen_string [OF this, of 0] have "c_strlen (m(dst := 0)) src 0 = Some (of_nat (length bs))" by simp
    moreover have "n = 0 \<or> bs = []" using False 2(2) by (cases bs) (auto simp: c_string_Cons)
    ultimately show ?thesis using False by auto
  next
    case True
    then obtain b bs' where bs: "bs = b # bs'" "m src = b" "c_string m (src + 1) bs'"
      using 2(2) by (cases bs) (auto simp: c_string_Cons)
    have off: "\<not> in_range (dst + 1) n (src + 1 + of_nat i)" "src + 1 + of_nat i \<noteq> dst" if i: "i \<le> length bs'" for i
    proof -
      have "\<not> in_range dst (Suc n) (src + of_nat (Suc i))" using 2(3) [of "Suc i"] i bs(1) by simp
      moreover have "src + of_nat (Suc i) = src + 1 + of_nat i" by (simp add: algebra_simps)
      ultimately have r: "\<not> unat (src + 1 + of_nat i - dst) < Suc n" by (simp only: in_range_def not_False_eq_True)
      then show ne: "src + 1 + of_nat i \<noteq> dst" by auto
      show "\<not> in_range (dst + 1) n (src + 1 + of_nat i)" using r unat_sub_Suc [OF ne] by (simp add: in_range_def)
    qed
    define m1 where "m1 = m(dst := m src)"
    have c: "c_string (m(dst := m src)) (src + 1) bs'"
      by (subst c_string_cong [where m = m]) (use off(2) bs(3) in simp_all)
    have "Suc n > 1 \<and> m src \<noteq> 0" "n < 2 ^ 64" using True 2(4) by simp_all
    from 2(1) [OF this(1) c off(1) this(2), folded m1_def] obtain dst' src' n' l' k where
      ih: "strlcpy_loop n m1 (dst + 1) (src + 1) (l + 1) = (write_bytes m1 (dst + 1) (take (n - 1) bs'), dst', src', n', l')"
        "0 < n \<longleftrightarrow> 0 < n'" "dst' = dst + 1 + of_nat (min (n - 1) (length bs'))"
        "c_strlen (if n' \<noteq> 0 then (write_bytes m1 (dst + 1) (take (n - 1) bs'))(dst' := 0)
           else write_bytes m1 (dst + 1) (take (n - 1) bs')) src' 0 = Some k"
        "l' + k = l + 1 + of_nat (length bs')" by blast
    have w: "write_bytes m1 (dst + 1) (take (n - 1) bs') = write_bytes m dst (take n bs)"
      using True bs by (cases n) (simp_all add: m1_def)
    have loop: "strlcpy_loop (Suc n) m dst src l = strlcpy_loop n m1 (dst + 1) (src + 1) (l + 1)"
      using True by (simp add: m1_def)
    have "of_nat (min n (length bs)) = (1 + of_nat (min (n - 1) (length bs')) :: u64)"
      using True bs(1) by (cases n) simp_all
    then have "dst' = dst + of_nat (min (Suc n - 1) (length bs))" using ih(3) by (simp add: ac_simps)
    moreover have "l' + k = l + of_nat (length bs)" using ih(5) bs(1) by (simp add: ac_simps)
    ultimately show ?thesis using ih(1,2,4) True unfolding loop w by auto
  qed
qed

lemma strlcpy_spec:
  assumes "c_string m src bs" "\<And>i. i \<le> length bs \<Longrightarrow> \<not> in_range dst (unat n) (src + of_nat i)"
  shows "OPENSSL_strlcpy m dst src n =
     Some (of_nat (length bs), if n = 0 then m else write_bytes m dst (take (unat n - 1) bs @ [0]))"
proof -
  have snoc: "write_bytes m a (xs @ [y]) = (write_bytes m a xs)(a + of_nat (length xs) := y)" for m a xs y
    by (induction xs arbitrary: m a) (simp_all add: ac_simps)
  have "unat n < 2 ^ 64" by simp
  from strlcpy_string [OF assms this, of 0] show ?thesis
    by (auto simp: OPENSSL_strlcpy_def Let_def snoc min.commute unat_gt_0 unat_eq_0)
qed

text \<open>Comparison without regard to case returns on strings, and finds equality only up to case.\<close>

definition lower :: "u8 \<Rightarrow> int" where
  "lower b = OPENSSL_tolower (sint b)"

lemma lower_zero [simp]: "lower b = 0 \<longleftrightarrow> b = 0"
  using signed_eq_0_iff [of b] by (auto simp: lower_def OPENSSL_tolower_def)

lemma lower_0 [simp]: "lower 0 = 0"
  by simp

lemma casecmp_step_lower:
  "casecmp_step a b =
     (if lower a < lower b then Some (- 1) else if lower b < lower a then Some 1 else if a = 0 then Some 0 else None)"
proof -
  have "OPENSSL_tolower (sint a) = 0 \<longleftrightarrow> a = 0" using lower_zero [of a] by (simp only: lower_def)
  then show ?thesis by (simp only: casecmp_step_def lower_def Let_def)
qed

lemma strcasecmp_spec:
  assumes "c_string m a xs" "c_string m b ys"
  shows "\<exists>r. OPENSSL_strcasecmp m a b = Some r \<and> (r = 0 \<longleftrightarrow> map lower xs = map lower ys)"
  using assms
proof (induction xs arbitrary: a b ys)
  case Nil
  then show ?case
    using lower_zero [of 0] lower_zero [of "m b"] by (cases ys)
      (auto simp: OPENSSL_strcasecmp_def strcasecmp_loop.simps [of m a b] casecmp_step_lower c_string_Cons simp del: lower_zero)
next
  case (Cons x xs)
  show ?case
  proof (cases "lower (m a) = lower (m b)")
    case False
    have "lower x \<noteq> lower 0" using Cons.prems(1) by (simp add: c_string_Cons)
    then show ?thesis using False Cons.prems
      by (cases ys) (auto simp: OPENSSL_strcasecmp_def strcasecmp_loop.simps [of m a b] casecmp_step_lower c_string_Cons)
  next
    case True
    then obtain y ys' where ys: "ys = y # ys'" using Cons.prems lower_zero [of "m a"] lower_zero [of "m b"]
      by (cases ys) (auto simp: c_string_Cons simp del: lower_zero)
    then have "c_string m (a + 1) xs" "c_string m (b + 1) ys'" "m a = x" "m b = y" "x \<noteq> 0"
      using Cons.prems by (simp_all add: c_string_Cons)
    with Cons.IH [of "a + 1" "b + 1" ys'] True ys show ?thesis
      by (simp add: OPENSSL_strcasecmp_def strcasecmp_loop.simps [of m a b] casecmp_step_lower)
  qed
qed

lemma strncasecmp_spec:
  "strncasecmp_loop m a b n = 0 \<longleftrightarrow>
     map lower (takeWhile (\<lambda>c. c \<noteq> 0) (read_bytes m a n)) = map lower (takeWhile (\<lambda>c. c \<noteq> 0) (read_bytes m b n))"
proof (induction n arbitrary: a b)
  case (Suc n)
  have z: "lower 0 = 0" "m a = 0 \<longleftrightarrow> lower (m a) = 0" "m b = 0 \<longleftrightarrow> lower (m b) = 0" by simp_all
  then show ?case using Suc [of "a + 1" "b + 1"] by (auto simp: read_bytes_Suc casecmp_step_lower simp del: lower_zero)
qed simp

section \<open>Any allocator\<close>

text \<open>What the C standard promises of \<^verbatim>\<open>malloc\<close>: a new block is not NULL, does not wrap, and overlaps
  no live block.\<close>

locale allocator =
  fixes place :: placement
  assumes place_fresh: "place B n = Some q \<Longrightarrow> fresh B q n"
begin

lemma malloc_result:
  assumes "wf_heap h" "unat n + 8 < 2 ^ 64"
  obtains (failed) "OPENSSL_malloc place n h = Some (0, h)"
    | (block) p h' where "OPENSSL_malloc place n h = Some (p, h')" "owned h' p n" "wf_heap h'"
      "h_blocks h (p - 8) = None" "h_blocks h' = (h_blocks h)(p - 8 := Some (n + 8))" "others_kept p h h'"
      "fresh (h_blocks h) (p - 8) (n + 8)" "only_in (in_range (p - 8) 8) (h_mem h) (h_mem h')"
proof (cases "place (h_blocks h) (n + 8)")
  case None
  then show ?thesis using failed
    by (simp add: OPENSSL_malloc_def OPENSSL_MALLOC_PREFIX_def c_malloc_def c_realloc_def)
next
  case (Some q)
  note q = place_fresh [OF Some]
  have n: "unat (n + 8) = unat n + 8" using assms(2) by (rule unat_add8)
  let ?h1 = "h\<lparr>h_blocks := (h_blocks h)(q := Some (n + 8))\<rparr>"
  let ?h' = "?h1\<lparr>h_mem := write_bytes (h_mem h) q (word_to_bytes 8 n)\<rparr>"
  have wf: "wf_heap ?h1" by (rule wf_new [OF assms(1) q]) simp
  then have wf': "wf_heap ?h'" by (rule wf_same) simp
  have range: "unat q + (unat n + 8) < 2 ^ 64" "q \<noteq> 0" "h_blocks h q = None" using q n by (simp_all add: fresh_def)
  have p: "q + 8 \<noteq> 0"
  proof
    assume "q + 8 = 0"
    then have "unat (q + 8) = 0" by simp
    then show False using unat_add8 [of q] range(1) by simp
  qed
  have "OPENSSL_malloc place n h = Some (q + 8, ?h')"
    using Some range(2) n
    by (simp add: OPENSSL_malloc_def OPENSSL_MALLOC_PREFIX_def c_malloc_def c_realloc_def block_store_eq)
  moreover have "owned ?h' (q + 8) n"
    using assms(2) p read_write_bytes_same [of "word_to_bytes 8 n" "h_mem h" q]
    by (simp add: owned_def bytes_to_word_to_bytes)
  moreover have "others_kept (q + 8) h ?h'"
  proof (rule others_kept_trans)
    have "(h_blocks h) (r - 8) = Some k \<Longrightarrow> r - 8 \<noteq> q" for r k using range(3) by auto
    then show "others_kept (q + 8) h ?h1" by (simp add: others_kept_def owned_def data_of_def)
    show "others_kept (q + 8) ?h1 ?h'"
      by (rule change_inside [OF wf, of q "n + 8"])
        (use write_inside [of q "unat n + 8" 0 "word_to_bytes 8 n" "h_mem h"] range(1) n in simp_all)
  qed simp
  moreover have "only_in (in_range q 8) (h_mem h) (h_mem ?h')"
    using write_bytes_only_in [of q "word_to_bytes 8 n" "h_mem h"] by simp
  ultimately show ?thesis using block [of "q + 8" ?h'] wf' range(3) q by simp
qed

lemma realloc_result:
  assumes "owned h p n" "wf_heap h" "unat k + 8 < 2 ^ 64"
  obtains (failed) "OPENSSL_realloc place p k h = Some (0, h)"
    | (moved) q h' where "OPENSSL_realloc place p k h = Some (q, h')" "owned h' q k" "wf_heap h'"
      "take (unat n) (data_of h' q k) = take (unat k) (data_of h p n)"
      "h_blocks h' (p - 8) = None" "read_bytes (h_mem h') (p - 8) (unat n + 8) = replicate (unat n + 8) 0"
      "others_kept p h h'"
proof -
  have n: "unat (n + 8) = unat n + 8" "h_blocks h (p - 8) = Some (n + 8)" "p \<noteq> 0"
    "bytes_to_word (read_bytes (h_mem h) (p - 8) 8) = n"
    using assms(1) by (simp_all add: owned_def unat_add8)
  define c where "c = (if n < k then n else k)"
  have c: "unat c = min (unat n) (unat k)" by (auto simp: c_def word_less_nat_alt min_def)
  show ?thesis
  proof (cases rule: malloc_result [OF assms(2,3)])
    case 1
    then show ?thesis using failed n
      by (simp add: OPENSSL_realloc_def OPENSSL_MALLOC_PREFIX_def Let_def block_load_eq)
  next
    case (2 q h1)
    have q: "q \<noteq> 0" "q \<noteq> p" using 2(2,4) n(2) by (auto simp: owned_def)
    have p1: "owned h1 p n" "data_of h1 p n = data_of h p n" using others_keptD [OF 2(6) q(2) [symmetric] assms(1)] by simp_all
    let ?bs = "take (unat c) (data_of h p n)"
    have "block_load (p - 8) 8 (unat c) h1 = Some (take (unat c) (data_of h1 p n))"
      using p1(1) c by (simp add: owned_def block_load_eq n(1) data_of_def min_absorb1)
    then have load: "block_load (p - 8) 8 (unat c) h1 = Some ?bs" by (simp only: p1(2))
    have "0 + length ?bs \<le> unat k" by (simp add: c data_of_def)
    from fill_block [OF 2(2,3) this] obtain h2 where
      h2: "block_store (q - 8) 8 ?bs h1 = Some h2" "owned h2 q k" "wf_heap h2" "others_kept q h1 h2"
        "h_mem h2 = write_bytes (h_mem h1) q ?bs" by auto
    have p2: "owned h2 p n" using others_keptD [OF h2(4) q(2) [symmetric] p1(1)] by simp
    from free_wipes [OF p2 h2(3)] obtain h3 where
      h3: "OPENSSL_free p h2 = Some h3" "wf_heap h3" "h_blocks h3 = (h_blocks h2)(p - 8 := None)"
        "read_bytes (h_mem h3) (p - 8) (unat n + 8) = replicate (unat n + 8) 0" by metis
    note k3 = free_keeps [OF p2 h2(3) h3(1)]
    have q3: "owned h3 q k" "data_of h3 q k = data_of h2 q k" using others_keptD [OF k3 q(2) h2(2)] by simp_all
    have "take (unat n) (data_of h2 q k) = take (unat k) (data_of h p n)"
    proof -
      have l: "length ?bs = min (unat n) (unat k)" "length ?bs \<le> unat k" by (simp_all add: c data_of_def)
      have "length ?bs \<le> 18446744073709551616" using l(2) u64_less [of k] by linarith
      then have "read_bytes (h_mem h2) q (length ?bs) = ?bs"
        unfolding h2(5) by (intro read_write_bytes_same) simp
      moreover have "take (unat n) (data_of h2 q k) = read_bytes (h_mem h2) q (length ?bs)"
        by (simp add: data_of_def l(1) c min.commute)
      moreover have "?bs = take (unat k) (data_of h p n)" by (simp add: c data_of_def ac_simps)
      ultimately show ?thesis by simp
    qed
    moreover have "OPENSSL_realloc place p k h = Some (q, h3)"
      using n q load h2(1) h3(1) 2(1)
      by (simp add: OPENSSL_realloc_def OPENSSL_MALLOC_PREFIX_def Let_def block_load_eq c_def cong: if_cong split del: if_split)
    moreover have "others_kept p h h3"
      unfolding others_kept_def
    proof (intro allI impI, elim conjE)
      fix r j assume r: "r \<noteq> p" "owned h r j"
      then have "r \<noteq> q" using 2(4) not_owned by blast
      note r1 = others_keptD [OF 2(6) this r(2)]
      note r2 = others_keptD [OF h2(4) \<open>r \<noteq> q\<close> conjunct1 [OF r1]]
      show "owned h3 r j \<and> data_of h3 r j = data_of h r j"
        using others_keptD [OF k3 r(1) conjunct1 [OF r2]] r1 r2 by simp
    qed
    ultimately show ?thesis using moved [of q h3] q3 h3 by simp
  qed
qed

text \<open>The copies.\<close>

lemma copy_result:
  assumes "wf_heap h" "unat n + 8 < 2 ^ 64" "held h a k" "k \<le> unat n"
  obtains (failed) "OPENSSL_malloc place n h = Some (0, h)"
    | (copied) p h1 h2 where "OPENSSL_malloc place n h = Some (p, h1)" "p \<noteq> 0"
      "block_store (p - 8) 8 (read_bytes (h_mem h1) a k) h1 = Some h2" "owned h2 p n" "wf_heap h2"
      "h_mem h2 = write_bytes (h_mem h1) p (read_bytes (h_mem h) a k)" "others_kept p h h2" "h_blocks h (p - 8) = None"
      "h_blocks h2 = (h_blocks h)(p - 8 := Some (n + 8))" "only_in (in_range (p - 8) (unat n + 8)) (h_mem h) (h_mem h2)"
proof (cases rule: malloc_result [OF assms(1,2)])
  case 1
  then show ?thesis by (rule failed)
next
  case (2 p h1)
  have n: "unat (n + 8) = unat n + 8" using assms(2) by (rule unat_add8)
  have "only_in (in_range (p - 8) (unat (n + 8))) (h_mem h) (h_mem h1)"
    by (rule only_in_mono [OF 2(8)]) (simp add: in_range_def n)
  then have same: "read_bytes (h_mem h1) a k = read_bytes (h_mem h) a k" by (rule held_unchanged [OF assms(1,3) 2(7)])
  have "0 + length (read_bytes (h_mem h1) a k) \<le> unat n" using assms(4) by simp
  from fill_block [OF 2(2,3) this] obtain h2 where
    h2: "block_store (p - 8) 8 (read_bytes (h_mem h1) a k) h1 = Some h2" "owned h2 p n" "wf_heap h2"
      "h_mem h2 = write_bytes (h_mem h1) p (read_bytes (h_mem h1) a k)" "others_kept p h1 h2" "h_blocks h2 = h_blocks h1" by auto
  have "only_in (in_range (p - 8) (unat n + 8)) (h_mem h1) (h_mem h2)"
    using write_inside [of "p - 8" "unat n + 8" 8 "read_bytes (h_mem h1) a k" "h_mem h1"] owned_range [OF 2(2,3)] assms(4) h2(4)
    by simp
  moreover have "only_in (in_range (p - 8) (unat n + 8)) (h_mem h) (h_mem h1)"
    by (rule only_in_mono [OF 2(8)]) (simp add: in_range_def)
  ultimately have inside: "only_in (in_range (p - 8) (unat n + 8)) (h_mem h) (h_mem h2)" by (blast intro: only_in_trans)
  have "others_kept p h h2" by (rule others_kept_trans [OF 2(6) h2(5)]) simp
  moreover have "p \<noteq> 0" using 2(2) by (simp add: owned_def)
  ultimately show ?thesis using copied [OF 2(1) _ h2(1,2,3)] h2(4,6) 2(4,5) same inside by simp
qed

lemma memdup_result:
  assumes "wf_heap h" "n \<noteq> 0" "unat n + 8 < 2 ^ 64" "held h a (unat n)"
  obtains (failed) "OPENSSL_memdup place a n h = Some (0, h)"
    | (dup) p h' where "OPENSSL_memdup place a n h = Some (p, h')" "owned h' p n" "wf_heap h'"
      "data_of h' p n = read_bytes (h_mem h) a (unat n)" "others_kept p h h'" "h_blocks h (p - 8) = None"
      "h_blocks h' = (h_blocks h)(p - 8 := Some (n + 8))" "only_in (in_range (p - 8) (unat n + 8)) (h_mem h) (h_mem h')"
proof (cases rule: copy_result [OF assms(1,3,4) order_refl])
  case 1
  then show ?thesis using failed assms(2) by (simp add: OPENSSL_memdup_def)
next
  case (2 p h1 h2)
  have "data_of h2 p n = read_bytes (h_mem h) a (unat n)"
    using read_write_bytes_same [of "read_bytes (h_mem h) a (unat n)" "h_mem h1" p] 2(6) by (simp add: data_of_def less_imp_le)
  then show ?thesis using dup [of p h2] 2 assms(2) by (simp add: OPENSSL_memdup_def OPENSSL_MALLOC_PREFIX_def)
qed

lemma strdup_result:
  assumes "wf_heap h" "s \<noteq> 0" "c_string (h_mem h) s bs" "held h s (length bs + 1)" "length bs + 9 < 2 ^ 64"
  obtains (failed) "OPENSSL_strdup place s h = Some (0, h)"
    | (dup) p h' where "OPENSSL_strdup place s h = Some (p, h')" "owned h' p (of_nat (length bs + 1))" "wf_heap h'"
      "data_of h' p (of_nat (length bs + 1)) = bs @ [0]" "others_kept p h h'"
proof -
  let ?n = "of_nat (length bs + 1) :: u64"
  have n: "unat ?n = length bs + 1" "of_nat (length bs) + 1 = ?n" using assms(5) by (simp_all add: unat_word_ariths)
  then have a: "unat ?n + 8 < 2 ^ 64" "held h s (unat ?n)" using assms(4,5) by (simp_all del: of_nat_add of_nat_Suc)
  have len: "c_strlen (h_mem h) s 0 = Some (of_nat (length bs))" using strlen_string [OF assms(3)] by simp
  show ?thesis
  proof (cases rule: copy_result [OF assms(1) a order_refl])
    case 1
    then show ?thesis using failed assms(2) n(2) by (simp add: OPENSSL_strdup_def len del: of_nat_add of_nat_Suc)
  next
    case (2 p h1 h2)
    have "data_of h2 p ?n = bs @ [0]"
      using read_write_bytes_same [of "read_bytes (h_mem h) s (length bs + 1)" "h_mem h1" p] 2(6) assms(3,5) n(1)
      by (simp add: data_of_def c_string_def del: of_nat_add of_nat_Suc)
    then show ?thesis using dup [of p h2] 2 assms(2) n(2)
      by (simp add: OPENSSL_strdup_def len OPENSSL_MALLOC_PREFIX_def del: of_nat_add of_nat_Suc)
  qed
qed

lemma strndup_result:
  assumes "wf_heap h" "s \<noteq> 0" "held h s (unat n)"
    and "bs = takeWhile (\<lambda>b. b \<noteq> 0) (read_bytes (h_mem h) s (unat n))" "length bs + 9 < 2 ^ 64"
  obtains (failed) "OPENSSL_strndup place s n h = Some (0, h)"
    | (dup) p h' where "OPENSSL_strndup place s n h = Some (p, h')" "owned h' p (of_nat (length bs + 1))" "wf_heap h'"
      "data_of h' p (of_nat (length bs + 1)) = bs @ [0]" "others_kept p h h'" "h_blocks h (p - 8) = None"
proof -
  let ?n = "of_nat (length bs) :: u64"
  have l: "length bs \<le> unat n" using length_takeWhile_le [of _ "read_bytes (h_mem h) s (unat n)"] assms(4) by simp
  have bs: "bs = read_bytes (h_mem h) s (length bs)"
    using takeWhile_eq_take [of "\<lambda>b. b \<noteq> 0" "read_bytes (h_mem h) s (unat n)"] l unfolding assms(4) [symmetric]
    by (simp add: min_absorb1)
  have len: "OPENSSL_strnlen (h_mem h) s n = ?n" by (simp add: strnlen_length assms(4))
  have n: "unat (?n + 1) = length bs + 1" "unat ?n = length bs" "\<not> ?n + 1 < ?n"
    using assms(5) by (simp_all add: unat_word_ariths word_less_nat_alt)
  have a: "unat (?n + 1) + 8 < 2 ^ 64" "held h s (length bs)" "length bs \<le> unat (?n + 1)"
    using assms(3,5) l n(1) by (simp_all add: held_def)
  show ?thesis
  proof (cases rule: copy_result [OF assms(1) a])
    case 1
    then show ?thesis using failed assms(2) n(3) by (simp add: OPENSSL_strndup_def len Let_def)
  next
    case (2 p h1 h2)
    have "length bs + length [0 :: u8] \<le> unat (?n + 1)" using n(1) by simp
    from fill_block [OF 2(4,5) this] obtain h3 where
      h3: "block_store (p - 8) (8 + length bs) [0] h2 = Some h3" "owned h3 p (?n + 1)" "wf_heap h3"
        "h_mem h3 = write_bytes (h_mem h2) (p + ?n) [0]" "others_kept p h2 h3" by metis
    have data: "data_of h3 p (?n + 1) = bs @ [0]"
    proof -
      have w: "h_mem h3 = write_bytes (h_mem h1) p (bs @ [0])"
      proof -
        have "write_bytes m a (xs @ [y]) = write_bytes (write_bytes m a xs) (a + of_nat (length xs)) [y]" for m a xs y
          by (induction xs arbitrary: m a) (simp_all add: ac_simps)
        then show ?thesis using h3(4) 2(6) bs by simp
      qed
      show ?thesis using read_write_bytes_same [of "bs @ [0]" "h_mem h1" p] assms(5) n(1) by (simp add: data_of_def w)
    qed
    have "others_kept p h h3" by (rule others_kept_trans [OF 2(7) h3(5)]) simp
    moreover have "OPENSSL_strndup place s n h = Some (p, h3)"
      using 2(1,2,3) h3(1) assms(2) n(2,3) by (simp add: OPENSSL_strndup_def len Let_def OPENSSL_MALLOC_PREFIX_def)
    ultimately show ?thesis using dup [of p h3] h3(2,3) data 2(8) by (simp add: add.commute)
  qed
qed

end

text \<open>First fit over page starts.\<close>

definition first_fit :: "nat \<Rightarrow> placement" where
  "first_fit pages B n = find (\<lambda>q. fresh B q n) (map (\<lambda>i. of_nat (4096 * Suc i)) [0..<pages])"

interpretation ff: allocator "first_fit pages" for pages
  by unfold_locales (auto simp: first_fit_def find_Some_iff)

section \<open>What the functions promise\<close>

text \<open>C28. \<^verbatim>\<open>OPENSSL_realloc\<close> over any allocator that keeps to the C standard: it fails and leaves
  everything as it was, or it returns a new block with the first bytes of the old one, as many as fit in
  both, leaves no byte of the old block but zeros behind, gives it back, and touches no other block.  It never
  accesses memory outside a live block.\<close>

theorem realloc_moves:
  assumes "allocator place" "owned h p n" "wf_heap h" "unat k + 8 < 2 ^ 64"
  shows "OPENSSL_realloc place p k h = Some (0, h) \<or>
    (\<exists>q h'. OPENSSL_realloc place p k h = Some (q, h') \<and> owned h' q k \<and> wf_heap h' \<and>
       take (unat n) (data_of h' q k) = take (unat k) (data_of h p n) \<and>
       h_blocks h' (p - 8) = None \<and> read_bytes (h_mem h') (p - 8) (unat n + 8) = replicate (unat n + 8) 0 \<and>
       others_kept p h h')"
  by (cases rule: allocator.realloc_result [OF assms]) auto

text \<open>A heap with one block of eight bytes.\<close>

definition example_block :: heap where
  "example_block =
     \<lparr>h_mem = (\<lambda>a. if a = 4096 then 8 else if a < 4104 then 0 else 7), h_blocks = (\<lambda>_. None)(4096 := Some 16)\<rparr>"

lemma example_block_ok: "owned example_block 4104 8" "wf_heap example_block"
proof -
  have "read_bytes (h_mem example_block) 4096 8 = [8, 0, 0, 0, 0, 0, 0, 0]" by code_simp
  then show "owned example_block 4104 8" by (simp add: owned_def example_block_def)
  show "wf_heap example_block" by (simp add: wf_heap_def fresh_def example_block_def)
qed

theorem realloc_moves_witness:
  "OPENSSL_realloc (first_fit 2) 4104 4 example_block = Some (0, example_block) \<or>
    (\<exists>q h'. OPENSSL_realloc (first_fit 2) 4104 4 example_block = Some (q, h') \<and> owned h' q 4 \<and> wf_heap h' \<and>
       take 8 (data_of h' q 4) = [7, 7, 7, 7] \<and>
       h_blocks h' 4096 = None \<and> read_bytes (h_mem h') 4096 16 = replicate 16 0 \<and> others_kept 4104 example_block h')"
proof -
  have "take 4 (data_of example_block 4104 8) = [7, 7, 7, 7]"
    by (simp add: data_of_def example_block_def read_bytes_def upt_rec)
  with realloc_moves [OF ff.allocator_axioms example_block_ok, of 4 2] show ?thesis by simp
qed

text \<open>C29. \<^verbatim>\<open>OPENSSL_malloc\<close> does not check that the size with its prefix fits in a \<^verbatim>\<open>size_t\<close>: for
  the eight largest sizes the request wraps to fewer than eight bytes, and when the allocator grants it, storing the
  size leaves the block.\<close>

theorem malloc_wraps:
  assumes "2 ^ 64 - 8 \<le> unat n" "place (h_blocks h) (n + 8) = Some q" "q \<noteq> 0"
  shows "unat (n + OPENSSL_MALLOC_PREFIX) < 8 \<and> OPENSSL_malloc place n h = None"
proof -
  have "unat (n + 8) = unat n + 8 - 2 ^ 64" using assms(1) unat_plus_if' [of n 8] by simp
  moreover have "unat n < 2 ^ 64" by simp
  ultimately have "unat (n + 8) < 8" by arith
  then show ?thesis using assms(2,3)
    by (simp add: OPENSSL_malloc_def OPENSSL_MALLOC_PREFIX_def c_malloc_def c_realloc_def block_store_def)
qed

theorem malloc_wraps_witness:
  "unat (0xffffffffffffffff + OPENSSL_MALLOC_PREFIX) < 8 \<and> OPENSSL_malloc (first_fit 2) 0xffffffffffffffff example_block = None"
proof (rule malloc_wraps)
  have w: "(0xffffffffffffffff + 8 :: u64) = 7" by code_simp
  have "fresh (h_blocks example_block) 8192 7" "\<not> fresh (h_blocks example_block) 4096 7"
    by (simp_all add: fresh_def apart_def example_block_def)
  then show "first_fit 2 (h_blocks example_block) (0xffffffffffffffff + 8) = Some 8192"
    unfolding w by (simp add: first_fit_def upt_rec)
qed simp_all

end
