(* ===== verification/Cbs_Copy.thy ===== *)
theory Cbs_Copy
  imports Cbs Openssl_Mem
begin

text \<open>
  The readers of \<^verbatim>\<open>crypto/bytestring/cbs.c\<close> that copy into allocated memory, \<^verbatim>\<open>CBS_stow\<close>
  and \<^verbatim>\<open>CBS_strdup\<close>, over the allocation functions of \<open>Openssl_Mem\<close>.  The out parameters are passed in
  and returned.
\<close>

definition CBS_stow :: "placement \<Rightarrow> cbs \<Rightarrow> addr \<Rightarrow> heap \<Rightarrow> (bool \<times> addr \<times> u64 \<times> heap) option" where
  "CBS_stow place c out_ptr h =
     do {
       h \<leftarrow> OPENSSL_free out_ptr h;
       if cbs_len c = 0 then Some (True, 0, 0, h)
       else do {
         (out_ptr, h) \<leftarrow> OPENSSL_memdup place (cbs_data c) (cbs_len c) h;
         if out_ptr = 0 then Some (False, out_ptr, 0, h) else Some (True, out_ptr, cbs_len c, h)
       }
     }"

definition CBS_strdup :: "placement \<Rightarrow> cbs \<Rightarrow> addr \<Rightarrow> heap \<Rightarrow> (bool \<times> addr \<times> heap) option" where
  "CBS_strdup place c out_ptr h =
     do {
       h \<leftarrow> (if out_ptr \<noteq> 0 then OPENSSL_free out_ptr h else Some h);
       (out_ptr, h) \<leftarrow> OPENSSL_strndup place (cbs_data c) (cbs_len c) h;
       Some (out_ptr \<noteq> 0, out_ptr, h)
     }"

text \<open>The reader's bytes lie in live blocks other than the one that is replaced.\<close>

definition elsewhere :: "heap \<Rightarrow> addr \<Rightarrow> cbs \<Rightarrow> bool" where
  "elsewhere h p c \<longleftrightarrow>
     held (if p = 0 then h else h\<lparr>h_blocks := (h_blocks h)(p - 8 := None)\<rparr>) (cbs_data c) (unat (cbs_len c))"

text \<open>What the first call leaves: the old value wiped and given back, the reader's bytes as they were.\<close>

lemma release_old:
  assumes "wf_heap h" "p = 0 \<or> owned h p n" "elsewhere h p c"
  obtains h1 where "OPENSSL_free p h = Some h1" "wf_heap h1" "cbs_bytes (h_mem h1) c = cbs_bytes (h_mem h) c"
    "held h1 (cbs_data c) (unat (cbs_len c))" "others_kept p h h1" "p \<noteq> 0 \<longrightarrow> h_blocks h1 (p - 8) = None"
    "p \<noteq> 0 \<longrightarrow> (\<forall>x. in_range (p - 8) (unat n + 8) x \<longrightarrow> h_mem h1 x = 0)"
proof (cases "p = 0")
  case True
  then show ?thesis using that [of h] assms
    by (simp add: OPENSSL_free_def elsewhere_def others_kept_def)
next
  case False
  then have o: "owned h p n" using assms(2) by simp
  from free_wipes [OF o assms(1)] obtain h1 where
    h1: "OPENSSL_free p h = Some h1" "wf_heap h1" "h_blocks h1 = (h_blocks h)(p - 8 := None)"
      "only_in (in_range (p - 8) (unat n + 8)) (h_mem h) (h_mem h1)"
      "read_bytes (h_mem h1) (p - 8) (unat n + 8) = replicate (unat n + 8) 0" by metis
  have zero: "h_mem h1 x = 0" if "in_range (p - 8) (unat n + 8) x" for x
  proof -
    have "unat (x - (p - 8)) < unat n + 8" using that by (simp add: in_range_def)
    then have "read_bytes (h_mem h1) (p - 8) (unat n + 8) ! unat (x - (p - 8)) = 0" by (simp only: h1(5) nth_replicate)
    then show ?thesis using \<open>unat (x - (p - 8)) < unat n + 8\<close> by simp
  qed
  have held: "held h1 (cbs_data c) (unat (cbs_len c))" using assms(3) h1(3) False by (simp add: elsewhere_def held_def)
  have n: "unat (n + 8) = unat n + 8" "h_blocks h (p - 8) = Some (n + 8)" using o by (simp_all add: owned_def unat_add8)
  have "fresh (h_blocks h1) (p - 8) (n + 8)" using assms(1) n(2) unfolding h1(3) wf_heap_def by blast
  then have "cbs_bytes (h_mem h1) c = cbs_bytes (h_mem h) c"
    using held_unchanged [OF h1(2) held, of "p - 8" "n + 8" "h_mem h"] h1(4) n(1) by (simp add: cbs_bytes_def only_in_def)
  then show ?thesis using that [of h1] h1 held zero free_keeps [OF o assms(1) h1(1)] by simp
qed

lemma kept_then:
  assumes "others_kept p h h1" "others_kept q h1 h2" "h_blocks h1 (q - 8) = None"
  shows "others_kept p h h2"
proof (rule others_kept_trans [OF assms(1,2)])
  show "q = p \<or> (\<forall>k. \<not> owned h q k)"
    using others_keptD [OF assms(1), of q] not_owned [OF assms(3)] by blast
qed

text \<open>The bytes of the block behind \<open>p\<close>, length prefix included.\<close>

definition in_block :: "addr \<Rightarrow> u64 \<Rightarrow> addr \<Rightarrow> bool" where
  "in_block p n x \<longleftrightarrow> in_range (p - 8) (unat n + 8) x"

text \<open>C30. \<^verbatim>\<open>CBS_stow\<close> over any allocator that keeps to the C standard, for a reader outside the old
  value.  The old value is freed and wiped in any case: its block is no longer live, unless the allocator hands
  out the same place again, and all its bytes, the length prefix included, are zero but for those the new block
  covers.  Then an empty reader gives NULL and length 0, and any
  other a new block with exactly the reader's bytes, or a failure with NULL and 0 when memory is out.  No
  other block is touched.\<close>

theorem stow_copies:
  assumes "allocator place" "wf_heap h" "p = 0 \<or> owned h p n" "elsewhere h p c" "unat (cbs_len c) + 8 < 2 ^ 64"
  shows "\<exists>ok q len h'. CBS_stow place c p h = Some (ok, q, len, h') \<and> wf_heap h' \<and> others_kept p h h' \<and>
    (p \<noteq> 0 \<longrightarrow> (q \<noteq> p \<longrightarrow> h_blocks h' (p - 8) = None) \<and>
       (\<forall>x. in_block p n x \<and> \<not> (q \<noteq> 0 \<and> in_block q len x) \<longrightarrow> h_mem h' x = 0)) \<and>
    (if cbs_len c = 0 then ok \<and> q = 0 \<and> len = 0
     else if ok then owned h' q len \<and> data_of h' q len = cbs_bytes (h_mem h) c
     else q = 0 \<and> len = 0)"
proof -
  from release_old [OF assms(2,3,4)] obtain h1 where
    h1: "OPENSSL_free p h = Some h1" "wf_heap h1" "cbs_bytes (h_mem h1) c = cbs_bytes (h_mem h) c"
      "held h1 (cbs_data c) (unat (cbs_len c))" "others_kept p h h1" "p \<noteq> 0 \<longrightarrow> h_blocks h1 (p - 8) = None"
      "p \<noteq> 0 \<longrightarrow> (\<forall>x. in_range (p - 8) (unat n + 8) x \<longrightarrow> h_mem h1 x = 0)" by metis
  show ?thesis
  proof (cases "cbs_len c = 0")
    case True
    then show ?thesis using h1 by (auto simp: CBS_stow_def in_block_def)
  next
    case False
    show ?thesis
    proof (cases rule: allocator.memdup_result [OF assms(1) h1(2) False assms(5) h1(4)])
      case 1
      then show ?thesis using h1 False by (auto simp: CBS_stow_def in_block_def)
    next
      case (2 q h')
      have q: "q \<noteq> 0" using 2(2) by (simp add: owned_def)
      then have "CBS_stow place c p h = Some (True, q, cbs_len c, h')" using 2(1) h1(1) False by (simp add: CBS_stow_def)
      moreover have "data_of h' q (cbs_len c) = cbs_bytes (h_mem h) c" using 2(4) h1(3) by (simp add: cbs_bytes_def)
      moreover have "h_blocks h' (p - 8) = None" if "p \<noteq> 0" "q \<noteq> p" using h1(6) that by (simp add: 2(7))
      moreover have "h_mem h' x = 0" if "p \<noteq> 0" "in_block p n x" "\<not> in_block q (cbs_len c) x" for x
        using h1(7) that 2(8) by (simp add: in_block_def only_in_def)
      ultimately show ?thesis using 2(2,3) kept_then [OF h1(5) 2(5,6)] False q by auto
    qed
  qed
qed

text \<open>The reader's three bytes are copied out of the block at 4096, the old value in the one at 8192 goes.\<close>

definition example_copy :: heap where
  "example_copy =
     \<lparr>h_mem = (\<lambda>a. if a = 4096 \<or> a = 8192 then 8 else if a < 4104 \<or> 8192 \<le> a then 0 else 7),
      h_blocks = (\<lambda>_. None)(4096 := Some 16, 8192 := Some 16)\<rparr>"

lemma example_copy_ok:
  "wf_heap example_copy" "owned example_copy 8200 8" "elsewhere example_copy 8200 (CBS_init 4104 3)"
  "cbs_bytes (h_mem example_copy) (CBS_init 4104 3) = [7, 7, 7]"
proof -
  have "read_bytes (h_mem example_copy) 8192 8 = [8, 0, 0, 0, 0, 0, 0, 0]" by code_simp
  then show "owned example_copy 8200 8" by (simp add: owned_def example_copy_def)
  show "wf_heap example_copy" by (auto simp: wf_heap_def fresh_def apart_def example_copy_def split: if_splits)
  show "cbs_bytes (h_mem example_copy) (CBS_init 4104 3) = [7, 7, 7]" by code_simp
  have "\<exists>b k. h_blocks (example_copy\<lparr>h_blocks := (h_blocks example_copy)(8192 := None)\<rparr>) b = Some k \<and>
      in_range b (unat k) (4104 + of_nat i)" if "i < 3" for i
    using that by (intro exI [of _ 4096] exI [of _ 16]) (auto simp: example_copy_def in_range_def less_Suc_eq numeral_3_eq_3)
  then show "elsewhere example_copy 8200 (CBS_init 4104 3)"
    by (simp add: elsewhere_def held_def CBS_init_def)
qed

theorem stow_copies_witness:
  "\<exists>ok q len h'. CBS_stow (first_fit 3) (CBS_init 4104 3) 8200 example_copy = Some (ok, q, len, h') \<and> wf_heap h' \<and>
     others_kept 8200 example_copy h' \<and>
     ((q \<noteq> 8200 \<longrightarrow> h_blocks h' 8192 = None) \<and>
       (\<forall>x. in_block 8200 8 x \<and> \<not> (q \<noteq> 0 \<and> in_block q len x) \<longrightarrow> h_mem h' x = 0)) \<and>
     (if ok then owned h' q len \<and> data_of h' q len = [7, 7, 7] else q = 0 \<and> len = 0)"
proof -
  have c: "cbs_len (CBS_init 4104 3) \<noteq> 0" "unat (cbs_len (CBS_init 4104 3)) + 8 < 2 ^ 64" by (simp_all add: CBS_init_def)
  have p: "(8200 :: addr) \<noteq> 0" "(8200 - 8 :: addr) = 8192" by simp_all
  from c stow_copies [OF ff.allocator_axioms example_copy_ok(1) disjI2 [OF example_copy_ok(2)] example_copy_ok(3), of 3]
  show ?thesis unfolding example_copy_ok(4) p(2) by (simp only: if_False p not_False_eq_True simp_thms)
qed

text \<open>\<^verbatim>\<open>CBS_strdup\<close> copies up to the first NUL and adds one; a reader without data gives failure.\<close>

lemma strdup_copies:
  assumes "allocator place" "wf_heap h" "p = 0 \<or> owned h p n" "elsewhere h p c" "cbs_data c \<noteq> 0"
    and bs: "bs = takeWhile (\<lambda>b. b \<noteq> 0) (cbs_bytes (h_mem h) c)" "length bs + 9 < 2 ^ 64"
  shows "\<exists>ok q h'. CBS_strdup place c p h = Some (ok, q, h') \<and> wf_heap h' \<and> others_kept p h h' \<and>
    (if ok then owned h' q (of_nat (length bs + 1)) \<and> data_of h' q (of_nat (length bs + 1)) = bs @ [0] else q = 0)"
proof -
  from release_old [OF assms(2,3,4)] obtain h1 where
    h1: "OPENSSL_free p h = Some h1" "wf_heap h1" "cbs_bytes (h_mem h1) c = cbs_bytes (h_mem h) c"
      "held h1 (cbs_data c) (unat (cbs_len c))" "others_kept p h h1" by blast
  have free: "(if p \<noteq> 0 then OPENSSL_free p h else Some h) = Some h1" using h1(1) by (auto simp: OPENSSL_free_def)
  have b: "bs = takeWhile (\<lambda>b. b \<noteq> 0) (read_bytes (h_mem h1) (cbs_data c) (unat (cbs_len c)))"
    using bs(1) h1(3) by (simp add: cbs_bytes_def)
  show ?thesis
  proof (cases rule: allocator.strndup_result [OF assms(1) h1(2) assms(5) h1(4) b bs(2)])
    case 1
    then have "CBS_strdup place c p h = Some (False, 0, h1)" using free by (simp add: CBS_strdup_def)
    then show ?thesis using h1(2,5) by auto
  next
    case (2 q h')
    have "q \<noteq> 0" using 2(2) by (simp add: owned_def)
    then have "CBS_strdup place c p h = Some (True, q, h')" using 2(1) free by (simp add: CBS_strdup_def)
    then show ?thesis using 2(2,3,4) kept_then [OF h1(5) 2(5,6)] by auto
  qed
qed

lemma strdup_null: "cbs_data c = 0 \<Longrightarrow> CBS_strdup place c 0 h = Some (False, 0, h)"
  by (simp add: CBS_strdup_def OPENSSL_strndup_def)

end
