(* ===== verification/Stack.thy ===== *)
theory Stack
  imports C_Memory Qsort
begin

text \<open>
  BoringSSL's stacks of pointers, \<^verbatim>\<open>crypto/stack/stack.c\<close>.  A stack is the record \<open>stack\<close>, the array
  \<^verbatim>\<open>data\<close> a list as long as the allocation, a stack pointer an option (\<open>None\<close> is \<^verbatim>\<open>NULL\<close>).
  The comparison of two elements by the function the stack carries is the argument \<open>call_cmp\<close>; whether an
  allocation succeeds, and what new memory holds, is \<open>stack_env\<close>.  A result \<open>None\<close> is an access outside the array.
\<close>

section \<open>The code\<close>

record stack =
  st_num :: u64
  st_data :: "addr list"
  st_sorted :: bool
  st_num_alloc :: u64
  st_comp :: addr

record stack_env =
  grants :: "u64 \<Rightarrow> bool"
  unset :: addr

definition sizeof_STACK :: u64 where "sizeof_STACK = 40"

definition kMinSize :: u64 where "kMinSize = 4"

definition slot :: "addr list \<Rightarrow> u64 \<Rightarrow> addr option" where
  "slot d i = (if unat i < length d then Some (d ! unat i) else None)"

definition set_slot :: "u64 \<Rightarrow> addr \<Rightarrow> addr list \<Rightarrow> addr list option" where
  "set_slot i p d = (if unat i < length d then Some (d[unat i := p]) else None)"

text \<open>\<^verbatim>\<open>OPENSSL_memmove(&data[dst], &data[src], sizeof(void *) * n)\<close>\<close>

definition move_slots :: "u64 \<Rightarrow> u64 \<Rightarrow> u64 \<Rightarrow> addr list \<Rightarrow> addr list option" where
  "move_slots dst src n d =
     (if unat dst + unat n \<le> length d \<and> unat src + unat n \<le> length d
      then Some (take (unat dst) d @ take (unat n) (drop (unat src) d) @ drop (unat dst + unat n) d)
      else None)"

definition resize :: "stack_env \<Rightarrow> nat \<Rightarrow> addr list \<Rightarrow> addr list" where
  "resize env n d = take n d @ replicate (n - length d) (unset env)"

definition sk_new :: "stack_env \<Rightarrow> addr \<Rightarrow> stack option" where
  "sk_new env cmp_func =
     (if \<not> grants env sizeof_STACK then None
      else if \<not> grants env (8 * kMinSize) then None
      else Some \<lparr>st_num = 0, st_data = replicate (unat kMinSize) 0, st_sorted = False,
        st_num_alloc = kMinSize, st_comp = cmp_func\<rparr>)"

definition sk_new_null :: "stack_env \<Rightarrow> stack option" where
  "sk_new_null env = sk_new env 0"

definition sk_num :: "stack option \<Rightarrow> u64" where
  "sk_num sk = (case sk of None \<Rightarrow> 0 | Some s \<Rightarrow> st_num s)"

definition sk_zero :: "stack option \<Rightarrow> stack option option" where
  "sk_zero sk =
     (case sk of
        None \<Rightarrow> Some None
      | Some s \<Rightarrow>
          if st_num s = 0 then Some sk
          else if unat (st_num s) \<le> length (st_data s)
          then Some (Some (s\<lparr>st_data := replicate (unat (st_num s)) 0 @ drop (unat (st_num s)) (st_data s),
            st_num := 0, st_sorted := False\<rparr>))
          else None)"

definition sk_value :: "stack option \<Rightarrow> u64 \<Rightarrow> addr option" where
  "sk_value sk i =
     (case sk of
        None \<Rightarrow> Some 0
      | Some s \<Rightarrow> if i \<ge> st_num s then Some 0 else slot (st_data s) i)"

definition sk_set :: "stack option \<Rightarrow> u64 \<Rightarrow> addr \<Rightarrow> (addr \<times> stack option) option" where
  "sk_set sk i v =
     (case sk of
        None \<Rightarrow> Some (0, sk)
      | Some s \<Rightarrow>
          if i \<ge> st_num s then Some (0, sk)
          else map_option (\<lambda>d. (v, Some (s\<lparr>st_data := d\<rparr>))) (set_slot i v (st_data s)))"

text \<open>The elements a loop over the stack passes to a function with effects on a state of its own.\<close>

definition sk_pop_free_ex :: "(addr \<Rightarrow> 's \<Rightarrow> 's) \<Rightarrow> stack option \<Rightarrow> 's \<Rightarrow> 's option" where
  "sk_pop_free_ex call_free sk st =
     (case sk of
        None \<Rightarrow> Some st
      | Some s \<Rightarrow>
          foldM (\<lambda>i st. map_option (\<lambda>e. if e \<noteq> 0 then call_free e st else st) (slot (st_data s) (of_nat i)))
            [0..<unat (st_num s)] st)"

text \<open>Room for one more element and one to spare.\<close>

definition sk_grow :: "stack_env \<Rightarrow> stack \<Rightarrow> bool \<times> stack" where
  "sk_grow env s =
     (if st_num_alloc s \<le> st_num s + 1 then
        let overflows = (\<lambda>new_alloc :: u64. new_alloc < st_num_alloc s \<or> new_alloc * 8 div 8 \<noteq> new_alloc);
            new_alloc = push_bit 1 (st_num_alloc s);
            new_alloc = (if overflows new_alloc then st_num_alloc s + 1 else new_alloc) in
        if overflows new_alloc then (False, s)
        else if \<not> grants env (new_alloc * 8) then (False, s)
        else (True, s\<lparr>st_data := resize env (unat new_alloc) (st_data s), st_num_alloc := new_alloc\<rparr>)
      else (True, s))"

definition sk_insert :: "stack_env \<Rightarrow> stack option \<Rightarrow> addr \<Rightarrow> u64 \<Rightarrow> (u64 \<times> stack option) option" where
  "sk_insert env sk p pos =
     (case sk of
        None \<Rightarrow> Some (0, sk)
      | Some s \<Rightarrow>
          (case sk_grow env s of
             (False, s) \<Rightarrow> Some (0, Some s)
           | (True, s) \<Rightarrow>
               do {
                 d \<leftarrow> (if pos \<ge> st_num s then set_slot (st_num s) p (st_data s)
                       else Option.bind (move_slots (pos + 1) pos (st_num s - pos) (st_data s)) (set_slot pos p));
                 Some (st_num s + 1, Some (s\<lparr>st_data := d, st_num := st_num s + 1, st_sorted := False\<rparr>))
               }))"

definition sk_delete :: "stack option \<Rightarrow> u64 \<Rightarrow> (addr \<times> stack option) option" where
  "sk_delete sk pos =
     (case sk of
        None \<Rightarrow> Some (0, sk)
      | Some s \<Rightarrow>
          if pos \<ge> st_num s then Some (0, sk)
          else do {
            ret \<leftarrow> slot (st_data s) pos;
            d \<leftarrow> (if pos \<noteq> st_num s - 1 then move_slots pos (pos + 1) (st_num s - pos - 1) (st_data s)
                  else Some (st_data s));
            Some (ret, Some (s\<lparr>st_data := d, st_num := st_num s - 1\<rparr>))
          })"

text \<open>The first of the \<open>n\<close> elements from \<open>i\<close> on that satisfies \<open>P\<close>.\<close>

fun scan :: "(addr \<Rightarrow> bool) \<Rightarrow> addr list \<Rightarrow> u64 \<Rightarrow> nat \<Rightarrow> u64 option option" where
  "scan P d i 0 = Some None"
| "scan P d i (Suc n) =
     (case slot d i of
        None \<Rightarrow> None
      | Some e \<Rightarrow> if P e then Some (Some i) else scan P d (i + 1) n)"

definition sk_delete_ptr :: "stack option \<Rightarrow> addr \<Rightarrow> (addr \<times> stack option) option" where
  "sk_delete_ptr sk p =
     (case sk of
        None \<Rightarrow> Some (0, sk)
      | Some s \<Rightarrow>
          (case scan (\<lambda>e. e = p) (st_data s) 0 (unat (st_num s)) of
             None \<Rightarrow> None
           | Some None \<Rightarrow> Some (0, sk)
           | Some (Some i) \<Rightarrow> sk_delete sk i))"

definition sk_is_sorted :: "stack option \<Rightarrow> bool" where
  "sk_is_sorted sk = (case sk of None \<Rightarrow> True | Some s \<Rightarrow> st_sorted s)"

text \<open>The binary search, on the comparison of the wanted element with another.\<close>

definition middle :: "u64 \<Rightarrow> u64 \<Rightarrow> u64" where
  "middle lo hi = lo + (hi - lo - 1) div 2"

lemma middle_value:
  assumes "lo < hi"
  shows "unat (middle lo hi) = unat lo + (unat hi - unat lo - 1) div 2"
proof -
  have lt: "unat lo < unat hi" using assms by (simp add: word_less_nat_alt)
  have "unat (hi - lo) = unat hi - unat lo" using lt unat_sub_if' [of hi lo] by simp
  then have "unat (hi - lo - 1) = unat hi - unat lo - 1" using lt unat_sub_if' [of "hi - lo" 1] by simp
  then have "unat ((hi - lo - 1) div 2) = (unat hi - unat lo - 1) div 2" by (simp add: unat_div)
  moreover have "unat lo + (unat hi - unat lo - 1) div 2 < 18446744073709551616" using lt u64_less [of hi] by linarith
  ultimately show ?thesis using unat_plus_if' [of lo "(hi - lo - 1) div 2"] by (simp add: middle_def)
qed

lemma middle_next: "lo < hi \<Longrightarrow> unat (middle lo hi + 1) = unat (middle lo hi) + 1"
proof -
  assume lt: "lo < hi"
  then have "unat (middle lo hi) < unat hi" unfolding middle_value [OF lt] word_less_nat_alt by linarith
  then have "unat (middle lo hi) + 1 < 18446744073709551616" using u64_less [of hi] by linarith
  then show ?thesis using unat_plus_if' [of "middle lo hi" 1] by simp
qed

function binary_search :: "(addr \<Rightarrow> int) \<Rightarrow> addr list \<Rightarrow> u64 \<Rightarrow> u64 \<Rightarrow> u64 option option" where
  "binary_search cmp d lo hi =
     (if lo < hi then
        let mid = middle lo hi in
        (case slot d mid of
           None \<Rightarrow> None
         | Some e \<Rightarrow>
             if cmp e > 0 then binary_search cmp d (mid + 1) hi
             else if cmp e < 0 then binary_search cmp d lo mid
             else if hi - lo = 1 then Some (Some mid)
             else binary_search cmp d lo (mid + 1))
      else Some None)"
  by pat_completeness auto
termination
proof (relation "measure (\<lambda>(cmp, d, lo, hi). unat hi - unat lo)", simp_all)
  fix lo hi :: u64 assume lt: "lo < hi"
  note m = middle_value [OF lt] middle_next [OF lt]
  have l: "unat lo < unat hi" using lt by (simp add: word_less_nat_alt)
  show "unat hi - unat (middle lo hi + 1) < unat hi - unat lo" "unat (middle lo hi) - unat lo < unat hi - unat lo"
    using m l by linarith+
  assume "hi - lo \<noteq> 1"
  then have "unat (hi - lo) \<noteq> 1" by (metis unat_1 word_unat_eq_iff)
  moreover have "unat (hi - lo) = unat hi - unat lo" using l unat_sub_if' [of hi lo] by simp
  ultimately show "unat (middle lo hi + 1) - unat lo < unat hi - unat lo" using m l by linarith
qed

declare binary_search.simps [simp del]

definition sk_find :: "(addr \<Rightarrow> addr \<Rightarrow> addr \<Rightarrow> int) \<Rightarrow> stack option \<Rightarrow> addr \<Rightarrow> u64 option option" where
  "sk_find call_cmp sk p =
     (case sk of
        None \<Rightarrow> Some None
      | Some s \<Rightarrow>
          if st_comp s = 0 then scan (\<lambda>e. e = p) (st_data s) 0 (unat (st_num s))
          else if p = 0 then Some None
          else if \<not> sk_is_sorted sk
          then scan (\<lambda>e. call_cmp (st_comp s) p e = 0) (st_data s) 0 (unat (st_num s))
          else binary_search (call_cmp (st_comp s) p) (st_data s) 0 (st_num s))"

definition sk_shift :: "stack option \<Rightarrow> (addr \<times> stack option) option" where
  "sk_shift sk =
     (case sk of None \<Rightarrow> Some (0, sk) | Some s \<Rightarrow> if st_num s = 0 then Some (0, sk) else sk_delete sk 0)"

definition sk_push :: "stack_env \<Rightarrow> stack option \<Rightarrow> addr \<Rightarrow> (u64 \<times> stack option) option" where
  "sk_push env sk p = sk_insert env sk p (sk_num sk)"

definition sk_pop :: "stack option \<Rightarrow> (addr \<times> stack option) option" where
  "sk_pop sk =
     (case sk of
        None \<Rightarrow> Some (0, sk)
      | Some s \<Rightarrow> if st_num s = 0 then Some (0, sk) else sk_delete sk (st_num s - 1))"

definition sk_dup :: "stack_env \<Rightarrow> stack option \<Rightarrow> stack option option" where
  "sk_dup env sk =
     (case sk of
        None \<Rightarrow> Some None
      | Some s \<Rightarrow>
          (case sk_new env (st_comp s) of
             None \<Rightarrow> Some None
           | Some ret \<Rightarrow>
               if \<not> grants env (8 * st_num_alloc s) then Some None
               else
                 let d = resize env (unat (8 * st_num_alloc s) div 8) (st_data ret) in
                 if unat (st_num s) \<le> length d \<and> unat (st_num s) \<le> length (st_data s)
                 then Some (Some \<lparr>st_num = st_num s,
                   st_data = take (unat (st_num s)) (st_data s) @ drop (unat (st_num s)) d,
                   st_sorted = st_sorted s, st_num_alloc = st_num_alloc s, st_comp = st_comp s\<rparr>)
                 else None))"

definition sk_sort :: "((addr \<Rightarrow> addr \<Rightarrow> int) \<Rightarrow> addr list \<Rightarrow> addr list) \<Rightarrow> (addr \<Rightarrow> addr \<Rightarrow> addr \<Rightarrow> int) \<Rightarrow>
    stack option \<Rightarrow> stack option option" where
  "sk_sort qsort call_cmp sk =
     (case sk of
        None \<Rightarrow> Some sk
      | Some s \<Rightarrow>
          if st_comp s = 0 \<or> st_sorted s then Some sk
          else if unat (st_num s) \<le> length (st_data s) then
            let n = unat (st_num s);
                d = (if st_num s \<ge> 2 then qsort (call_cmp (st_comp s)) (take n (st_data s)) @ drop n (st_data s)
                     else st_data s) in
            Some (Some (s\<lparr>st_data := d, st_sorted := True\<rparr>))
          else None)"

definition sk_set_cmp_func :: "stack \<Rightarrow> addr \<Rightarrow> addr \<times> stack" where
  "sk_set_cmp_func s cmp_func =
     (st_comp s, s\<lparr>st_sorted := (st_sorted s \<and> st_comp s = cmp_func), st_comp := cmp_func\<rparr>)"

text \<open>The copies made so far are freed when one fails.\<close>

fun copy_loop :: "(addr \<Rightarrow> 's \<Rightarrow> addr \<times> 's) \<Rightarrow> (addr \<Rightarrow> 's \<Rightarrow> 's) \<Rightarrow> u64 \<Rightarrow> nat \<Rightarrow> addr list \<Rightarrow> 's \<Rightarrow>
    (addr list option \<times> 's) option" where
  "copy_loop call_copy call_free i 0 d st = Some (Some d, st)"
| "copy_loop call_copy call_free i (Suc n) d st =
     (case slot d i of
        None \<Rightarrow> None
      | Some e \<Rightarrow>
          if e = 0 then copy_loop call_copy call_free (i + 1) n d st
          else (case call_copy e st of
              (c, st) \<Rightarrow>
                if c = 0
                then map_option (Pair None)
                  (foldM (\<lambda>j st. map_option (\<lambda>e. if e \<noteq> 0 then call_free e st else st) (slot d (of_nat j))) [0..<unat i] st)
                else copy_loop call_copy call_free (i + 1) n (d[unat i := c]) st))"

definition sk_deep_copy :: "stack_env \<Rightarrow> (addr \<Rightarrow> 's \<Rightarrow> addr \<times> 's) \<Rightarrow> (addr \<Rightarrow> 's \<Rightarrow> 's) \<Rightarrow> stack option \<Rightarrow> 's \<Rightarrow>
    (stack option \<times> 's) option" where
  "sk_deep_copy env call_copy call_free sk st =
     (case sk_dup env sk of
        None \<Rightarrow> None
      | Some None \<Rightarrow> Some (None, st)
      | Some (Some ret) \<Rightarrow>
          map_option (\<lambda>(d, st). (map_option (\<lambda>d. ret\<lparr>st_data := d\<rparr>) d, st))
            (copy_loop call_copy call_free 0 (unat (st_num ret)) (st_data ret) st))"

section \<open>Finding the first match\<close>

fun first :: "('a \<Rightarrow> bool) \<Rightarrow> 'a list \<Rightarrow> nat option" where
  "first P [] = None"
| "first P (x # xs) = (if P x then Some 0 else map_option Suc (first P xs))"

lemma first_Some_iff: "first P xs = Some i \<longleftrightarrow> i < length xs \<and> P (xs ! i) \<and> (\<forall>j<i. \<not> P (xs ! j))"
proof (induction xs arbitrary: i)
  case (Cons x xs)
  then show ?case by (cases i) (auto simp: All_less_Suc2)
qed simp

lemma first_None_iff: "first P xs = None \<longleftrightarrow> (\<forall>x\<in>set xs. \<not> P x)"
  by (induction xs) auto

lemma scan_first:
  "unat i + n \<le> length d \<Longrightarrow> unat i + n < 2 ^ 64 \<Longrightarrow>
   scan P d i n = Some (map_option (\<lambda>j. i + of_nat j) (first P (take n (drop (unat i) d))))"
proof (induction n arbitrary: i)
  case (Suc n)
  have i: "unat (i + 1) = unat i + 1" using Suc.prems unat_plus_if' [of i 1] by simp
  have "take (Suc n) (drop (unat i) d) = d ! unat i # take n (drop (unat i + 1) d)"
    using Suc.prems by (simp add: Cons_nth_drop_Suc [symmetric])
  then show ?case using Suc i by (simp add: slot_def option.map_comp comp_def ac_simps)
qed simp

text \<open>The interval always holds the first match, and shrinks to it.\<close>

lemma binary_search_first:
  assumes "consistent cmp (insert p (set xs))" "sorted_wrt (\<lambda>a b. cmp a b \<le> 0) xs"
    and "take (length xs) d = xs" "length xs < 2 ^ 64"
  shows "unat lo \<le> unat hi \<Longrightarrow> unat hi \<le> length xs \<Longrightarrow>
    (\<And>j. first (\<lambda>e. cmp p e = 0) xs = Some j \<Longrightarrow> unat lo \<le> j \<and> j < unat hi) \<Longrightarrow>
    binary_search (cmp p) d lo hi = Some (map_option of_nat (first (\<lambda>e. cmp p e = 0) xs))"
proof (induction "unat hi - unat lo" arbitrary: lo hi rule: less_induct)
  case less
  let ?first = "first (\<lambda>e. cmp p e = 0) xs"
  show ?case
  proof (cases "lo < hi")
    case False
    then have "?first = None" using less(2,4) by (cases ?first) (auto simp: word_less_nat_alt)
    then show ?thesis using False by (simp add: binary_search.simps)
  next
    case lt: True
    note m = middle_value [OF lt] middle_next [OF lt]
    let ?i = "unat (middle lo hi)"
    have l: "unat lo < unat hi" using lt by (simp add: word_less_nat_alt)
    have i: "unat lo \<le> ?i" "?i < unat hi" "?i < length xs" using m(1) l less(3) by linarith+
    have "length (take (length xs) d) = length xs" by (simp only: assms(3))
    then have "length xs \<le> length d" by simp
    then have s: "slot d (middle lo hi) = Some (xs ! ?i)"
      using i(3) nth_take [of ?i "length xs" d] assms(3) by (simp add: slot_def)
    have in_set: "xs ! j \<in> set xs" if "j < length xs" for j using that by simp
    have up: "cmp (xs ! j) (xs ! k) \<le> 0" if "j \<le> k" "k < length xs" for j k
    proof (cases "j = k")
      case True
      have "cmp (xs ! k) (xs ! k) < 0 \<longleftrightarrow> 0 < cmp (xs ! k) (xs ! k)"
        using assms(1) in_set [OF that(2)] unfolding consistent_def by blast
      then show ?thesis using True by auto
    next
      case False
      then show ?thesis using sorted_wrt_nth_less [OF assms(2), of j k] that by simp
    qed
    have trans: "cmp a b \<le> 0 \<Longrightarrow> cmp b c \<le> 0 \<Longrightarrow> cmp a c \<le> 0"
      and flip: "cmp a b < 0 \<longleftrightarrow> 0 < cmp b a" if "a \<in> insert p (set xs)" "b \<in> insert p (set xs)" "c \<in> insert p (set xs)" for a b c
      using assms(1) that unfolding consistent_def by blast+
    consider (right) "0 < cmp p (xs ! ?i)" | (left) "cmp p (xs ! ?i) < 0" | (hit) "cmp p (xs ! ?i) = 0" by linarith
    then show ?thesis
    proof cases
      case right
      have "unat (middle lo hi + 1) \<le> j \<and> j < unat hi" if f: "?first = Some j" for j
      proof -
        have j: "unat lo \<le> j" "j < unat hi" "j < length xs" "cmp p (xs ! j) = 0"
          using less(4) [OF f] f by (auto simp: first_Some_iff)
        have "\<not> j \<le> ?i"
          using trans [of p "xs ! j" "xs ! ?i"] up [of j ?i] i(3) j(3,4) right by auto
        then show ?thesis using j(2) m(2) by simp
      qed
      then show ?thesis using less(1) [of hi "middle lo hi + 1"] less(3) i m(2) l lt right s
        by (simp add: binary_search.simps [of _ d lo hi] Let_def)
    next
      case left
      have "unat lo \<le> j \<and> j < ?i" if f: "?first = Some j" for j
      proof -
        have j: "unat lo \<le> j" "j < unat hi" "j < length xs" "cmp p (xs ! j) = 0"
          using less(4) [OF f] f by (auto simp: first_Some_iff)
        have "cmp (xs ! j) p \<le> 0" using flip [of p "xs ! j" p] j(3,4) by simp
        then have "\<not> ?i \<le> j"
          using trans [of "xs ! ?i" "xs ! j" p] up [of ?i j] flip [of p "xs ! ?i" p] i(3) j(3) left by auto
        then show ?thesis using j(1) by simp
      qed
      then show ?thesis using less(1) [of "middle lo hi" lo] less(3) i l lt left s
        by (simp add: binary_search.simps [of _ d lo hi] Let_def)
    next
      case hit
      then obtain j where f: "?first = Some j" "j \<le> ?i"
        using i(3) first_None_iff [of "\<lambda>e. cmp p e = 0" xs] in_set [OF i(3)] first_Some_iff [of "\<lambda>e. cmp p e = 0" xs]
        by (metis not_None_eq not_le_imp_less)
      have one: "hi - lo = 1 \<longleftrightarrow> unat hi = unat lo + 1" using l unat_sub_if' [of hi lo] by (auto simp: word_unat_eq_iff)
      show ?thesis
      proof (cases "hi - lo = 1")
        case True
        then have "j = ?i" using less(4) [OF f(1)] one i by simp
        then show ?thesis using True f(1) lt s hit
          by (simp add: binary_search.simps [of _ d lo hi] Let_def)
      next
        case False
        have "unat lo \<le> k \<and> k < unat (middle lo hi + 1)" if "?first = Some k" for k
          using less(4) [OF that] that f m(2) by simp
        moreover have "unat (middle lo hi + 1) - unat lo < unat hi - unat lo" using False one m l by linarith
        ultimately show ?thesis using less(1) [of "middle lo hi + 1" lo] less(3) i m(2) lt hit s False
          by (simp add: binary_search.simps [of _ d lo hi] Let_def)
      qed
    qed
  qed
qed

section \<open>Stacks as lists\<close>

definition elems :: "stack \<Rightarrow> addr list" where
  "elems s = take (unat (st_num s)) (st_data s)"

text \<open>There is always one slot to spare, and the array's size in bytes is a \<^verbatim>\<open>size_t\<close>.\<close>

definition wf_stack :: "stack \<Rightarrow> bool" where
  "wf_stack s \<longleftrightarrow> length (st_data s) = unat (st_num_alloc s) \<and> unat (st_num s) < unat (st_num_alloc s) \<and>
     8 * unat (st_num_alloc s) < 2 ^ 64"

lemma length_elems [simp]: "wf_stack s \<Longrightarrow> length (elems s) = unat (st_num s)"
  by (simp add: wf_stack_def elems_def)

lemma nth_elems: "i < unat (st_num s) \<Longrightarrow> elems s ! i = st_data s ! i"
  by (simp add: elems_def)

lemma next_num: "wf_stack s \<Longrightarrow> unat (st_num s + 1) = unat (st_num s) + 1"
  using unat_plus_if' [of "st_num s" 1] by (simp add: wf_stack_def)

lemma times_8_back:
  fixes n :: u64
  shows "n * 8 div 8 = n \<longleftrightarrow> 8 * unat n < 2 ^ 64"
proof -
  have u: "unat (n * 8) = 8 * unat n mod 2 ^ 64" by (simp add: unat_word_ariths mult.commute)
  have d: "n * 8 div 8 = n \<longleftrightarrow> unat (n * 8) div 8 = unat n" by (simp add: word_unat_eq_iff unat_div)
  show ?thesis
  proof
    assume "n * 8 div 8 = n"
    then have "unat n = (8 * unat n mod 2 ^ 64) div 8" using u d by simp
    moreover have "8 * unat n mod 2 ^ 64 < 2 ^ 64" by simp
    ultimately show "8 * unat n < 2 ^ 64" by linarith
  qed (simp add: u d)
qed

text \<open>Growing: it doubles, or adds one slot when doubling is too much, and fails only without changing anything.\<close>

definition full :: "stack_env \<Rightarrow> stack \<Rightarrow> bool" where
  "full env s \<longleftrightarrow> 8 * (unat (st_num_alloc s) + 1) \<ge> 2 ^ 64 \<or>
     \<not> grants env (8 * (if 16 * unat (st_num_alloc s) < 2 ^ 64 then 2 * st_num_alloc s else st_num_alloc s + 1))"

lemma grow_spec:
  assumes "wf_stack s"
  obtains (failed) "sk_grow env s = (False, s)" "full env s"
    | (grown) s' where "sk_grow env s = (True, s')" "wf_stack s'" "elems s' = elems s" "st_num s' = st_num s"
      "unat (st_num s) + 1 < unat (st_num_alloc s')" "st_sorted s' = st_sorted s" "st_comp s' = st_comp s"
      "unat (st_num_alloc s') \<le> max (unat (st_num_alloc s)) (2 * unat (st_num s) + 2)"
proof (cases "st_num_alloc s \<le> st_num s + 1")
  case False
  then have "unat (st_num s) + 1 < unat (st_num_alloc s)" using next_num [OF assms] by (simp add: word_le_nat_alt)
  then show ?thesis using grown [of s] False assms by (simp add: sk_grow_def)
next
  case True
  have wf: "length (st_data s) = unat (st_num_alloc s)" "unat (st_num s) < unat (st_num_alloc s)" "8 * unat (st_num_alloc s) < 2 ^ 64"
    using assms by (simp_all add: wf_stack_def)
  define new where "new = (if 16 * unat (st_num_alloc s) < 2 ^ 64 then 2 * st_num_alloc s else st_num_alloc s + 1)"
  have dbl: "push_bit 1 (st_num_alloc s) = 2 * st_num_alloc s" by (simp add: push_bit_eq_mult)
  have u: "unat (2 * st_num_alloc s) = 2 * unat (st_num_alloc s)" "unat (st_num_alloc s + 1) = unat (st_num_alloc s) + 1"
    using wf by (simp_all add: unat_word_ariths)
  have over: "(2 * st_num_alloc s < st_num_alloc s \<or> 2 * st_num_alloc s * 8 div 8 \<noteq> 2 * st_num_alloc s) \<longleftrightarrow>
      \<not> 16 * unat (st_num_alloc s) < 2 ^ 64"
    unfolding times_8_back using u(1) by (simp add: word_less_nat_alt)
  have n: "unat new > unat (st_num_alloc s)" "new * 8 div 8 = new \<longleftrightarrow> 8 * (unat (st_num_alloc s) + 1) < 2 ^ 64"
    unfolding times_8_back using u wf(2) by (auto simp: new_def)
  have alt: "(if \<not> 16 * unat (st_num_alloc s) < 2 ^ 64 then st_num_alloc s + 1 else 2 * st_num_alloc s) = new"
    by (simp add: new_def)
  have "sk_grow env s =
      (if new < st_num_alloc s \<or> new * 8 div 8 \<noteq> new then (False, s)
       else if \<not> grants env (new * 8) then (False, s)
       else (True, s\<lparr>st_data := resize env (unat new) (st_data s), st_num_alloc := new\<rparr>))"
    using True by (simp only: sk_grow_def Let_def dbl over alt if_True)
  moreover have "\<not> new < st_num_alloc s" using n(1) by (simp add: word_less_nat_alt)
  ultimately have grow: "sk_grow env s =
      (if \<not> 8 * (unat (st_num_alloc s) + 1) < 2 ^ 64 \<or> \<not> grants env (new * 8) then (False, s)
       else (True, s\<lparr>st_data := resize env (unat new) (st_data s), st_num_alloc := new\<rparr>))"
    by (simp only: n(2)) simp
  show ?thesis
  proof (cases "8 * (unat (st_num_alloc s) + 1) < 2 ^ 64 \<and> grants env (new * 8)")
    case False
    then have "full env s" unfolding full_def new_def [symmetric] by (auto simp: mult.commute)
    then show ?thesis using failed grow False by auto
  next
    case ok: True
    let ?s = "s\<lparr>st_data := resize env (unat new) (st_data s), st_num_alloc := new\<rparr>"
    have "8 * unat new < 2 ^ 64" using ok u by (auto simp: new_def)
    then have "wf_stack ?s" using wf n(1) by (simp add: wf_stack_def resize_def)
    moreover have "elems ?s = elems s" using wf n(1) by (simp add: elems_def resize_def)
    moreover have "unat (st_num_alloc s) \<le> unat (st_num s) + 1"
      using True next_num [OF assms] by (simp add: word_le_nat_alt)
    then have "unat new \<le> 2 * unat (st_num s) + 2" using u by (simp add: new_def)
    ultimately show ?thesis using grown [of ?s] grow ok n(1) wf(2) by (simp add: max_def)
  qed
qed

definition insert_at :: "nat \<Rightarrow> 'a \<Rightarrow> 'a list \<Rightarrow> 'a list" where
  "insert_at i x xs = take i xs @ x # drop i xs"

definition delete_at :: "nat \<Rightarrow> 'a list \<Rightarrow> 'a list" where
  "delete_at i xs = take i xs @ drop (Suc i) xs"

lemma move_up:
  assumes "i < n" "n < length d"
  shows "take (Suc n) ((take (Suc i) d @ take (n - i) (drop i d) @ drop (Suc n) d)[i := p]) = insert_at i p (take n d)"
proof -
  have d: "take (Suc i) d = take i d @ [d ! i]" using assms by (simp add: take_Suc_conv_app_nth)
  have "(take (Suc i) d @ take (n - i) (drop i d) @ drop (Suc n) d)[i := p] =
      (take i d @ [p] @ take (n - i) (drop i d)) @ drop (Suc n) d"
    using assms by (simp add: d list_update_append)
  moreover have "length (take i d @ [p] @ take (n - i) (drop i d)) = Suc n" using assms by simp
  ultimately have "take (Suc n) ((take (Suc i) d @ take (n - i) (drop i d) @ drop (Suc n) d)[i := p]) =
      take i d @ [p] @ take (n - i) (drop i d)" by (metis append_eq_conv_conj)
  then show ?thesis using assms by (simp add: insert_at_def drop_take min_absorb1)
qed

lemma move_down:
  assumes "i < n" "n \<le> length d"
  shows "take (n - 1) (take i d @ take (n - i - 1) (drop (Suc i) d) @ drop (n - 1) d) = delete_at i (take n d)"
  using assms by (simp add: delete_at_def drop_take min_absorb1)

lemma insert_spec:
  assumes "wf_stack s"
  obtains (failed) "sk_insert env (Some s) p pos = Some (0, Some s)" "full env s"
    | (inserted) s' where "sk_insert env (Some s) p pos = Some (st_num s + 1, Some s')" "wf_stack s'"
      "elems s' = insert_at (min (unat pos) (length (elems s))) p (elems s)" "\<not> st_sorted s'" "st_comp s' = st_comp s"
      "unat (st_num_alloc s') \<le> max (unat (st_num_alloc s)) (2 * unat (st_num s) + 2)"
proof (cases rule: grow_spec [OF assms, of env])
  case 1
  then show ?thesis using failed by (simp add: sk_insert_def)
next
  case (2 g)
  have wf: "length (st_data g) = unat (st_num_alloc g)" "8 * unat (st_num_alloc g) < 2 ^ 64"
    using 2(2) by (simp_all add: wf_stack_def)
  have room: "unat (st_num s) + 1 < length (st_data g)" using 2(5) wf(1) by simp
  have nn: "unat (st_num s + 1) = unat (st_num s) + 1" by (rule next_num [OF assms])
  have same: "take (unat (st_num s)) (st_data g) = elems s" using 2(3,4) by (simp add: elems_def)
  have d: "\<exists>d. (if pos \<ge> st_num g then set_slot (st_num g) p (st_data g)
        else Option.bind (move_slots (pos + 1) pos (st_num g - pos) (st_data g)) (set_slot pos p)) = Some d \<and>
      length d = length (st_data g) \<and>
      take (unat (st_num s) + 1) d = insert_at (min (unat pos) (length (elems s))) p (elems s)"
  proof (cases "pos \<ge> st_num s")
    case True
    then have "min (unat pos) (length (elems s)) = length (elems s)" using assms by (simp add: word_le_nat_alt)
    then show ?thesis using True room same 2(4)
      by (simp add: set_slot_def insert_at_def take_Suc_conv_app_nth)
  next
    case False
    then have i: "unat pos < unat (st_num s)" by (simp add: word_le_nat_alt)
    have "unat (pos + 1) = unat pos + 1" "unat (st_num s - pos) = unat (st_num s) - unat pos"
      using i wf(2) room unat_plus_if' [of pos 1] unat_sub_if' [of "st_num s" pos] by (simp_all add: wf(1))
    then show ?thesis using False i room 2(4) assms move_up [OF i, of "st_data g" p] same
      by (simp add: move_slots_def set_slot_def min_absorb1) linarith
  qed
  then obtain d where d: "(if pos \<ge> st_num g then set_slot (st_num g) p (st_data g)
        else Option.bind (move_slots (pos + 1) pos (st_num g - pos) (st_data g)) (set_slot pos p)) = Some d"
    "length d = length (st_data g)"
    "take (unat (st_num s) + 1) d = insert_at (min (unat pos) (length (elems s))) p (elems s)" by blast
  let ?s = "g\<lparr>st_data := d, st_num := st_num s + 1, st_sorted := False\<rparr>"
  have "sk_insert env (Some s) p pos = Some (st_num s + 1, Some ?s)"
    using 2(1,4) d(1) by (simp add: sk_insert_def)
  moreover have "wf_stack ?s" using d(2) wf 2(5) nn by (simp add: wf_stack_def)
  moreover have "elems ?s = insert_at (min (unat pos) (length (elems s))) p (elems s)"
    using d(3) nn by (simp add: elems_def)
  ultimately show ?thesis using inserted [of ?s] 2(7,8) by simp
qed

lemma delete_spec:
  assumes "wf_stack s"
  obtains s' where
    "sk_delete (Some s) pos = Some (if unat pos < length (elems s) then elems s ! unat pos else 0, Some s')"
    "wf_stack s'" "elems s' = delete_at (unat pos) (elems s)" "st_sorted s' = st_sorted s" "st_comp s' = st_comp s"
    "st_num_alloc s' = st_num_alloc s"
proof (cases "st_num s \<le> pos")
  case True
  then have "length (elems s) \<le> unat pos" using assms by (simp add: word_le_nat_alt)
  then show ?thesis using that [of s] True assms by (simp add: sk_delete_def delete_at_def)
next
  case False
  have wf: "length (st_data s) = unat (st_num_alloc s)" "unat (st_num s) < unat (st_num_alloc s)" "8 * unat (st_num_alloc s) < 2 ^ 64"
    using assms by (simp_all add: wf_stack_def)
  have i: "unat pos < unat (st_num s)" using False by (simp add: word_le_nat_alt)
  have u: "unat (st_num s - 1) = unat (st_num s) - 1" "unat (pos + 1) = Suc (unat pos)"
    "unat (st_num s - pos - 1) = unat (st_num s) - unat pos - 1"
    using i wf unat_sub_if' [of "st_num s" 1] unat_plus_if' [of pos 1] unat_sub_if' [of "st_num s" pos]
      unat_sub_if' [of "st_num s - pos" 1] by simp_all
  have last: "pos = st_num s - 1 \<longleftrightarrow> Suc (unat pos) = unat (st_num s)" using u(1) i by (auto simp: word_unat_eq_iff)
  obtain d where d: "(if pos \<noteq> st_num s - 1 then move_slots pos (pos + 1) (st_num s - pos - 1) (st_data s)
      else Some (st_data s)) = Some d" "length d = length (st_data s)"
    "take (unat (st_num s) - 1) d = delete_at (unat pos) (elems s)"
  proof (cases "pos = st_num s - 1")
    case True
    then have n: "unat (st_num s) = Suc (unat pos)" using last by simp
    then show ?thesis using that [of "st_data s"] True by (simp add: delete_at_def elems_def)
  next
    case False
    let ?d = "take (unat pos) (st_data s) @ take (unat (st_num s) - unat pos - 1) (drop (Suc (unat pos)) (st_data s)) @
      drop (unat (st_num s) - 1) (st_data s)"
    have "move_slots pos (pos + 1) (st_num s - pos - 1) (st_data s) = Some ?d"
      using i wf u by (simp add: move_slots_def)
    moreover have "length ?d = length (st_data s)" using i wf by simp
    ultimately show ?thesis using that [of ?d] False move_down [OF i, of "st_data s"] wf by (simp add: elems_def)
  qed
  let ?s = "s\<lparr>st_data := d, st_num := st_num s - 1\<rparr>"
  have "slot (st_data s) pos = Some (elems s ! unat pos)" using i wf by (simp add: slot_def nth_elems)
  then have "sk_delete (Some s) pos = Some (elems s ! unat pos, Some ?s)" using d(1) False by (simp add: sk_delete_def)
  moreover have "wf_stack ?s" using wf d(2) u(1) by (simp add: wf_stack_def)
  moreover have "elems ?s = delete_at (unat pos) (elems s)" using d(3) u(1) by (simp add: elems_def)
  ultimately show ?thesis using that [of ?s] i assms by simp
qed

lemma zero_spec:
  assumes "wf_stack s"
  obtains s' where "sk_zero (Some s) = Some (Some s')" "wf_stack s'" "elems s' = []" "st_comp s' = st_comp s"
    "st_sorted s' \<longrightarrow> st_sorted s" "st_num_alloc s' = st_num_alloc s"
proof (cases "st_num s = 0")
  case True
  then show ?thesis using that [of s] assms by (simp add: sk_zero_def elems_def)
next
  case False
  let ?s = "s\<lparr>st_data := replicate (unat (st_num s)) 0 @ drop (unat (st_num s)) (st_data s), st_num := 0, st_sorted := False\<rparr>"
  have "sk_zero (Some s) = Some (Some ?s)" using False assms by (simp add: sk_zero_def wf_stack_def)
  moreover have "wf_stack ?s" using assms by (simp add: wf_stack_def)
  ultimately show ?thesis using that [of ?s] by (simp add: elems_def)
qed

lemma set_spec:
  assumes "wf_stack s"
  obtains s' where "sk_set (Some s) i v = Some (if unat i < length (elems s) then v else 0, Some s')" "wf_stack s'"
    "elems s' = (elems s)[unat i := v]" "st_sorted s' = st_sorted s" "st_comp s' = st_comp s"
    "st_num_alloc s' = st_num_alloc s"
proof (cases "st_num s \<le> i")
  case True
  then show ?thesis using that [of s] assms by (simp add: sk_set_def word_le_nat_alt list_update_beyond)
next
  case False
  then have i: "unat i < unat (st_num s)" by (simp add: word_le_nat_alt)
  let ?s = "s\<lparr>st_data := (st_data s)[unat i := v]\<rparr>"
  have "sk_set (Some s) i v = Some (v, Some ?s)" using False i assms by (simp add: sk_set_def set_slot_def wf_stack_def)
  moreover have "wf_stack ?s" using assms by (simp add: wf_stack_def)
  moreover have "elems ?s = (elems s)[unat i := v]" by (simp add: elems_def take_update_swap)
  ultimately show ?thesis using that [of ?s] i assms by simp
qed

lemma value_spec: "wf_stack s \<Longrightarrow> sk_value (Some s) i = Some (if unat i < length (elems s) then elems s ! unat i else 0)"
  by (auto simp: sk_value_def slot_def wf_stack_def word_le_nat_alt nth_elems elems_def)

lemma scan_elems: "wf_stack s \<Longrightarrow> scan P (st_data s) 0 (unat (st_num s)) = Some (map_option of_nat (first P (elems s)))"
  using scan_first [of 0 "unat (st_num s)" "st_data s" P] by (simp add: wf_stack_def elems_def)

lemma delete_ptr_spec:
  assumes "wf_stack s"
  obtains s' where "sk_delete_ptr (Some s) p = Some (if p \<in> set (elems s) then p else 0, Some s')" "wf_stack s'"
    "elems s' = remove1 p (elems s)" "st_sorted s' = st_sorted s" "st_comp s' = st_comp s"
    "st_num_alloc s' = st_num_alloc s"
proof (cases "first (\<lambda>e. e = p) (elems s)")
  case None
  then have "p \<notin> set (elems s)" by (auto simp: first_None_iff)
  then show ?thesis using that [of s] assms None by (simp add: sk_delete_ptr_def scan_elems remove1_idem)
next
  case (Some i)
  have i: "i < length (elems s)" "elems s ! i = p" using Some by (simp_all add: first_Some_iff)
  have "i < unat (st_num s)" using i(1) assms by simp
  then have "i < 18446744073709551616" using u64_less [of "st_num s"] by (rule less_trans)
  then have u: "unat (of_nat i :: u64) = i" by simp
  have r: "first (\<lambda>e. e = p) xs = Some i \<Longrightarrow> remove1 p xs = delete_at i xs" for xs i
    by (induction xs arbitrary: i) (auto simp: delete_at_def split: if_splits)
  obtain s' where "sk_delete (Some s) (of_nat i) = Some (p, Some s')" "wf_stack s'" "elems s' = delete_at i (elems s)"
    "st_sorted s' = st_sorted s" "st_comp s' = st_comp s" "st_num_alloc s' = st_num_alloc s"
    using delete_spec [OF assms, of "of_nat i"] i unfolding u by auto
  moreover have "p \<in> set (elems s)" using i by auto
  ultimately show ?thesis using that [of s'] Some r [OF Some] assms by (simp add: sk_delete_ptr_def scan_elems)
qed

section \<open>Any sequence of operations\<close>

datatype stack_op =
  Insert addr u64 | Push addr | Delete u64 | Delete_Ptr addr | Pop | Shift | Zero | Set_At u64 addr

definition run_stack_op :: "stack_env \<Rightarrow> stack_op \<Rightarrow> stack option \<Rightarrow> (addr \<times> stack option) option" where
  "run_stack_op env opn sk =
     (case opn of
        Insert p i \<Rightarrow> sk_insert env sk p i
      | Push p \<Rightarrow> sk_push env sk p
      | Delete i \<Rightarrow> sk_delete sk i
      | Delete_Ptr p \<Rightarrow> sk_delete_ptr sk p
      | Pop \<Rightarrow> sk_pop sk
      | Shift \<Rightarrow> sk_shift sk
      | Zero \<Rightarrow> map_option (Pair 0) (sk_zero sk)
      | Set_At i p \<Rightarrow> sk_set sk i p)"

text \<open>What each does to a list, and what it returns.\<close>

fun list_op :: "stack_op \<Rightarrow> addr list \<Rightarrow> addr \<times> addr list" where
  "list_op (Insert p i) xs = (of_nat (length xs + 1), insert_at (min (unat i) (length xs)) p xs)"
| "list_op (Push p) xs = (of_nat (length xs + 1), xs @ [p])"
| "list_op (Delete i) xs = (if unat i < length xs then xs ! unat i else 0, delete_at (unat i) xs)"
| "list_op (Delete_Ptr p) xs = (if p \<in> set xs then p else 0, remove1 p xs)"
| "list_op Pop xs = (if xs = [] then 0 else last xs, butlast xs)"
| "list_op Shift xs = (if xs = [] then 0 else hd xs, tl xs)"
| "list_op Zero xs = (0, [])"
| "list_op (Set_At i p) xs = (if unat i < length xs then p else 0, xs[unat i := p])"

fun adds :: "stack_op \<Rightarrow> bool" where
  "adds (Insert p i) = True"
| "adds (Push p) = True"
| "adds opn = False"

lemma op_refines:
  assumes "wf_stack s"
  shows "(\<exists>r s'. run_stack_op env opn (Some s) = Some (r, Some s') \<and> wf_stack s' \<and> (r, elems s') = list_op opn (elems s) \<and>
      st_comp s' = st_comp s \<and> unat (st_num_alloc s') \<le> max (unat (st_num_alloc s)) (2 * unat (st_num s) + 2)) \<or>
    (adds opn \<and> full env s \<and> run_stack_op env opn (Some s) = Some (0, Some s))"
proof -
  have num: "of_nat (Suc (length (elems s))) = st_num s + 1" using assms by simp
  have num': "of_nat (Suc (unat (st_num s))) = st_num s + 1" by simp
  have empty: "elems s = [] \<longleftrightarrow> st_num s = 0" using assms length_elems [OF assms] by (metis length_0_conv unat_eq_zero)
  show ?thesis
  proof (cases opn)
    case (Insert p i)
    show ?thesis
      by (cases rule: insert_spec [OF assms, of env p i]) (auto simp: Insert run_stack_op_def num simp del: of_nat_add of_nat_Suc)
  next
    case (Push p)
    show ?thesis
      by (cases rule: insert_spec [OF assms, of env p "st_num s"])
        (auto simp: Push run_stack_op_def sk_push_def sk_num_def num' assms insert_at_def simp del: of_nat_add of_nat_Suc)
  next
    case (Delete i)
    show ?thesis by (rule delete_spec [OF assms, of i]) (auto simp: Delete run_stack_op_def)
  next
    case (Delete_Ptr p)
    show ?thesis by (rule delete_ptr_spec [OF assms, of p]) (auto simp: Delete_Ptr run_stack_op_def)
  next
    case Pop
    have u: "unat (st_num s - 1) = length (elems s) - 1" if "elems s \<noteq> []"
      using that empty unat_sub_if' [of "st_num s" 1] assms by (simp add: unat_gt_0 Suc_le_eq)
    show ?thesis
    proof (cases "elems s = []")
      case True
      then show ?thesis using assms empty by (simp add: Pop run_stack_op_def sk_pop_def)
    next
      case False
      obtain s' where "sk_delete (Some s) (st_num s - 1) = Some (last (elems s), Some s')" "wf_stack s'"
        "elems s' = butlast (elems s)" "st_comp s' = st_comp s" "st_num_alloc s' = st_num_alloc s"
        using delete_spec [OF assms, of "st_num s - 1"] False unfolding u [OF False]
        by (auto simp: last_conv_nth delete_at_def butlast_conv_take)
      then show ?thesis using False empty by (simp add: Pop run_stack_op_def sk_pop_def)
    qed
  next
    case Shift
    show ?thesis
    proof (cases "elems s = []")
      case True
      then show ?thesis using assms empty by (simp add: Shift run_stack_op_def sk_shift_def)
    next
      case False
      obtain s' where "sk_delete (Some s) 0 = Some (hd (elems s), Some s')" "wf_stack s'"
        "elems s' = tl (elems s)" "st_comp s' = st_comp s" "st_num_alloc s' = st_num_alloc s"
        using delete_spec [OF assms, of 0] False by (auto simp: hd_conv_nth delete_at_def drop_Suc)
      then show ?thesis using False empty by (simp add: Shift run_stack_op_def sk_shift_def)
    qed
  next
    case Zero
    show ?thesis by (rule zero_spec [OF assms]) (auto simp: Zero run_stack_op_def)
  next
    case (Set_At i p)
    show ?thesis by (rule set_spec [OF assms, of i p]) (auto simp: Set_At run_stack_op_def)
  qed
qed

fun run_stack :: "stack_env \<Rightarrow> stack_op list \<Rightarrow> stack option \<Rightarrow> (addr list \<times> stack option) option" where
  "run_stack env [] sk = Some ([], sk)"
| "run_stack env (opn # ops) sk =
     do {
       (r, sk) \<leftarrow> run_stack_op env opn sk;
       (rs, sk) \<leftarrow> run_stack env ops sk;
       Some (r # rs, sk)
     }"

text \<open>The same on lists; an operation that adds an element may fail, if the flag allows it.\<close>

inductive list_session :: "bool \<Rightarrow> addr list \<Rightarrow> stack_op list \<Rightarrow> addr list \<Rightarrow> addr list \<Rightarrow> bool" for may_fail where
  over: "list_session may_fail xs [] [] xs"
| step: "list_op opn xs = (r, ys) \<Longrightarrow> list_session may_fail ys ops rs zs \<Longrightarrow> list_session may_fail xs (opn # ops) (r # rs) zs"
| no_room: "may_fail \<Longrightarrow> adds opn \<Longrightarrow> list_session may_fail xs ops rs zs \<Longrightarrow> list_session may_fail xs (opn # ops) (0 # rs) zs"

inductive_cases list_session_Nil: "list_session f xs [] rs zs"
inductive_cases list_session_Cons: "list_session f xs (opn # ops) rs zs"

lemma list_op_grows: "length (snd (list_op opn xs)) \<le> length xs + 1"
  by (cases opn) (auto simp: insert_at_def delete_at_def length_remove1)

lemma session_refines:
  assumes "wf_stack s" "unat (st_num s) \<le> k" "unat (st_num_alloc s) \<le> 4 + 2 * k"
  shows "\<exists>rs s'. run_stack env ops (Some s) = Some (rs, Some s') \<and> wf_stack s' \<and>
    list_session ((\<exists>n. \<not> grants env n) \<or> 2 ^ 59 \<le> k + length ops) (elems s) ops rs (elems s')"
  using assms
proof (induction ops arbitrary: s k)
  case Nil
  then show ?case by (simp add: list_session.over)
next
  case (Cons opn ops)
  let ?f = "(\<exists>n. \<not> grants env n) \<or> 2 ^ 59 \<le> k + length (opn # ops)"
  from op_refines [OF Cons.prems(1), of env opn] show ?case
  proof (elim disjE exE conjE)
    fix r s1 assume r: "run_stack_op env opn (Some s) = Some (r, Some s1)" "wf_stack s1" "(r, elems s1) = list_op opn (elems s)"
      "unat (st_num_alloc s1) \<le> max (unat (st_num_alloc s)) (2 * unat (st_num s) + 2)"
    have "length (elems s1) \<le> length (elems s) + 1" using list_op_grows [of opn "elems s"] r(3) [symmetric] by simp
    then have "unat (st_num s1) \<le> Suc k" "unat (st_num_alloc s1) \<le> 4 + 2 * Suc k" using r(2,4) Cons.prems by simp_all
    from Cons.IH [OF r(2) this] obtain rs s' where "run_stack env ops (Some s1) = Some (rs, Some s')" "wf_stack s'"
      "list_session ?f (elems s1) ops rs (elems s')" by auto
    then show ?thesis using r(1) list_session.step [OF r(3) [symmetric]] by auto
  next
    assume r: "adds opn" "full env s" "run_stack_op env opn (Some s) = Some (0, Some s)"
    have "?f" using r(2) Cons.prems(3) by (auto simp: full_def)
    moreover have "unat (st_num s) \<le> Suc k" "unat (st_num_alloc s) \<le> 4 + 2 * Suc k" using Cons.prems by simp_all
    from Cons.IH [OF Cons.prems(1) this] obtain rs s' where "run_stack env ops (Some s) = Some (rs, Some s')" "wf_stack s'"
      "list_session ?f (elems s) ops rs (elems s')" by auto
    ultimately show ?thesis using r(1,3) list_session.no_room by auto
  qed
qed

lemma new_spec:
  assumes "sk_new env c = Some s"
  shows "wf_stack s" "elems s = []" "st_num s = 0" "st_num_alloc s = 4" "\<not> st_sorted s" "st_comp s = c"
  using assms by (auto simp: sk_new_def wf_stack_def elems_def kMinSize_def split: if_splits)

text \<open>C34. Stacks are lists: from a new stack, any sequence of insertions, pushes, deletions, pops, shifts,
  clearings and stores, at any positions, stays inside the array, returns what the list operations return and
  leaves their elements in order.  Only an operation that adds an element can fail, with 0 and no effect, and only if
  an allocation is refused or the array would leave the address space.\<close>

theorem stack_session:
  assumes "sk_new env c = Some s"
  shows "\<exists>rs s'. run_stack env ops (Some s) = Some (rs, Some s') \<and> wf_stack s' \<and>
    list_session ((\<exists>n. \<not> grants env n) \<or> 2 ^ 59 \<le> length ops) [] ops rs (elems s')"
  using session_refines [of s 0 env ops] new_spec [OF assms] by simp

definition example_stack_env :: stack_env where
  "example_stack_env = \<lparr>grants = \<lambda>_. True, unset = 0\<rparr>"

definition example_new :: stack where
  "example_new = \<lparr>st_num = 0, st_data = [0, 0, 0, 0], st_sorted = False, st_num_alloc = 4, st_comp = 0\<rparr>"

theorem stack_session_witness:
  "\<exists>rs s'. run_stack example_stack_env [Push 7, Push 8, Insert 9 1, Push 6, Shift] (Some example_new) = Some (rs, Some s') \<and>
     rs = [1, 2, 3, 4, 7] \<and> elems s' = [9, 8, 6] \<and> wf_stack s'"
proof -
  have "sk_new example_stack_env 0 = Some example_new"
    by code_simp
  from stack_session [OF this, of "[Push 7, Push 8, Insert 9 1, Push 6, Shift]"] obtain rs s' where
    r: "run_stack example_stack_env [Push 7, Push 8, Insert 9 1, Push 6, Shift] (Some example_new) = Some (rs, Some s')"
      "wf_stack s'"
      "list_session ((\<exists>n. \<not> grants example_stack_env n) \<or> 2 ^ 59 \<le> length [Push 7, Push 8, Insert 9 1, Push 6, Shift])
        [] [Push 7, Push 8, Insert 9 1, Push 6, Shift] rs (elems s')" by blast
  have "rs = [1, 2, 3, 4, 7] \<and> elems s' = [9, 8, 6]"
    using r(3) by (auto simp: example_stack_env_def insert_at_def elim!: list_session_Cons list_session_Nil)
  then show ?thesis using r by blast
qed

section \<open>Searching\<close>

definition honest :: "(addr \<Rightarrow> addr \<Rightarrow> addr \<Rightarrow> int) \<Rightarrow> stack \<Rightarrow> bool" where
  "honest call_cmp s \<longleftrightarrow> (st_sorted s \<longrightarrow> sorted_wrt (\<lambda>a b. call_cmp (st_comp s) a b \<le> 0) (elems s))"

definition matches :: "(addr \<Rightarrow> addr \<Rightarrow> addr \<Rightarrow> int) \<Rightarrow> stack \<Rightarrow> addr \<Rightarrow> addr \<Rightarrow> bool" where
  "matches call_cmp s p e \<longleftrightarrow> (if st_comp s = 0 then e = p else p \<noteq> 0 \<and> call_cmp (st_comp s) p e = 0)"

lemma find_correct:
  assumes "wf_stack s" "honest call_cmp s" "consistent (call_cmp (st_comp s)) (insert p (set (elems s)))"
  shows "sk_find call_cmp (Some s) p = Some (map_option of_nat (first (matches call_cmp s p) (elems s)))"
proof -
  have none: "first (\<lambda>e. False) xs = None" for xs :: "addr list" by (induction xs) simp_all
  have l: "length (elems s) = unat (st_num s)" "take (length (elems s)) (st_data s) = elems s"
    using assms(1) by (simp_all add: wf_stack_def elems_def)
  show ?thesis
  proof (cases "st_comp s = 0 \<or> p = 0 \<or> \<not> st_sorted s")
    case True
    then show ?thesis
      using scan_elems [OF assms(1)] none by (auto simp: sk_find_def sk_is_sorted_def matches_def [abs_def])
  next
    case False
    have "binary_search (call_cmp (st_comp s) p) (st_data s) 0 (st_num s) =
        Some (map_option of_nat (first (\<lambda>e. call_cmp (st_comp s) p e = 0) (elems s)))"
      by (rule binary_search_first [OF assms(3) _ l(2)])
        (use assms(2) False l(1) in \<open>simp_all add: honest_def first_Some_iff\<close>)
    then show ?thesis using False by (simp add: sk_find_def sk_is_sorted_def matches_def [abs_def])
  qed
qed

text \<open>C35. \<^verbatim>\<open>sk_find\<close> on a stack whose sorted flag tells the truth returns the index of the first element
  equal to the one wanted, by the comparison function or by address when there is none, whether it searches
  linearly or by halving; it says not found exactly when there is no such element.\<close>

theorem find_first:
  assumes "wf_stack s" "honest call_cmp s" "consistent (call_cmp (st_comp s)) (insert p (set (elems s)))"
  shows "sk_find call_cmp (Some s) p = Some (map_option of_nat (first (matches call_cmp s p) (elems s)))"
  by (rule find_correct [OF assms])

definition example_sorted :: stack where
  "example_sorted = \<lparr>st_num = 3, st_data = [5, 7, 7, 0], st_sorted = True, st_num_alloc = 4, st_comp = 1\<rparr>"

definition by_address :: "addr \<Rightarrow> addr \<Rightarrow> addr \<Rightarrow> int" where
  "by_address c a b = uint a - uint b"

theorem find_first_witness: "sk_find by_address (Some example_sorted) 7 = Some (Some 1)"
proof -
  have e: "elems example_sorted = [5, 7, 7]" "wf_stack example_sorted" "honest by_address example_sorted"
    by (simp_all add: elems_def wf_stack_def honest_def example_sorted_def by_address_def)
  moreover have "consistent (by_address (st_comp example_sorted)) A" for A by (auto simp: consistent_def by_address_def)
  ultimately show ?thesis using find_first [of example_sorted by_address 7]
    by (simp add: matches_def [abs_def] by_address_def example_sorted_def)
qed

text \<open>What keeps the flag honest: sorting, and every operation but a store.\<close>

fun stores :: "stack_op \<Rightarrow> bool" where
  "stores (Set_At i p) = True"
| "stores opn = False"

lemma sorted_wrt_delete: "sorted_wrt R xs \<Longrightarrow> sorted_wrt R (delete_at i xs)"
proof -
  assume s: "sorted_wrt R xs"
  then have "sorted_wrt R (take i xs @ drop i xs)" by simp
  then have "\<forall>x\<in>set (take i xs). \<forall>y\<in>set (drop i xs). R x y" unfolding sorted_wrt_append by (elim conjE)
  moreover have "set (drop (Suc i) xs) \<subseteq> set (drop i xs)" by (rule set_drop_subset_set_drop) simp
  ultimately show ?thesis using s by (auto simp: delete_at_def sorted_wrt_append sorted_wrt_take sorted_wrt_drop)
qed

lemma sorted_wrt_remove1: "sorted_wrt R xs \<Longrightarrow> sorted_wrt R (remove1 p xs)"
  by (induction xs) (auto dest: notin_set_remove1 set_remove1_subset [THEN subsetD])

lemma honest_delete:
  assumes "wf_stack s" "honest f s" "sk_delete (Some s) i = Some (r, Some s')"
  shows "honest f s'"
proof (cases rule: delete_spec [OF assms(1), of i])
  case (1 s1)
  then show ?thesis using assms(2,3) by (simp add: honest_def sorted_wrt_delete)
qed

lemma honest_kept:
  assumes "wf_stack s" "honest f s" "\<not> stores opn" "run_stack_op env opn (Some s) = Some (r, Some s')"
  shows "honest f s'"
proof (cases opn)
  case (Insert p i)
  then show ?thesis using assms by (cases rule: insert_spec [OF assms(1), of env p i]) (auto simp: run_stack_op_def honest_def)
next
  case (Push p)
  then show ?thesis using assms
    by (cases rule: insert_spec [OF assms(1), of env p "st_num s"]) (auto simp: run_stack_op_def sk_push_def sk_num_def honest_def)
next
  case (Delete i)
  then show ?thesis using assms(4) honest_delete [OF assms(1,2)] by (simp add: run_stack_op_def)
next
  case (Delete_Ptr p)
  then show ?thesis using assms sorted_wrt_remove1
    by (cases rule: delete_ptr_spec [OF assms(1), of p]) (auto simp: run_stack_op_def honest_def)
next
  case Pop
  then show ?thesis using assms(2,4) honest_delete [OF assms(1,2)] by (simp add: run_stack_op_def sk_pop_def split: if_splits)
next
  case Shift
  then show ?thesis using assms(2,4) honest_delete [OF assms(1,2)] by (simp add: run_stack_op_def sk_shift_def split: if_splits)
next
  case Zero
  then show ?thesis using assms by (cases rule: zero_spec [OF assms(1)]) (auto simp: run_stack_op_def honest_def)
qed (use assms(3) in simp)

lemma sort_spec:
  assumes "wf_stack s" "sorter qsort" "st_comp s \<noteq> 0" "consistent (call_cmp (st_comp s)) (set (elems s))" "honest call_cmp s"
  obtains s' where "sk_sort qsort call_cmp (Some s) = Some (Some s')" "wf_stack s'" "mset (elems s') = mset (elems s)"
    "st_sorted s'" "honest call_cmp s'" "st_comp s' = st_comp s"
proof (cases "st_sorted s")
  case True
  then show ?thesis using that [of s] assms by (simp add: sk_sort_def)
next
  case False
  note q = sorter.permutes [OF assms(2,4)] sorter.sorts [OF assms(2,4)]
  let ?xs = "if st_num s \<ge> 2 then qsort (call_cmp (st_comp s)) (elems s) else elems s"
  let ?s = "s\<lparr>st_data := ?xs @ drop (unat (st_num s)) (st_data s), st_sorted := True\<rparr>"
  have wf: "unat (st_num s) < length (st_data s)" using assms(1) by (simp add: wf_stack_def)
  have len: "length ?xs = unat (st_num s)" using q(1) assms(1) by (auto dest: arg_cong [of _ _ size])
  have split: "elems s @ drop (unat (st_num s)) (st_data s) = st_data s" by (simp add: elems_def)
  have "sk_sort qsort call_cmp (Some s) = Some (Some ?s)"
    using False assms(3) wf split by (simp add: sk_sort_def Let_def elems_def)
  moreover have "wf_stack ?s" using assms(1) len wf by (simp add: wf_stack_def)
  moreover have e: "elems ?s = ?xs" using len by (simp add: elems_def)
  moreover have "mset ?xs = mset (elems s)" using q(1) by simp
  moreover have "sorted_wrt (\<lambda>a b. call_cmp (st_comp s) a b \<le> 0) ?xs"
  proof (cases "st_num s \<ge> 2")
    case True
    then show ?thesis using q(2) by simp
  next
    case False
    then have "length (elems s) < 2" using assms(1) by (simp add: word_le_nat_alt)
    then show ?thesis using False by (cases "elems s"; cases "tl (elems s)") simp_all
  qed
  ultimately show ?thesis using that [of ?s] by (simp add: honest_def)
qed

text \<open>C36. \<^verbatim>\<open>sk_sort\<close>, for any \<^verbatim>\<open>qsort\<close> that keeps its contract, permutes the elements, and afterwards
  \<^verbatim>\<open>sk_find\<close> finds by halving exactly what is there: an element is found if and only if an equal one is on the
  stack, at the least index of the sorted order.\<close>

theorem sort_then_find:
  assumes "wf_stack s" "sorter qsort" "st_comp s \<noteq> 0" "consistent (call_cmp (st_comp s)) (insert p (set (elems s)))"
    and "honest call_cmp s" "p \<noteq> 0"
  shows "\<exists>s'. sk_sort qsort call_cmp (Some s) = Some (Some s') \<and> mset (elems s') = mset (elems s) \<and> st_sorted s' \<and>
    sk_find call_cmp (Some s') p = Some (map_option of_nat (first (\<lambda>e. call_cmp (st_comp s) p e = 0) (elems s'))) \<and>
    (sk_find call_cmp (Some s') p = Some None \<longleftrightarrow> (\<forall>e\<in>set (elems s). call_cmp (st_comp s) p e \<noteq> 0))"
proof -
  have "consistent (call_cmp (st_comp s)) (set (elems s))" by (rule consistent_subset [OF assms(4)]) blast
  from sort_spec [OF assms(1,2,3) this assms(5)] obtain s' where
    s': "sk_sort qsort call_cmp (Some s) = Some (Some s')" "wf_stack s'" "mset (elems s') = mset (elems s)"
      "st_sorted s'" "honest call_cmp s'" "st_comp s' = st_comp s" by blast
  have set: "set (elems s') = set (elems s)" using s'(3) by (rule mset_eq_setD)
  have c: "consistent (call_cmp (st_comp s')) (insert p (set (elems s')))" using assms(4) s'(6) set by simp
  have "matches call_cmp s' p = (\<lambda>e. call_cmp (st_comp s) p e = 0)"
    using s'(6) assms(3,6) by (simp add: matches_def [abs_def])
  with find_correct [OF s'(2,5) c]
  have f: "sk_find call_cmp (Some s') p = Some (map_option of_nat (first (\<lambda>e. call_cmp (st_comp s) p e = 0) (elems s')))"
    by simp
  have "sk_find call_cmp (Some s') p = Some None \<longleftrightarrow> (\<forall>e\<in>set (elems s). call_cmp (st_comp s) p e \<noteq> 0)"
    by (simp add: f first_None_iff set)
  then show ?thesis using s'(1,3,4) f by blast
qed

theorem sort_then_find_witness:
  "\<exists>s'. sk_sort insertion_sort by_address (Some (example_sorted\<lparr>st_data := [7, 5, 7, 0], st_sorted := False\<rparr>)) = Some (Some s') \<and>
     st_sorted s' \<and> (\<exists>i. sk_find by_address (Some s') 5 = Some (Some i))"
proof -
  let ?s = "example_sorted\<lparr>st_data := [7, 5, 7, 0], st_sorted := False\<rparr>"
  have e: "elems ?s = [7, 5, 7]" "wf_stack ?s" "honest by_address ?s" "st_comp ?s \<noteq> 0"
    by (simp_all add: elems_def wf_stack_def honest_def example_sorted_def)
  have "consistent (by_address (st_comp ?s)) A" for A by (auto simp: consistent_def by_address_def)
  note w = sort_then_find [OF e(2) ins.sorter_axioms e(4) this e(3)]
  have "(5 :: addr) \<noteq> 0" by simp
  from w [OF this] obtain s' where
    s': "sk_sort insertion_sort by_address (Some ?s) = Some (Some s')" "st_sorted s'"
    "sk_find by_address (Some s') 5 = Some (map_option of_nat (first (\<lambda>e. by_address (st_comp ?s) 5 e = 0) (elems s')))"
    "sk_find by_address (Some s') 5 = Some None \<longleftrightarrow> (\<forall>e\<in>set (elems ?s). by_address (st_comp ?s) 5 e \<noteq> 0)"
    by (elim exE conjE)
  have "\<not> (\<forall>e\<in>set (elems ?s). by_address (st_comp ?s) 5 e \<noteq> 0)" by (simp add: e(1) by_address_def)
  with s'(4) have "sk_find by_address (Some s') 5 \<noteq> Some None" by blast
  then have "\<exists>i. sk_find by_address (Some s') 5 = Some (Some i)" unfolding s'(3) by (cases "first (\<lambda>e. by_address (st_comp ?s) 5 e = 0) (elems s')") simp_all
  then show ?thesis using s'(1,2) by blast
qed

section \<open>A store does not clear the flag\<close>

lemma search_left:
  "unat hi \<le> length d \<Longrightarrow> (\<And>i. i < unat hi \<Longrightarrow> cmp (d ! i) < 0) \<Longrightarrow> binary_search cmp d lo hi = Some None"
proof (induction "unat hi - unat lo" arbitrary: hi rule: less_induct)
  case less
  show ?case
  proof (cases "lo < hi")
    case True
    note m = middle_value [OF True]
    have l: "unat lo < unat hi" using True by (simp add: word_less_nat_alt)
    then have "unat (middle lo hi) < unat hi" using m by linarith
    moreover from this have "binary_search cmp d lo (middle lo hi) = Some None"
      using less l m by (intro less(1)) auto
    moreover have "cmp (d ! unat (middle lo hi)) < 0" using less(3) calculation(1) .
    ultimately show ?thesis using less(2) True by (simp add: binary_search.simps [of cmp d lo hi] slot_def Let_def)
  qed (simp add: binary_search.simps)
qed

text \<open>C37. \<^verbatim>\<open>sk_set\<close> leaves the sorted flag as it was.  When the last element of a sorted stack of two or more is
  replaced by one that comes before all the others, the flag still says sorted, and \<^verbatim>\<open>sk_find\<close> does not find
  the element that was just stored.\<close>

theorem set_breaks_search:
  assumes "wf_stack s" "st_sorted s" "st_comp s \<noteq> 0" "2 \<le> st_num s" "v \<noteq> 0"
    and "\<forall>e\<in>set (butlast (elems s)). call_cmp (st_comp s) v e < 0"
  shows "\<exists>s'. sk_set (Some s) (st_num s - 1) v = Some (v, Some s') \<and> elems s' = butlast (elems s) @ [v] \<and>
    sk_is_sorted (Some s') \<and> sk_find call_cmp (Some s') v = Some None"
proof -
  let ?n = "unat (st_num s)"
  let ?s = "s\<lparr>st_data := (st_data s)[?n - 1 := v]\<rparr>"
  have n: "2 \<le> ?n" using assms(4) by (simp add: word_le_nat_alt)
  have wf: "?n < length (st_data s)" using assms(1) by (simp add: wf_stack_def)
  have u: "unat (st_num s - 1) = ?n - 1" "st_num s - 1 < st_num s"
    using n unat_sub_if' [of "st_num s" 1] by (simp_all add: word_less_nat_alt)
  have len: "length (elems s) = ?n" using assms(1) by simp
  have "\<not> st_num s \<le> st_num s - 1" "?n - 1 < length (st_data s)" using u(2) wf by (simp_all add: not_le)
  then have set: "sk_set (Some s) (st_num s - 1) v = Some (v, Some ?s)" using u(1) by (simp add: sk_set_def set_slot_def)
  have "elems ?s = (elems s)[?n - 1 := v]" by (simp add: elems_def take_update_swap)
  also have "\<dots> = butlast (elems s) @ [v]" using n unfolding len [symmetric] by (cases "elems s" rule: rev_cases) simp_all
  finally have e: "elems ?s = butlast (elems s) @ [v]" .
  have "call_cmp (st_comp s) v (st_data ?s ! i) < 0" if "i < ?n - 1" for i
  proof -
    have "st_data ?s ! i = butlast (elems s) ! i" using that n len by (simp add: nth_butlast nth_elems)
    moreover have "i < length (butlast (elems s))" using that len by simp
    ultimately show ?thesis using assms(6) nth_mem by metis
  qed
  moreover have lt: "0 < st_num s" using n by (simp add: word_less_nat_alt)
  moreover have m: "unat (middle 0 (st_num s)) = (?n - 1) div 2" "(?n - 1) div 2 < ?n - 1"
    using middle_value [OF lt] n by simp_all
  ultimately have "binary_search (call_cmp (st_comp s) v) (st_data ?s) 0 (middle 0 (st_num s)) = Some None"
    "call_cmp (st_comp s) v (st_data ?s ! unat (middle 0 (st_num s))) < 0" "unat (middle 0 (st_num s)) < length (st_data ?s)"
    using search_left [of "middle 0 (st_num s)" "st_data ?s" "call_cmp (st_comp s) v" 0] wf by simp_all
  then have "binary_search (call_cmp (st_comp s) v) (st_data ?s) 0 (st_num s) = Some None"
    using lt by (simp add: binary_search.simps [of _ _ 0 "st_num s"] slot_def Let_def)
  then have "sk_find call_cmp (Some ?s) v = Some None" using assms(2,3,5) by (simp add: sk_find_def sk_is_sorted_def)
  then show ?thesis using set e assms(2) by (simp add: sk_is_sorted_def)
qed

theorem set_breaks_search_witness:
  "\<exists>s'. sk_set (Some example_sorted) (st_num example_sorted - 1) 3 = Some (3, Some s') \<and>
     elems s' = butlast (elems example_sorted) @ [3] \<and> sk_is_sorted (Some s') \<and> sk_find by_address (Some s') 3 = Some None"
  by (rule set_breaks_search)
    (simp_all add: wf_stack_def elems_def example_sorted_def by_address_def)

section \<open>Copies\<close>

text \<open>The requests of \<^verbatim>\<open>sk_dup\<close>: the structure, its first array, the array as large as that of the original.\<close>

definition dup_granted :: "stack_env \<Rightarrow> stack \<Rightarrow> bool" where
  "dup_granted env s \<longleftrightarrow> grants env sizeof_STACK \<and> grants env (8 * kMinSize) \<and> grants env (8 * st_num_alloc s)"

lemma dup_spec:
  assumes "wf_stack s"
  obtains (failed) "sk_dup env (Some s) = Some None" "\<not> dup_granted env s"
    | (dup) s' where "sk_dup env (Some s) = Some (Some s')" "dup_granted env s" "wf_stack s'" "elems s' = elems s" "st_num s' = st_num s"
      "st_sorted s' = st_sorted s" "st_comp s' = st_comp s"
proof (cases "sk_new env (st_comp s)")
  case None
  then show ?thesis using failed by (auto simp: sk_dup_def sk_new_def dup_granted_def split: if_splits)
next
  case (Some ret)
  then have new: "grants env sizeof_STACK" "grants env (8 * kMinSize)" by (auto simp: sk_new_def split: if_splits)
  have wf: "length (st_data s) = unat (st_num_alloc s)" "unat (st_num s) < unat (st_num_alloc s)" "8 * unat (st_num_alloc s) < 2 ^ 64"
    using assms by (simp_all add: wf_stack_def)
  have u: "unat (8 * st_num_alloc s) = 8 * unat (st_num_alloc s)" using wf(3) by (simp add: unat_word_ariths)
  let ?d = "resize env (unat (st_num_alloc s)) (st_data ret)"
  have d: "length ?d = unat (st_num_alloc s)" by (simp add: resize_def)
  let ?s = "\<lparr>st_num = st_num s, st_data = take (unat (st_num s)) (st_data s) @ drop (unat (st_num s)) ?d,
    st_sorted = st_sorted s, st_num_alloc = st_num_alloc s, st_comp = st_comp s\<rparr>"
  show ?thesis
  proof (cases "grants env (8 * st_num_alloc s)")
    case False
    then show ?thesis using failed Some by (simp add: sk_dup_def dup_granted_def)
  next
    case True
    then have "sk_dup env (Some s) = Some (Some ?s)" "dup_granted env s"
      using Some new wf d u by (simp_all add: sk_dup_def Let_def dup_granted_def)
    moreover have "wf_stack ?s" using wf d by (simp add: wf_stack_def)
    moreover have "elems ?s = elems s" using wf by (simp add: elems_def)
    ultimately show ?thesis using dup [of ?s] by simp
  qed
qed

text \<open>The effect of a function on the elements that are not NULL.\<close>

definition each :: "(addr \<Rightarrow> 's \<Rightarrow> 's) \<Rightarrow> addr list \<Rightarrow> 's \<Rightarrow> 's" where
  "each f xs = fold (\<lambda>e. if e = 0 then id else f e) xs"

lemma each_simps [simp]: "each f [] = id" "each f (x # xs) st = each f xs (if x = 0 then st else f x st)"
  "each f (xs @ ys) st = each f ys (each f xs st)"
  by (simp_all add: each_def fun_eq_iff)

lemma free_prefix:
  assumes "n \<le> length d" "n < 2 ^ 64"
  shows "foldM (\<lambda>j st. map_option (\<lambda>e. if e \<noteq> 0 then f e st else st) (slot d (of_nat j))) [0..<n] st =
    Some (each f (take n d) st)"
  using assms
proof (induction n)
  case (Suc n)
  then show ?case by (simp add: foldM_snoc slot_def take_Suc_conv_app_nth)
qed simp

lemma pop_free_spec: "wf_stack s \<Longrightarrow> sk_pop_free_ex f (Some s) st = Some (each f (elems s) st)"
  using free_prefix [of "unat (st_num s)" "st_data s" f st] by (simp add: sk_pop_free_ex_def elems_def wf_stack_def)

text \<open>\<open>copies call_copy st es cs st'\<close>: copying the elements \<open>es\<close> one after the other from the state \<open>st\<close> on
  gives \<open>cs\<close>, none of them a failure, and leaves \<open>st'\<close>.  What a copy is, and whether it succeeds, may depend
  on the state, so on the calls before.\<close>

inductive copies :: "(addr \<Rightarrow> 's \<Rightarrow> addr \<times> 's) \<Rightarrow> 's \<Rightarrow> addr list \<Rightarrow> addr list \<Rightarrow> 's \<Rightarrow> bool" for call_copy where
  nil: "copies call_copy st [] [] st"
| null: "copies call_copy st es cs st' \<Longrightarrow> copies call_copy st (0 # es) (0 # cs) st'"
| copy: "e \<noteq> 0 \<Longrightarrow> call_copy e st = (c, st1) \<Longrightarrow> c \<noteq> 0 \<Longrightarrow> copies call_copy st1 es cs st' \<Longrightarrow>
    copies call_copy st (e # es) (c # cs) st'"

inductive_simps copies_Nil [simp]: "copies call_copy st [] cs st'"
inductive_simps copies_Cons: "copies call_copy st (e # es) cs st'"

lemma copies_length: "copies call_copy st es cs st' \<Longrightarrow> length cs = length es"
  by (induction rule: copies.induct) simp_all

text \<open>The loop either copies what is left, or stops at the first copy that fails.\<close>

lemma copy_loop_cases:
  "unat i + n \<le> length d \<Longrightarrow> unat i + n < 2 ^ 64 \<Longrightarrow>
   (\<exists>cs st'. copies call_copy st (take n (drop (unat i) d)) cs st' \<and>
     copy_loop call_copy call_free i n d st = Some (Some (take (unat i) d @ cs @ drop (unat i + n) d), st')) \<or>
   (\<exists>es e es' cs st1 st2. take n (drop (unat i) d) = es @ e # es' \<and> e \<noteq> 0 \<and> copies call_copy st es cs st1 \<and>
     call_copy e st1 = (0, st2) \<and>
     copy_loop call_copy call_free i n d st = Some (None, each call_free (take (unat i) d @ cs) st2))"
proof (induction n arbitrary: i d st)
  case (Suc n)
  let ?i = "unat i"
  let ?e = "d ! ?i"
  have i: "unat (i + 1) = ?i + 1" using Suc.prems unat_plus_if' [of i 1] by simp
  have lt: "?i < length d" using Suc.prems by simp
  have cons: "take (Suc n) (drop ?i d) = ?e # take n (drop (Suc ?i) d)" using lt by (simp add: Cons_nth_drop_Suc [symmetric])
  obtain c st0 where call: "call_copy ?e st = (c, st0)" by (cases "call_copy ?e st")
  show ?case
  proof (cases "?e \<noteq> 0 \<and> c = 0")
    case True
    then have "copy_loop call_copy call_free i (Suc n) d st = Some (None, each call_free (take ?i d @ []) st0)"
      using lt free_prefix [of ?i d call_free st0] call by (simp add: slot_def)
    moreover have "copies call_copy st [] [] st" by simp
    ultimately show ?thesis using True call cons append_Nil by metis
  next
    case False
    define c' st' where "c' = (if ?e = 0 then 0 else c)" and "st' = (if ?e = 0 then st else st0)"
    let ?d = "d[?i := c']"
    have loop: "copy_loop call_copy call_free i (Suc n) d st = copy_loop call_copy call_free (i + 1) n ?d st'"
    proof (cases "?e = 0")
      case True
      then have "?d = d" using list_update_id [of d ?i] by (simp add: c'_def)
      then show ?thesis using True lt by (simp add: slot_def st'_def)
    qed (use False call lt in \<open>simp add: slot_def c'_def st'_def\<close>)
    have step: "copies call_copy st (?e # es) (c' # cs) st1" if "copies call_copy st' es cs st1" for es cs st1
      using that False call by (auto simp: copies_Cons c'_def st'_def)
    have parts: "take (Suc ?i) ?d = take ?i d @ [c']" "drop (Suc ?i) ?d = drop (Suc ?i) d" "drop (Suc ?i + n) ?d = drop (Suc ?i + n) d"
      using lt by (simp_all add: take_Suc_conv_app_nth)
    have "unat (i + 1) + n \<le> length ?d" "unat (i + 1) + n < 2 ^ 64" using Suc.prems i by simp_all
    from Suc.IH [OF this, of st'] show ?thesis
    proof (elim disjE exE conjE)
      fix cs st1
      assume "copies call_copy st' (take n (drop (unat (i + 1)) ?d)) cs st1"
        "copy_loop call_copy call_free (i + 1) n ?d st' = Some (Some (take (unat (i + 1)) ?d @ cs @ drop (unat (i + 1) + n) ?d), st1)"
      then have "copies call_copy st (take (Suc n) (drop ?i d)) (c' # cs) st1"
        "copy_loop call_copy call_free i (Suc n) d st = Some (Some (take ?i d @ (c' # cs) @ drop (?i + Suc n) d), st1)"
        using step loop parts by (simp_all add: i cons)
      then show ?thesis by blast
    next
      fix es e es' cs st1 st2
      assume "take n (drop (unat (i + 1)) ?d) = es @ e # es'" "e \<noteq> 0" "copies call_copy st' es cs st1" "call_copy e st1 = (0, st2)"
        "copy_loop call_copy call_free (i + 1) n ?d st' = Some (None, each call_free (take (unat (i + 1)) ?d @ cs) st2)"
      then have "take (Suc n) (drop ?i d) = (?e # es) @ e # es'" "e \<noteq> 0" "copies call_copy st (?e # es) (c' # cs) st1"
        "call_copy e st1 = (0, st2)"
        "copy_loop call_copy call_free i (Suc n) d st = Some (None, each call_free (take ?i d @ (c' # cs)) st2)"
        using step loop parts by (simp_all add: i cons)
      then show ?thesis by blast
    qed
  qed
qed (auto simp: take_all)

text \<open>C38. \<^verbatim>\<open>sk_deep_copy\<close> is all or nothing, for any copy and free functions, which may work on a state of
  their own (a heap, a counter), so that a copy may succeed or fail depending on the calls before.  When one of
  the three requests of \<^verbatim>\<open>sk_dup\<close> is refused, NULL is returned and neither function is called.  Otherwise
  either every element that is not NULL is copied, in order, and the new stack holds the copies (NULL for NULL),
  with the same flag and comparison, and nothing is freed; or the copies of the elements before some element were made and that
  element's copy failed: then exactly those copies are freed, in order, nothing more is copied, and NULL is
  returned.\<close>

theorem deep_copy_all_or_nothing:
  assumes "wf_stack s"
  shows "if dup_granted env s then
      (\<exists>s' cs st'. copies call_copy st (elems s) cs st' \<and>
         sk_deep_copy env call_copy call_free (Some s) st = Some (Some s', st') \<and>
         wf_stack s' \<and> elems s' = cs \<and> st_sorted s' = st_sorted s \<and> st_comp s' = st_comp s) \<or>
      (\<exists>es e es' cs st1 st2. elems s = es @ e # es' \<and> e \<noteq> 0 \<and> copies call_copy st es cs st1 \<and>
         call_copy e st1 = (0, st2) \<and>
         sk_deep_copy env call_copy call_free (Some s) st = Some (None, each call_free cs st2))
    else sk_deep_copy env call_copy call_free (Some s) st = Some (None, st)"
proof (cases rule: dup_spec [OF assms(1), of env])
  case 1
  then show ?thesis by (simp add: sk_deep_copy_def)
next
  case (2 r)
  let ?n = "unat (st_num r)"
  have wf: "?n < length (st_data r)" "?n < 2 ^ 64" using 2(3) by (simp_all add: wf_stack_def)
  have e: "take ?n (st_data r) = elems s" using 2(4) by (simp add: elems_def)
  have "unat (0 :: u64) + ?n \<le> length (st_data r)" "unat (0 :: u64) + ?n < 2 ^ 64" using wf by simp_all
  from copy_loop_cases [OF this, of call_copy st call_free] show ?thesis
  proof (elim disjE exE conjE)
    fix cs st'
    assume cs: "copies call_copy st (take ?n (drop (unat (0 :: u64)) (st_data r))) cs st'"
      "copy_loop call_copy call_free 0 ?n (st_data r) st =
        Some (Some (take (unat (0 :: u64)) (st_data r) @ cs @ drop (unat (0 :: u64) + ?n) (st_data r)), st')"
    let ?s = "r\<lparr>st_data := cs @ drop ?n (st_data r)\<rparr>"
    have l: "length cs = ?n" using copies_length [OF cs(1)] wf by simp
    then have "wf_stack ?s" "elems ?s = cs" using 2(3) wf by (simp_all add: wf_stack_def elems_def)
    moreover have "sk_deep_copy env call_copy call_free (Some s) st = Some (Some ?s, st')"
      using cs(2) 2(1) by (simp add: sk_deep_copy_def)
    moreover have "copies call_copy st (elems s) cs st'" using cs(1) e by simp
    moreover have "st_sorted ?s = st_sorted s" "st_comp ?s = st_comp s" using 2 by simp_all
    ultimately show ?thesis using 2(2) by (metis (no_types, lifting))
  next
    fix es x es' cs st1 st2
    assume f: "take ?n (drop (unat (0 :: u64)) (st_data r)) = es @ x # es'" "x \<noteq> 0" "copies call_copy st es cs st1"
      "call_copy x st1 = (0, st2)"
      "copy_loop call_copy call_free 0 ?n (st_data r) st = Some (None, each call_free (take (unat (0 :: u64)) (st_data r) @ cs) st2)"
    then have "elems s = es @ x # es'" "sk_deep_copy env call_copy call_free (Some s) st = Some (None, each call_free cs st2)"
      using e 2(1) by (simp_all add: sk_deep_copy_def)
    then show ?thesis using f(2-4) 2(2) by (simp add: exI) blast
  qed
qed

text \<open>A copier that hands out addresses from a store and fails when two are given away; all that is freed is noted.
  The third element of the stack cannot be copied, so both copies are freed.\<close>

definition hand_out :: "addr \<Rightarrow> nat \<times> addr list \<Rightarrow> addr \<times> nat \<times> addr list" where
  "hand_out e st = (if fst st < 2 then (100 + of_nat (fst st), Suc (fst st), snd st) else (0, st))"

theorem deep_copy_all_or_nothing_witness:
  "sk_deep_copy example_stack_env hand_out (\<lambda>c (n, freed). (n, freed @ [c])) (Some example_sorted) (0, []) =
     Some (None, 2, [100, 101])"
proof -
  have e: "elems example_sorted = [5, 7, 7]" "wf_stack example_sorted" "dup_granted example_stack_env example_sorted"
    by (simp_all add: elems_def wf_stack_def example_sorted_def dup_granted_def example_stack_env_def)
  have "False" if "copies hand_out (0, []) [5, 7, 7] cs st'" for cs st'
    using that by (auto simp: copies_Cons hand_out_def)
  moreover have "cs = [100, 101] \<and> st2 = (2, [])"
    if "[5, 7, 7] = es @ x # es'" "copies hand_out (0, []) es cs st1" "hand_out x st1 = (0, st2)" for es x es' cs st1 st2
    using that by (auto simp: Cons_eq_append_conv copies_Cons hand_out_def)
  ultimately show ?thesis
    using deep_copy_all_or_nothing [OF e(2), of example_stack_env hand_out "(0, [])" "\<lambda>c (n, freed). (n, freed @ [c])"]
    by (fastforce simp: e)
qed

end
