(* ===== verification/Lhash.thy ===== *)
theory Lhash
  imports Openssl_Mem "HOL-Library.Multiset"
begin

text \<open>
  BoringSSL's chained hash table, \<^verbatim>\<open>crypto/lhash/lhash.c\<close>.  The items are objects in a store, linked by
  their \<^verbatim>\<open>next\<close> pointers; a pointer to a pointer is a \<open>cell\<close>, an element of the array of buckets
  or the \<^verbatim>\<open>next\<close> field of an item.  The hash and comparison functions of the client, and the allocator, are
  \<open>lh_env\<close>.  A result \<open>None\<close> is undefined behaviour (a dead item, an access outside the array) or a walk along
  a chain that never ends.
\<close>

section \<open>The code\<close>

definition kMinNumBuckets :: u64 where "kMinNumBuckets = 16"
definition kMaxAverageChainLength :: u64 where "kMaxAverageChainLength = 2"
definition kMinAverageChainLength :: u64 where "kMinAverageChainLength = 1"

record lh_item =
  i_data :: addr
  i_next :: addr
  i_hash :: u32

type_synonym item_store = "addr \<Rightarrow> lh_item option"

record lhash =
  num_items :: u64
  buckets :: "addr list"
  num_buckets :: u64
  callback_depth :: u32
  comp_func :: addr
  hash_func :: addr
  items :: item_store

record lh_env =
  call_hash :: "addr \<Rightarrow> addr \<Rightarrow> u32"
  call_cmp :: "addr \<Rightarrow> addr \<Rightarrow> addr \<Rightarrow> int"
  array_ok :: "u64 \<Rightarrow> bool"
  place_item :: "item_store \<Rightarrow> addr option"

definition lh_new :: "lh_env \<Rightarrow> addr \<Rightarrow> addr \<Rightarrow> item_store \<Rightarrow> lhash option" where
  "lh_new env hash_fn cmp_fn st =
     (if \<not> array_ok env 48 then None
      else if \<not> array_ok env (8 * kMinNumBuckets) then None
      else Some \<lparr>num_items = 0, buckets = replicate (unat kMinNumBuckets) 0, num_buckets = kMinNumBuckets,
        callback_depth = 0, comp_func = cmp_fn, hash_func = hash_fn, items = st\<rparr>)"

text \<open>What remains of the store.\<close>

partial_function (option) free_chain :: "addr \<Rightarrow> item_store \<Rightarrow> item_store option" where
  "free_chain n st =
     (if n = 0 then Some st
      else case st n of None \<Rightarrow> None | Some it \<Rightarrow> free_chain (i_next it) (st(n := None)))"

definition lh_free :: "lhash option \<Rightarrow> item_store \<Rightarrow> item_store option" where
  "lh_free lh st =
     (case lh of
        None \<Rightarrow> Some st
      | Some s \<Rightarrow>
          foldM (\<lambda>i st. if i < length (buckets s) then free_chain (buckets s ! i) st else None)
            [0..<unat (num_buckets s)] (items s))"

definition lh_num_items :: "lhash \<Rightarrow> u64" where
  "lh_num_items s = num_items s"

datatype cell = Bucket u64 | Next_Of addr

fun deref :: "lhash \<Rightarrow> cell \<Rightarrow> addr option" where
  "deref s (Bucket i) = (if unat i < length (buckets s) then Some (buckets s ! unat i) else None)"
| "deref s (Next_Of x) = map_option i_next (items s x)"

fun assign :: "cell \<Rightarrow> addr \<Rightarrow> lhash \<Rightarrow> lhash option" where
  "assign (Bucket i) v s =
     (if unat i < length (buckets s) then Some (s\<lparr>buckets := (buckets s)[unat i := v]\<rparr>) else None)"
| "assign (Next_Of x) v s =
     map_option (\<lambda>it. s\<lparr>items := (items s)(x \<mapsto> it\<lparr>i_next := v\<rparr>)\<rparr>) (items s x)"

text \<open>The walk to the cell that points to the first item that \<open>hit\<close> accepts, or to NULL.\<close>

partial_function (option) find_cell :: "(addr \<Rightarrow> bool) \<Rightarrow> lhash \<Rightarrow> cell \<Rightarrow> cell option" where
  "find_cell hit s ret =
     (case deref s ret of
        None \<Rightarrow> None
      | Some cur \<Rightarrow>
          if cur = 0 then Some ret
          else case items s cur of
              None \<Rightarrow> None
            | Some it \<Rightarrow> if hit (i_data it) then Some ret else find_cell hit s (Next_Of cur))"

definition bucket_of :: "u32 \<Rightarrow> u64 \<Rightarrow> u64" where
  "bucket_of hash n = ucast hash mod n"

definition get_next_ptr_and_hash :: "lh_env \<Rightarrow> lhash \<Rightarrow> addr \<Rightarrow> (u32 \<times> cell) option" where
  "get_next_ptr_and_hash env s data =
     (let hash = call_hash env (hash_func s) data in
      map_option (Pair hash)
        (find_cell (\<lambda>d. call_cmp env (comp_func s) d data = 0) s (Bucket (bucket_of hash (num_buckets s)))))"

definition get_next_ptr_by_key :: "lhash \<Rightarrow> addr \<Rightarrow> u32 \<Rightarrow> (addr \<Rightarrow> addr \<Rightarrow> int) \<Rightarrow> cell option" where
  "get_next_ptr_by_key s key key_hash cmp_key =
     find_cell (\<lambda>d. cmp_key key d = 0) s (Bucket (bucket_of key_hash (num_buckets s)))"

definition data_at :: "lhash \<Rightarrow> cell \<Rightarrow> addr option" where
  "data_at s next_ptr =
     Option.bind (deref s next_ptr) (\<lambda>p. if p = 0 then Some 0 else map_option i_data (items s p))"

definition lh_retrieve :: "lh_env \<Rightarrow> lhash \<Rightarrow> addr \<Rightarrow> addr option" where
  "lh_retrieve env s data = Option.bind (get_next_ptr_and_hash env s data) (\<lambda>(_, next_ptr). data_at s next_ptr)"

definition lh_retrieve_key :: "lhash \<Rightarrow> addr \<Rightarrow> u32 \<Rightarrow> (addr \<Rightarrow> addr \<Rightarrow> int) \<Rightarrow> addr option" where
  "lh_retrieve_key s key key_hash cmp_key = Option.bind (get_next_ptr_by_key s key key_hash cmp_key) (data_at s)"

text \<open>The items of a chain go to the front of their new chains.\<close>

partial_function (option) rebucket_chain :: "u64 \<Rightarrow> addr \<Rightarrow> item_store \<times> addr list \<Rightarrow> (item_store \<times> addr list) option" where
  "rebucket_chain n cur st =
     (if cur = 0 then Some st
      else case st of
          (its, nb) \<Rightarrow>
            (case its cur of
               None \<Rightarrow> None
             | Some it \<Rightarrow>
                 let new_bucket = unat (bucket_of (i_hash it) n) in
                 if new_bucket < length nb
                 then rebucket_chain n (i_next it) (its(cur \<mapsto> it\<lparr>i_next := nb ! new_bucket\<rparr>), nb[new_bucket := cur])
                 else None))"

definition lh_rebucket :: "lh_env \<Rightarrow> u64 \<Rightarrow> lhash \<Rightarrow> lhash option" where
  "lh_rebucket env new_num_buckets s =
     (let alloc_size = 8 * new_num_buckets in
      if alloc_size div 8 \<noteq> new_num_buckets then Some s
      else if \<not> array_ok env alloc_size then Some s
      else
        map_option (\<lambda>(its, nb). s\<lparr>num_buckets := new_num_buckets, buckets := nb, items := its\<rparr>)
          (foldM (\<lambda>i st. if i < length (buckets s) then rebucket_chain new_num_buckets (buckets s ! i) st else None)
            [0..<unat (num_buckets s)] (items s, replicate (unat new_num_buckets) 0)))"

definition lh_maybe_resize :: "lh_env \<Rightarrow> lhash \<Rightarrow> lhash option" where
  "lh_maybe_resize env s =
     (if callback_depth s > 0 then Some s
      else
        let avg_chain_length = num_items s div num_buckets s in
        if avg_chain_length > kMaxAverageChainLength then
          (let new_num_buckets = num_buckets s * 2 in
           if new_num_buckets > num_buckets s then lh_rebucket env new_num_buckets s else Some s)
        else if avg_chain_length < kMinAverageChainLength \<and> num_buckets s > kMinNumBuckets then
          (let new_num_buckets = num_buckets s div 2;
               new_num_buckets = (if new_num_buckets < kMinNumBuckets then kMinNumBuckets else new_num_buckets) in
           lh_rebucket env new_num_buckets s)
        else Some s)"

text \<open>The result, \<^verbatim>\<open>*old_data\<close>, and the table.\<close>

definition lh_insert :: "lh_env \<Rightarrow> addr \<Rightarrow> lhash \<Rightarrow> (bool \<times> addr \<times> lhash) option" where
  "lh_insert env data s =
     do {
       (hash, next_ptr) \<leftarrow> get_next_ptr_and_hash env s data;
       p \<leftarrow> deref s next_ptr;
       if p \<noteq> 0 then do {
         it \<leftarrow> items s p;
         Some (True, i_data it, s\<lparr>items := (items s)(p \<mapsto> it\<lparr>i_data := data\<rparr>)\<rparr>)
       }
       else
         case place_item env (items s) of
           None \<Rightarrow> Some (False, 0, s)
         | Some item \<Rightarrow>
             do {
               s \<leftarrow> assign next_ptr item (s\<lparr>items := (items s)(item \<mapsto> \<lparr>i_data = data, i_next = 0, i_hash = hash\<rparr>)\<rparr>);
               s \<leftarrow> lh_maybe_resize env (s\<lparr>num_items := num_items s + 1\<rparr>);
               Some (True, 0, s)
             }
     }"

definition lh_delete :: "lh_env \<Rightarrow> addr \<Rightarrow> lhash \<Rightarrow> (addr \<times> lhash) option" where
  "lh_delete env data s =
     do {
       (_, next_ptr) \<leftarrow> get_next_ptr_and_hash env s data;
       p \<leftarrow> deref s next_ptr;
       if p = 0 then Some (0, s)
       else do {
         it \<leftarrow> items s p;
         s \<leftarrow> assign next_ptr (i_next it) s;
         s \<leftarrow> lh_maybe_resize env (s\<lparr>items := (items s)(p := None), num_items := num_items s - 1\<rparr>);
         Some (i_data it, s)
       }
     }"

text \<open>The callback gets an element's data and may change the table and a state of its own.\<close>

partial_function (option) doall_chain ::
  "(addr \<Rightarrow> lhash \<times> 's \<Rightarrow> (lhash \<times> 's) option) \<Rightarrow> addr \<Rightarrow> lhash \<times> 's \<Rightarrow> (lhash \<times> 's) option" where
  "doall_chain func cur st =
     (if cur = 0 then Some st
      else case items (fst st) cur of
          None \<Rightarrow> None
        | Some it \<Rightarrow> Option.bind (func (i_data it) st) (doall_chain func (i_next it)))"

partial_function (option) doall_from ::
  "(addr \<Rightarrow> lhash \<times> 's \<Rightarrow> (lhash \<times> 's) option) \<Rightarrow> u64 \<Rightarrow> lhash \<times> 's \<Rightarrow> (lhash \<times> 's) option" where
  "doall_from func i st =
     (if i < num_buckets (fst st) then
        (if unat i < length (buckets (fst st))
         then Option.bind (doall_chain func (buckets (fst st) ! unat i) st) (doall_from func (i + 1))
         else None)
      else Some st)"

definition lh_doall_arg ::
  "lh_env \<Rightarrow> (addr \<Rightarrow> lhash \<times> 's \<Rightarrow> (lhash \<times> 's) option) \<Rightarrow> lhash option \<Rightarrow> 's \<Rightarrow> (lhash option \<times> 's) option" where
  "lh_doall_arg env func lh a =
     (case lh of
        None \<Rightarrow> Some (lh, a)
      | Some s \<Rightarrow>
          let s = (if callback_depth s < 0xffffffff then s\<lparr>callback_depth := callback_depth s + 1\<rparr> else s) in
          (case doall_from func 0 (s, a) of
             None \<Rightarrow> None
           | Some (s, a) \<Rightarrow>
               let s = (if callback_depth s < 0xffffffff then s\<lparr>callback_depth := callback_depth s - 1\<rparr> else s) in
               map_option (\<lambda>s. (Some s, a)) (lh_maybe_resize env s)))"

definition lh_strhash :: "mem \<Rightarrow> addr \<Rightarrow> u32 option" where
  "lh_strhash m c = (if c = 0 then Some 0 else map_option (OPENSSL_hash32 m c) (c_strlen m c 0))"

section \<open>Chains\<close>

fun links :: "item_store \<Rightarrow> addr \<Rightarrow> addr list \<Rightarrow> bool" where
  "links st a [] \<longleftrightarrow> a = 0"
| "links st a (x # xs) \<longleftrightarrow> a = x \<and> x \<noteq> 0 \<and> (\<exists>it. st x = Some it \<and> links st (i_next it) xs)"

definition dat :: "item_store \<Rightarrow> addr \<Rightarrow> addr" where
  "dat st x = (case st x of None \<Rightarrow> 0 | Some it \<Rightarrow> i_data it)"

text \<open>Two stores hold the same items but for their links.\<close>

definition relinked :: "item_store \<Rightarrow> item_store \<Rightarrow> bool" where
  "relinked st st' \<longleftrightarrow> (\<forall>x. map_option (\<lambda>it. (i_data it, i_hash it)) (st' x) = map_option (\<lambda>it. (i_data it, i_hash it)) (st x))"

lemma relinked_refl [simp]: "relinked st st"
  by (simp add: relinked_def)

lemma relinked_trans: "relinked a b \<Longrightarrow> relinked b c \<Longrightarrow> relinked a c"
  by (simp add: relinked_def)

lemma relinked_upd: "st x = Some it \<Longrightarrow> relinked st (st(x \<mapsto> it\<lparr>i_next := v\<rparr>))"
  by (simp add: relinked_def)

lemma relinked_dat: "relinked st st' \<Longrightarrow> dat st' x = dat st x"
proof -
  assume "relinked st st'"
  then have "map_option (\<lambda>it. (i_data it, i_hash it)) (st' x) = map_option (\<lambda>it. (i_data it, i_hash it)) (st x)"
    by (simp add: relinked_def)
  then show ?thesis by (cases "st x"; cases "st' x") (simp_all add: dat_def)
qed

lemma relinkedE:
  assumes "relinked st st'" "st' x = Some it'"
  obtains it where "st x = Some it" "i_data it' = i_data it" "i_hash it' = i_hash it"
proof -
  have "map_option (\<lambda>it. (i_data it, i_hash it)) (st' x) = map_option (\<lambda>it. (i_data it, i_hash it)) (st x)"
    using assms(1) by (simp add: relinked_def)
  then show ?thesis using that assms(2) by (cases "st x") simp_all
qed

lemma chain_frame: "(\<And>x. x \<in> set xs \<Longrightarrow> st' x = st x) \<Longrightarrow> links st' a xs \<longleftrightarrow> links st a xs"
  by (induction xs arbitrary: a) auto

lemma chain_upd: "y \<notin> set xs \<Longrightarrow> links (st(y := v)) a xs \<longleftrightarrow> links st a xs"
  by (rule chain_frame) auto

lemma chain_data: "(\<And>x. x \<in> set xs \<Longrightarrow> map_option i_next (st' x) = map_option i_next (st x)) \<Longrightarrow> links st' a xs \<longleftrightarrow> links st a xs"
proof (induction xs arbitrary: a)
  case (Cons x xs)
  then have "map_option i_next (st' x) = map_option i_next (st x)" "\<And>a. links st' a xs \<longleftrightarrow> links st a xs" by auto
  then show ?case by (cases "st x"; cases "st' x") simp_all
qed simp

lemma chain_live: "links st a xs \<Longrightarrow> x \<in> set xs \<Longrightarrow> x \<noteq> 0 \<and> st x \<noteq> None"
  by (induction xs arbitrary: a) auto

lemma chain_hd: "links st a xs \<Longrightarrow> a = (if xs = [] then 0 else hd xs)"
  by (cases xs) auto

text \<open>The first part of a chain with other items behind it.\<close>

lemma chain_relink:
  "links st a (qs @ p # rs) \<Longrightarrow> st p = Some it \<Longrightarrow> distinct (qs @ [p]) \<Longrightarrow> links st v ys \<Longrightarrow> p \<notin> set ys \<Longrightarrow>
   links (st(p \<mapsto> it\<lparr>i_next := v\<rparr>)) a (qs @ p # ys)"
proof (induction qs arbitrary: a)
  case Nil
  then show ?case using chain_upd [of p ys st "Some (it\<lparr>i_next := v\<rparr>)" v] by (auto simp del: fun_upd_apply simp add: fun_upd_same)
qed auto

lemma chain_rest: "links st a (qs @ p # rs) \<Longrightarrow> st p = Some it \<Longrightarrow> links st (i_next it) rs"
  by (induction qs arbitrary: a) auto

text \<open>The cell behind the items \<open>ps\<close> of a chain that starts at \<open>c\<close>.\<close>

definition cell_after :: "cell \<Rightarrow> addr list \<Rightarrow> cell" where
  "cell_after c ps = (if ps = [] then c else Next_Of (last ps))"

lemma find_cell_chain:
  assumes "deref s c = Some a" "links (items s) a xs"
  shows "find_cell hit s c = Some (cell_after c (takeWhile (\<lambda>x. \<not> hit (dat (items s) x)) xs))"
  using assms
proof (induction xs arbitrary: a c)
  case Nil
  then show ?case by (simp add: find_cell.simps [of hit s c] cell_after_def)
next
  case (Cons x xs)
  then obtain it where it: "items s x = Some it" "links (items s) (i_next it) xs" "a = x" "x \<noteq> 0" by auto
  show ?case
  proof (cases "hit (i_data it)")
    case True
    then show ?thesis using Cons.prems it by (simp add: find_cell.simps [of hit s c] cell_after_def dat_def)
  next
    case False
    have "find_cell hit s c = find_cell hit s (Next_Of x)"
      using Cons.prems it False by (simp add: find_cell.simps [of hit s c])
    also have "\<dots> = Some (cell_after (Next_Of x) (takeWhile (\<lambda>x. \<not> hit (dat (items s) x)) xs))"
      using it by (intro Cons.IH) auto
    finally show ?thesis using False it(1) by (simp add: cell_after_def dat_def)
  qed
qed

lemma deref_after:
  assumes "deref s c = Some a" "links (items s) a (ps @ rs)"
  shows "deref s (cell_after c ps) = Some (if rs = [] then 0 else hd rs)"
proof (cases ps rule: rev_cases)
  case Nil
  then show ?thesis using assms chain_hd by (fastforce simp: cell_after_def)
next
  case (snoc qs p)
  then have c: "links (items s) a (qs @ p # rs)" using assms(2) by simp
  then obtain it where it: "items s p = Some it" using chain_live [of "items s" a "qs @ p # rs" p] by auto
  show ?thesis using chain_hd [OF chain_rest [OF c it]] it snoc by (simp add: cell_after_def)
qed

section \<open>Assigning to a cell\<close>

lemma assign_after:
  assumes "unat i < length (buckets s)" "links (items s) (buckets s ! unat i) (ps @ rs)" "distinct ps"
    and "links (items s) v ys" "set ys \<inter> set ps = {}"
  obtains s' where "assign (cell_after (Bucket i) ps) v s = Some s'"
    "links (items s') (buckets s' ! unat i) (ps @ ys)" "\<And>x. x \<notin> set ps \<Longrightarrow> items s' x = items s x"
    "\<And>j. j \<noteq> unat i \<Longrightarrow> buckets s' ! j = buckets s ! j" "length (buckets s') = length (buckets s)"
    "relinked (items s) (items s')" "s' = s\<lparr>buckets := buckets s', items := items s'\<rparr>"
proof (cases ps rule: rev_cases)
  case Nil
  show ?thesis
    by (rule that [of "s\<lparr>buckets := (buckets s)[unat i := v]\<rparr>"]) (use Nil assms in \<open>simp_all add: cell_after_def\<close>)
next
  case (snoc qs p)
  then have c: "links (items s) (buckets s ! unat i) (qs @ p # rs)" using assms(2) by simp
  then obtain it where it: "items s p = Some it" using chain_live [of "items s" _ "qs @ p # rs" p] by auto
  have "links ((items s)(p \<mapsto> it\<lparr>i_next := v\<rparr>)) (buckets s ! unat i) (ps @ ys)"
    using chain_relink [OF c it _ assms(4)] assms(3,5) snoc by simp
  then show ?thesis
    by (intro that [of "s\<lparr>items := (items s)(p \<mapsto> it\<lparr>i_next := v\<rparr>)\<rparr>"])
      (use snoc it in \<open>simp_all add: cell_after_def relinked_upd\<close>)
qed

section \<open>Rebucketing\<close>

definition home :: "u64 \<Rightarrow> item_store \<Rightarrow> addr \<Rightarrow> nat" where
  "home n st x = (case st x of None \<Rightarrow> 0 | Some it \<Rightarrow> unat (bucket_of (i_hash it) n))"

text \<open>The items \<open>xs\<close>, one after the other, to the front of their lists.\<close>

definition push :: "(addr \<Rightarrow> nat) \<Rightarrow> addr \<Rightarrow> addr list list \<Rightarrow> addr list list" where
  "push b x ds = ds[b x := x # ds ! b x]"

lemma home_less: "0 < n \<Longrightarrow> home n st x < unat n"
  by (auto simp: home_def bucket_of_def unat_gt_0 unat_mod word_neq_0_conv split: option.splits)

lemma relinked_home: "relinked st st' \<Longrightarrow> home n st' x = home n st x"
proof -
  assume "relinked st st'"
  then have "map_option (\<lambda>it. (i_data it, i_hash it)) (st' x) = map_option (\<lambda>it. (i_data it, i_hash it)) (st x)"
    by (simp add: relinked_def)
  then show ?thesis by (cases "st x"; cases "st' x") (simp_all add: home_def)
qed

lemma length_push [simp]: "length (push b x ds) = length ds"
  by (simp add: push_def)

lemma length_pushes [simp]: "length (fold (push b) xs ds) = length ds"
  by (induction xs arbitrary: ds) simp_all

lemma concat_at:
  assumes "b < length css"
  shows "concat (css[b := zs]) = concat (take b css) @ zs @ concat (drop (Suc b) css)"
    and "concat css = concat (take b css) @ css ! b @ concat (drop (Suc b) css)"
proof -
  show "concat (css[b := zs]) = concat (take b css) @ zs @ concat (drop (Suc b) css)"
    using assms by (simp add: upd_conv_take_nth_drop)
  have "css = take b css @ css ! b # drop (Suc b) css" using assms by (rule id_take_nth_drop)
  from arg_cong [OF this, of concat] show "concat css = concat (take b css) @ css ! b @ concat (drop (Suc b) css)" by simp
qed

lemma mset_push: "b x < length ds \<Longrightarrow> mset (concat (push b x ds)) = add_mset x (mset (concat ds))"
  using concat_at [of "b x" ds] by (simp add: push_def)

lemma mset_pushes:
  "(\<And>x. b x < length ds) \<Longrightarrow> mset (concat (fold (push b) xs ds)) = mset xs + mset (concat ds)"
proof (induction xs arbitrary: ds)
  case (Cons x xs)
  have "mset (concat (fold (push b) xs (push b x ds))) = mset xs + mset (concat (push b x ds))"
    using Cons.prems by (intro Cons.IH) simp
  then show ?case using mset_push [OF Cons.prems] by simp
qed simp

text \<open>Every list holds what belongs there.\<close>

definition homed :: "(addr \<Rightarrow> nat) \<Rightarrow> addr list list \<Rightarrow> bool" where
  "homed b ds \<longleftrightarrow> (\<forall>i<length ds. \<forall>x\<in>set (ds ! i). b x = i)"

lemma homed_pushes: "(\<And>x. b x < length ds) \<Longrightarrow> homed b ds \<Longrightarrow> homed b (fold (push b) xs ds)"
proof (induction xs arbitrary: ds)
  case (Cons x xs)
  have "homed b (push b x ds)" using Cons.prems by (auto simp: homed_def push_def nth_list_update)
  then show ?case using Cons by simp
qed simp

lemma rebucket_chain_spec:
  assumes "0 < n"
  shows "links its cur xs \<Longrightarrow> length nb = unat n \<Longrightarrow> length ds = unat n \<Longrightarrow>
    \<forall>i<unat n. links its (nb ! i) (ds ! i) \<Longrightarrow> distinct xs \<Longrightarrow> set xs \<inter> set (concat ds) = {} \<Longrightarrow>
    \<exists>its' nb'. rebucket_chain n cur (its, nb) = Some (its', nb') \<and> length nb' = unat n \<and> relinked its its' \<and>
      (\<forall>i<unat n. links its' (nb' ! i) (fold (push (home n its)) xs ds ! i)) \<and> (\<forall>x. x \<notin> set xs \<longrightarrow> its' x = its x)"
proof (induction xs arbitrary: its cur nb ds)
  case Nil
  then show ?case by (simp add: rebucket_chain.simps)
next
  case (Cons x xs)
  then obtain it where it: "its x = Some it" "links its (i_next it) xs" "cur = x" "x \<noteq> 0" by auto
  let ?b = "home n its x"
  let ?its = "its(x \<mapsto> it\<lparr>i_next := nb ! ?b\<rparr>)"
  let ?nb = "nb[?b := x]"
  have b: "?b < unat n" by (rule home_less [OF assms])
  have rel: "relinked its ?its" by (rule relinked_upd) (rule it(1))
  have home: "home n ?its = home n its" using relinked_home [OF rel] by blast
  have x: "x \<notin> set xs" "x \<notin> set (concat ds)" using Cons.prems(5,6) by auto
  have xi: "x \<notin> set (ds ! i)" if "i < unat n" for i using x(2) that Cons.prems(3) by auto
  have "mset (concat (push (home n its) x ds)) = add_mset x (mset (concat ds))" using b Cons.prems(3) by (intro mset_push) simp
  then have set: "set (concat (push (home n its) x ds)) = insert x (set (concat ds))" by (metis set_mset_add_mset_insert set_mset_mset)
  have "\<exists>its' nb'. rebucket_chain n (i_next it) (?its, ?nb) = Some (its', nb') \<and> length nb' = unat n \<and> relinked ?its its' \<and>
      (\<forall>i<unat n. links its' (nb' ! i) (fold (push (home n ?its)) xs (push (home n its) x ds) ! i)) \<and>
      (\<forall>x. x \<notin> set xs \<longrightarrow> its' x = ?its x)"
  proof (rule Cons.IH)
    show "links ?its (i_next it) xs" using it(2) chain_upd [OF x(1)] by simp
    show "length ?nb = unat n" "length (push (home n its) x ds) = unat n" using Cons.prems by simp_all
    show "\<forall>i<unat n. links ?its (?nb ! i) (push (home n its) x ds ! i)"
    proof (intro allI impI)
      fix i assume i: "i < unat n"
      have old: "links ?its (nb ! i) (ds ! i)" using Cons.prems(4) i chain_upd [OF xi [OF i]] by simp
      show "links ?its (?nb ! i) (push (home n its) x ds ! i)"
      proof (cases "i = ?b")
        case True
        then show ?thesis using old b Cons.prems(2,3) it(4) by (auto simp: push_def simp del: fun_upd_apply simp add: fun_upd_same)
      next
        case False
        then show ?thesis using old by (simp add: push_def)
      qed
    qed
    show "distinct xs" using Cons.prems(5) by simp
    show "set xs \<inter> set (concat (push (home n its) x ds)) = {}" unfolding set using Cons.prems(5,6) by auto
  qed
  then obtain its' nb' where r: "rebucket_chain n (i_next it) (?its, ?nb) = Some (its', nb')" "length nb' = unat n"
    "relinked ?its its'" "\<forall>i<unat n. links its' (nb' ! i) (fold (push (home n its)) (x # xs) ds ! i)"
    "\<forall>y. y \<notin> set xs \<longrightarrow> its' y = ?its y" unfolding home by auto
  have "rebucket_chain n cur (its, nb) = rebucket_chain n (i_next it) (?its, ?nb)"
    using it b Cons.prems(2) by (simp add: rebucket_chain.simps [of n x] home_def Let_def)
  moreover have "\<forall>y. y \<notin> set (x # xs) \<longrightarrow> its' y = its y" using r(5) by simp
  ultimately show ?case using r(1,2,4) relinked_trans [OF rel r(3)] by auto
qed

section \<open>The table\<close>

text \<open>The chains hang from the buckets, every item is in the chain of its hash, no item is in two places, the
  cached hashes are right, and the count is exact.\<close>

definition rep :: "lh_env \<Rightarrow> lhash \<Rightarrow> addr list list \<Rightarrow> bool" where
  "rep env s css \<longleftrightarrow>
     length (buckets s) = unat (num_buckets s) \<and> length css = unat (num_buckets s) \<and> kMinNumBuckets \<le> num_buckets s \<and>
     (\<forall>i<unat (num_buckets s). links (items s) (buckets s ! i) (css ! i)) \<and> distinct (concat css) \<and>
     homed (home (num_buckets s) (items s)) css \<and>
     (\<forall>x\<in>set (concat css). \<forall>it. items s x = Some it \<longrightarrow> i_hash it = call_hash env (hash_func s) (i_data it)) \<and>
     unat (num_items s) = length (concat css)"

lemma rep_live: "rep env s css \<Longrightarrow> x \<in> set (concat css) \<Longrightarrow> x \<noteq> 0 \<and> items s x \<noteq> None"
proof -
  assume r: "rep env s css" and "x \<in> set (concat css)"
  then obtain xs where "xs \<in> set css" "x \<in> set xs" by auto
  then obtain i where "i < length css" "x \<in> set (css ! i)" by (metis in_set_conv_nth)
  then show ?thesis using r chain_live [of "items s" "buckets s ! i" "css ! i" x] by (auto simp: rep_def)
qed

lemma in_chain:
  assumes "x \<in> set (concat css)"
  obtains i where "i < length css" "x \<in> set (css ! i)"
proof -
  obtain xs where "xs \<in> set css" "x \<in> set xs" using assms by auto
  then show ?thesis using that by (auto simp: in_set_conv_nth)
qed

lemma chain_in: "i < length css \<Longrightarrow> x \<in> set (css ! i) \<Longrightarrow> x \<in> set (concat css)"
  by auto

lemma rep_hash:
  "rep env s css \<Longrightarrow> x \<in> set (concat css) \<Longrightarrow> items s x = Some it \<Longrightarrow> i_hash it = call_hash env (hash_func s) (i_data it)"
  unfolding rep_def by blast

lemma rep_home: "rep env s css \<Longrightarrow> i < length css \<Longrightarrow> x \<in> set (css ! i) \<Longrightarrow> home (num_buckets s) (items s) x = i"
  unfolding rep_def homed_def by blast

lemma rep_chain: "rep env s css \<Longrightarrow> i < length css \<Longrightarrow> links (items s) (buckets s ! i) (css ! i)"
  unfolding rep_def by metis

lemma rebucket_all:
  assumes "rep env s css" "0 < n" "m \<le> length css"
  shows "\<exists>its nb. foldM (\<lambda>i st. if i < length (buckets s) then rebucket_chain n (buckets s ! i) st else None) [0..<m]
      (items s, replicate (unat n) 0) = Some (its, nb) \<and> length nb = unat n \<and> relinked (items s) its \<and>
    (\<forall>i<unat n. links its (nb ! i) (fold (push (home n (items s))) (concat (take m css)) (replicate (unat n) []) ! i)) \<and>
    (\<forall>x. x \<notin> set (concat (take m css)) \<longrightarrow> its x = items s x)"
  using assms(3)
proof (induction m)
  case 0
  then show ?case by simp
next
  case (Suc m)
  let ?ds = "fold (push (home n (items s))) (concat (take m css)) (replicate (unat n) [])"
  from Suc obtain its nb where IH: "foldM (\<lambda>i st. if i < length (buckets s) then rebucket_chain n (buckets s ! i) st else None) [0..<m]
      (items s, replicate (unat n) 0) = Some (its, nb)" "length nb = unat n" "relinked (items s) its"
    "\<forall>i<unat n. links its (nb ! i) (?ds ! i)" "\<forall>x. x \<notin> set (concat (take m css)) \<longrightarrow> its x = items s x" by auto
  have m: "m < length css" "m < length (buckets s)" "m < unat (num_buckets s)" using Suc.prems assms(1) by (simp_all add: rep_def)
  have t: "concat (take (Suc m) css) = concat (take m css) @ css ! m" using m(1) by (simp add: take_Suc_conv_app_nth)
  have "distinct (concat css)" "concat css = concat (take m css) @ css ! m @ concat (drop (Suc m) css)"
    using assms(1) concat_at(2) [OF m(1)] by (simp_all add: rep_def)
  then have d: "distinct (css ! m)" "set (css ! m) \<inter> set (concat (take m css)) = {}" by (auto simp del: concat_append)
  have home: "home n its = home n (items s)" using relinked_home [OF IH(3)] by blast
  have "mset (concat ?ds) = mset (concat (take m css))"
    using mset_pushes [of "home n (items s)" "replicate (unat n) []"] home_less [OF assms(2)] by simp
  then have "set (concat ?ds) = set (concat (take m css))" by (rule mset_eq_setD)
  then have dis: "set (css ! m) \<inter> set (concat ?ds) = {}" using d(2) by simp
  have "links (items s) (buckets s ! m) (css ! m)" using assms(1) m(3) by (simp add: rep_def)
  then have "links its (buckets s ! m) (css ! m)"
    using chain_frame [of "css ! m" its "items s"] IH(5) d(2) by blast
  from rebucket_chain_spec [OF assms(2) this IH(2) _ IH(4) d(1) dis] obtain its' nb' where
    r: "rebucket_chain n (buckets s ! m) (its, nb) = Some (its', nb')" "length nb' = unat n" "relinked its its'"
      "\<forall>i<unat n. links its' (nb' ! i) (fold (push (home n (items s))) (css ! m) ?ds ! i)"
      "\<forall>x. x \<notin> set (css ! m) \<longrightarrow> its' x = its x" unfolding home by auto
  show ?case
    using IH(1,5) r(1,2,4,5) m(2) relinked_trans [OF IH(3) r(3)] by (simp add: t foldM_snoc)
qed

lemma rebucket_spec:
  assumes "rep env s css" "kMinNumBuckets \<le> n"
  obtains (kept) "lh_rebucket env n s = Some s" "n * 8 div 8 \<noteq> n \<or> \<not> array_ok env (8 * n)"
    | (moved) s' css' where "lh_rebucket env n s = Some s'" "rep env s' css'" "mset (concat css') = mset (concat css)"
      "relinked (items s) (items s')" "num_buckets s' = n" "num_items s' = num_items s" "hash_func s' = hash_func s"
      "comp_func s' = comp_func s" "callback_depth s' = callback_depth s"
      "\<And>x. x \<notin> set (concat css) \<Longrightarrow> items s' x = items s x"
proof (cases "8 * n div 8 \<noteq> n \<or> \<not> array_ok env (8 * n)")
  case True
  then show ?thesis using kept by (auto simp: lh_rebucket_def Let_def mult.commute)
next
  case False
  have n: "0 < n" using assms(2) by (auto simp: kMinNumBuckets_def word_le_nat_alt word_less_nat_alt)
  have lc: "length css = unat (num_buckets s)" using assms(1) by (simp add: rep_def)
  let ?ds = "fold (push (home n (items s))) (concat css) (replicate (unat n) [])"
  from rebucket_all [OF assms(1) n order_refl] obtain its nb where
    r: "foldM (\<lambda>i st. if i < length (buckets s) then rebucket_chain n (buckets s ! i) st else None) [0..<length css]
        (items s, replicate (unat n) 0) = Some (its, nb)" "length nb = unat n" "relinked (items s) its"
      "\<forall>i<unat n. links its (nb ! i) (?ds ! i)" "\<forall>x. x \<notin> set (concat css) \<longrightarrow> its x = items s x" by auto
  let ?s = "s\<lparr>num_buckets := n, buckets := nb, items := its\<rparr>"
  have ms: "mset (concat ?ds) = mset (concat css)"
    using mset_pushes [of "home n (items s)" "replicate (unat n) []"] home_less [OF n] by simp
  have len: "length (concat ?ds) = length (concat css)" using ms by (rule mset_eq_length)
  have home: "home n its = home n (items s)" using relinked_home [OF r(3)] by blast
  have "lh_rebucket env n s = Some ?s" using False r(1) lc by (simp add: lh_rebucket_def Let_def)
  moreover have "rep env ?s ?ds"
    unfolding rep_def
  proof (intro conjI ballI allI impI)
    show "distinct (concat ?ds)" using assms(1) mset_eq_imp_distinct_iff [OF ms] by (simp add: rep_def)
    show "homed (home (num_buckets ?s) (items ?s)) ?ds"
      using home homed_pushes [of "home n (items s)" "replicate (unat n) []"] home_less [OF n] by (simp add: homed_def)
    show "unat (num_items ?s) = length (concat ?ds)" using assms(1) len by (simp add: rep_def)
    fix x it assume x: "x \<in> set (concat ?ds)" "items ?s x = Some it"
    obtain it0 where "items s x = Some it0" "i_data it = i_data it0" "i_hash it = i_hash it0"
      using relinkedE [OF r(3), of x it] x(2) by auto
    moreover have "x \<in> set (concat css)" using x(1) unfolding mset_eq_setD [OF ms] .
    ultimately show "i_hash it = call_hash env (hash_func ?s) (i_data it)" using rep_hash [OF assms(1)] by simp
  qed (use r(2,4) assms(2) in simp_all)
  ultimately show ?thesis using moved [of ?s ?ds] ms r(3,5) by simp
qed

text \<open>The size follows the number of items, when the allocator grants it.\<close>

definition loaded :: "lhash \<Rightarrow> bool" where
  "loaded s \<longleftrightarrow> unat (num_items s) < 3 * unat (num_buckets s)"

definition resizes :: "lh_env \<Rightarrow> lhash \<Rightarrow> bool" where
  "resizes env s \<longleftrightarrow> callback_depth s = 0 \<and> (\<forall>n. array_ok env n) \<and> unat (num_items s) < 2 ^ 60"

lemma buckets_16: "rep env s css \<Longrightarrow> 16 \<le> unat (num_buckets s)"
  by (simp add: rep_def kMinNumBuckets_def word_le_nat_alt)

text \<open>What resizing keeps.\<close>

definition same_table :: "lhash \<Rightarrow> addr list list \<Rightarrow> lhash \<Rightarrow> addr list list \<Rightarrow> bool" where
  "same_table s css s' css' \<longleftrightarrow> mset (concat css') = mset (concat css) \<and> relinked (items s) (items s') \<and>
     num_items s' = num_items s \<and> hash_func s' = hash_func s \<and> comp_func s' = comp_func s \<and>
     callback_depth s' = callback_depth s \<and> (\<forall>x. x \<notin> set (concat css) \<longrightarrow> items s' x = items s x)"

lemma same_table_refl [simp]: "same_table s css s css"
  by (simp add: same_table_def)

lemma resize_spec:
  assumes "rep env s css"
  obtains s' css' where "lh_maybe_resize env s = Some s'" "rep env s' css'" "same_table s css s' css'"
    "resizes env s \<Longrightarrow> unat (num_items s) \<le> 3 * unat (num_buckets s) \<Longrightarrow> loaded s'"
proof -
  let ?n = "unat (num_items s)" and ?b = "unat (num_buckets s)"
  note b16 = buckets_16 [OF assms]
  have avg: "unat (num_items s div num_buckets s) = ?n div ?b" by (simp add: unat_div)
  have big: "num_items s div num_buckets s > kMaxAverageChainLength \<longleftrightarrow> 3 * ?b \<le> ?n"
  proof -
    have "num_items s div num_buckets s > kMaxAverageChainLength \<longleftrightarrow> 3 \<le> ?n div ?b"
      by (simp add: word_less_nat_alt avg kMaxAverageChainLength_def) linarith
    also have "\<dots> \<longleftrightarrow> 3 * ?b \<le> ?n" using b16 by (simp add: less_eq_div_iff_mult_less_eq)
    finally show ?thesis .
  qed
  have small: "num_items s div num_buckets s < kMinAverageChainLength \<longleftrightarrow> ?n < ?b"
  proof -
    have "num_items s div num_buckets s < kMinAverageChainLength \<longleftrightarrow> ?n div ?b = 0"
      by (simp add: word_less_nat_alt avg kMinAverageChainLength_def)
    also have "\<dots> \<longleftrightarrow> ?n < ?b" using b16 by (simp add: div_eq_0_iff)
    finally show ?thesis .
  qed
  consider (same) "lh_maybe_resize env s = Some s"
      "callback_depth s > 0 \<or> ?n < 3 * ?b \<or> (3 * ?b \<le> ?n \<and> \<not> num_buckets s * 2 > num_buckets s)"
    | (grow) "lh_maybe_resize env s = lh_rebucket env (num_buckets s * 2) s" "num_buckets s * 2 > num_buckets s" "3 * ?b \<le> ?n"
    | (shrink) m where "lh_maybe_resize env s = lh_rebucket env m s" "?n < ?b" "kMinNumBuckets < num_buckets s"
      "m = (if num_buckets s div 2 < kMinNumBuckets then kMinNumBuckets else num_buckets s div 2)"
  proof -
    have e: "lh_maybe_resize env s =
      (if callback_depth s > 0 then Some s
       else if 3 * ?b \<le> ?n then (if num_buckets s * 2 > num_buckets s then lh_rebucket env (num_buckets s * 2) s else Some s)
       else if ?n < ?b \<and> num_buckets s > kMinNumBuckets then
         lh_rebucket env (if num_buckets s div 2 < kMinNumBuckets then kMinNumBuckets else num_buckets s div 2) s
       else Some s)"
      by (simp only: lh_maybe_resize_def Let_def big small)
    show ?thesis
    proof (cases "callback_depth s > 0")
      case True
      then show ?thesis using e by (intro same) simp_all
    next
      case c: False
      show ?thesis
      proof (cases "3 * ?b \<le> ?n")
        case True
        then show ?thesis using e c by (cases "num_buckets s * 2 > num_buckets s") (simp_all add: same grow)
      next
        case False
        then show ?thesis using e c by (cases "?n < ?b \<and> num_buckets s > kMinNumBuckets") (auto intro: same shrink)
      qed
    qed
  qed
  then show ?thesis
  proof cases
    case same
    have "loaded s" if "resizes env s"
    proof (rule ccontr)
      assume "\<not> loaded s"
      then have "3 * ?b \<le> ?n" by (simp add: loaded_def)
      moreover have "callback_depth s = 0" "?n < 2 ^ 60" using that by (simp_all add: resizes_def)
      moreover from calculation have "unat (num_buckets s * 2) = 2 * ?b" by (simp add: unat_word_ariths)
      ultimately show False using same(2) b16 by (simp add: word_less_nat_alt)
    qed
    then show ?thesis using that [of s css] same(1) assms by simp
  next
    case grow
    have g: "kMinNumBuckets \<le> num_buckets s * 2" using grow(2) assms by (auto simp: rep_def)
    show ?thesis
    proof (cases rule: rebucket_spec [OF assms g])
      case kept: 1
      have "\<not> resizes env s"
      proof
        assume r: "resizes env s"
        then have "16 * ?b < 2 ^ 64" using grow(3) by (simp add: resizes_def)
        then have "unat (num_buckets s * 2) = 2 * ?b" "unat (num_buckets s * 2 * 8) = 16 * ?b" by (simp_all add: unat_word_ariths)
        then have "num_buckets s * 2 * 8 div 8 = num_buckets s * 2" by (simp add: word_unat_eq_iff unat_div)
        then show False using kept(2) r by (simp add: resizes_def)
      qed
      then show ?thesis using that [of s css] grow(1) kept(1) assms by simp
    next
      case moved: (2 s' css')
      have "loaded s'" if "resizes env s" "?n \<le> 3 * ?b"
      proof -
        have "unat (num_buckets s * 2) = 2 * ?b" using that(1) grow(3) by (simp add: resizes_def unat_word_ariths)
        then show ?thesis using moved(5,6) that(2) b16 by (simp add: loaded_def)
      qed
      then show ?thesis using that [of s' css'] grow(1) moved by (simp add: same_table_def)
    qed
  next
    case (shrink m)
    have half: "unat (num_buckets s div 2) = ?b div 2" by (simp add: unat_div)
    have m: "kMinNumBuckets \<le> m" "?b \<le> 2 * unat m + 1"
      using shrink(4) half by (auto simp: kMinNumBuckets_def word_less_nat_alt word_le_nat_alt not_less split: if_splits)
    show ?thesis
    proof (cases rule: rebucket_spec [OF assms m(1)])
      case kept: 1
      then show ?thesis using that [of s css] shrink(1,2) assms by (simp add: loaded_def)
    next
      case moved: (2 s' css')
      have "16 \<le> unat m" using m(1) by (simp add: kMinNumBuckets_def word_le_nat_alt)
      then have "loaded s'" using moved(5,6) m(2) shrink(2) by (simp add: loaded_def)
      then show ?thesis using that [of s' css'] shrink(1) moved by (simp add: same_table_def)
    qed
  qed
qed

section \<open>Tables as maps\<close>

text \<open>The table holds exactly the elements of the map, one item for each.\<close>

definition stores_map :: "(addr \<Rightarrow> 'k) \<Rightarrow> item_store \<Rightarrow> addr list \<Rightarrow> ('k \<rightharpoonup> addr) \<Rightarrow> bool" where
  "stores_map key st xs M \<longleftrightarrow> distinct (map (\<lambda>x. key (dat st x)) xs) \<and>
     (\<forall>k d. M k = Some d \<longleftrightarrow> key d = k \<and> (\<exists>x\<in>set xs. dat st x = d))"

text \<open>The items of the table are the ones the store has beyond \<open>base\<close>.\<close>

definition beyond :: "item_store \<Rightarrow> lhash \<Rightarrow> addr set \<Rightarrow> bool" where
  "beyond base s A \<longleftrightarrow> (\<forall>x\<in>A. base x = None) \<and> (\<forall>x. x \<notin> A \<longrightarrow> items s x = base x)"

definition represents :: "lh_env \<Rightarrow> addr \<Rightarrow> addr \<Rightarrow> (addr \<Rightarrow> 'k) \<Rightarrow> item_store \<Rightarrow> lhash \<Rightarrow> ('k \<rightharpoonup> addr) \<Rightarrow> bool" where
  "represents env hf cf key base s M \<longleftrightarrow> hash_func s = hf \<and> comp_func s = cf \<and>
     (\<exists>css. rep env s css \<and> stores_map key (items s) (concat css) M \<and> beyond base s (set (concat css)))"

lemma representsE:
  assumes "represents env hf cf key base s M"
  obtains css where "rep env s css" "stores_map key (items s) (concat css) M" "hash_func s = hf" "comp_func s = cf"
    "beyond base s (set (concat css))"
  using assms unfolding represents_def by blast

lemma stores_map_perm:
  assumes "stores_map key st xs M" "mset ys = mset xs" "\<And>x. x \<in> set xs \<Longrightarrow> dat st' x = dat st x"
  shows "stores_map key st' ys M"
proof -
  have set: "set ys = set xs" using assms(2) by (rule mset_eq_setD)
  have "mset (map (\<lambda>x. key (dat st x)) ys) = mset (map (\<lambda>x. key (dat st x)) xs)" using assms(2) by simp
  then have "distinct (map (\<lambda>x. key (dat st x)) ys)"
    using assms(1) mset_eq_imp_distinct_iff by (metis stores_map_def)
  moreover have "map (\<lambda>x. key (dat st' x)) ys = map (\<lambda>x. key (dat st x)) ys" using assms(3) set by simp
  ultimately have "distinct (map (\<lambda>x. key (dat st' x)) ys)" by (simp only:)
  then show ?thesis using assms(1,3) set by (simp add: stores_map_def)
qed

lemma stores_map_none: "stores_map key st xs M \<Longrightarrow> M k = None \<longleftrightarrow> (\<forall>x\<in>set xs. key (dat st x) \<noteq> k)"
  unfolding stores_map_def by (metis not_None_eq)

lemma stores_map_at: "stores_map key st xs M \<Longrightarrow> x \<in> set xs \<Longrightarrow> M (key (dat st x)) = Some (dat st x)"
  unfolding stores_map_def by blast

lemma represents_resize:
  assumes "represents env hf cf key base s M"
  obtains s' where "lh_maybe_resize env s = Some s'" "represents env hf cf key base s' M" "callback_depth s' = callback_depth s"
    "num_items s' = num_items s" "resizes env s \<Longrightarrow> unat (num_items s) \<le> 3 * unat (num_buckets s) \<Longrightarrow> loaded s'"
proof -
  obtain css where r: "rep env s css" "stores_map key (items s) (concat css) M" "hash_func s = hf" "comp_func s = cf"
    and base: "beyond base s (set (concat css))" by (rule representsE [OF assms])
  from resize_spec [OF r(1)] obtain s' css' where s': "lh_maybe_resize env s = Some s'" "rep env s' css'"
    "same_table s css s' css'" "resizes env s \<Longrightarrow> unat (num_items s) \<le> 3 * unat (num_buckets s) \<Longrightarrow> loaded s'" by blast
  have "stores_map key (items s') (concat css') M"
    using s'(3) relinked_dat by (intro stores_map_perm [OF r(2)]) (auto simp: same_table_def)
  moreover have "set (concat css') = set (concat css)" using s'(3) unfolding same_table_def by (blast dest: mset_eq_setD)
  moreover have "items s' x = items s x" if "x \<notin> set (concat css)" for x using s'(3) that unfolding same_table_def by blast
  ultimately have "represents env hf cf key base s' M"
    using s'(2,3) r(3,4) base unfolding represents_def beyond_def same_table_def by metis
  then show ?thesis using that [of s'] s' by (auto simp: same_table_def)
qed

text \<open>A change of one chain.\<close>

lemma rep_change:
  assumes "rep env s css" "i < length css" "css ! i = ps @ rs"
    and "length (buckets s') = length (buckets s)" "\<And>j. j \<noteq> i \<Longrightarrow> buckets s' ! j = buckets s ! j"
    and "num_buckets s' = num_buckets s" "hash_func s' = hash_func s"
    and "links (items s') (buckets s' ! i) (ps @ ys)"
    and "distinct (concat (css[i := ps @ ys]))" "unat (num_items s') = length (concat (css[i := ps @ ys]))"
    and "\<And>j x. j < length css \<Longrightarrow> j \<noteq> i \<Longrightarrow> x \<in> set (css ! j) \<Longrightarrow> items s' x = items s x"
    and "\<And>x it'. x \<in> set ps \<Longrightarrow> items s' x = Some it' \<Longrightarrow> \<exists>it. items s x = Some it \<and> i_data it' = i_data it \<and> i_hash it' = i_hash it"
    and "\<And>y it. y \<in> set ys \<Longrightarrow> items s' y = Some it \<Longrightarrow>
       unat (bucket_of (i_hash it) (num_buckets s)) = i \<and> i_hash it = call_hash env (hash_func s) (i_data it)"
  shows "rep env s' (css[i := ps @ ys])"
proof -
  note r = assms(1)
  have len: "length (buckets s) = unat (num_buckets s)" "length css = unat (num_buckets s)" using r by (simp_all add: rep_def)
  have old: "x \<in> set (css ! j) \<Longrightarrow> j < length css \<Longrightarrow> home (num_buckets s) (items s) x = j" for x j
    using r by (simp add: rep_def homed_def)
  have new: "unat (bucket_of (i_hash it) (num_buckets s)) = j \<and> i_hash it = call_hash env (hash_func s) (i_data it)"
    if j: "j < length css" and x: "x \<in> set (css[i := ps @ ys] ! j)" and it: "items s' x = Some it" for j x it
  proof (cases "j = i")
    case False
    then have m: "x \<in> set (css ! j)" "items s x = Some it" using x it assms(11) [OF j False, of x] by simp_all
    then show ?thesis using old [OF m(1) j] rep_hash [OF r chain_in [OF j m(1)] m(2)] by (simp add: home_def)
  next
    case True
    then consider "x \<in> set ps" | "x \<in> set ys" using x assms(2) by auto
    then show ?thesis
    proof cases
      case 1
      then have m: "x \<in> set (css ! j)" using assms(3) True by simp
      obtain it0 where "items s x = Some it0" "i_data it = i_data it0" "i_hash it = i_hash it0" using assms(12) [OF 1 it] by blast
      then show ?thesis using old [OF m j] rep_hash [OF r chain_in [OF j m]] by (simp add: home_def)
    qed (use assms(13) it True in blast)
  qed
  have live: "items s' x \<noteq> None" if j: "j < length css" and x: "x \<in> set (css[i := ps @ ys] ! j)" for j x
  proof (cases "j = i")
    case True
    then show ?thesis using x assms(2) chain_live [OF assms(8), of x] by simp
  next
    case False
    then show ?thesis using x assms(11) [OF j False, of x] rep_live [OF r chain_in [OF j, of x]] by simp
  qed
  have chains: "links (items s') (buckets s' ! j) (css[i := ps @ ys] ! j)" if "j < length css" for j
  proof (cases "j = i")
    case False
    have "links (items s) (buckets s ! j) (css ! j)" using r that len by (simp add: rep_def)
    then show ?thesis using assms(5) [OF False] False chain_frame [of "css ! j" "items s'" "items s"] assms(11) [OF that False] by simp
  qed (use assms(2,8) in simp)
  show ?thesis unfolding rep_def homed_def
  proof (intro conjI allI impI ballI)
    fix j x assume j: "j < length (css[i := ps @ ys])" and x: "x \<in> set (css[i := ps @ ys] ! j)"
    obtain it where "items s' x = Some it" using live [of j x] j x by auto
    moreover have "unat (bucket_of (i_hash it) (num_buckets s)) = j"
      using new [of j x it] j x calculation by (metis length_list_update)
    ultimately show "home (num_buckets s') (items s') x = j" by (simp add: home_def assms(6))
  next
    fix x it assume "x \<in> set (concat (css[i := ps @ ys]))" "items s' x = Some it"
    then show "i_hash it = call_hash env (hash_func s') (i_data it)"
      using new assms(7) in_chain [of x "css[i := ps @ ys]"] by (metis length_list_update)
  qed (use r len assms(4,6,9,10) chains in \<open>simp_all add: rep_def\<close>)
qed

lemma few_items:
  assumes "distinct xs" "0 \<notin> set (xs :: addr list)"
  shows "length xs < 2 ^ 64"
proof -
  have "card (insert 0 (set xs)) \<le> card (UNIV :: addr set)" by (intro card_mono) simp_all
  then show ?thesis using assms by (simp add: distinct_card card_word)
qed

text \<open>One element replaced, added or removed.\<close>

lemma stores_map_replace:
  assumes "stores_map key st xs M" "p \<in> set xs" "dat st' p = data" "key data = key (dat st p)"
    and "\<And>x. x \<in> set xs \<Longrightarrow> x \<noteq> p \<Longrightarrow> dat st' x = dat st x"
  shows "stores_map key st' xs (M(key data \<mapsto> data))"
proof -
  have k: "key (dat st' x) = key (dat st x)" if "x \<in> set xs" for x using assms(3-5) that by (cases "x = p") auto
  have d: "distinct (map (\<lambda>x. key (dat st x)) xs)" using assms(1) by (simp add: stores_map_def)
  have "map (\<lambda>x. key (dat st' x)) xs = map (\<lambda>x. key (dat st x)) xs" using k by simp
  then have d': "distinct (map (\<lambda>x. key (dat st' x)) xs)" using d by (simp only:)
  have inj: "x = p" if "x \<in> set xs" "key (dat st x) = key data" for x
    using d that assms(2,4) by (auto simp: distinct_map inj_on_def)
  have "(M(key data \<mapsto> data)) k' = Some e \<longleftrightarrow> key e = k' \<and> (\<exists>x\<in>set xs. dat st' x = e)" for k' e
  proof (cases "k' = key data")
    case True
    have "e = data" if "key e = key data" "x \<in> set xs" "dat st' x = e" for x
      using inj [of x] k [of x] that assms(3) by auto
    then have "data = e" if "key e = key data \<and> (\<exists>x\<in>set xs. dat st' x = e)" using that by blast
    moreover have "(M(key data \<mapsto> data)) k' = Some data" using True by simp
    moreover have "\<exists>x\<in>set xs. dat st' x = data" using assms(2,3) by blast
    ultimately show ?thesis using True by (metis option.inject)
  next
    case False
    have "dat st' x = e \<longleftrightarrow> dat st x = e" if "key e = k'" "x \<in> set xs" for x
      using False that assms(3,4) assms(5) [of x] by (cases "x = p") auto
    then have "key e = k' \<and> (\<exists>x\<in>set xs. dat st' x = e) \<longleftrightarrow> key e = k' \<and> (\<exists>x\<in>set xs. dat st x = e)" by blast
    moreover have "(M(key data \<mapsto> data)) k' = M k'" using False by simp
    ultimately show ?thesis using assms(1) unfolding stores_map_def by metis
  qed
  then show ?thesis using d' by (simp add: stores_map_def)
qed

lemma stores_map_add:
  assumes "stores_map key st xs M" "M (key data) = None" "mset ys = add_mset q (mset xs)" "dat st' q = data"
    and "\<And>x. x \<in> set xs \<Longrightarrow> dat st' x = dat st x"
  shows "stores_map key st' ys (M(key data \<mapsto> data))"
proof -
  have new: "\<forall>x\<in>set xs. key (dat st x) \<noteq> key data" using assms(2) stores_map_none [OF assms(1)] by blast
  have old: "map (\<lambda>x. key (dat st' x)) xs = map (\<lambda>x. key (dat st x)) xs" using assms(5) by simp
  have "distinct (map (\<lambda>x. key (dat st x)) xs)" using assms(1) by (simp add: stores_map_def)
  then have d: "distinct (map (\<lambda>x. key (dat st' x)) (q # xs))" using new assms(4,5) unfolding distinct.simps list.map old by (auto simp: image_iff)
  have "M k' = Some e \<longleftrightarrow> key e = k' \<and> (\<exists>x\<in>set xs. dat st x = e)" for k' e using assms(1) by (simp add: stores_map_def)
  then have "(M(key data \<mapsto> data)) k' = Some e \<longleftrightarrow> key e = k' \<and> (\<exists>x\<in>set (q # xs). dat st' x = e)" for k' e
    using new assms(4,5) by auto
  then have "stores_map key st' (q # xs) (M(key data \<mapsto> data))" using d unfolding stores_map_def by blast
  then show ?thesis by (rule stores_map_perm) (use assms(3) in simp_all)
qed

lemma stores_map_remove:
  assumes "stores_map key st xs M" "mset xs = add_mset p (mset ys)"
    and "\<And>x. x \<in> set ys \<Longrightarrow> dat st' x = dat st x"
  shows "stores_map key st' ys (M(key (dat st p) := None))"
proof -
  have p: "stores_map key st (p # ys) M" by (rule stores_map_perm [OF assms(1)]) (use assms(2) in simp_all)
  have d: "distinct (map (\<lambda>x. key (dat st x)) (p # ys))"
    and M: "\<And>k' e. M k' = Some e \<longleftrightarrow> key e = k' \<and> (\<exists>x\<in>set (p # ys). dat st x = e)" using p unfolding stores_map_def by blast+
  have k: "key (dat st x) \<noteq> key (dat st p)" if "x \<in> set ys" for x
  proof -
    have "\<forall>x\<in>set ys. key (dat st p) \<noteq> key (dat st x)" using d by (simp add: image_iff)
    then show ?thesis using that by metis
  qed
  have "(M(key (dat st p) := None)) k' = Some e \<longleftrightarrow> key e = k' \<and> (\<exists>x\<in>set ys. dat st x = e)" for k' e
    using M [of k' e] k by (cases "k' = key (dat st p)") fastforce+
  moreover have "distinct (map (\<lambda>x. key (dat st x)) ys)" using d by simp
  ultimately have "stores_map key st ys (M(key (dat st p) := None))" unfolding stores_map_def by blast
  then show ?thesis by (rule stores_map_perm) (use assms(3) in simp_all)
qed

locale keyed =
  fixes env :: lh_env and hf cf :: addr and key :: "addr \<Rightarrow> 'k"
  assumes same: "call_cmp env cf a b = 0 \<longleftrightarrow> key a = key b"
    and agree: "key a = key b \<Longrightarrow> call_hash env hf a = call_hash env hf b"
    and place: "place_item env st = Some q \<Longrightarrow> q \<noteq> 0 \<and> st q = None"
begin

lemma search_key:
  assumes "rep env s css" "stores_map key (items s) (concat css) M" "hash_func s = hf" "comp_func s = cf"
    and hit: "\<And>d. hit d \<longleftrightarrow> key d = k" and hash: "\<And>d. key d = k \<Longrightarrow> call_hash env hf d = h"
  obtains b ps rs where "find_cell hit s (Bucket (bucket_of h (num_buckets s))) = Some (cell_after (Bucket b) ps)"
    "unat b < length css" "css ! unat b = ps @ rs" "b = bucket_of h (num_buckets s)"
    "deref s (cell_after (Bucket b) ps) = Some (if rs = [] then 0 else hd rs)"
    "M k = (if rs = [] then None else Some (dat (items s) (hd rs)))"
    "rs \<noteq> [] \<Longrightarrow> key (dat (items s) (hd rs)) = k"
proof -
  define b where "b = bucket_of h (num_buckets s)"
  have len: "length (buckets s) = unat (num_buckets s)" "length css = unat (num_buckets s)" using assms(1) by (simp_all add: rep_def)
  have "0 < unat (num_buckets s)" using buckets_16 [OF assms(1)] by simp
  then have b: "unat b < length css" unfolding b_def bucket_of_def len(2) by (simp add: unat_mod)
  have c: "links (items s) (buckets s ! unat b) (css ! unat b)" using assms(1) b len by (simp add: rep_def)
  have d: "deref s (Bucket b) = Some (buckets s ! unat b)" using b len by simp
  define ps rs where "ps = takeWhile (\<lambda>x. \<not> hit (dat (items s) x)) (css ! unat b)"
    and "rs = dropWhile (\<lambda>x. \<not> hit (dat (items s) x)) (css ! unat b)"
  have split: "css ! unat b = ps @ rs" by (simp add: ps_def rs_def)
  have get: "find_cell hit s (Bucket (bucket_of h (num_buckets s))) = Some (cell_after (Bucket b) ps)"
    using find_cell_chain [OF d c, of hit] by (simp add: b_def ps_def)
  have found: "key (dat (items s) (hd rs)) = k" if "rs \<noteq> []"
    using hd_dropWhile [of "\<lambda>x. \<not> hit (dat (items s) x)" "css ! unat b"] that hit by (simp add: rs_def)
  have M: "M k = (if rs = [] then None else Some (dat (items s) (hd rs)))"
  proof (cases "rs = []")
    case True
    have "key (dat (items s) x) \<noteq> k" if x: "x \<in> set (concat css)" for x
    proof
      assume k: "key (dat (items s) x) = k"
      obtain i where i: "i < length css" "x \<in> set (css ! i)" by (rule in_chain [OF x])
      obtain it where it: "items s x = Some it" using rep_live [OF assms(1) x] by auto
      have "i_hash it = call_hash env (hash_func s) (i_data it)" by (rule rep_hash [OF assms(1) x it])
      also have "\<dots> = h"
        using hash [of "i_data it"] k it assms(3) by (simp add: dat_def)
      finally have "i_hash it = h" .
      moreover have "home (num_buckets s) (items s) x = i" using assms(1) i by (simp add: rep_def homed_def)
      ultimately have "i = unat b" using it by (simp add: home_def b_def)
      then have "x \<in> set ps" using i split True by simp
      then have "\<not> hit (dat (items s) x)" unfolding ps_def by (blast dest: set_takeWhileD)
      then show False using k unfolding hit by simp
    qed
    then have "M k = None" using stores_map_none [OF assms(2)] by blast
    then show ?thesis using True by simp
  next
    case False
    then have "hd rs \<in> set (css ! unat b)" using split by simp
    then have "hd rs \<in> set (concat css)" by (rule chain_in [OF b])
    from stores_map_at [OF assms(2) this] show ?thesis using found [OF False] False by simp
  qed
  show ?thesis using that [OF get b split b_def _ M found] deref_after [OF d c [unfolded split]] by blast
qed

lemma find_item:
  assumes "rep env s css" "stores_map key (items s) (concat css) M" "hash_func s = hf" "comp_func s = cf"
  obtains b ps rs where "get_next_ptr_and_hash env s data = Some (call_hash env hf data, cell_after (Bucket b) ps)"
    "unat b < length css" "css ! unat b = ps @ rs" "b = bucket_of (call_hash env hf data) (num_buckets s)"
    "deref s (cell_after (Bucket b) ps) = Some (if rs = [] then 0 else hd rs)"
    "M (key data) = (if rs = [] then None else Some (dat (items s) (hd rs)))"
    "rs \<noteq> [] \<Longrightarrow> key (dat (items s) (hd rs)) = key data"
proof -
  from search_key [OF assms same agree, of data] obtain b ps rs where
    s: "find_cell (\<lambda>d. call_cmp env cf d data = 0) s (Bucket (bucket_of (call_hash env hf data) (num_buckets s))) =
      Some (cell_after (Bucket b) ps)" "unat b < length css" "css ! unat b = ps @ rs"
    "b = bucket_of (call_hash env hf data) (num_buckets s)"
    "deref s (cell_after (Bucket b) ps) = Some (if rs = [] then 0 else hd rs)"
    "M (key data) = (if rs = [] then None else Some (dat (items s) (hd rs)))"
    "rs \<noteq> [] \<Longrightarrow> key (dat (items s) (hd rs)) = key data" by metis
  have "get_next_ptr_and_hash env s data = Some (call_hash env hf data, cell_after (Bucket b) ps)"
    using s(1) assms(3,4) by (simp add: get_next_ptr_and_hash_def Let_def)
  then show ?thesis using that s(2-7) by metis
qed

lemma retrieve:
  assumes "represents env hf cf key base s M"
  shows "lh_retrieve env s data = Some (case M (key data) of None \<Rightarrow> 0 | Some d \<Rightarrow> d)"
proof -
  obtain css where r: "rep env s css" "stores_map key (items s) (concat css) M" "hash_func s = hf" "comp_func s = cf"
    and base: "beyond base s (set (concat css))" by (rule representsE [OF assms])
  from find_item [OF r, of data] obtain b ps rs where
    s: "get_next_ptr_and_hash env s data = Some (call_hash env hf data, cell_after (Bucket b) ps)"
    "unat b < length css" "css ! unat b = ps @ rs"
    "deref s (cell_after (Bucket b) ps) = Some (if rs = [] then 0 else hd rs)"
    "M (key data) = (if rs = [] then None else Some (dat (items s) (hd rs)))" by metis
  have "items s (hd rs) \<noteq> None \<and> hd rs \<noteq> 0" if "rs \<noteq> []"
  proof -
    have "hd rs \<in> set (css ! unat b)" using s(3) that by simp
    then have "hd rs \<in> set (concat css)" by (rule chain_in [OF s(2)])
    then show ?thesis using rep_live [OF r(1)] by blast
  qed
  then show ?thesis using s by (auto simp: lh_retrieve_def data_at_def dat_def)
qed

lemma retrieve_key:
  assumes "represents env hf cf key base s M"
    and "\<And>d. cmp_key k d = 0 \<longleftrightarrow> key d = kk" "\<And>d. key d = kk \<Longrightarrow> call_hash env hf d = h"
  shows "lh_retrieve_key s k h cmp_key = Some (case M kk of None \<Rightarrow> 0 | Some d \<Rightarrow> d)"
proof -
  obtain css where r: "rep env s css" "stores_map key (items s) (concat css) M" "hash_func s = hf" "comp_func s = cf"
    by (rule representsE [OF assms(1)])
  from search_key [OF r assms(2,3)] obtain b ps rs where
    s: "find_cell (\<lambda>d. cmp_key k d = 0) s (Bucket (bucket_of h (num_buckets s))) = Some (cell_after (Bucket b) ps)"
    "unat b < length css" "css ! unat b = ps @ rs"
    "deref s (cell_after (Bucket b) ps) = Some (if rs = [] then 0 else hd rs)"
    "M kk = (if rs = [] then None else Some (dat (items s) (hd rs)))" by metis
  have "items s (hd rs) \<noteq> None \<and> hd rs \<noteq> 0" if "rs \<noteq> []"
    using rep_live [OF r(1) chain_in [OF s(2), of "hd rs"]] s(3) that by simp
  then show ?thesis using s by (auto simp: lh_retrieve_key_def get_next_ptr_by_key_def data_at_def dat_def)
qed

text \<open>An item gets other data with the same key.\<close>

lemma replace_item:
  assumes "rep env s css" "stores_map key (items s) (concat css) M" "hash_func s = hf" "comp_func s = cf"
    and "p \<in> set (concat css)" "items s p = Some it" "key (i_data it) = key data" and base: "beyond base s (set (concat css))"
  shows "represents env hf cf key base (s\<lparr>items := (items s)(p \<mapsto> it\<lparr>i_data := data\<rparr>)\<rparr>) (M(key data \<mapsto> data))"
    (is "represents _ _ _ _ _ ?s _")
proof -
  obtain i where i: "i < length css" "p \<in> set (css ! i)" by (rule in_chain [OF assms(5)])
  note r = assms(1)
  have len: "length (buckets s) = unat (num_buckets s)" "length css = unat (num_buckets s)" using r by (simp_all add: rep_def)
  have c: "links (items s) (buckets s ! i) (css ! i)" by (rule rep_chain [OF r i(1)])
  have hash: "i_hash it = call_hash env hf data"
    using rep_hash [OF r assms(5,6)] agree [OF assms(7)] assms(3) by simp
  have one: "j = i" if "j < length css" "p \<in> set (css ! j)" for j
    using rep_home [OF r that] rep_home [OF r i] by simp
  have "rep env ?s (css[i := [] @ css ! i])"
  proof (rule rep_change [OF r i(1)])
    show "links (items ?s) (buckets ?s ! i) ([] @ css ! i)"
      using c chain_data [of "css ! i" "items ?s" "items s"] assms(6) by simp
    show "distinct (concat (css[i := [] @ css ! i]))" "unat (num_items ?s) = length (concat (css[i := [] @ css ! i]))"
      using r by (simp_all add: rep_def)
    show "items ?s x = items s x" if "j < length css" "j \<noteq> i" "x \<in> set (css ! j)" for j x
      using one [of j] that by auto
    show "unat (bucket_of (i_hash it') (num_buckets s)) = i \<and> i_hash it' = call_hash env (hash_func s) (i_data it')"
      if "y \<in> set (css ! i)" "items ?s y = Some it'" for y it'
    proof -
      have "home (num_buckets s) (items s) y = i" by (rule rep_home [OF r i(1) that(1)])
      then show ?thesis
        using that(2) assms(3,6) hash rep_hash [OF r chain_in [OF i(1) that(1)]] by (cases "y = p") (auto simp: home_def)
    qed
  qed simp_all
  then have "rep env ?s css" by simp
  moreover have "stores_map key (items ?s) (concat css) (M(key data \<mapsto> data))"
    using stores_map_replace [OF assms(2,5), of "items ?s" data] assms(6,7) by (simp add: dat_def)
  moreover have "beyond base ?s (set (concat css))" using base assms(5) unfolding beyond_def by auto
  ultimately show ?thesis using assms(3,4) unfolding represents_def by fastforce
qed

text \<open>A new item at the end of its chain.\<close>

lemma append_item:
  assumes "rep env s css" "stores_map key (items s) (concat css) M" "hash_func s = hf" "comp_func s = cf"
    and b: "unat b < length css" "css ! unat b = ps" "b = bucket_of (call_hash env hf data) (num_buckets s)"
    and "M (key data) = None" "q \<noteq> 0" "items s q = None" and base: "beyond base s (set (concat css))"
  obtains s' where "assign (cell_after (Bucket b) ps) q
      (s\<lparr>items := (items s)(q \<mapsto> \<lparr>i_data = data, i_next = 0, i_hash = call_hash env hf data\<rparr>)\<rparr>) = Some s'"
    "represents env hf cf key base (s'\<lparr>num_items := num_items s' + 1\<rparr>) (M(key data \<mapsto> data))"
    "callback_depth s' = callback_depth s" "num_buckets s' = num_buckets s" "unat (num_items s' + 1) = unat (num_items s) + 1"
proof -
  note r = assms(1)
  let ?new = "\<lparr>i_data = data, i_next = 0, i_hash = call_hash env hf data\<rparr>"
  let ?s = "s\<lparr>items := (items s)(q \<mapsto> ?new)\<rparr>"
  have len: "length (buckets s) = unat (num_buckets s)" "length css = unat (num_buckets s)" using r by (simp_all add: rep_def)
  have q: "q \<notin> set (concat css)" using rep_live [OF r, of q] assms(10) by auto
  then have qi: "q \<notin> set (css ! j)" if "j < length css" for j using that by auto
  have c: "links (items ?s) (buckets ?s ! unat b) (ps @ [])"
    using chain_upd [of q ps "items s" "Some ?new"] qi [OF b(1)] rep_chain [OF r b(1)] b(2) by simp
  have dp: "distinct ps" "set [q] \<inter> set ps = {}"
    using r concat_at(2) [OF b(1)] b(2) qi [OF b(1)] by (simp_all add: rep_def)
  have "unat b < length (buckets ?s)" "links (items ?s) q [q]" using b(1) len assms(9) by simp_all
  from assign_after [OF this(1) c dp(1) this(2) dp(2)] obtain s' where s': "assign (cell_after (Bucket b) ps) q ?s = Some s'"
    "links (items s') (buckets s' ! unat b) (ps @ [q])" "\<And>x. x \<notin> set ps \<Longrightarrow> items s' x = items ?s x"
    "\<And>j. j \<noteq> unat b \<Longrightarrow> buckets s' ! j = buckets ?s ! j" "length (buckets s') = length (buckets ?s)"
    "relinked (items ?s) (items s')" "s' = ?s\<lparr>buckets := buckets s', items := items s'\<rparr>" by blast
  have fields: "num_items s' = num_items s" "num_buckets s' = num_buckets s" "callback_depth s' = callback_depth s"
    "hash_func s' = hash_func s" "comp_func s' = comp_func s" by (subst s'(7), simp)+
  have ms: "mset (concat (css[unat b := ps @ [q]])) = add_mset q (mset (concat css))"
    using concat_at [OF b(1)] b(2) by simp
  have "distinct (q # concat css)" "0 \<notin> set (q # concat css)"
    using r q assms(9) rep_live [OF r, of 0] by (auto simp: rep_def)
  then have "length (q # concat css) < 2 ^ 64" by (rule few_items)
  then have n: "unat (num_items s + 1) = unat (num_items s) + 1"
    using r by (simp add: rep_def unat_word_ariths)
  have rel: "\<exists>it0. items ?s x = Some it0 \<and> i_data it = i_data it0 \<and> i_hash it = i_hash it0" if "items s' x = Some it" for x it
    using relinkedE [OF s'(6) that] by metis
  let ?t = "s'\<lparr>num_items := num_items s' + 1\<rparr>"
  have "rep env ?t (css[unat b := ps @ [q]])"
  proof (rule rep_change [OF r b(1), of ps "[]"])
    show "css ! unat b = ps @ []" using b(2) by simp
    show "links (items ?t) (buckets ?t ! unat b) (ps @ [q])" using s'(2) by simp
    show "distinct (concat (css[unat b := ps @ [q]]))" using mset_eq_imp_distinct_iff [of _ "q # concat css"] ms
      \<open>distinct (q # concat css)\<close> by (metis mset.simps(2))
    show "unat (num_items ?t) = length (concat (css[unat b := ps @ [q]]))"
      using arg_cong [OF ms, of size] n r fields by (simp add: rep_def)
    show "items ?t x = items s x" if "j < length css" "j \<noteq> unat b" "x \<in> set (css ! j)" for j x
    proof -
      have "x \<notin> set ps" using rep_home [OF r that(1,3)] rep_home [OF r b(1), of x] b(2) that(2) by auto
      moreover have "x \<noteq> q" using qi [OF that(1)] that(3) by auto
      ultimately show ?thesis using s'(3) [of x] by simp
    qed
    show "\<exists>it. items s x = Some it \<and> i_data it' = i_data it \<and> i_hash it' = i_hash it"
      if "x \<in> set ps" "items ?t x = Some it'" for x it'
      using rel [of x it'] that dp(2) by (cases "x = q") auto
    show "unat (bucket_of (i_hash it) (num_buckets s)) = unat b \<and> i_hash it = call_hash env (hash_func s) (i_data it)"
      if "y \<in> set [q]" "items ?t y = Some it" for y it
      using rel [of y it] that b(3) assms(3) by auto
  qed (use s'(4,5) fields in simp_all)
  moreover have "stores_map key (items ?t) (concat (css[unat b := ps @ [q]])) (M(key data \<mapsto> data))"
  proof (rule stores_map_add [OF assms(2,8) ms])
    show "dat (items ?t) q = data" using relinked_dat [OF s'(6), of q] by (simp add: dat_def)
    show "dat (items ?t) x = dat (items s) x" if "x \<in> set (concat css)" for x
    proof -
      have "x \<noteq> q" using q that by auto
      then show ?thesis using relinked_dat [OF s'(6), of x] by (simp add: dat_def)
    qed
  qed
  moreover have "beyond base ?t (set (concat (css[unat b := ps @ [q]])))"
  proof -
    have set: "set (concat (css[unat b := ps @ [q]])) = insert q (set (concat css))"
      using mset_eq_setD [of _ "q # concat css"] ms by (metis list.simps(15) mset.simps(2))
    have "items s' x = items s x" if "x \<notin> insert q (set (concat css))" for x
      using s'(3) [of x] chain_in [OF b(1), of x] b(2) that by auto
    moreover have "base q = None" using base q assms(10) unfolding beyond_def by metis
    ultimately show ?thesis using base unfolding set beyond_def by auto
  qed
  ultimately have "represents env hf cf key base ?t (M(key data \<mapsto> data))"
    using fields assms(3,4) unfolding represents_def by auto
  then show ?thesis using that s'(1) fields n by simp
qed

text \<open>An item taken out of its chain.\<close>

lemma unlink_item:
  assumes "rep env s css" "stores_map key (items s) (concat css) M" "hash_func s = hf" "comp_func s = cf"
    and b: "unat b < length css" "css ! unat b = ps @ p # rs" and it: "items s p = Some it"
    and base: "beyond base s (set (concat css))"
  obtains s' where "assign (cell_after (Bucket b) ps) (i_next it) s = Some s'"
    "represents env hf cf key base (s'\<lparr>items := (items s')(p := None), num_items := num_items s' - 1\<rparr>) (M(key (i_data it) := None))"
    "callback_depth s' = callback_depth s" "num_buckets s' = num_buckets s" "num_items s' = num_items s"
    "unat (num_items s - 1) + 1 = unat (num_items s)"
proof -
  note r = assms(1)
  have len: "length (buckets s) = unat (num_buckets s)" "length css = unat (num_buckets s)" using r by (simp_all add: rep_def)
  have c: "links (items s) (buckets s ! unat b) (ps @ p # rs)" using rep_chain [OF r b(1)] b(2) by simp
  have "distinct (concat css)" using r by (simp add: rep_def)
  then have d: "distinct ps" "p \<notin> set ps" "set rs \<inter> set ps = {}" "distinct rs" "p \<notin> set rs"
    using concat_at(2) [OF b(1)] b(2) by auto
  have "unat b < length (buckets s)" using b(1) len by simp
  from assign_after [OF this c d(1) chain_rest [OF c it] d(3)] obtain s' where
    s': "assign (cell_after (Bucket b) ps) (i_next it) s = Some s'"
    "links (items s') (buckets s' ! unat b) (ps @ rs)" "\<And>x. x \<notin> set ps \<Longrightarrow> items s' x = items s x"
    "\<And>j. j \<noteq> unat b \<Longrightarrow> buckets s' ! j = buckets s ! j" "length (buckets s') = length (buckets s)"
    "relinked (items s) (items s')" "s' = s\<lparr>buckets := buckets s', items := items s'\<rparr>" by blast
  have fields: "num_items s' = num_items s" "num_buckets s' = num_buckets s" "callback_depth s' = callback_depth s"
    "hash_func s' = hash_func s" "comp_func s' = comp_func s" by (subst s'(7), simp)+
  let ?css = "css[unat b := ps @ rs]"
  have ms: "mset (concat css) = add_mset p (mset (concat ?css))"
    using concat_at [OF b(1)] b(2) by simp
  have dc: "distinct (p # concat ?css)"
    using mset_eq_imp_distinct_iff [of "concat css" "p # concat ?css"] ms \<open>distinct (concat css)\<close> by simp
  have sz: "unat (num_items s) = Suc (length (concat ?css))"
    using arg_cong [OF ms, of size] r by (simp add: rep_def)
  then have "1 \<le> num_items s" by (simp add: word_le_nat_alt)
  then have n: "unat (num_items s - 1) + 1 = unat (num_items s)" using sz by (simp add: unat_sub)
  let ?t = "s'\<lparr>items := (items s')(p := None), num_items := num_items s' - 1\<rparr>"
  have "rep env ?t ?css"
  proof (rule rep_change [OF r b])
    show "links (items ?t) (buckets ?t ! unat b) (ps @ rs)"
      using s'(2) chain_upd [of p "ps @ rs" "items s'" None] d(2,5) by simp
    show "distinct (concat ?css)" using dc by simp
    show "unat (num_items ?t) = length (concat ?css)" using n sz fields by simp
    show "items ?t x = items s x" if "j < length css" "j \<noteq> unat b" "x \<in> set (css ! j)" for j x
    proof -
      have "x \<notin> set (ps @ p # rs)" using rep_home [OF r that(1,3)] rep_home [OF r b(1), of x] b(2) that(2) by auto
      then show ?thesis using s'(3) [of x] by simp
    qed
    show "\<exists>it. items s x = Some it \<and> i_data it' = i_data it \<and> i_hash it' = i_hash it"
      if "x \<in> set ps" "items ?t x = Some it'" for x it'
    proof -
      have "items s' x = Some it'" using that d(2) by (auto split: if_splits)
      from relinkedE [OF s'(6) this] show ?thesis by metis
    qed
    show "unat (bucket_of (i_hash it') (num_buckets s)) = unat b \<and> i_hash it' = call_hash env (hash_func s) (i_data it')"
      if "y \<in> set rs" "items ?t y = Some it'" for y it'
    proof -
      have "y \<noteq> p" "y \<notin> set ps" using that(1) d(3,5) by auto
      then have "items s y = Some it'" using that(2) s'(3) [of y] by simp
      moreover have "y \<in> set (css ! unat b)" using b(2) that(1) by simp
      ultimately show ?thesis using rep_hash [OF r chain_in [OF b(1)], of y it'] rep_home [OF r b(1), of y] by (simp add: home_def)
    qed
  qed (use s'(4,5) fields in simp_all)
  moreover have "stores_map key (items ?t) (concat ?css) (M(key (dat (items s) p) := None))"
  proof (rule stores_map_remove [OF assms(2) ms])
    show "dat (items ?t) x = dat (items s) x" if "x \<in> set (concat ?css)" for x
    proof -
      have "x \<noteq> p" using dc that by auto
      then show ?thesis using relinked_dat [OF s'(6), of x] by (simp add: dat_def)
    qed
  qed
  moreover have "beyond base ?t (set (concat ?css))"
  proof -
    have set: "set (concat css) = insert p (set (concat ?css))"
      using mset_eq_setD [of "concat css" "p # concat ?css"] ms by simp
    have "items ?t x = base x" if "x \<notin> set (concat ?css)" for x
    proof (cases "x = p")
      case True
      have "base p = None" using base unfolding set beyond_def by blast
      then show ?thesis using True by simp
    next
      case False
      then have "x \<notin> set (concat css)" using that unfolding set by blast
      moreover from this have "x \<notin> set ps" using chain_in [OF b(1), of x] b(2) by auto
      ultimately show ?thesis using s'(3) [of x] base False unfolding beyond_def by simp
    qed
    then show ?thesis using base unfolding set beyond_def by blast
  qed
  ultimately have "represents env hf cf key base ?t (M(key (i_data it) := None))"
    using fields assms(3,4) it unfolding represents_def by (auto simp: dat_def)
  then show ?thesis using that s'(1) fields n by simp
qed

lemma table_insert:
  assumes "represents env hf cf key base s M"
  obtains (failed) "lh_insert env data s = Some (False, 0, s)" "M (key data) = None" "place_item env (items s) = None"
    | (stored) s' where "lh_insert env data s = Some (True, (case M (key data) of None \<Rightarrow> 0 | Some d \<Rightarrow> d), s')"
      "represents env hf cf key base s' (M(key data \<mapsto> data))" "callback_depth s' = callback_depth s"
      "unat (num_items s') \<le> unat (num_items s) + 1"
      "resizes env s \<Longrightarrow> unat (num_items s) + 1 < 2 ^ 60 \<Longrightarrow> loaded s \<Longrightarrow> loaded s'"
proof -
  obtain css where r: "rep env s css" "stores_map key (items s) (concat css) M" "hash_func s = hf" "comp_func s = cf"
    and base: "beyond base s (set (concat css))" by (rule representsE [OF assms])
  from find_item [OF r, of data] obtain b ps rs where
    s: "get_next_ptr_and_hash env s data = Some (call_hash env hf data, cell_after (Bucket b) ps)"
    "unat b < length css" "css ! unat b = ps @ rs" "b = bucket_of (call_hash env hf data) (num_buckets s)"
    "deref s (cell_after (Bucket b) ps) = Some (if rs = [] then 0 else hd rs)"
    "M (key data) = (if rs = [] then None else Some (dat (items s) (hd rs)))"
    "rs \<noteq> [] \<Longrightarrow> key (dat (items s) (hd rs)) = key data" by metis
  show ?thesis
  proof (cases rs)
    case (Cons p rs')
    have p: "p \<in> set (concat css)" using chain_in [OF s(2), of p] s(3) Cons by simp
    obtain it where it: "items s p = Some it" "p \<noteq> 0" using rep_live [OF r(1) p] by auto
    have k: "key (i_data it) = key data" using s(7) Cons it by (simp add: dat_def)
    let ?s = "s\<lparr>items := (items s)(p \<mapsto> it\<lparr>i_data := data\<rparr>)\<rparr>"
    have "lh_insert env data s = Some (True, i_data it, ?s)" using s(1,5) Cons it by (simp add: lh_insert_def)
    moreover have "M (key data) = Some (i_data it)" using s(6) Cons it by (simp add: dat_def)
    moreover have "represents env hf cf key base ?s (M(key data \<mapsto> data))" by (rule replace_item [OF r p it(1) k base])
    ultimately show ?thesis using stored [of ?s] by (simp add: loaded_def)
  next
    case Nil
    then have M: "M (key data) = None" using s(6) by simp
    have d: "deref s (cell_after (Bucket b) ps) = Some 0" using s(5) Nil by simp
    show ?thesis
    proof (cases "place_item env (items s)")
      case None
      then show ?thesis using failed s(1) d M by (simp add: lh_insert_def)
    next
      case (Some q)
      then have q: "q \<noteq> 0" "items s q = None" using place by blast+
      have "css ! unat b = ps" using s(3) Nil by simp
      from append_item [OF r s(2) this s(4) M q base] obtain s1 where
        s1: "assign (cell_after (Bucket b) ps) q
          (s\<lparr>items := (items s)(q \<mapsto> \<lparr>i_data = data, i_next = 0, i_hash = call_hash env hf data\<rparr>)\<rparr>) = Some s1"
        "represents env hf cf key base (s1\<lparr>num_items := num_items s1 + 1\<rparr>) (M(key data \<mapsto> data))"
        "callback_depth s1 = callback_depth s" "num_buckets s1 = num_buckets s" "unat (num_items s1 + 1) = unat (num_items s) + 1" by metis
      from represents_resize [OF s1(2)] obtain s2 where
        s2: "lh_maybe_resize env (s1\<lparr>num_items := num_items s1 + 1\<rparr>) = Some s2" "represents env hf cf key base s2 (M(key data \<mapsto> data))"
          "callback_depth s2 = callback_depth s1" "num_items s2 = num_items s1 + 1"
          "resizes env (s1\<lparr>num_items := num_items s1 + 1\<rparr>) \<Longrightarrow> unat (num_items s1 + 1) \<le> 3 * unat (num_buckets s1) \<Longrightarrow> loaded s2"
        by auto
      have "lh_insert env data s = Some (True, 0, s2)" using s(1) d Some s1(1) s2(1) by (simp add: lh_insert_def)
      moreover have "loaded s2" if "resizes env s" "unat (num_items s) + 1 < 2 ^ 60" "loaded s"
        using that s1(3-5) s2(5) by (simp add: resizes_def loaded_def)
      ultimately show ?thesis using stored [of s2] s2(2-4) s1(3,5) M by simp
    qed
  qed
qed

lemma table_delete:
  assumes "represents env hf cf key base s M"
  obtains s' where "lh_delete env data s = Some (case M (key data) of None \<Rightarrow> 0 | Some d \<Rightarrow> d, s')"
    "represents env hf cf key base s' (M(key data := None))" "callback_depth s' = callback_depth s"
    "unat (num_items s') \<le> unat (num_items s)" "resizes env s \<Longrightarrow> loaded s \<Longrightarrow> loaded s'"
proof -
  obtain css where r: "rep env s css" "stores_map key (items s) (concat css) M" "hash_func s = hf" "comp_func s = cf"
    and base: "beyond base s (set (concat css))" by (rule representsE [OF assms])
  from find_item [OF r, of data] obtain b ps rs where
    s: "get_next_ptr_and_hash env s data = Some (call_hash env hf data, cell_after (Bucket b) ps)"
    "unat b < length css" "css ! unat b = ps @ rs"
    "deref s (cell_after (Bucket b) ps) = Some (if rs = [] then 0 else hd rs)"
    "M (key data) = (if rs = [] then None else Some (dat (items s) (hd rs)))"
    "rs \<noteq> [] \<Longrightarrow> key (dat (items s) (hd rs)) = key data" by metis
  show ?thesis
  proof (cases rs)
    case Nil
    then have "M (key data) = None" "lh_delete env data s = Some (0, s)" using s(1,4,5) by (simp_all add: lh_delete_def)
    moreover from this(1) have "M(key data := None) = M" by (rule fun_upd_idem)
    ultimately show ?thesis using that [of s] assms by simp
  next
    case (Cons p rs')
    have split: "css ! unat b = ps @ p # rs'" using s(3) Cons by simp
    have p: "p \<in> set (concat css)" using chain_in [OF s(2), of p] split by simp
    obtain it where it: "items s p = Some it" "p \<noteq> 0" using rep_live [OF r(1) p] by auto
    have k: "key (i_data it) = key data" using s(6) Cons it by (simp add: dat_def)
    from unlink_item [OF r s(2) split it(1) base] obtain s1 where
      s1: "assign (cell_after (Bucket b) ps) (i_next it) s = Some s1"
      "represents env hf cf key base (s1\<lparr>items := (items s1)(p := None), num_items := num_items s1 - 1\<rparr>) (M(key (i_data it) := None))"
      "callback_depth s1 = callback_depth s" "num_buckets s1 = num_buckets s" "num_items s1 = num_items s"
      "unat (num_items s - 1) + 1 = unat (num_items s)" by metis
    let ?s = "s1\<lparr>items := (items s1)(p := None), num_items := num_items s1 - 1\<rparr>"
    from represents_resize [OF s1(2)] obtain s2 where
      s2: "lh_maybe_resize env ?s = Some s2" "represents env hf cf key base s2 (M(key data := None))"
        "callback_depth s2 = callback_depth s1" "num_items s2 = num_items s - 1"
        "resizes env ?s \<Longrightarrow> unat (num_items s - 1) \<le> 3 * unat (num_buckets s) \<Longrightarrow> loaded s2"
      using s1(4,5) k by auto
    have "lh_delete env data s = Some (i_data it, s2)" using s(1,4) Cons it s1(1) s2(1) by (simp add: lh_delete_def)
    moreover have "M (key data) = Some (i_data it)" using s(5) Cons it by (simp add: dat_def)
    moreover have "loaded s2" if "resizes env s" "loaded s"
      using that s1(3,5,6) s2(5) by (simp add: resizes_def loaded_def)
    ultimately show ?thesis using that [of s2] s2(2-4) s1(3,6) by simp
  qed
qed

end

section \<open>A new table, visits and the end of a table\<close>

lemma new_represents:
  assumes "lh_new env hf cf st = Some s"
  shows "represents env hf cf key st s Map.empty" "callback_depth s = 0" "num_items s = 0" "loaded s"
proof -
  have s: "s = \<lparr>num_items = 0, buckets = replicate 16 0, num_buckets = 16, callback_depth = 0, comp_func = cf, hash_func = hf, items = st\<rparr>"
    using assms by (simp add: lh_new_def kMinNumBuckets_def split: if_splits)
  have "rep env s (replicate 16 [])" by (simp add: s rep_def homed_def kMinNumBuckets_def)
  moreover have "stores_map key (items s) (concat (replicate 16 [])) Map.empty" by (simp add: stores_map_def)
  moreover have "beyond st s (set (concat (replicate 16 [])))" by (simp add: beyond_def s)
  ultimately show "represents env hf cf key st s Map.empty"
    unfolding represents_def s by (intro conjI exI [of _ "replicate 16 []"]) simp_all
  show "callback_depth s = 0" "num_items s = 0" "loaded s" by (simp_all add: s loaded_def)
qed

lemma represents_card:
  assumes "represents env hf cf key base s M"
  shows "unat (num_items s) = card (dom M)"
proof (rule representsE [OF assms])
  fix css assume r: "rep env s css" and m: "stores_map key (items s) (concat css) M"
  have "k \<in> dom M \<longleftrightarrow> k \<in> (\<lambda>x. key (dat (items s) x)) ` set (concat css)" for k
    using stores_map_none [OF m, of k] unfolding domIff image_iff by metis
  then have "dom M = (\<lambda>x. key (dat (items s) x)) ` set (concat css)" by blast
  then have "dom M = set (map (\<lambda>x. key (dat (items s) x)) (concat css))" by simp
  moreover have "distinct (map (\<lambda>x. key (dat (items s) x)) (concat css))" using m unfolding stores_map_def by blast
  ultimately have "card (dom M) = length (map (\<lambda>x. key (dat (items s) x)) (concat css))" by (simp only: distinct_card)
  then show ?thesis using r by (simp add: rep_def)
qed

text \<open>A callback that leaves the table alone.\<close>

definition pure_callback :: "(addr \<Rightarrow> 's \<Rightarrow> 's) \<Rightarrow> addr \<Rightarrow> lhash \<times> 's \<Rightarrow> (lhash \<times> 's) option" where
  "pure_callback f d st = Some (fst st, f d (snd st))"

lemma doall_chain_spec:
  "links (items s) a xs \<Longrightarrow> doall_chain (pure_callback f) a (s, x) = Some (s, fold f (map (dat (items s)) xs) x)"
proof (induction xs arbitrary: a x)
  case Nil
  then show ?case by (simp add: doall_chain.simps [of _ 0])
next
  case (Cons y xs)
  then obtain it where "items s y = Some it" "links (items s) (i_next it) xs" "a = y" "y \<noteq> 0" by auto
  then show ?case using Cons.IH by (simp add: doall_chain.simps [of _ y] pure_callback_def dat_def)
qed

lemma doall_from_spec:
  assumes "rep env s css" "i \<le> num_buckets s"
  shows "doall_from (pure_callback f) i (s, x) = Some (s, fold f (map (dat (items s)) (concat (drop (unat i) css))) x)"
  using assms(2)
proof (induction "unat (num_buckets s) - unat i" arbitrary: i x)
  case 0
  then have "i = num_buckets s" by (simp add: word_le_nat_alt word_unat_eq_iff)
  then show ?case using assms(1) by (simp add: doall_from.simps [of _ "num_buckets s"] rep_def)
next
  case (Suc k)
  then have i: "i < num_buckets s" "unat i < length css" "unat i < length (buckets s)"
    using assms(1) by (simp_all add: word_less_nat_alt rep_def)
  have n: "unat (i + 1) = unat i + 1"
  proof -
    have "unat i + 1 < 18446744073709551616" using i(1) u64_less [of "num_buckets s"] unfolding word_less_nat_alt by linarith
    then show ?thesis by (simp add: unat_word_ariths)
  qed
  have "i + 1 \<le> num_buckets s" "k = unat (num_buckets s) - unat (i + 1)"
    using Suc.hyps(2) i(1) n by (simp_all add: word_le_nat_alt word_less_nat_alt)
  note IH = Suc.hyps(1) [OF this(2,1)]
  show ?case
    using i doall_chain_spec [OF rep_chain [OF assms(1) i(2)], of f x] IH
    by (simp add: doall_from.simps [of _ i] n Cons_nth_drop_Suc [OF i(2), symmetric])
qed

lemma represents_depth: "represents env hf cf key base (s\<lparr>callback_depth := c\<rparr>) M \<longleftrightarrow> represents env hf cf key base s M"
  by (simp add: represents_def rep_def beyond_def)

lemma doall_spec:
  assumes "represents env hf cf key base s M"
  obtains ds s' where "lh_doall_arg env (pure_callback f) (Some s) x = Some (Some s', fold f ds x)"
    "distinct ds" "set ds = ran M" "represents env hf cf key base s' M"
proof (rule representsE [OF assms])
  fix css assume r: "rep env s css" and m: "stores_map key (items s) (concat css) M"
  let ?ds = "map (dat (items s)) (concat css)"
  have ds: "distinct ?ds"
  proof -
    have "distinct (map key ?ds)" using m by (simp add: stores_map_def o_def)
    then show ?thesis using distinct_map [of key ?ds] by blast
  qed
  have ran: "set ?ds = ran M"
    using m by (auto simp: ran_def stores_map_def)
  define s1 where "s1 = (if callback_depth s < 0xffffffff then s\<lparr>callback_depth := callback_depth s + 1\<rparr> else s)"
  define s2 where "s2 = (if callback_depth s1 < 0xffffffff then s1\<lparr>callback_depth := callback_depth s1 - 1\<rparr> else s1)"
  have r1: "rep env s1 css" "items s1 = items s" using r by (simp_all add: s1_def rep_def)
  have "represents env hf cf key base s2 M" using assms by (simp add: s2_def s1_def represents_depth)
  then obtain s3 where s3: "lh_maybe_resize env s2 = Some s3" "represents env hf cf key base s3 M"
    by (rule represents_resize)
  have "doall_from (pure_callback f) 0 (s1, x) = Some (s1, fold f ?ds x)"
    using doall_from_spec [OF r1(1), of 0 f x] r1(2) by simp
  then have "lh_doall_arg env (pure_callback f) (Some s) x = Some (Some s3, fold f ?ds x)"
    using s3(1) unfolding lh_doall_arg_def by (simp add: s1_def [symmetric] s2_def [symmetric] Let_def)
  then show thesis using that ds ran s3(2) by blast
qed

lemma free_chain_spec:
  "links st a xs \<Longrightarrow> distinct xs \<Longrightarrow> free_chain a st = Some (\<lambda>x. if x \<in> set xs then None else st x)"
proof (induction xs arbitrary: a st)
  case Nil
  then show ?case by (simp add: free_chain.simps)
next
  case (Cons y xs)
  then obtain it where it: "st y = Some it" "links st (i_next it) xs" "a = y" "y \<noteq> 0" by auto
  have "links (st(y := None)) (i_next it) xs" using it(2) Cons.prems(2) chain_upd [of y xs st None] by simp
  then have "free_chain (i_next it) (st(y := None)) = Some (\<lambda>x. if x \<in> set xs then None else (st(y := None)) x)"
    using Cons by simp
  then show ?case using it by (auto simp: free_chain.simps [of y])
qed

lemma free_all:
  assumes "rep env s css" "m \<le> length css"
  shows "foldM (\<lambda>i st. if i < length (buckets s) then free_chain (buckets s ! i) st else None) [0..<m] (items s) =
    Some (\<lambda>x. if x \<in> set (concat (take m css)) then None else items s x)"
  using assms(2)
proof (induction m)
  case (Suc m)
  have m: "m < length css" "m < length (buckets s)" using Suc.prems assms(1) by (simp_all add: rep_def)
  have "distinct (concat css)" using assms(1) by (simp add: rep_def)
  then have d: "distinct (css ! m)" "set (css ! m) \<inter> set (concat (take m css)) = {}"
    using concat_at(2) [OF m(1)] by (auto simp del: concat_append)
  let ?st = "\<lambda>x. if x \<in> set (concat (take m css)) then None else items s x"
  have "links ?st (buckets s ! m) (css ! m)"
  proof -
    have "?st x = items s x" if "x \<in> set (css ! m)" for x using that d(2) by auto
    from chain_frame [of "css ! m" ?st "items s", OF this] show ?thesis using rep_chain [OF assms(1) m(1)] by blast
  qed
  note free_chain_spec [OF this d(1)]
  moreover have "(\<lambda>x. if x \<in> set (css ! m) then None else ?st x) =
    (\<lambda>x. if x \<in> set (concat (take (Suc m) css)) then None else items s x)"
    unfolding take_Suc_conv_app_nth [OF m(1)] by auto
  ultimately show ?case using Suc m(2) by (simp add: foldM_snoc del: set_concat)
qed simp

lemma free_spec:
  assumes "represents env hf cf key base s M"
  shows "lh_free (Some s) st = Some base"
proof (rule representsE [OF assms])
  fix css assume r: "rep env s css" and b: "beyond base s (set (concat css))"
  have "length css = unat (num_buckets s)" using r by (simp add: rep_def)
  then have "lh_free (Some s) st = Some (\<lambda>x. if x \<in> set (concat css) then None else items s x)"
    using free_all [OF r order_refl] by (simp add: lh_free_def del: set_concat)
  also have "(\<lambda>x. if x \<in> set (concat css) then None else items s x) = base"
    using b unfolding beyond_def by (intro ext) (metis (no_types))
  finally show ?thesis .
qed

section \<open>Sessions\<close>

datatype lh_op = Put addr | Del addr | Get addr

datatype lh_reply = Stored addr | Refused | Got addr

fun run_lh_op :: "lh_env \<Rightarrow> lh_op \<Rightarrow> lhash \<Rightarrow> (lh_reply \<times> lhash) option" where
  "run_lh_op env (Put d) s = map_option (\<lambda>(ok, old, s). (if ok then Stored old else Refused, s)) (lh_insert env d s)"
| "run_lh_op env (Del d) s = map_option (\<lambda>(r, s). (Got r, s)) (lh_delete env d s)"
| "run_lh_op env (Get d) s = map_option (\<lambda>r. (Got r, s)) (lh_retrieve env s d)"

fun run_lh :: "lh_env \<Rightarrow> lh_op list \<Rightarrow> lhash \<Rightarrow> (lh_reply list \<times> lhash) option" where
  "run_lh env [] s = Some ([], s)"
| "run_lh env (opn # ops) s =
     do {
       (r, s) \<leftarrow> run_lh_op env opn s;
       (rs, s) \<leftarrow> run_lh env ops s;
       Some (r # rs, s)
     }"

text \<open>The same on a map from keys to elements; only a new key can be refused.\<close>

definition answer :: "('k \<rightharpoonup> addr) \<Rightarrow> 'k \<Rightarrow> addr" where
  "answer M k = (case M k of None \<Rightarrow> 0 | Some d \<Rightarrow> d)"

inductive map_session :: "(addr \<Rightarrow> 'k) \<Rightarrow> ('k \<rightharpoonup> addr) \<Rightarrow> lh_op list \<Rightarrow> lh_reply list \<Rightarrow> ('k \<rightharpoonup> addr) \<Rightarrow> bool" for key where
  finished: "map_session key M [] [] M"
| put: "map_session key (M(key d \<mapsto> d)) ops rs M' \<Longrightarrow> map_session key M (Put d # ops) (Stored (answer M (key d)) # rs) M'"
| refuse: "M (key d) = None \<Longrightarrow> map_session key M ops rs M' \<Longrightarrow> map_session key M (Put d # ops) (Refused # rs) M'"
| del: "map_session key (M(key d := None)) ops rs M' \<Longrightarrow> map_session key M (Del d # ops) (Got (answer M (key d)) # rs) M'"
| get: "map_session key M ops rs M' \<Longrightarrow> map_session key M (Get d # ops) (Got (answer M (key d)) # rs) M'"

inductive_cases map_session_Nil: "map_session key M [] rs M'"
inductive_cases map_session_Cons: "map_session key M (opn # ops) rs M'"

context keyed
begin

lemma op_spec:
  assumes "represents env hf cf key base s M"
  obtains r s' M' where "run_lh_op env opn s = Some (r, s')" "represents env hf cf key base s' M'"
    "\<And>ops rs M''. map_session key M' ops rs M'' \<Longrightarrow> map_session key M (opn # ops) (r # rs) M''"
    "callback_depth s' = callback_depth s" "unat (num_items s') \<le> unat (num_items s) + 1"
    "resizes env s \<Longrightarrow> unat (num_items s) + 1 < 2 ^ 60 \<Longrightarrow> loaded s \<Longrightarrow> loaded s'"
proof (cases opn)
  case (Put d)
  show ?thesis
  proof (cases rule: table_insert [OF assms, of d])
    case failed: 1
    show ?thesis by (rule that [of Refused s M]) (use failed Put assms in \<open>simp_all add: refuse\<close>)
  next
    case stored: (2 s')
    then show ?thesis
      using that [of "Stored (answer M (key d))" s' "M(key d \<mapsto> d)"] Put put [of key M d] by (simp add: answer_def)
  qed
next
  case (Del d)
  from table_delete [OF assms, of d] obtain s' where
    "lh_delete env d s = Some (case M (key d) of None \<Rightarrow> 0 | Some d \<Rightarrow> d, s')"
    "represents env hf cf key base s' (M(key d := None))" "callback_depth s' = callback_depth s"
    "unat (num_items s') \<le> unat (num_items s)" "resizes env s \<Longrightarrow> loaded s \<Longrightarrow> loaded s'" by blast
  then show ?thesis
    using that [of "Got (answer M (key d))" s' "M(key d := None)"] Del del [of key M d] by (simp add: answer_def)
next
  case (Get d)
  then show ?thesis
    using that [of "Got (answer M (key d))" s M] retrieve [OF assms, of d] assms get [of key M] by (simp add: answer_def)
qed

lemma session_spec:
  assumes "represents env hf cf key base s M"
  obtains rs s' M' where "run_lh env ops s = Some (rs, s')" "map_session key M ops rs M'" "represents env hf cf key base s' M'"
    "resizes env s \<Longrightarrow> unat (num_items s) + length ops < 2 ^ 60 \<Longrightarrow> loaded s \<Longrightarrow> loaded s'"
  using assms
proof (induction ops arbitrary: s M thesis)
  case Nil
  then show ?case using finished by fastforce
next
  case (Cons opn ops)
  from op_spec [OF Cons.prems(2), of opn] obtain r s1 M1 where s1: "run_lh_op env opn s = Some (r, s1)"
    "represents env hf cf key base s1 M1" "\<And>ops rs M''. map_session key M1 ops rs M'' \<Longrightarrow> map_session key M (opn # ops) (r # rs) M''"
    "callback_depth s1 = callback_depth s" "unat (num_items s1) \<le> unat (num_items s) + 1"
    "resizes env s \<Longrightarrow> unat (num_items s) + 1 < 2 ^ 60 \<Longrightarrow> loaded s \<Longrightarrow> loaded s1" by metis
  from Cons.IH [OF _ s1(2)] obtain rs s2 M2 where s2: "run_lh env ops s1 = Some (rs, s2)" "map_session key M1 ops rs M2"
    "represents env hf cf key base s2 M2" "resizes env s1 \<Longrightarrow> unat (num_items s1) + length ops < 2 ^ 60 \<Longrightarrow> loaded s1 \<Longrightarrow> loaded s2" by metis
  have "loaded s2" if "resizes env s" "unat (num_items s) + length (opn # ops) < 2 ^ 60" "loaded s"
  proof -
    have "resizes env s1" using that(1,2) s1(4,5) by (simp add: resizes_def)
    then show ?thesis using that s1(5,6) s2(4) by simp
  qed
  then show ?case using Cons.prems(1) [of "r # rs" s2 M2] s1(1,3) s2(1-3) by simp
qed

lemma table_session:
  assumes "lh_new env hf cf st = Some s"
  obtains rs s' M where "run_lh env ops s = Some (rs, s')" "map_session key Map.empty ops rs M" "represents env hf cf key st s' M"
    "(\<forall>n. array_ok env n) \<Longrightarrow> length ops < 2 ^ 60 \<Longrightarrow> loaded s'"
proof -
  note n = new_represents [OF assms]
  from session_spec [OF n(1), of ops] obtain rs s' M where
    r: "run_lh env ops s = Some (rs, s')" "map_session key Map.empty ops rs M" "represents env hf cf key st s' M"
    "resizes env s \<Longrightarrow> unat (num_items s) + length ops < 2 ^ 60 \<Longrightarrow> loaded s \<Longrightarrow> loaded s'" by metis
  then show ?thesis using that [of rs s' M] n(2-4) by (simp add: resizes_def)
qed

end

text \<open>A table of C strings, hashed by \<^verbatim>\<open>lh_strhash\<close> and compared by their characters; its items go to the first
  free of \<open>n\<close> places.\<close>

definition str_key :: "mem \<Rightarrow> addr \<Rightarrow> u8 list option" where
  "str_key m d = (if d = 0 then None else map_option (\<lambda>n. read_bytes m d (unat n)) (c_strlen m d 0))"

definition str_env :: "mem \<Rightarrow> nat \<Rightarrow> lh_env" where
  "str_env m n =
     \<lparr>call_hash = (\<lambda>_ d. case lh_strhash m d of None \<Rightarrow> 0 | Some h \<Rightarrow> h),
      call_cmp = (\<lambda>_ a b. if str_key m a = str_key m b then 0 else 1),
      array_ok = (\<lambda>_. True),
      place_item = (\<lambda>st. find (\<lambda>q. q \<noteq> 0 \<and> st q = None) (map (\<lambda>i. of_nat (64 * Suc i)) [0..<n]))\<rparr>"

lemma lh_strhash_key: "lh_strhash m d = (if d = 0 then Some 0 else map_option (fnv_loop 2166136261) (str_key m d))"
  by (simp add: lh_strhash_def str_key_def OPENSSL_hash32_def [abs_def] option.map_comp o_def)

interpretation strs: keyed "str_env m n" hf cf "str_key m" for m n hf cf
proof
  fix a b :: addr and q st
  show "call_cmp (str_env m n) cf a b = 0 \<longleftrightarrow> str_key m a = str_key m b" by (simp add: str_env_def)
  have zero: "str_key m 0 = None" by (simp add: str_key_def)
  show "call_hash (str_env m n) hf a = call_hash (str_env m n) hf b" if "str_key m a = str_key m b"
    using that zero by (auto simp: str_env_def lh_strhash_key split: option.splits)
  show "place_item (str_env m n) st = Some q \<Longrightarrow> q \<noteq> 0 \<and> st q = None"
    by (auto simp: str_env_def find_Some_iff)
qed

section \<open>What the functions promise\<close>

text \<open>C31. Any session of insertions, deletions and lookups on a new hash table gives the answers of a map from keys to
  elements, for any hash and comparison functions that agree on the keys, any allocator, and through all the
  growing and shrinking of the bucket array; only the insertion of a new key can be refused.  The table then counts its
  elements exactly, finds each of them and nothing else, and freeing it gives back exactly the items it allocated.\<close>

theorem lhash_refines_map:
  assumes "keyed env hf cf key" "lh_new env hf cf st = Some s"
  shows "\<exists>rs s' M. run_lh env ops s = Some (rs, s') \<and> map_session key Map.empty ops rs M \<and>
    unat (lh_num_items s') = card (dom M) \<and> (\<forall>d. lh_retrieve env s' d = Some (answer M (key d))) \<and>
    lh_free (Some s') st = Some st"
proof (rule keyed.table_session [OF assms, of ops])
  fix rs s' M assume r: "run_lh env ops s = Some (rs, s')" "map_session key Map.empty ops rs M" "represents env hf cf key st s' M"
  then have "unat (lh_num_items s') = card (dom M)" "lh_free (Some s') st = Some st"
    using represents_card [OF r(3)] free_spec [OF r(3)] by (simp_all add: lh_num_items_def)
  moreover have "lh_retrieve env s' d = Some (answer M (key d))" for d
    using keyed.retrieve [OF assms(1) r(3)] by (simp add: answer_def)
  ultimately show ?thesis using r(1,2) by blast
qed

text \<open>Three strings, two of them equal.\<close>

definition example_strings :: mem where
  "example_strings a = (if a = 8 then 97 else if a = 16 then 98 else if a = 24 then 97 else 0)"

definition example_table :: lhash where
  "example_table = \<lparr>num_items = 0, buckets = replicate 16 0, num_buckets = 16, callback_depth = 0, comp_func = 2, hash_func = 1,
     items = Map.empty\<rparr>"

lemma example_table_new: "lh_new (str_env m n) 1 2 Map.empty = Some example_table"
  by (simp add: lh_new_def str_env_def example_table_def kMinNumBuckets_def)

theorem lhash_refines_map_witness:
  "\<exists>rs s' M. run_lh (str_env example_strings 4) [Put 8, Put 16, Put 24, Del 8] example_table = Some (rs, s') \<and>
    map_session (str_key example_strings) Map.empty [Put 8, Put 16, Put 24, Del 8] rs M \<and>
    unat (lh_num_items s') = card (dom M) \<and>
    (\<forall>d. lh_retrieve (str_env example_strings 4) s' d = Some (answer M (str_key example_strings d))) \<and>
    lh_free (Some s') Map.empty = Some Map.empty"
  by (rule lhash_refines_map [OF strs.keyed_axioms example_table_new])

text \<open>C32. The average chain of a table stays below three items over any session shorter than \<open>2 ^ 60\<close>, when the
  allocator grants the arrays.\<close>

theorem load_bound:
  assumes "keyed env hf cf key" "lh_new env hf cf st = Some s" "\<forall>n. array_ok env n" "length ops < 2 ^ 60"
  shows "\<exists>rs s'. run_lh env ops s = Some (rs, s') \<and> unat (num_items s') < 3 * unat (num_buckets s')"
  by (rule keyed.table_session [OF assms(1,2), of ops]) (use assms(3,4) in \<open>simp add: loaded_def\<close>)

theorem load_bound_witness:
  "\<exists>rs s'. run_lh (str_env example_strings 4) [Put 8, Put 16, Del 8] example_table = Some (rs, s') \<and>
    unat (num_items s') < 3 * unat (num_buckets s')"
  by (rule load_bound [OF strs.keyed_axioms example_table_new]) (simp_all add: str_env_def)

text \<open>C33. \<^verbatim>\<open>lh_doall_arg\<close> with a callback that leaves the table alone calls it once for each element, and the table
  keeps its elements.\<close>

theorem doall_visits:
  assumes "keyed env hf cf key" "lh_new env hf cf st = Some s" "run_lh env ops s = Some (rs, s')"
  shows "\<exists>M ds s''. map_session key Map.empty ops rs M \<and>
    lh_doall_arg env (pure_callback f) (Some s') x = Some (Some s'', fold f ds x) \<and> distinct ds \<and> set ds = ran M \<and>
    (\<forall>d. lh_retrieve env s'' d = lh_retrieve env s' d)"
proof (rule keyed.table_session [OF assms(1,2), of ops])
  fix rs2 s2 M assume r: "run_lh env ops s = Some (rs2, s2)" "map_session key Map.empty ops rs2 M" "represents env hf cf key st s2 M"
  then have e: "rs2 = rs" "s2 = s'" using assms(3) by simp_all
  from doall_spec [OF r(3), of f x] obtain ds s'' where d: "lh_doall_arg env (pure_callback f) (Some s2) x = Some (Some s'', fold f ds x)"
    "distinct ds" "set ds = ran M" "represents env hf cf key st s'' M" by metis
  have "lh_retrieve env s'' y = lh_retrieve env s2 y" for y
    using keyed.retrieve [OF assms(1) d(4)] keyed.retrieve [OF assms(1) r(3)] by simp
  then show ?thesis using r(2) d(1-3) e by blast
qed

theorem doall_visits_witness:
  "\<exists>rs s' M ds s''. run_lh (str_env example_strings 4) [Put 8, Put 16] example_table = Some (rs, s') \<and>
    map_session (str_key example_strings) Map.empty [Put 8, Put 16] rs M \<and>
    lh_doall_arg (str_env example_strings 4) (pure_callback (\<lambda>d n. n + unat d)) (Some s') 0 = Some (Some s'', fold (\<lambda>d n. n + unat d) ds 0) \<and>
    distinct ds \<and> set ds = ran M"
proof (rule strs.table_session [OF example_table_new, of example_strings 4 "[Put 8, Put 16]"])
  fix rs s' M assume r: "run_lh (str_env example_strings 4) [Put 8, Put 16] example_table = Some (rs, s')"
  from doall_visits [OF strs.keyed_axioms example_table_new r, of "\<lambda>d n. n + unat d" "0 :: nat"] r show ?thesis by blast
qed

end
