(* ===== verification/Spec2Isabelle.thy ===== *)
theory Spec2Isabelle
  imports Pb_Encode Pb_Union Base64_Stream F_Base64 Cbs_Props Cbb_Set Cbb_Chain Unicode Oid Ber Cbs_Copy Stack Lhash
begin

text \<open>
  \<^bold>\<open>The C code of the HoopZ iOS application.\<close>  The application itself is Swift
  (\<^verbatim>\<open>src/HoopZ/HoopZ\<close>); what it has of C comes with its pods under
  \<^verbatim>\<open>src/HoopZ/Pods\<close>.  Firestore serialises every document and query with \<^verbatim>\<open>nanopb\<close>,
  talks to its server over gRPC, whose TLS layer reads and writes certificates and handshake messages with
  the \<^verbatim>\<open>bytestring\<close> module of BoringSSL and decodes PEM with its \<^verbatim>\<open>base64\<close>
  module, and the Realtime Database opens a web socket whose handshake uses \<^verbatim>\<open>fbase64.c\<close>.
  All of these turn untrusted bytes into data and back.  The development models them statement by statement
  and proves what makes such code correct: it stays inside its buffers, it returns, it accepts
  exactly the encodings it should, and reading undoes writing.

  \<^bold>\<open>Shared theories.\<close>
  \<^item> \<open>Prelude\<close>: C integers as words, sequencing of calls that return \<^verbatim>\<open>bool\<close>, folds that may fail, words
    and little-endian bytes.
  \<^item> \<open>C_Memory\<close>: byte memory at 64-bit addresses, loads, stores, \<^verbatim>\<open>memcpy\<close>, \<^verbatim>\<open>memset\<close>, and
    \<^verbatim>\<open>realloc\<close>/\<^verbatim>\<open>free\<close> over a table of live blocks.  Where the allocator puts a block, or that
    it fails, is an argument.
  \<^item> \<open>Buffers\<close>: output arrays as lists; a store past the end makes the list longer.
  \<^item> \<open>Digits\<close>: positional notation, used for base 128 tags, base 256 lengths and integers.

  \<^bold>\<open>nanopb\<close> (\<^verbatim>\<open>src/HoopZ/Pods/nanopb\<close>, configured with \<^verbatim>\<open>PB_FIELD_32BIT\<close>,
  \<^verbatim>\<open>PB_ENABLE_MALLOC\<close>, \<^verbatim>\<open>PB_NO_PACKED_STRUCTS\<close>).
  \<^item> \<open>Pb_Types\<close>: \<^verbatim>\<open>pb.h\<close>, \<^verbatim>\<open>pb_encode.h\<close>, \<^verbatim>\<open>pb_decode.h\<close>.  A descriptor
    \<^verbatim>\<open>pb_field_t\<close> is the record \<open>pb_field\<close>, whose type byte is a word taken apart by
    \<open>PB_LTYPE\<close>, \<open>PB_HTYPE\<close>, \<open>PB_ATYPE\<close>; the streams are \<open>pb_ostream\<close> and \<open>pb_istream\<close>, paired with the
    memory their callbacks work on (\<open>ost\<close>, \<open>ist\<close>).  The code reached through function pointers (stream
    callbacks, field callbacks, extension handlers) is the record \<open>pb_env\<close>.
  \<^item> \<open>Pb_Common\<close>: the field iterator of \<^verbatim>\<open>pb_common.c\<close> (\<open>pb_field_iter_begin\<close>, \<open>_next\<close>, \<open>_find\<close>).  Proved:
    the \<^verbatim>\<open>do ... while\<close> loops visit every entry once and in order, the search stops and finds the first
    match in cyclic order.
  \<^item> \<open>Pb_Ostream\<close>, \<open>Pb_Encode\<close>: all of \<^verbatim>\<open>pb_encode.c\<close>.  Proved: each encoder emits a byte string that
    depends on its arguments only, so the size \<^verbatim>\<open>pb_get_encoded_size\<close> reports is the size \<^verbatim>\<open>pb_encode\<close>
    writes and every length prefix is right; it returns on tables without extension fields; a pointer compared by its low bytes
    (\<open>default_check_pointer_low_byte\<close>) is a defect.
  \<^item> \<open>Pb_Istream\<close>: streams, varints, tags and skipping of \<^verbatim>\<open>pb_decode.c\<close>, inverse to the encoders;
    and what the 32-bit varint decoder, whose bit position wraps at 256, makes of any bytes
    (\<open>varint32_accepts\<close>).
  \<^item> \<open>Pb_Fields\<close>, \<open>Pb_Defaults\<close>, \<open>Pb_Decode\<close>: the field decoders, the walks that set defaults and release
    memory, and the message decoder with oneofs, extensions, callbacks and dynamic allocation.
  \<^item> \<open>Pb_Window\<close>: the decoder never leaves its stream.  \<open>Pb_Total\<close>: it returns on static tables.
    \<open>Pb_Union\<close>: a oneof switched from a static to a pointer member hands a foreign pointer to
    \<^verbatim>\<open>realloc\<close> (CVE-2021-21401).

  \<^bold>\<open>BoringSSL\<close> (\<^verbatim>\<open>src/HoopZ/Pods/BoringSSL-GRPC/src\<close>).
  \<^item> \<open>Constant_Time\<close>: the branch-free comparisons of \<^verbatim>\<open>crypto/internal.h\<close>.
  \<^item> \<open>Base64\<close>, \<open>Base64_Stream\<close>: \<^verbatim>\<open>crypto/base64/base64.c\<close>.  The branch-free tables are the alphabet;
    the streaming encoder does not see how its input is cut, nor does the decoder, and they are inverse; both
    stay inside the arrays the documentation asks for.
  \<^item> \<open>Cbs\<close>: the reader \<^verbatim>\<open>crypto/bytestring/cbs.c\<close>; a \<^verbatim>\<open>CBS\<close> is the record \<open>cbs\<close> (pointer and
    length), a getter returns its out parameter as an option and the reader it leaves.
    \<open>Der\<close>, \<open>Der_Values\<close>, \<open>Cbs_Props\<close>: it accepts exactly DER and never leaves its window.
  \<^item> \<open>Cbb\<close>: the writer \<^verbatim>\<open>crypto/bytestring/cbb.c\<close>; the objects live in a store (\<open>cbb_state\<close>) since
    a parent reaches its child by pointer while the caller writes through the child.  \<open>Cbb_Props\<close>: each
    operation appends what it stands for, nested elements come out as DER and are read back by \<open>Cbs\<close>.
    \<open>Cbb_Chain\<close>: the code refines a stack of frames, one operation at a time, with the exact condition for success,
    hence for whole sessions.
    \<open>Cbb_Set\<close>: \<^verbatim>\<open>CBB_flush_asn1_set_of\<close> sorts the elements of a SET OF.
  \<^item> \<open>Unicode\<close>: \<^verbatim>\<open>crypto/bytestring/unicode.c\<close>; UTF-8 is read and written exactly as it is defined.
  \<^item> \<open>Oid\<close>: object identifiers as text (\<^verbatim>\<open>CBB_add_asn1_oid_from_text\<close> and \<^verbatim>\<open>CBS_asn1_oid_to_text\<close>), inverse to
    each other.
  \<^item> \<open>Ber\<close>: \<^verbatim>\<open>crypto/bytestring/ber.c\<close>.  A datatype of BER elements with their bytes and their DER form; the
    converter implements it, except that it misses some elements (\<open>ber_missed\<close>), and converts all elements of its
    input where one is documented (\<open>ber_to_der_converts\<close>).
  \<^item> \<open>Openssl_Mem\<close>: \<^verbatim>\<open>crypto/mem.c\<close>, allocation over an allocator that keeps to the C standard, and
    string functions.  \<open>Cbs_Copy\<close>: \<^verbatim>\<open>CBS_stow\<close> and \<^verbatim>\<open>CBS_strdup\<close>, which use it.
  \<^item> \<open>Stack\<close>: \<^verbatim>\<open>crypto/stack/stack.c\<close>, the record \<open>stack\<close>.  Sessions refine operations on lists, searching finds
    the first match, and \<^verbatim>\<open>sk_set\<close> does not clear the sorted flag (\<open>set_breaks_search\<close>).  Functions that copy and
    free elements work on a state of their own, so a copy may fail depending on the calls before.
  \<^item> \<open>Lhash\<close>: \<^verbatim>\<open>crypto/lhash/lhash.c\<close>, the record \<open>lhash\<close> over a store of linked items; a pointer to a pointer
    is a \<open>cell\<close>.  Sessions refine operations on maps through growing and shrinking, and no item is lost.

  \<^bold>\<open>FirebaseDatabase\<close>
  (\<^verbatim>\<open>src/HoopZ/Pods/FirebaseDatabase/Firebase/Database/third_party/SocketRocket/fbase64.c\<close>).
  \<^item> \<open>F_Base64\<close>: \<^verbatim>\<open>f_b64_ntop\<close> and \<^verbatim>\<open>f_b64_pton\<close>; the encoder agrees with BoringSSL's.
    The index of the decoder is a \<^verbatim>\<open>u_int\<close> that wraps, and the results are \<^verbatim>\<open>int\<close>s.

  \<^bold>\<open>Interfaces.\<close>  What an operation relies on from code it calls through a pointer is a locale:
  \<open>sink\<close> (a stream callback that stores what it is given; \<open>encoder\<close> adds callbacks that emit fixed
  bytes), \<open>source\<close> (a stream callback that delivers the next bytes), \<open>reader\<close> (callbacks that keep to
  the stream), \<open>sorter\<close> (\<^verbatim>\<open>qsort\<close>, in \<open>Qsort\<close>), \<open>allocator\<close> (the C library's allocator)
  and \<open>keyed\<close> (hash and comparison functions that agree on the keys of a hash table).  They are interpreted on nanopb's own buffer streams (\<open>buf\<close>, \<open>inb\<close>),
  on callbacks that go through \<^verbatim>\<open>pb_write\<close> and \<^verbatim>\<open>pb_read\<close> (\<open>api\<close>, \<open>rd\<close>), on insertion sort (\<open>ins\<close>),
  on a first-fit allocator (\<open>ff\<close>) and on tables of C strings hashed by \<^verbatim>\<open>lh_strhash\<close> (\<open>strs\<close>).

  \<^bold>\<open>Conventions.\<close>  \<^verbatim>\<open>size_t\<close> and pointers have 64 bits.  Integers keep their width, and wrap-around is that of
  words.  Errors are \<open>False\<close> or \<open>None\<close> in the place of the C result.  An outer \<open>None\<close> of a result is "no result":
  undefined behaviour (a foreign pointer freed, a call through NULL, a store outside the buffer) or fuel
  used up.  Fuel bounds recursion through descriptor tables, extension lists and chains of
  objects only: a table that nests at most \<open>n\<close> deep needs more than \<open>n\<close> (\<open>encode_terminates\<close>,
  \<open>decode_terminates\<close>), a flush needs more than the depth of the chain of children (\<open>chain_refines\<close>), and a conversion from BER more
  than the length of its input (\<open>ber_to_der_converts\<close>).  Loops over bytes are recursive functions with a
  termination proof or bounded by the bytes left; \<^verbatim>\<open>strlen\<close>, \<^verbatim>\<open>strcasecmp\<close> and the walks along the chains of a
  hash table are partial functions, whose \<open>None\<close> is a walk that never ends.
  Input and output arrays of the base64 functions do not overlap; \<^verbatim>\<open>assert\<close> is compiled out.

  In \<open>Openssl_Mem\<close> constant data may be read from anywhere; reads and writes of allocated blocks are checked.  In \<open>Cbb\<close> and
  \<open>Stack\<close>, and for the arrays of \<open>Lhash\<close>, an allocation is granted or not depending on its size; where an item of a hash table is
  placed depends on the items there are; and what releases memory only (\<^verbatim>\<open>sk_free\<close>) is not visible.

  \<^bold>\<open>Not modelled.\<close>  In \<^verbatim>\<open>mem.c\<close>: \<^verbatim>\<open>BIO_snprintf\<close> and \<^verbatim>\<open>BIO_vsnprintf\<close>, which only call the C
  library.  In \<^verbatim>\<open>bytestring\<close>: \<^verbatim>\<open>asn1_compat.c\<close>.  The rest of
  BoringSSL (ciphers, hashes, bignums, X.509, TLS), gRPC, upb, abseil and leveldb (mostly C++ with threads
  and sockets), the Objective-C pods, the Swift application, and generated tables: the
  model takes any descriptor table.  What an out parameter holds after a failed call is not part of the
  model.
\<close>

end
